(* ===== verification/Prelude.thy ===== *)
theory Prelude
  imports Main "HOL-Library.Word"
begin

text \<open>
  Shared material of the development: the error numbers the sources return, the generic
  lemmas on lists that the component theories use (occurrence counts of a list that is
  updated at one place), chains of cells linked by a next field, and the named collections that carry the component proofs.
\<close>

named_theorems cnt_simps "occurrence counts after an update of a thread table"

section \<open>Error numbers\<close>

text \<open>
  The values are the ones of \<^verbatim>\<open><errno.h>\<close> on Linux. The sources only rely on
  their being distinct and different from 0.
\<close>

definition EINTR :: int where "EINTR = 4"
definition EBADF :: int where "EBADF = 9"
definition EAGAIN :: int where "EAGAIN = 11"
definition EBUSY :: int where "EBUSY = 16"
definition EINVAL :: int where "EINVAL = 22"
definition EMSGSIZE :: int where "EMSGSIZE = 90"
definition ENOENT :: int where "ENOENT = 2"
definition EEXIST :: int where "EEXIST = 17"
definition ENOMEM :: int where "ENOMEM = 12"
definition ERANGE :: int where "ERANGE = 34"
definition ETIMEDOUT :: int where "ETIMEDOUT = 110"

lemmas errno_defs = EINTR_def EBADF_def EAGAIN_def EBUSY_def EINVAL_def EMSGSIZE_def
  ENOENT_def EEXIST_def ENOMEM_def ERANGE_def ETIMEDOUT_def

section \<open>Counting occurrences in a table\<close>

text \<open>
  A table of threads is a list indexed by thread number. The invariants of the
  synchronisation components count how many threads are in a given phase.
\<close>

definition cnt :: "'a \<Rightarrow> 'a list \<Rightarrow> int" where
  "cnt p xs = int (count_list xs p)"

lemma cnt_Nil [simp]: "cnt p [] = 0"
  by (simp add: cnt_def)

lemma cnt_Cons [simp]: "cnt p (x # xs) = cnt p xs + (if x = p then 1 else 0)"
  by (simp add: cnt_def)

lemma cnt_nonneg [intro]: "0 \<le> cnt p xs"
  by (simp add: cnt_def)

lemma cnt_update [cnt_simps]:
  "i < length xs \<Longrightarrow>
     cnt p (xs[i := q]) = cnt p xs - (if xs ! i = p then 1 else 0) + (if q = p then 1 else 0)"
  by (induction xs arbitrary: i) (auto split: nat.splits)

lemma cnt_pos_iff: "0 < cnt p xs \<longleftrightarrow> p \<in> set xs"
  by (induction xs) (auto intro: add_pos_nonneg add_nonneg_pos)

lemma cnt_zero_iff: "cnt p xs = 0 \<longleftrightarrow> p \<notin> set xs"
  using cnt_pos_iff [of p xs] cnt_nonneg [of p xs] by linarith

lemma cnt_nth_pos: "i < length xs \<Longrightarrow> xs ! i = p \<Longrightarrow> 1 \<le> cnt p xs"
  using cnt_pos_iff [of p xs] nth_mem [of i xs] by fastforce

lemma cnt_two:
  assumes "i < length xs" and "j < length xs" and "i \<noteq> j" and "xs ! i = p" and "xs ! j = p"
  shows "2 \<le> cnt p xs"
  using assms
proof (induction xs arbitrary: i j)
  case Nil
  then show ?case by simp
next
  case (Cons x xs)
  show ?case
  proof (cases "i = 0 \<or> j = 0")
    case True
    then obtain k where "k < length xs" and "xs ! k = p" and "x = p"
      using Cons.prems by (cases i; cases j) auto
    then show ?thesis using cnt_nth_pos [of k xs p] by simp
  next
    case False
    then obtain i' j' where "i = Suc i'" and "j = Suc j'"
      by (auto simp: gr0_conv_Suc)
    then show ?thesis using Cons.IH [of i' j'] Cons.prems by auto
  qed
qed

lemma cnt_map_neq [cnt_simps]:
  "p \<noteq> a \<Longrightarrow> p \<noteq> b \<Longrightarrow> cnt p (map (\<lambda>x. if x = a then b else x) xs) = cnt p xs"
  by (induction xs) auto

lemma cnt_map_from [cnt_simps]:
  "a \<noteq> b \<Longrightarrow> cnt a (map (\<lambda>x. if x = a then b else x) xs) = 0"
  by (induction xs) auto

lemma cnt_map_to [cnt_simps]:
  "a \<noteq> b \<Longrightarrow> cnt b (map (\<lambda>x. if x = a then b else x) xs) = cnt b xs + cnt a xs"
  by (induction xs) auto

lemma cnt_le_length: "cnt p xs \<le> int (length xs)"
  by (induction xs) auto

lemma cnt_pair_le_length: "p \<noteq> q \<Longrightarrow> cnt p xs + cnt q xs \<le> int (length xs)"
  by (induction xs) auto

lemma cnt_posE:
  assumes "0 < cnt p xs"
  obtains i where "i < length xs" and "xs ! i = p"
  using assms by (auto simp: cnt_pos_iff in_set_conv_nth)

section \<open>Chains of linked cells\<close>

text \<open>
  \<open>seg nx i xs j\<close>: following \<open>nx\<close> from \<open>i\<close> visits the cells \<open>xs\<close> and arrives at \<open>j\<close>.
\<close>

fun seg :: "('a \<Rightarrow> 'a) \<Rightarrow> 'a \<Rightarrow> 'a list \<Rightarrow> 'a \<Rightarrow> bool" where
  "seg nx i [] j \<longleftrightarrow> i = j"
| "seg nx i (x # xs) j \<longleftrightarrow> i = x \<and> seg nx (nx x) xs j"

lemma seg_append: "seg nx i (xs @ ys) k \<longleftrightarrow> (\<exists>j. seg nx i xs j \<and> seg nx j ys k)"
  by (induction xs arbitrary: i) auto

lemma seg_upd [simp]: "y \<notin> set xs \<Longrightarrow> seg (nx(y := v)) i xs j \<longleftrightarrow> seg nx i xs j"
  by (induction xs arbitrary: i) auto

lemma seg_hd: "seg nx i xs j \<Longrightarrow> xs \<noteq> [] \<Longrightarrow> i = hd xs"
  by (cases xs) auto

lemma seg_snoc_upd:
  assumes "seg nx i (xs @ [x]) j" and "x \<notin> set xs"
  shows "seg (nx(x := v)) i (xs @ [x]) v"
  using assms by (auto simp: seg_append)

text \<open>A chain of integers ends with the index 0.\<close>

definition chain :: "(int \<Rightarrow> int) \<Rightarrow> int \<Rightarrow> int list \<Rightarrow> bool" where
  "chain nx i xs \<longleftrightarrow> seg nx i xs 0 \<and> 0 \<notin> set xs"

lemma chain_Nil [simp]: "chain nx i [] \<longleftrightarrow> i = 0"
  by (simp add: chain_def)

lemma chain_Cons [simp]: "chain nx i (x # xs) \<longleftrightarrow> i = x \<and> x \<noteq> 0 \<and> chain nx (nx x) xs"
  by (auto simp: chain_def)

lemma chain_upd [simp]: "y \<notin> set xs \<Longrightarrow> chain (nx(y := v)) i xs \<longleftrightarrow> chain nx i xs"
  by (simp add: chain_def)

lemma chain_head_zero: "chain nx 0 xs \<Longrightarrow> xs = []"
  by (cases xs) auto

text \<open>A cell \<open>f\<close> that is not on the chain is linked in behind a nonempty prefix.\<close>

lemma chain_link:
  assumes "chain nx i (xs @ x # ys)" and "x \<notin> set xs" and "x \<notin> set ys"
    and "f \<notin> set (xs @ x # ys)" and "f \<noteq> 0"
  shows "chain (nx(x := f, f := (if ys = [] then 0 else hd ys))) i (xs @ x # f # ys)"
proof -
  have "seg nx (nx x) ys 0" and "seg nx i (xs @ [x]) (nx x)"
    using assms(1) by (auto simp: chain_def seg_append)
  then have "seg (nx(x := f)) i (xs @ [x]) f" and "nx x = (if ys = [] then 0 else hd ys)"
    using assms(2) seg_snoc_upd seg_hd by (fastforce, cases ys, auto)
  then show ?thesis
    using assms \<open>seg nx (nx x) ys 0\<close> by (auto simp: chain_def seg_append)
qed

end
