(* ===== verification/Rwlock_Spec.thy ===== *)
theory Rwlock_Spec
  imports Prelude
begin

text \<open>
  Read-write locks built on a mutex and two condition variables
  (\<^verbatim>\<open>unpv22e/my_rwlock\<close>, \<^verbatim>\<open>unpv22e/my_rwlock_cancel\<close>): the lock structure, the table
  of operations an implementation provides, the system of threads that call them, and
  the contract between the two as the locale \<open>rwlock_contract\<close>.

  Every operation runs with the mutex of the lock held from its first access to the
  counters to its return, or to a call of \<^verbatim>\<open>pthread_cond_wait\<close>, which gives the mutex up.
  An operation is therefore a function from the lock structure to the lock structure and
  an outcome, where \<open>RwWait\<close> is the call of \<^verbatim>\<open>pthread_cond_wait\<close>; a second function
  continues it when the wait returns. The interleavings of the threads are the orders in
  which these functions run.
\<close>

section \<open>The lock structure\<close>

text \<open>
  The mutex and the condition variables are represented by whether they are initialised.
  The counters are mathematical integers: they are bounded by the number of threads, as
  the invariant below shows.
\<close>

record rwlock =
  rw_mutex :: bool
  rw_condreaders :: bool
  rw_condwriters :: bool
  rw_magic :: int
  rw_nwaitreaders :: int
  rw_nwaitwriters :: int
  rw_refcount :: int

definition RW_MAGIC :: int where "RW_MAGIC = 0x19283746"

definition rwlock_initializer :: rwlock where
  "rwlock_initializer =
     \<lparr>rw_mutex = True, rw_condreaders = True, rw_condwriters = True,
      rw_magic = RW_MAGIC, rw_nwaitreaders = 0, rw_nwaitwriters = 0, rw_refcount = 0\<rparr>"

text \<open>How an operation ends: it returns an error number, blocks, or ends the process
  (\<^verbatim>\<open>err_dump\<close>).\<close>

datatype rw_out = RwReturn int | RwWait | RwDump

text \<open>The condition variable an unlock operates on.\<close>

datatype rw_wake = NoWake | SignalWriters | BroadcastReaders

text \<open>
  The operations. An integer argument is the result of the call of
  \<^verbatim>\<open>pthread_mutex_lock\<close>, or, for the two continuations, of \<^verbatim>\<open>pthread_cond_wait\<close>; the
  second one of \<open>op_unlock\<close> is the result of the signal or broadcast. The two last
  operations are the cancellation handlers.
\<close>

record rw_ops =
  op_rdlock :: "int \<Rightarrow> rwlock \<Rightarrow> rw_out \<times> rwlock"
  op_rdwake :: "int \<Rightarrow> rwlock \<Rightarrow> rw_out \<times> rwlock"
  op_wrlock :: "int \<Rightarrow> rwlock \<Rightarrow> rw_out \<times> rwlock"
  op_wrwake :: "int \<Rightarrow> rwlock \<Rightarrow> rw_out \<times> rwlock"
  op_tryrdlock :: "int \<Rightarrow> rwlock \<Rightarrow> rw_out \<times> rwlock"
  op_trywrlock :: "int \<Rightarrow> rwlock \<Rightarrow> rw_out \<times> rwlock"
  op_unlock :: "int \<Rightarrow> int \<Rightarrow> rwlock \<Rightarrow> rw_out \<times> rw_wake \<times> rwlock"
  op_cancelrd :: "rwlock \<Rightarrow> rwlock"
  op_cancelwr :: "rwlock \<Rightarrow> rwlock"

section \<open>Threads\<close>

text \<open>
  What a thread is doing with the lock: nothing, holding it for reading or for writing (the
  call that acquires it returned 0), asleep in \<^verbatim>\<open>pthread_cond_wait\<close>, woken and competing
  for the mutex, or no longer running.
\<close>

datatype phase = Idle | RdHeld | WrHeld | RdSleep | RdWoken | WrSleep | WrWoken | Gone

record rw_sys =
  lk :: rwlock
  ths :: "phase list"

definition rd_phase :: "rw_out \<Rightarrow> phase" where
  "rd_phase out = (case out of RwReturn n \<Rightarrow> if n = 0 then RdHeld else Idle
                             | RwWait \<Rightarrow> RdSleep | RwDump \<Rightarrow> Gone)"

definition wr_phase :: "rw_out \<Rightarrow> phase" where
  "wr_phase out = (case out of RwReturn n \<Rightarrow> if n = 0 then WrHeld else Idle
                             | RwWait \<Rightarrow> WrSleep | RwDump \<Rightarrow> Gone)"

text \<open>A signal wakes one sleeping writer if there is one, a broadcast all sleeping readers.\<close>

inductive rw_wakes :: "rw_wake \<Rightarrow> phase list \<Rightarrow> phase list \<Rightarrow> bool" where
  no_wake: "rw_wakes NoWake xs xs"
| signal_none: "WrSleep \<notin> set xs \<Longrightarrow> rw_wakes SignalWriters xs xs"
| signal_one: "j < length xs \<Longrightarrow> xs ! j = WrSleep \<Longrightarrow> rw_wakes SignalWriters xs (xs[j := WrWoken])"
| broadcast: "rw_wakes BroadcastReaders xs (map (\<lambda>x. if x = RdSleep then RdWoken else x) xs)"

text \<open>
  One step of one thread. \<open>errs\<close> says whether the calls of the threads library may fail,
  \<open>cancels\<close> whether a thread may be cancelled in its wait.
\<close>

inductive rw_step :: "rw_ops \<Rightarrow> bool \<Rightarrow> bool \<Rightarrow> rw_sys \<Rightarrow> rw_sys \<Rightarrow> bool"
  for ops errs cancels where
  rdlock: "i < length xs \<Longrightarrow> xs ! i = Idle \<Longrightarrow> errs \<or> r = 0 \<Longrightarrow>
     op_rdlock ops r l = (out, l') \<Longrightarrow>
     rw_step ops errs cancels \<lparr>lk = l, ths = xs\<rparr> \<lparr>lk = l', ths = xs[i := rd_phase out]\<rparr>"
| rdwake: "i < length xs \<Longrightarrow> xs ! i = RdWoken \<Longrightarrow> errs \<or> r = 0 \<Longrightarrow>
     op_rdwake ops r l = (out, l') \<Longrightarrow>
     rw_step ops errs cancels \<lparr>lk = l, ths = xs\<rparr> \<lparr>lk = l', ths = xs[i := rd_phase out]\<rparr>"
| wrlock: "i < length xs \<Longrightarrow> xs ! i = Idle \<Longrightarrow> errs \<or> r = 0 \<Longrightarrow>
     op_wrlock ops r l = (out, l') \<Longrightarrow>
     rw_step ops errs cancels \<lparr>lk = l, ths = xs\<rparr> \<lparr>lk = l', ths = xs[i := wr_phase out]\<rparr>"
| wrwake: "i < length xs \<Longrightarrow> xs ! i = WrWoken \<Longrightarrow> errs \<or> r = 0 \<Longrightarrow>
     op_wrwake ops r l = (out, l') \<Longrightarrow>
     rw_step ops errs cancels \<lparr>lk = l, ths = xs\<rparr> \<lparr>lk = l', ths = xs[i := wr_phase out]\<rparr>"
| tryrdlock: "i < length xs \<Longrightarrow> xs ! i = Idle \<Longrightarrow> errs \<or> r = 0 \<Longrightarrow>
     op_tryrdlock ops r l = (out, l') \<Longrightarrow>
     rw_step ops errs cancels \<lparr>lk = l, ths = xs\<rparr> \<lparr>lk = l', ths = xs[i := rd_phase out]\<rparr>"
| trywrlock: "i < length xs \<Longrightarrow> xs ! i = Idle \<Longrightarrow> errs \<or> r = 0 \<Longrightarrow>
     op_trywrlock ops r l = (out, l') \<Longrightarrow>
     rw_step ops errs cancels \<lparr>lk = l, ths = xs\<rparr> \<lparr>lk = l', ths = xs[i := wr_phase out]\<rparr>"
| unlock: "i < length xs \<Longrightarrow> xs ! i = RdHeld \<or> xs ! i = WrHeld \<Longrightarrow> errs \<or> (r = 0 \<and> g = 0) \<Longrightarrow>
     op_unlock ops r g l = (out, wk, l') \<Longrightarrow>
     rw_wakes wk (xs[i := if out = RwDump then Gone else if r = 0 then Idle else xs ! i]) ys \<Longrightarrow>
     rw_step ops errs cancels \<lparr>lk = l, ths = xs\<rparr> \<lparr>lk = l', ths = ys\<rparr>"
| spurious_rd: "i < length xs \<Longrightarrow> xs ! i = RdSleep \<Longrightarrow>
     rw_step ops errs cancels \<lparr>lk = l, ths = xs\<rparr> \<lparr>lk = l, ths = xs[i := RdWoken]\<rparr>"
| spurious_wr: "i < length xs \<Longrightarrow> xs ! i = WrSleep \<Longrightarrow>
     rw_step ops errs cancels \<lparr>lk = l, ths = xs\<rparr> \<lparr>lk = l, ths = xs[i := WrWoken]\<rparr>"
| cancel_rd: "cancels \<Longrightarrow> i < length xs \<Longrightarrow> xs ! i = RdSleep \<or> xs ! i = RdWoken \<Longrightarrow>
     rw_step ops errs cancels \<lparr>lk = l, ths = xs\<rparr> \<lparr>lk = op_cancelrd ops l, ths = xs[i := Gone]\<rparr>"
| cancel_wr: "cancels \<Longrightarrow> i < length xs \<Longrightarrow> xs ! i = WrSleep \<or> xs ! i = WrWoken \<Longrightarrow>
     rw_step ops errs cancels \<lparr>lk = l, ths = xs\<rparr> \<lparr>lk = op_cancelwr ops l, ths = xs[i := Gone]\<rparr>"

text \<open>The states \<open>n\<close> threads reach from an initialised lock nobody uses.\<close>

inductive rw_reach :: "rw_ops \<Rightarrow> bool \<Rightarrow> bool \<Rightarrow> nat \<Rightarrow> rw_sys \<Rightarrow> bool"
  for ops errs cancels n where
  init: "rw_reach ops errs cancels n \<lparr>lk = rwlock_initializer, ths = replicate n Idle\<rparr>"
| step: "rw_reach ops errs cancels n s \<Longrightarrow> rw_step ops errs cancels s t \<Longrightarrow>
     rw_reach ops errs cancels n t"

text \<open>Runs are built call by call with these rules, which leave the new table to be computed.\<close>

lemma reach_rdlock:
  "rw_reach ops errs cancels n \<lparr>lk = l, ths = xs\<rparr> \<Longrightarrow> op_rdlock ops 0 l = (out, l') \<Longrightarrow>
     i < length xs \<Longrightarrow> xs ! i = Idle \<Longrightarrow> ys = xs[i := rd_phase out] \<Longrightarrow>
     rw_reach ops errs cancels n \<lparr>lk = l', ths = ys\<rparr>"
  by (auto intro: rw_reach.step rw_step.rdlock)

lemma reach_wrlock:
  "rw_reach ops errs cancels n \<lparr>lk = l, ths = xs\<rparr> \<Longrightarrow> op_wrlock ops 0 l = (out, l') \<Longrightarrow>
     i < length xs \<Longrightarrow> xs ! i = Idle \<Longrightarrow> ys = xs[i := wr_phase out] \<Longrightarrow>
     rw_reach ops errs cancels n \<lparr>lk = l', ths = ys\<rparr>"
  by (auto intro: rw_reach.step rw_step.wrlock)

lemma reach_unlock_signal:
  assumes "rw_reach ops errs cancels n \<lparr>lk = l, ths = xs\<rparr>"
    and "op_unlock ops 0 0 l = (RwReturn e, SignalWriters, l')"
    and "i < length xs" and "xs ! i = RdHeld \<or> xs ! i = WrHeld"
    and "j < length xs" and "i \<noteq> j" and "xs ! j = WrSleep" and "ys = xs[i := Idle, j := WrWoken]"
  shows "rw_reach ops errs cancels n \<lparr>lk = l', ths = ys\<rparr>"
proof -
  have "rw_wakes SignalWriters (xs[i := Idle]) (xs[i := Idle, j := WrWoken])"
    using assms by (intro rw_wakes.signal_one) simp_all
  then have "rw_step ops errs cancels \<lparr>lk = l, ths = xs\<rparr> \<lparr>lk = l', ths = ys\<rparr>"
    using assms rw_step.unlock [of i xs errs 0 0 ops l "RwReturn e" SignalWriters l' ys cancels] by simp
  with assms(1) show ?thesis by (rule rw_reach.step)
qed

section \<open>Invariants\<close>

text \<open>The counters of the lock count the threads.\<close>

definition rw_inv :: "rw_sys \<Rightarrow> bool" where
  "rw_inv s \<longleftrightarrow>
     rw_magic (lk s) = RW_MAGIC \<and>
     rw_nwaitreaders (lk s) = cnt RdSleep (ths s) + cnt RdWoken (ths s) \<and>
     rw_nwaitwriters (lk s) = cnt WrSleep (ths s) + cnt WrWoken (ths s) \<and>
     rw_refcount (lk s) = cnt RdHeld (ths s) - cnt WrHeld (ths s) \<and>
     (cnt WrHeld (ths s) = 0 \<or> cnt WrHeld (ths s) = 1 \<and> cnt RdHeld (ths s) = 0)"

text \<open>No wake-up is lost: a free lock with a sleeping writer has a woken writer, and a
  sleeping reader has a writer to wait for.\<close>

definition rw_wake_inv :: "rw_sys \<Rightarrow> bool" where
  "rw_wake_inv s \<longleftrightarrow>
     (rw_refcount (lk s) = 0 \<and> 0 < cnt WrSleep (ths s) \<longrightarrow> 0 < cnt WrWoken (ths s)) \<and>
     (0 < cnt RdSleep (ths s) \<longrightarrow> rw_refcount (lk s) < 0 \<or> 0 < rw_nwaitwriters (lk s))"

lemma cnt_replicate [simp]: "cnt p (replicate n q) = (if q = p then int n else 0)"
  by (induction n) auto

lemma rw_inv_init: "rw_inv \<lparr>lk = rwlock_initializer, ths = replicate n Idle\<rparr>"
  by (simp add: rw_inv_def rwlock_initializer_def)

lemma rw_wake_inv_init: "rw_wake_inv \<lparr>lk = rwlock_initializer, ths = replicate n Idle\<rparr>"
  by (auto simp: rw_wake_inv_def rwlock_initializer_def)


section \<open>The contract of an implementation\<close>

text \<open>
  The three ways a call that may block can end, where \<open>r\<close> is the result of the threads
  library: it acquires (\<open>acq\<close> is the new lock structure), it fails, which needs a failure
  of the library, or it goes to sleep because the lock is not available.
\<close>

definition lock_spec ::
  "int \<Rightarrow> bool \<Rightarrow> rwlock \<Rightarrow> rwlock \<Rightarrow> rwlock \<Rightarrow> rw_out \<times> rwlock \<Rightarrow> bool" where
  "lock_spec r blocked acq failed asleep res \<longleftrightarrow>
     (case res of (out, l') \<Rightarrow>
        out = RwReturn 0 \<and> \<not> blocked \<and> l' = acq \<or>
        (\<exists>e. r \<noteq> 0 \<and> out = RwReturn e \<and> e \<noteq> 0 \<and> l' = failed) \<or>
        out = RwWait \<and> blocked \<and> l' = asleep)"

definition try_spec :: "bool \<Rightarrow> rwlock \<Rightarrow> rwlock \<Rightarrow> rw_out \<times> rwlock \<Rightarrow> bool" where
  "try_spec held acq l res \<longleftrightarrow>
     (case res of (out, l') \<Rightarrow>
        out = RwReturn 0 \<and> \<not> held \<and> l' = acq \<or> (\<exists>e. out = RwReturn e \<and> e \<noteq> 0 \<and> l' = l))"

definition unlock_spec :: "int \<Rightarrow> rwlock \<Rightarrow> rw_out \<times> rw_wake \<times> rwlock \<Rightarrow> bool" where
  "unlock_spec r l res \<longleftrightarrow>
     (case res of (out, wk, l') \<Rightarrow>
        if r \<noteq> 0 then out = RwReturn r \<and> wk = NoWake \<and> l' = l
        else out \<noteq> RwDump \<and> out \<noteq> RwWait \<and>
             l' = l\<lparr>rw_refcount := if 0 < rw_refcount l then rw_refcount l - 1 else 0\<rparr> \<and>
             (rw_refcount l' = 0 \<and> 0 < rw_nwaitwriters l \<longrightarrow> wk = SignalWriters) \<and>
             (rw_nwaitwriters l = 0 \<and> 0 < rw_nwaitreaders l \<longrightarrow> wk = BroadcastReaders))"

definition rd_blocked :: "rwlock \<Rightarrow> bool" where
  "rd_blocked l \<longleftrightarrow> rw_refcount l < 0 \<or> 0 < rw_nwaitwriters l"

lemma rw_magic_inv: "rw_inv \<lparr>lk = l, ths = xs\<rparr> \<Longrightarrow> rw_magic l = RW_MAGIC"
  by (simp add: rw_inv_def)

lemma refcount_ge: "rw_inv \<lparr>lk = l, ths = xs\<rparr> \<Longrightarrow> -1 \<le> rw_refcount l"
  using cnt_nonneg [of RdHeld xs] by (auto simp: rw_inv_def)

text \<open>One call of each kind keeps the two invariants.\<close>

lemma lock_specE [consumes 1, case_names acquired failed asleep]:
  assumes "lock_spec r blocked acq fld slp (out, l')"
  obtains "out = RwReturn 0" "\<not> blocked" "l' = acq"
    | e where "r \<noteq> 0" "out = RwReturn e" "e \<noteq> 0" "l' = fld"
    | "out = RwWait" "blocked" "l' = slp"
  using assms by (auto simp: lock_spec_def)

lemma try_specE [consumes 1, case_names acquired failed]:
  assumes "try_spec held acq l (out, l')"
  obtains "out = RwReturn 0" "\<not> held" "l' = acq" | e where "out = RwReturn e" "e \<noteq> 0" "l' = l"
  using assms by (auto simp: try_spec_def)

lemmas rw_phase_simps = rd_phase_def wr_phase_def rd_blocked_def cnt_update

lemma rd_enter_inv:
  assumes spec: "lock_spec r (rd_blocked l) (l\<lparr>rw_refcount := rw_refcount l + 1\<rparr>) l
      (l\<lparr>rw_nwaitreaders := rw_nwaitreaders l + 1\<rparr>) (out, l')"
    and inv: "rw_inv \<lparr>lk = l, ths = xs\<rparr>" and i: "i < length xs" "xs ! i = Idle"
  shows "rw_inv \<lparr>lk = l', ths = xs[i := rd_phase out]\<rparr>"
  using spec inv i
  by (cases rule: lock_specE) (auto simp: rw_inv_def rw_phase_simps)

lemma rd_enter_wake:
  assumes spec: "lock_spec r (rd_blocked l) (l\<lparr>rw_refcount := rw_refcount l + 1\<rparr>) l
      (l\<lparr>rw_nwaitreaders := rw_nwaitreaders l + 1\<rparr>) (out, l')"
    and inv: "rw_inv \<lparr>lk = l, ths = xs\<rparr>" and i: "i < length xs" "xs ! i = Idle"
    and wake: "rw_wake_inv \<lparr>lk = l, ths = xs\<rparr>"
  shows "rw_wake_inv \<lparr>lk = l', ths = xs[i := rd_phase out]\<rparr>"
  using spec inv i wake cnt_nonneg [of WrSleep xs] cnt_nonneg [of WrWoken xs]
  by (cases rule: lock_specE) (auto simp: rw_inv_def rw_wake_inv_def rw_phase_simps)

lemma rd_resume_inv:
  assumes spec: "lock_spec r (rd_blocked l)
      (l\<lparr>rw_nwaitreaders := rw_nwaitreaders l - 1, rw_refcount := rw_refcount l + 1\<rparr>)
      (l\<lparr>rw_nwaitreaders := rw_nwaitreaders l - 1\<rparr>) l (out, l')"
    and inv: "rw_inv \<lparr>lk = l, ths = xs\<rparr>" and i: "i < length xs" "xs ! i = RdWoken"
  shows "rw_inv \<lparr>lk = l', ths = xs[i := rd_phase out]\<rparr>"
  using spec inv i
  by (cases rule: lock_specE) (auto simp: rw_inv_def rw_phase_simps)

lemma rd_resume_wake:
  assumes spec: "lock_spec r (rd_blocked l)
      (l\<lparr>rw_nwaitreaders := rw_nwaitreaders l - 1, rw_refcount := rw_refcount l + 1\<rparr>)
      (l\<lparr>rw_nwaitreaders := rw_nwaitreaders l - 1\<rparr>) l (out, l')"
    and inv: "rw_inv \<lparr>lk = l, ths = xs\<rparr>" and i: "i < length xs" "xs ! i = RdWoken"
    and wake: "rw_wake_inv \<lparr>lk = l, ths = xs\<rparr>"
  shows "rw_wake_inv \<lparr>lk = l', ths = xs[i := rd_phase out]\<rparr>"
  using spec inv i wake cnt_nonneg [of WrSleep xs] cnt_nonneg [of WrWoken xs]
  by (cases rule: lock_specE) (auto simp: rw_inv_def rw_wake_inv_def rw_phase_simps)

lemma wr_enter_inv:
  assumes spec: "lock_spec r (rw_refcount l \<noteq> 0) (l\<lparr>rw_refcount := -1\<rparr>) l
      (l\<lparr>rw_nwaitwriters := rw_nwaitwriters l + 1\<rparr>) (out, l')"
    and inv: "rw_inv \<lparr>lk = l, ths = xs\<rparr>" and i: "i < length xs" "xs ! i = Idle"
  shows "rw_inv \<lparr>lk = l', ths = xs[i := wr_phase out]\<rparr>"
  using spec inv i
  by (cases rule: lock_specE) (auto simp: rw_inv_def rw_phase_simps)

lemma wr_enter_wake:
  assumes spec: "lock_spec r (rw_refcount l \<noteq> 0) (l\<lparr>rw_refcount := -1\<rparr>) l
      (l\<lparr>rw_nwaitwriters := rw_nwaitwriters l + 1\<rparr>) (out, l')"
    and inv: "rw_inv \<lparr>lk = l, ths = xs\<rparr>" and i: "i < length xs" "xs ! i = Idle"
    and wake: "rw_wake_inv \<lparr>lk = l, ths = xs\<rparr>"
  shows "rw_wake_inv \<lparr>lk = l', ths = xs[i := wr_phase out]\<rparr>"
  using spec inv i wake cnt_nonneg [of WrSleep xs] cnt_nonneg [of WrWoken xs]
  by (cases rule: lock_specE) (auto simp: rw_inv_def rw_wake_inv_def rw_phase_simps)

lemma wr_resume_inv:
  assumes spec: "lock_spec r (rw_refcount l \<noteq> 0)
      (l\<lparr>rw_nwaitwriters := rw_nwaitwriters l - 1, rw_refcount := -1\<rparr>)
      (l\<lparr>rw_nwaitwriters := rw_nwaitwriters l - 1\<rparr>) l (out, l')"
    and inv: "rw_inv \<lparr>lk = l, ths = xs\<rparr>" and i: "i < length xs" "xs ! i = WrWoken"
  shows "rw_inv \<lparr>lk = l', ths = xs[i := wr_phase out]\<rparr>"
  using spec inv i
  by (cases rule: lock_specE) (auto simp: rw_inv_def rw_phase_simps)

lemma wr_resume_wake:
  assumes spec: "lock_spec r (rw_refcount l \<noteq> 0)
      (l\<lparr>rw_nwaitwriters := rw_nwaitwriters l - 1, rw_refcount := -1\<rparr>)
      (l\<lparr>rw_nwaitwriters := rw_nwaitwriters l - 1\<rparr>) l (out, l')"
    and inv: "rw_inv \<lparr>lk = l, ths = xs\<rparr>" and i: "i < length xs" "xs ! i = WrWoken"
    and wake: "rw_wake_inv \<lparr>lk = l, ths = xs\<rparr>" and r: "r = 0"
  shows "rw_wake_inv \<lparr>lk = l', ths = xs[i := wr_phase out]\<rparr>"
  using spec inv i wake cnt_nonneg [of WrSleep xs] cnt_nonneg [of WrWoken xs] r
  by (cases rule: lock_specE) (auto simp: rw_inv_def rw_wake_inv_def rw_phase_simps)

lemma tryrd_inv:
  assumes spec: "try_spec (rd_blocked l) (l\<lparr>rw_refcount := rw_refcount l + 1\<rparr>) l (out, l')"
    and inv: "rw_inv \<lparr>lk = l, ths = xs\<rparr>" and i: "i < length xs" "xs ! i = Idle"
  shows "rw_inv \<lparr>lk = l', ths = xs[i := rd_phase out]\<rparr>"
  using spec inv i
  by (cases rule: try_specE) (auto simp: rw_inv_def rw_phase_simps)

lemma tryrd_wake:
  assumes spec: "try_spec (rd_blocked l) (l\<lparr>rw_refcount := rw_refcount l + 1\<rparr>) l (out, l')"
    and inv: "rw_inv \<lparr>lk = l, ths = xs\<rparr>" and i: "i < length xs" "xs ! i = Idle"
    and wake: "rw_wake_inv \<lparr>lk = l, ths = xs\<rparr>"
  shows "rw_wake_inv \<lparr>lk = l', ths = xs[i := rd_phase out]\<rparr>"
  using spec inv i wake cnt_nonneg [of WrSleep xs] cnt_nonneg [of WrWoken xs]
  by (cases rule: try_specE) (auto simp: rw_inv_def rw_wake_inv_def rw_phase_simps)

lemma trywr_inv:
  assumes spec: "try_spec (rw_refcount l \<noteq> 0) (l\<lparr>rw_refcount := -1\<rparr>) l (out, l')"
    and inv: "rw_inv \<lparr>lk = l, ths = xs\<rparr>" and i: "i < length xs" "xs ! i = Idle"
  shows "rw_inv \<lparr>lk = l', ths = xs[i := wr_phase out]\<rparr>"
  using spec inv i
  by (cases rule: try_specE) (auto simp: rw_inv_def rw_phase_simps)

lemma trywr_wake:
  assumes spec: "try_spec (rw_refcount l \<noteq> 0) (l\<lparr>rw_refcount := -1\<rparr>) l (out, l')"
    and inv: "rw_inv \<lparr>lk = l, ths = xs\<rparr>" and i: "i < length xs" "xs ! i = Idle"
    and wake: "rw_wake_inv \<lparr>lk = l, ths = xs\<rparr>"
  shows "rw_wake_inv \<lparr>lk = l', ths = xs[i := wr_phase out]\<rparr>"
  using spec inv i wake cnt_nonneg [of WrSleep xs] cnt_nonneg [of WrWoken xs]
  by (cases rule: try_specE) (auto simp: rw_inv_def rw_wake_inv_def rw_phase_simps)

text \<open>A holder makes the count nonzero, so an unlock finds a lock it can release.\<close>

lemma holder_refcount:
  assumes "rw_inv \<lparr>lk = l, ths = xs\<rparr>" and "i < length xs" and "xs ! i = RdHeld \<or> xs ! i = WrHeld"
  shows "0 < rw_refcount l \<or> rw_refcount l = -1"
    and "xs ! i = RdHeld \<longleftrightarrow> 0 < rw_refcount l"
  using assms cnt_nth_pos [OF assms(2)] by (auto simp: rw_inv_def)

text \<open>A wake-up changes sleeping threads into woken ones and nothing else.\<close>

lemma rw_wakes_cnt:
  assumes "rw_wakes wk xs ys"
  shows "cnt WrSleep ys + cnt WrWoken ys = cnt WrSleep xs + cnt WrWoken xs"
    and "cnt RdSleep ys + cnt RdWoken ys = cnt RdSleep xs + cnt RdWoken xs"
    and "p \<in> {Idle, RdHeld, WrHeld, Gone} \<Longrightarrow> cnt p ys = cnt p xs"
    and "length ys = length xs"
    and "cnt RdSleep ys \<le> cnt RdSleep xs"
    and "cnt WrSleep ys \<le> cnt WrSleep xs"
    and "wk = SignalWriters \<Longrightarrow> 0 < cnt WrSleep ys \<Longrightarrow> 0 < cnt WrWoken ys"
    and "wk = BroadcastReaders \<Longrightarrow> cnt RdSleep ys = 0"
  using assms by (induction rule: rw_wakes.induct) (auto simp: cnt_simps cnt_pos_iff set_update_memI)

lemma unlock_cnt:
  assumes w: "rw_wakes wk (xs[i := Idle]) ys"
    and i: "i < length xs" "xs ! i = RdHeld \<or> xs ! i = WrHeld"
  shows "cnt WrSleep ys + cnt WrWoken ys = cnt WrSleep xs + cnt WrWoken xs"
    and "cnt RdSleep ys + cnt RdWoken ys = cnt RdSleep xs + cnt RdWoken xs"
    and "cnt RdSleep ys \<le> cnt RdSleep xs"
    and "cnt RdHeld ys = cnt RdHeld xs - (if xs ! i = RdHeld then 1 else 0)"
    and "cnt WrHeld ys = cnt WrHeld xs - (if xs ! i = WrHeld then 1 else 0)"
  using i rw_wakes_cnt(1,2,5) [OF w] rw_wakes_cnt(3) [OF w, of RdHeld] rw_wakes_cnt(3) [OF w, of WrHeld]
  by (auto simp: cnt_update [OF i(1)])

lemma unlock_fail:
  assumes "unlock_spec r l (out, wk, l')" and "r \<noteq> 0"
    and "rw_wakes wk (xs[i := if out = RwDump then Gone else if r = 0 then Idle else xs ! i]) ys"
  shows "l' = l" and "ys = xs"
  using assms by (auto simp: unlock_spec_def elim: rw_wakes.cases)

lemma unlock_inv:
  assumes spec: "unlock_spec 0 l (out, wk, l')" and inv: "rw_inv \<lparr>lk = l, ths = xs\<rparr>"
    and i: "i < length xs" "xs ! i = RdHeld \<or> xs ! i = WrHeld"
    and w: "rw_wakes wk (xs[i := Idle]) ys"
  shows "rw_inv \<lparr>lk = l', ths = ys\<rparr>"
proof -
  have "l' = l\<lparr>rw_refcount := if 0 < rw_refcount l then rw_refcount l - 1 else 0\<rparr>"
    using spec by (simp add: unlock_spec_def)
  then show ?thesis
    using inv i unlock_cnt [OF w i] holder_refcount [OF inv i] cnt_nonneg [of RdHeld xs]
    by (auto simp: rw_inv_def)
qed

lemma unlock_wake_inv:
  assumes spec: "unlock_spec 0 l (out, wk, l')" and inv: "rw_inv \<lparr>lk = l, ths = xs\<rparr>"
    and i: "i < length xs" "xs ! i = RdHeld \<or> xs ! i = WrHeld"
    and w: "rw_wakes wk (xs[i := Idle]) ys"
  shows "rw_wake_inv \<lparr>lk = l', ths = ys\<rparr>"
proof -
  note c = unlock_cnt [OF w i]
  have nww: "rw_nwaitwriters l = cnt WrSleep ys + cnt WrWoken ys"
    and nwr: "rw_nwaitreaders l = cnt RdSleep ys + cnt RdWoken ys"
    using inv c(1,2) by (simp_all add: rw_inv_def)
  have l': "rw_nwaitwriters l' = rw_nwaitwriters l"
    using spec by (simp add: unlock_spec_def)
  have "0 < cnt WrWoken ys" if "rw_refcount l' = 0" and "0 < cnt WrSleep ys"
  proof -
    have "wk = SignalWriters"
      using spec that nww cnt_nonneg [of WrWoken ys] by (simp add: unlock_spec_def)
    then show ?thesis using rw_wakes_cnt(7) [OF w] that(2) by simp
  qed
  moreover have "0 < rw_nwaitwriters l'" if "0 < cnt RdSleep ys"
  proof (rule ccontr)
    assume "\<not> 0 < rw_nwaitwriters l'"
    then have "wk = BroadcastReaders"
      using spec that nww nwr cnt_nonneg [of WrSleep ys] cnt_nonneg [of WrWoken ys]
        cnt_nonneg [of RdWoken ys] by (simp add: unlock_spec_def l')
    then show False using rw_wakes_cnt(8) [OF w] that by simp
  qed
  ultimately show ?thesis by (simp add: rw_wake_inv_def)
qed

lemma cancel_inv:
  assumes "rw_inv \<lparr>lk = l, ths = xs\<rparr>" and "i < length xs"
  shows "xs ! i = RdSleep \<or> xs ! i = RdWoken \<Longrightarrow>
      rw_inv \<lparr>lk = l\<lparr>rw_nwaitreaders := rw_nwaitreaders l - 1\<rparr>, ths = xs[i := Gone]\<rparr>"
    and "xs ! i = WrSleep \<or> xs ! i = WrWoken \<Longrightarrow>
      rw_inv \<lparr>lk = l\<lparr>rw_nwaitwriters := rw_nwaitwriters l - 1\<rparr>, ths = xs[i := Gone]\<rparr>"
  using assms by (auto simp: rw_inv_def rw_wake_inv_def cnt_simps)

lemma spurious_inv:
  assumes "rw_inv \<lparr>lk = l, ths = xs\<rparr>" and "i < length xs"
  shows "xs ! i = RdSleep \<Longrightarrow> rw_inv \<lparr>lk = l, ths = xs[i := RdWoken]\<rparr>"
    and "xs ! i = WrSleep \<Longrightarrow> rw_inv \<lparr>lk = l, ths = xs[i := WrWoken]\<rparr>"
    and "rw_wake_inv \<lparr>lk = l, ths = xs\<rparr> \<Longrightarrow> xs ! i = RdSleep \<Longrightarrow>
      rw_wake_inv \<lparr>lk = l, ths = xs[i := RdWoken]\<rparr>"
    and "rw_wake_inv \<lparr>lk = l, ths = xs\<rparr> \<Longrightarrow> xs ! i = WrSleep \<Longrightarrow>
      rw_wake_inv \<lparr>lk = l, ths = xs[i := WrWoken]\<rparr>"
  using assms by (auto simp: rw_inv_def rw_wake_inv_def cnt_simps intro: add_nonneg_pos)

locale rwlock_contract =
  fixes ops :: rw_ops and errs :: bool and cancels :: bool
  assumes rdlock_law: "rw_magic l = RW_MAGIC \<Longrightarrow> errs \<or> r = 0 \<Longrightarrow>
      lock_spec r (rd_blocked l) (l\<lparr>rw_refcount := rw_refcount l + 1\<rparr>) l
        (l\<lparr>rw_nwaitreaders := rw_nwaitreaders l + 1\<rparr>) (op_rdlock ops r l)"
    and rdwake_law: "rw_magic l = RW_MAGIC \<Longrightarrow> errs \<or> r = 0 \<Longrightarrow>
      lock_spec r (rd_blocked l)
        (l\<lparr>rw_nwaitreaders := rw_nwaitreaders l - 1, rw_refcount := rw_refcount l + 1\<rparr>)
        (l\<lparr>rw_nwaitreaders := rw_nwaitreaders l - 1\<rparr>) l (op_rdwake ops r l)"
    and wrlock_law: "rw_magic l = RW_MAGIC \<Longrightarrow> errs \<or> r = 0 \<Longrightarrow>
      lock_spec r (rw_refcount l \<noteq> 0) (l\<lparr>rw_refcount := -1\<rparr>) l
        (l\<lparr>rw_nwaitwriters := rw_nwaitwriters l + 1\<rparr>) (op_wrlock ops r l)"
    and wrwake_law: "rw_magic l = RW_MAGIC \<Longrightarrow> errs \<or> r = 0 \<Longrightarrow>
      lock_spec r (rw_refcount l \<noteq> 0)
        (l\<lparr>rw_nwaitwriters := rw_nwaitwriters l - 1, rw_refcount := -1\<rparr>)
        (l\<lparr>rw_nwaitwriters := rw_nwaitwriters l - 1\<rparr>) l (op_wrwake ops r l)"
    and tryrdlock_law: "rw_magic l = RW_MAGIC \<Longrightarrow> -1 \<le> rw_refcount l \<Longrightarrow>
      try_spec (rd_blocked l) (l\<lparr>rw_refcount := rw_refcount l + 1\<rparr>) l (op_tryrdlock ops r l)"
    and trywrlock_law: "rw_magic l = RW_MAGIC \<Longrightarrow>
      try_spec (rw_refcount l \<noteq> 0) (l\<lparr>rw_refcount := -1\<rparr>) l (op_trywrlock ops r l)"
    and unlock_law: "rw_magic l = RW_MAGIC \<Longrightarrow> 0 < rw_refcount l \<or> rw_refcount l = -1 \<Longrightarrow>
      unlock_spec r l (op_unlock ops r g l)"
    and cancelrd_law: "cancels \<Longrightarrow>
      op_cancelrd ops l = l\<lparr>rw_nwaitreaders := rw_nwaitreaders l - 1\<rparr>"
    and cancelwr_law: "cancels \<Longrightarrow>
      op_cancelwr ops l = l\<lparr>rw_nwaitwriters := rw_nwaitwriters l - 1\<rparr>"
begin

lemma unlock_step:
  assumes "rw_inv \<lparr>lk = l, ths = xs\<rparr>" and "i < length xs" and "xs ! i = RdHeld \<or> xs ! i = WrHeld"
    and "op_unlock ops r g l = (out, wk, l')"
  shows "unlock_spec r l (out, wk, l')" and "out \<noteq> RwDump"
proof -
  show *: "unlock_spec r l (out, wk, l')"
    using unlock_law [of l r g] assms rw_magic_inv [OF assms(1)] holder_refcount(1) [OF assms(1-3)]
    by simp
  show "out \<noteq> RwDump"
    using * by (auto simp: unlock_spec_def split: if_splits)
qed

lemma step_inv: "rw_step ops errs cancels s t \<Longrightarrow> rw_inv s \<Longrightarrow> rw_inv t"
proof (induction rule: rw_step.induct)
  case (rdlock i xs r l out l')
  then show ?case
    using rdlock_law [of l r] by (intro rd_enter_inv [of r l]) (simp_all add: rw_magic_inv)
next
  case (rdwake i xs r l out l')
  then show ?case
    using rdwake_law [of l r] by (intro rd_resume_inv [of r l]) (simp_all add: rw_magic_inv)
next
  case (wrlock i xs r l out l')
  then show ?case
    using wrlock_law [of l r] by (intro wr_enter_inv [of r l]) (simp_all add: rw_magic_inv)
next
  case (wrwake i xs r l out l')
  then show ?case
    using wrwake_law [of l r] by (intro wr_resume_inv [of r l]) (simp_all add: rw_magic_inv)
next
  case (tryrdlock i xs r l out l')
  then show ?case
    using tryrdlock_law [of l r] by (intro tryrd_inv [of l]) (simp_all add: rw_magic_inv refcount_ge)
next
  case (trywrlock i xs r l out l')
  then show ?case
    using trywrlock_law [of l r] by (intro trywr_inv [of l]) (simp_all add: rw_magic_inv)
next
  case (unlock i xs r g l out wk l' ys)
  note spec = unlock_step [OF unlock.prems unlock.hyps(1,2,4)]
  show ?case
  proof (cases "r = 0")
    case True
    then show ?thesis
      using unlock_inv [of l out wk l' xs i ys] spec unlock by simp
  next
    case False
    then show ?thesis
      using unlock_fail [OF spec(1) False unlock.hyps(5)] unlock.prems by simp
  qed
qed (simp_all add: cancelrd_law cancelwr_law spurious_inv cancel_inv)

lemma reach_inv: "rw_reach ops errs cancels n s \<Longrightarrow> rw_inv s"
  by (induction rule: rw_reach.induct) (auto intro: rw_inv_init step_inv)

lemma step_wake_inv:
  "rw_step ops errs cancels s t \<Longrightarrow> \<not> errs \<Longrightarrow> \<not> cancels \<Longrightarrow> rw_inv s \<Longrightarrow> rw_wake_inv s \<Longrightarrow>
     rw_wake_inv t"
proof (induction rule: rw_step.induct)
  case (rdlock i xs r l out l')
  then show ?case
    using rdlock_law [of l r] by (intro rd_enter_wake [of r l]) (simp_all add: rw_magic_inv)
next
  case (rdwake i xs r l out l')
  then show ?case
    using rdwake_law [of l r] by (intro rd_resume_wake [of r l]) (simp_all add: rw_magic_inv)
next
  case (wrlock i xs r l out l')
  then show ?case
    using wrlock_law [of l r] by (intro wr_enter_wake [of r l]) (simp_all add: rw_magic_inv)
next
  case (wrwake i xs r l out l')
  then show ?case
    using wrwake_law [of l r] by (intro wr_resume_wake [of r l]) (simp_all add: rw_magic_inv)
next
  case (tryrdlock i xs r l out l')
  then show ?case
    using tryrdlock_law [of l r] by (intro tryrd_wake [of l]) (simp_all add: rw_magic_inv refcount_ge)
next
  case (trywrlock i xs r l out l')
  then show ?case
    using trywrlock_law [of l r] by (intro trywr_wake [of l]) (simp_all add: rw_magic_inv)
next
  case (unlock i xs r g l out wk l' ys)
  then have r: "r = 0" by simp
  note spec = unlock_step [OF unlock.prems(3) unlock.hyps(1,2,4)]
  then show ?case
    using unlock_wake_inv [of l out wk l' xs i ys] unlock by (simp add: r)
qed (simp_all add: spurious_inv)

lemma reach_wake_inv:
  "rw_reach ops errs cancels n s \<Longrightarrow> \<not> errs \<Longrightarrow> \<not> cancels \<Longrightarrow> rw_wake_inv s"
proof (induction rule: rw_reach.induct)
  case init
  show ?case by (rule rw_wake_inv_init)
next
  case (step s t)
  show ?case
    by (rule step_wake_inv [OF step.hyps(2) step.prems reach_inv [OF step.hyps(1)] step.IH [OF step.prems]])
qed

text \<open>Mutual exclusion: beside a writer nobody holds the lock.\<close>

lemma writer_excludes:
  assumes "rw_reach ops errs cancels n s"
    and "i < length (ths s)" and "j < length (ths s)" and "i \<noteq> j" and "ths s ! i = WrHeld"
  shows "ths s ! j \<noteq> RdHeld" and "ths s ! j \<noteq> WrHeld"
proof -
  have *: "cnt WrHeld (ths s) = 1" "cnt RdHeld (ths s) = 0"
    using reach_inv [OF assms(1)] cnt_nth_pos [OF assms(2,5)] by (auto simp: rw_inv_def)
  show "ths s ! j \<noteq> RdHeld"
    using * cnt_nth_pos [OF assms(3), of RdHeld] by auto
  show "ths s ! j \<noteq> WrHeld"
    using * cnt_two [OF assms(2,3,4,5)] by auto
qed

text \<open>The counters of the lock never exceed the number of threads.\<close>

lemma counters_bounded:
  assumes "rw_reach ops errs cancels n s"
  shows "rw_refcount (lk s) \<le> int (length (ths s))"
    and "rw_nwaitreaders (lk s) \<le> int (length (ths s))"
    and "rw_nwaitwriters (lk s) \<le> int (length (ths s))"
  using reach_inv [OF assms] cnt_le_length [of RdHeld "ths s"]
    cnt_pair_le_length [of RdSleep RdWoken "ths s"] cnt_pair_le_length [of WrSleep WrWoken "ths s"]
  by (auto simp: rw_inv_def)

text \<open>
  Progress: while the library does not fail and no thread is cancelled, a thread that waits
  for the lock waits for a holder, or some woken thread takes the lock when it runs.
\<close>

lemma progress:
  assumes r: "rw_reach ops errs cancels n s" and "\<not> errs" and "\<not> cancels"
    and "j < length (ths s)" and w: "ths s ! j \<in> {RdSleep, RdWoken, WrSleep, WrWoken}"
  shows "(\<exists>i < length (ths s). ths s ! i = RdHeld \<or> ths s ! i = WrHeld) \<or>
    (\<exists>i < length (ths s). ths s ! i = WrWoken \<and> fst (op_wrwake ops 0 (lk s)) = RwReturn 0) \<or>
    (\<exists>i < length (ths s). ths s ! i = RdWoken \<and> fst (op_rdwake ops 0 (lk s)) = RwReturn 0)"
proof (cases "rw_refcount (lk s) = 0")
  case False
  then have "0 < cnt RdHeld (ths s) \<or> 0 < cnt WrHeld (ths s)"
    using reach_inv [OF r] cnt_nonneg [of RdHeld "ths s"] by (auto simp: rw_inv_def)
  then show ?thesis by (auto elim!: cnt_posE)
next
  case free: True
  note inv = reach_inv [OF r]
  note wake = reach_wake_inv [OF r assms(2,3)]
  have magic: "rw_magic (lk s) = RW_MAGIC" using inv by (simp add: rw_inv_def)
  show ?thesis
  proof (cases "0 < cnt WrWoken (ths s)")
    case True
    moreover have "fst (op_wrwake ops 0 (lk s)) = RwReturn 0"
      using wrwake_law [OF magic, of 0] free by (auto simp: lock_spec_def)
    ultimately show ?thesis by (auto elim!: cnt_posE)
  next
    case False
    then have nww: "rw_nwaitwriters (lk s) = 0" "cnt WrSleep (ths s) = 0" "cnt WrWoken (ths s) = 0"
      using inv wake free cnt_nonneg [of WrSleep "ths s"] cnt_nonneg [of WrWoken "ths s"]
      by (auto simp: rw_inv_def rw_wake_inv_def)
    then have "cnt RdSleep (ths s) = 0"
      using wake free cnt_nonneg [of RdSleep "ths s"] by (auto simp: rw_wake_inv_def)
    with nww w nth_mem [OF assms(4)] have "0 < cnt RdWoken (ths s)"
      by (auto simp: cnt_zero_iff cnt_pos_iff)
    moreover have "fst (op_rdwake ops 0 (lk s)) = RwReturn 0"
      using rdwake_law [OF magic, of 0] free nww by (auto simp: lock_spec_def rd_blocked_def)
    ultimately show ?thesis by (auto elim!: cnt_posE)
  qed
qed

end

end
