(* ===== verification/Rwlock.thy ===== *)
theory Rwlock
  imports Rwlock_Spec
begin

text \<open>
  The read-write lock of \<^verbatim>\<open>unpv22e/my_rwlock\<close>: the functions of the
  \<^verbatim>\<open>pthread_rwlock_*.c\<close> files, their wrappers, and the proof that they meet the contract
  \<open>rwlock_contract\<close> with and without failures of the threads library.
\<close>

section \<open>Initialisation and destruction\<close>

text \<open>
  The integer arguments are the results of the three initialisation calls. The labels
  \<^verbatim>\<open>err3\<close>, \<^verbatim>\<open>err2\<close>, \<^verbatim>\<open>err1\<close> undo the initialisations done so far.
\<close>

definition pthread_rwlock_init :: "bool \<Rightarrow> int \<Rightarrow> int \<Rightarrow> int \<Rightarrow> rwlock \<Rightarrow> int \<times> rwlock" where
  "pthread_rwlock_init attr_given mutex_res readers_res writers_res rw =
     (if attr_given then (EINVAL, rw)
      else if mutex_res \<noteq> 0 then (mutex_res, rw)
      else let rw1 = rw\<lparr>rw_mutex := True\<rparr> in
        if readers_res \<noteq> 0 then (readers_res, rw1\<lparr>rw_mutex := False\<rparr>)
        else let rw2 = rw1\<lparr>rw_condreaders := True\<rparr> in
          if writers_res \<noteq> 0
          then (writers_res, rw2\<lparr>rw_condreaders := False, rw_mutex := False\<rparr>)
          else (0, rw2\<lparr>rw_condwriters := True, rw_nwaitreaders := 0, rw_nwaitwriters := 0,
                       rw_refcount := 0, rw_magic := RW_MAGIC\<rparr>))"

definition pthread_rwlock_destroy :: "rwlock \<Rightarrow> int \<times> rwlock" where
  "pthread_rwlock_destroy rw =
     (if rw_magic rw \<noteq> RW_MAGIC then (EINVAL, rw)
      else if rw_refcount rw \<noteq> 0 \<or> rw_nwaitreaders rw \<noteq> 0 \<or> rw_nwaitwriters rw \<noteq> 0
      then (EBUSY, rw)
      else (0, rw\<lparr>rw_mutex := False, rw_condreaders := False, rw_condwriters := False,
                  rw_magic := 0\<rparr>))"

section \<open>Read locks\<close>

text \<open>The statements after the loop, and the test of the loop followed by its first half.\<close>

definition rdlock_end :: "int \<Rightarrow> rwlock \<Rightarrow> rw_out \<times> rwlock" where
  "rdlock_end result rw =
     (RwReturn result, if result = 0 then rw\<lparr>rw_refcount := rw_refcount rw + 1\<rparr> else rw)"

definition rdlock_loop :: "int \<Rightarrow> rwlock \<Rightarrow> rw_out \<times> rwlock" where
  "rdlock_loop result rw =
     (if rw_refcount rw < 0 \<or> rw_nwaitwriters rw > 0
      then (RwWait, rw\<lparr>rw_nwaitreaders := rw_nwaitreaders rw + 1\<rparr>)
      else rdlock_end result rw)"

definition pthread_rwlock_rdlock :: "int \<Rightarrow> rwlock \<Rightarrow> rw_out \<times> rwlock" where
  "pthread_rwlock_rdlock lock_res rw =
     (if rw_magic rw \<noteq> RW_MAGIC then (RwReturn EINVAL, rw)
      else if lock_res \<noteq> 0 then (RwReturn lock_res, rw)
      else rdlock_loop lock_res rw)"

definition rdlock_wake :: "int \<Rightarrow> rwlock \<Rightarrow> rw_out \<times> rwlock" where
  "rdlock_wake wait_res rw =
     (let rw1 = rw\<lparr>rw_nwaitreaders := rw_nwaitreaders rw - 1\<rparr> in
      if wait_res \<noteq> 0 then rdlock_end wait_res rw1 else rdlock_loop wait_res rw1)"

definition pthread_rwlock_tryrdlock :: "int \<Rightarrow> rwlock \<Rightarrow> rw_out \<times> rwlock" where
  "pthread_rwlock_tryrdlock lock_res rw =
     (if rw_magic rw \<noteq> RW_MAGIC then (RwReturn EINVAL, rw)
      else if lock_res \<noteq> 0 then (RwReturn lock_res, rw)
      else if rw_refcount rw < 0 \<or> rw_nwaitwriters rw > 0 then (RwReturn EBUSY, rw)
      else (RwReturn lock_res, rw\<lparr>rw_refcount := rw_refcount rw + 1\<rparr>))"

section \<open>Write locks\<close>

definition wrlock_end :: "int \<Rightarrow> rwlock \<Rightarrow> rw_out \<times> rwlock" where
  "wrlock_end result rw =
     (RwReturn result, if result = 0 then rw\<lparr>rw_refcount := -1\<rparr> else rw)"

definition wrlock_loop :: "int \<Rightarrow> rwlock \<Rightarrow> rw_out \<times> rwlock" where
  "wrlock_loop result rw =
     (if rw_refcount rw \<noteq> 0
      then (RwWait, rw\<lparr>rw_nwaitwriters := rw_nwaitwriters rw + 1\<rparr>)
      else wrlock_end result rw)"

definition pthread_rwlock_wrlock :: "int \<Rightarrow> rwlock \<Rightarrow> rw_out \<times> rwlock" where
  "pthread_rwlock_wrlock lock_res rw =
     (if rw_magic rw \<noteq> RW_MAGIC then (RwReturn EINVAL, rw)
      else if lock_res \<noteq> 0 then (RwReturn lock_res, rw)
      else wrlock_loop lock_res rw)"

definition wrlock_wake :: "int \<Rightarrow> rwlock \<Rightarrow> rw_out \<times> rwlock" where
  "wrlock_wake wait_res rw =
     (let rw1 = rw\<lparr>rw_nwaitwriters := rw_nwaitwriters rw - 1\<rparr> in
      if wait_res \<noteq> 0 then wrlock_end wait_res rw1 else wrlock_loop wait_res rw1)"

definition pthread_rwlock_trywrlock :: "int \<Rightarrow> rwlock \<Rightarrow> rw_out \<times> rwlock" where
  "pthread_rwlock_trywrlock lock_res rw =
     (if rw_magic rw \<noteq> RW_MAGIC then (RwReturn EINVAL, rw)
      else if lock_res \<noteq> 0 then (RwReturn lock_res, rw)
      else if rw_refcount rw \<noteq> 0 then (RwReturn EBUSY, rw)
      else (RwReturn lock_res, rw\<lparr>rw_refcount := -1\<rparr>))"

section \<open>Unlock\<close>

definition pthread_rwlock_unlock ::
  "int \<Rightarrow> int \<Rightarrow> rwlock \<Rightarrow> rw_out \<times> rw_wake \<times> rwlock" where
  "pthread_rwlock_unlock lock_res signal_res rw =
     (if rw_magic rw \<noteq> RW_MAGIC then (RwReturn EINVAL, NoWake, rw)
      else if lock_res \<noteq> 0 then (RwReturn lock_res, NoWake, rw)
      else if \<not> (rw_refcount rw > 0 \<or> rw_refcount rw = -1) then (RwDump, NoWake, rw)
      else
        let rw1 = (if rw_refcount rw > 0 then rw\<lparr>rw_refcount := rw_refcount rw - 1\<rparr>
                   else rw\<lparr>rw_refcount := 0\<rparr>) in
        if rw_nwaitwriters rw1 > 0
        then (if rw_refcount rw1 = 0 then (RwReturn signal_res, SignalWriters, rw1)
              else (RwReturn lock_res, NoWake, rw1))
        else if rw_nwaitreaders rw1 > 0 then (RwReturn signal_res, BroadcastReaders, rw1)
        else (RwReturn lock_res, NoWake, rw1))"

section \<open>Wrappers\<close>

text \<open>
  The capitalised wrappers end the process with a message (\<^verbatim>\<open>err_sys\<close>) unless the function
  returns 0. \<open>Inl\<close> holds the error number and the message.
\<close>

definition rw_check :: "string \<Rightarrow> int \<times> 'a \<Rightarrow> (int \<times> string) + 'a" where
  "rw_check msg res = (case res of (n, rw) \<Rightarrow> if n = 0 then Inr rw else Inl (n, msg))"

definition Pthread_rwlock_init ::
  "bool \<Rightarrow> int \<Rightarrow> int \<Rightarrow> int \<Rightarrow> rwlock \<Rightarrow> (int \<times> string) + rwlock" where
  "Pthread_rwlock_init attr_given a b c rw =
     rw_check ''pthread_rwlock_init error'' (pthread_rwlock_init attr_given a b c rw)"

definition Pthread_rwlock_destroy :: "rwlock \<Rightarrow> (int \<times> string) + rwlock" where
  "Pthread_rwlock_destroy rw = rw_check ''pthread_rwlock_destroy error'' (pthread_rwlock_destroy rw)"

text \<open>For a call that may block the wrapper acts when the call returns.\<close>

definition rw_check_out :: "string \<Rightarrow> rw_out \<times> 'a \<Rightarrow> (int \<times> string) + rw_out \<times> 'a" where
  "rw_check_out msg res =
     (case res of (out, rw) \<Rightarrow>
        (case out of RwReturn n \<Rightarrow> if n = 0 then Inr (out, rw) else Inl (n, msg)
         | _ \<Rightarrow> Inr (out, rw)))"

definition Pthread_rwlock_rdlock :: "int \<Rightarrow> rwlock \<Rightarrow> (int \<times> string) + rw_out \<times> rwlock" where
  "Pthread_rwlock_rdlock r rw =
     rw_check_out ''pthread_rwlock_rdlock error'' (pthread_rwlock_rdlock r rw)"

definition Pthread_rwlock_wrlock :: "int \<Rightarrow> rwlock \<Rightarrow> (int \<times> string) + rw_out \<times> rwlock" where
  "Pthread_rwlock_wrlock r rw =
     rw_check_out ''pthread_rwlock_wrlock error'' (pthread_rwlock_wrlock r rw)"

definition Pthread_rwlock_tryrdlock :: "int \<Rightarrow> rwlock \<Rightarrow> (int \<times> string) + rw_out \<times> rwlock" where
  "Pthread_rwlock_tryrdlock r rw =
     rw_check_out ''pthread_rwlock_tryrdlock error'' (pthread_rwlock_tryrdlock r rw)"

definition Pthread_rwlock_trywrlock :: "int \<Rightarrow> rwlock \<Rightarrow> (int \<times> string) + rw_out \<times> rwlock" where
  "Pthread_rwlock_trywrlock r rw =
     rw_check_out ''pthread_rwlock_trywrlock error'' (pthread_rwlock_trywrlock r rw)"

definition Pthread_rwlock_unlock ::
  "int \<Rightarrow> int \<Rightarrow> rwlock \<Rightarrow> (int \<times> string) + rw_out \<times> rw_wake \<times> rwlock" where
  "Pthread_rwlock_unlock r g rw =
     rw_check_out ''pthread_rwlock_unlock error'' (pthread_rwlock_unlock r g rw)"

section \<open>The implementation meets the contract\<close>

text \<open>This implementation has no cancellation handlers; its threads are not cancelled.\<close>

definition my_rwlock_ops :: rw_ops where
  "my_rwlock_ops =
     \<lparr>op_rdlock = pthread_rwlock_rdlock, op_rdwake = rdlock_wake,
      op_wrlock = pthread_rwlock_wrlock, op_wrwake = wrlock_wake,
      op_tryrdlock = pthread_rwlock_tryrdlock, op_trywrlock = pthread_rwlock_trywrlock,
      op_unlock = pthread_rwlock_unlock, op_cancelrd = (\<lambda>rw. rw), op_cancelwr = (\<lambda>rw. rw)\<rparr>"

lemmas rdlock_defs = pthread_rwlock_rdlock_def rdlock_wake_def rdlock_loop_def rdlock_end_def
  pthread_rwlock_tryrdlock_def
lemmas wrlock_defs = pthread_rwlock_wrlock_def wrlock_wake_def wrlock_loop_def wrlock_end_def
  pthread_rwlock_trywrlock_def

interpretation my_rw: rwlock_contract my_rwlock_ops errs False
  by unfold_locales
    (auto simp: my_rwlock_ops_def rdlock_defs wrlock_defs pthread_rwlock_unlock_def Let_def
       lock_spec_def try_spec_def unlock_spec_def rd_blocked_def errno_defs)

text \<open>C3. Mutual exclusion: however the calls of any number of threads interleave, and whether
  or not the threads library fails, a thread that holds the write lock holds it alone.\<close>

theorem rwlock_mutual_exclusion:
  assumes "rw_reach my_rwlock_ops errs False n s"
    and "i < length (ths s)" and "j < length (ths s)" and "i \<noteq> j" and "ths s ! i = WrHeld"
  shows "ths s ! j \<noteq> RdHeld \<and> ths s ! j \<noteq> WrHeld"
  using my_rw.writer_excludes [OF assms] by simp

text \<open>The counters of the lock structure are exact in every reachable state:
  \<^verbatim>\<open>rw_refcount\<close> is \<open>-1\<close> when a writer holds the lock and else the number of readers that
  hold it, and the two waiting counts are the numbers of threads that wait.\<close>

theorem rwlock_counters_exact:
  assumes "rw_reach my_rwlock_ops errs False n s"
  shows "rw_nwaitreaders (lk s) = cnt RdSleep (ths s) + cnt RdWoken (ths s) \<and>
    rw_nwaitwriters (lk s) = cnt WrSleep (ths s) + cnt WrWoken (ths s) \<and>
    (if WrHeld \<in> set (ths s) then rw_refcount (lk s) = -1
     else rw_refcount (lk s) = cnt RdHeld (ths s))"
  using my_rw.reach_inv [OF assms] cnt_pos_iff [of WrHeld "ths s"] by (auto simp: rw_inv_def)

text \<open>C15. No wake-up is lost: while the threads library does not fail, a thread that waits for
  the lock has a holder to wait for, or there is a woken thread that takes the lock as soon
  as it runs.\<close>

theorem rwlock_progress:
  assumes "rw_reach my_rwlock_ops False False n s"
    and "j < length (ths s)" and "ths s ! j \<in> {RdSleep, RdWoken, WrSleep, WrWoken}"
  shows "(\<exists>i < length (ths s). ths s ! i = RdHeld \<or> ths s ! i = WrHeld) \<or>
    (\<exists>i < length (ths s). ths s ! i = WrWoken \<and> fst (wrlock_wake 0 (lk s)) = RwReturn 0) \<or>
    (\<exists>i < length (ths s). ths s ! i = RdWoken \<and> fst (rdlock_wake 0 (lk s)) = RwReturn 0)"
  using my_rw.progress [OF assms(1) _ _ assms(2,3)] by (simp add: my_rwlock_ops_def)

text \<open>Destruction: in a reachable state \<^verbatim>\<open>pthread_rwlock_destroy\<close> succeeds exactly when no
  thread holds the lock or waits for it, and \<^verbatim>\<open>EBUSY\<close> otherwise leaves the lock as it is.\<close>

theorem rwlock_destroy_iff_unused:
  assumes "rw_reach my_rwlock_ops errs False n s"
  shows "(fst (pthread_rwlock_destroy (lk s)) = 0) =
      (\<forall>p. p \<in> set (ths s) \<longrightarrow> p = Idle \<or> p = Gone) \<and>
    (fst (pthread_rwlock_destroy (lk s)) \<noteq> 0 \<longrightarrow>
      pthread_rwlock_destroy (lk s) = (EBUSY, lk s))"
proof -
  have inv: "rw_inv s" by (rule my_rw.reach_inv [OF assms])
  have "(fst (pthread_rwlock_destroy (lk s)) = 0) =
      (rw_refcount (lk s) = 0 \<and> rw_nwaitreaders (lk s) = 0 \<and> rw_nwaitwriters (lk s) = 0)"
    using inv by (simp add: pthread_rwlock_destroy_def rw_inv_def errno_defs)
  also have "\<dots> = (\<forall>p \<in> {RdHeld, WrHeld, RdSleep, RdWoken, WrSleep, WrWoken}. cnt p (ths s) = 0)"
    using inv cnt_nonneg [of RdSleep "ths s"] cnt_nonneg [of RdWoken "ths s"]
      cnt_nonneg [of WrSleep "ths s"] cnt_nonneg [of WrWoken "ths s"]
    by (auto simp: rw_inv_def)
  also have "\<dots> = (\<forall>p. p \<in> set (ths s) \<longrightarrow> p = Idle \<or> p = Gone)"
    using phase.exhaust by (auto simp: cnt_zero_iff)
  finally show ?thesis
    using inv by (auto simp: pthread_rwlock_destroy_def rw_inv_def)
qed

text \<open>Initialisation is all or nothing: starting from a structure with nothing initialised,
  a nonzero result leaves nothing initialised, and 0 leaves a lock ready for use.\<close>

theorem rwlock_init_all_or_nothing:
  assumes "\<not> rw_mutex rw" and "\<not> rw_condreaders rw" and "\<not> rw_condwriters rw"
  shows "let (n, rw') = pthread_rwlock_init attr_given a b c rw in
    if n = 0 then rw' = rwlock_initializer \<and> \<not> attr_given
    else \<not> rw_mutex rw' \<and> \<not> rw_condreaders rw' \<and> \<not> rw_condwriters rw'"
  using assms
  by (auto simp: pthread_rwlock_init_def rwlock_initializer_def errno_defs Let_def)

subsection \<open>Witnesses\<close>

text \<open>A write lock taken by the first of two threads, and a reader that goes to sleep on it.\<close>

lemma reach_writer:
  "rw_reach my_rwlock_ops errs False 2
     \<lparr>lk = rwlock_initializer\<lparr>rw_refcount := -1\<rparr>, ths = [WrHeld, Idle]\<rparr>"
  by (rule reach_wrlock [OF rw_reach.init, where i = 0 and out = "RwReturn 0"])
    (simp_all add: my_rwlock_ops_def wrlock_defs rwlock_initializer_def wr_phase_def numeral_2_eq_2)

lemma reach_writer_reader:
  "rw_reach my_rwlock_ops errs False 2
     \<lparr>lk = rwlock_initializer\<lparr>rw_nwaitreaders := 1, rw_refcount := -1\<rparr>, ths = [WrHeld, RdSleep]\<rparr>"
  by (rule reach_rdlock [OF reach_writer, where i = 1 and out = RwWait])
    (simp_all add: my_rwlock_ops_def rdlock_defs rwlock_initializer_def rd_phase_def)

theorem rwlock_mutual_exclusion_witness:
  "let s = \<lparr>lk = rwlock_initializer\<lparr>rw_refcount := -1\<rparr>, ths = [WrHeld, Idle]\<rparr> in
     rw_reach my_rwlock_ops True False 2 s \<and> ths s ! 0 = WrHeld \<and>
     ths s ! 1 \<noteq> RdHeld \<and> ths s ! 1 \<noteq> WrHeld"
  using rwlock_mutual_exclusion [OF reach_writer [of True], of 0 1] reach_writer [of True]
  by (simp add: Let_def)

theorem rwlock_counters_exact_witness:
  "rw_reach my_rwlock_ops True False 2
     \<lparr>lk = rwlock_initializer\<lparr>rw_nwaitreaders := 1, rw_refcount := -1\<rparr>, ths = [WrHeld, RdSleep]\<rparr> \<and>
   rw_nwaitreaders (rwlock_initializer\<lparr>rw_nwaitreaders := 1, rw_refcount := -1\<rparr>) =
     cnt RdSleep [WrHeld, RdSleep] + cnt RdWoken [WrHeld, RdSleep]"
  using rwlock_counters_exact [OF reach_writer_reader [of True]] reach_writer_reader [of True] by simp

theorem rwlock_progress_witness:
  "let s = \<lparr>lk = rwlock_initializer\<lparr>rw_nwaitreaders := 1, rw_refcount := -1\<rparr>,
            ths = [WrHeld, RdSleep]\<rparr> in
     rw_reach my_rwlock_ops False False 2 s \<and> ths s ! 1 = RdSleep \<and>
     ((\<exists>i < length (ths s). ths s ! i = RdHeld \<or> ths s ! i = WrHeld) \<or>
      (\<exists>i < length (ths s). ths s ! i = WrWoken \<and> fst (wrlock_wake 0 (lk s)) = RwReturn 0) \<or>
      (\<exists>i < length (ths s). ths s ! i = RdWoken \<and> fst (rdlock_wake 0 (lk s)) = RwReturn 0))"
  using rwlock_progress [OF reach_writer_reader, of 1] reach_writer_reader [of False]
  by (simp add: Let_def)

theorem rwlock_destroy_iff_unused_witness:
  "rw_reach my_rwlock_ops True False 2
     \<lparr>lk = rwlock_initializer\<lparr>rw_refcount := -1\<rparr>, ths = [WrHeld, Idle]\<rparr> \<and>
   fst (pthread_rwlock_destroy (rwlock_initializer\<lparr>rw_refcount := -1\<rparr>)) \<noteq> 0"
  using rwlock_destroy_iff_unused [OF reach_writer [of True]] reach_writer [of True] by auto

theorem rwlock_init_all_or_nothing_witness:
  "let rw = \<lparr>rw_mutex = False, rw_condreaders = False, rw_condwriters = False, rw_magic = 0,
             rw_nwaitreaders = 7, rw_nwaitwriters = 7, rw_refcount = 7\<rparr> in
   snd (pthread_rwlock_init False 0 0 0 rw) = rwlock_initializer \<and>
   \<not> rw_mutex (snd (pthread_rwlock_init False 0 0 12 rw))"
  using rwlock_init_all_or_nothing [of "\<lparr>rw_mutex = False, rw_condreaders = False,
      rw_condwriters = False, rw_magic = 0, rw_nwaitreaders = 7, rw_nwaitwriters = 7,
      rw_refcount = 7\<rparr>" False 0 0 0]
    rwlock_init_all_or_nothing [of "\<lparr>rw_mutex = False, rw_condreaders = False,
      rw_condwriters = False, rw_magic = 0, rw_nwaitreaders = 7, rw_nwaitwriters = 7,
      rw_refcount = 7\<rparr>" False 0 0 12]
  by (simp add: Let_def pthread_rwlock_init_def)

end
