(* ===== verification/Rwlock_Cancel.thy ===== *)
theory Rwlock_Cancel
  imports Rwlock
begin

text \<open>
  The read-write lock of \<^verbatim>\<open>unpv22e/my_rwlock_cancel\<close>, whose waits install cancellation
  handlers. It differs from \<^verbatim>\<open>unpv22e/my_rwlock\<close> in five places: the handlers; the two
  blocking calls return 0 where the other version returns \<^verbatim>\<open>result\<close>; the write lock compares
  the result of \<^verbatim>\<open>pthread_mutex_lock\<close> with \<open>-1\<close>; the test of \<^verbatim>\<open>tryrdlock\<close> is an equality;
  unlock signals a waiting writer whatever the count is. Definitions of this theory carry the
  suffix \<open>_c\<close>.
\<close>

section \<open>Operations\<close>

text \<open>The text of these three is the one of \<^verbatim>\<open>unpv22e/my_rwlock\<close>.\<close>

definition pthread_rwlock_init_c :: "bool \<Rightarrow> int \<Rightarrow> int \<Rightarrow> int \<Rightarrow> rwlock \<Rightarrow> int \<times> rwlock" where
  "pthread_rwlock_init_c = pthread_rwlock_init"

definition pthread_rwlock_destroy_c :: "rwlock \<Rightarrow> int \<times> rwlock" where
  "pthread_rwlock_destroy_c = pthread_rwlock_destroy"

definition pthread_rwlock_trywrlock_c :: "int \<Rightarrow> rwlock \<Rightarrow> rw_out \<times> rwlock" where
  "pthread_rwlock_trywrlock_c = pthread_rwlock_trywrlock"

text \<open>The handlers run with the mutex held, as the cancelled wait has taken it again.\<close>

definition rwlock_cancelrdwait :: "rwlock \<Rightarrow> rwlock" where
  "rwlock_cancelrdwait rw = rw\<lparr>rw_nwaitreaders := rw_nwaitreaders rw - 1\<rparr>"

definition rwlock_cancelwrwait :: "rwlock \<Rightarrow> rwlock" where
  "rwlock_cancelwrwait rw = rw\<lparr>rw_nwaitwriters := rw_nwaitwriters rw - 1\<rparr>"

definition rdlock_end_c :: "int \<Rightarrow> rwlock \<Rightarrow> rw_out \<times> rwlock" where
  "rdlock_end_c result rw =
     (RwReturn 0, if result = 0 then rw\<lparr>rw_refcount := rw_refcount rw + 1\<rparr> else rw)"

definition rdlock_loop_c :: "int \<Rightarrow> rwlock \<Rightarrow> rw_out \<times> rwlock" where
  "rdlock_loop_c result rw =
     (if rw_refcount rw < 0 \<or> rw_nwaitwriters rw > 0
      then (RwWait, rw\<lparr>rw_nwaitreaders := rw_nwaitreaders rw + 1\<rparr>)
      else rdlock_end_c result rw)"

definition pthread_rwlock_rdlock_c :: "int \<Rightarrow> rwlock \<Rightarrow> rw_out \<times> rwlock" where
  "pthread_rwlock_rdlock_c lock_res rw =
     (if rw_magic rw \<noteq> RW_MAGIC then (RwReturn EINVAL, rw)
      else if lock_res \<noteq> 0 then (RwReturn lock_res, rw)
      else rdlock_loop_c lock_res rw)"

definition rdlock_wake_c :: "int \<Rightarrow> rwlock \<Rightarrow> rw_out \<times> rwlock" where
  "rdlock_wake_c wait_res rw =
     (let rw1 = rw\<lparr>rw_nwaitreaders := rw_nwaitreaders rw - 1\<rparr> in
      if wait_res \<noteq> 0 then rdlock_end_c wait_res rw1 else rdlock_loop_c wait_res rw1)"

definition pthread_rwlock_tryrdlock_c :: "int \<Rightarrow> rwlock \<Rightarrow> rw_out \<times> rwlock" where
  "pthread_rwlock_tryrdlock_c lock_res rw =
     (if rw_magic rw \<noteq> RW_MAGIC then (RwReturn EINVAL, rw)
      else if lock_res \<noteq> 0 then (RwReturn lock_res, rw)
      else if rw_refcount rw = -1 \<or> rw_nwaitwriters rw > 0 then (RwReturn EBUSY, rw)
      else (RwReturn lock_res, rw\<lparr>rw_refcount := rw_refcount rw + 1\<rparr>))"

definition wrlock_end_c :: "int \<Rightarrow> rwlock \<Rightarrow> rw_out \<times> rwlock" where
  "wrlock_end_c result rw =
     (RwReturn 0, if result = 0 then rw\<lparr>rw_refcount := -1\<rparr> else rw)"

definition wrlock_loop_c :: "int \<Rightarrow> rwlock \<Rightarrow> rw_out \<times> rwlock" where
  "wrlock_loop_c result rw =
     (if rw_refcount rw \<noteq> 0
      then (RwWait, rw\<lparr>rw_nwaitwriters := rw_nwaitwriters rw + 1\<rparr>)
      else wrlock_end_c result rw)"

definition pthread_rwlock_wrlock_c :: "int \<Rightarrow> rwlock \<Rightarrow> rw_out \<times> rwlock" where
  "pthread_rwlock_wrlock_c lock_res rw =
     (if rw_magic rw \<noteq> RW_MAGIC then (RwReturn EINVAL, rw)
      else if lock_res = -1 then (RwReturn lock_res, rw)
      else wrlock_loop_c lock_res rw)"

definition wrlock_wake_c :: "int \<Rightarrow> rwlock \<Rightarrow> rw_out \<times> rwlock" where
  "wrlock_wake_c wait_res rw =
     (let rw1 = rw\<lparr>rw_nwaitwriters := rw_nwaitwriters rw - 1\<rparr> in
      if wait_res \<noteq> 0 then wrlock_end_c wait_res rw1 else wrlock_loop_c wait_res rw1)"

definition pthread_rwlock_unlock_c ::
  "int \<Rightarrow> int \<Rightarrow> rwlock \<Rightarrow> rw_out \<times> rw_wake \<times> rwlock" where
  "pthread_rwlock_unlock_c lock_res signal_res rw =
     (if rw_magic rw \<noteq> RW_MAGIC then (RwReturn EINVAL, NoWake, rw)
      else if lock_res \<noteq> 0 then (RwReturn lock_res, NoWake, rw)
      else if \<not> (rw_refcount rw > 0 \<or> rw_refcount rw = -1) then (RwDump, NoWake, rw)
      else
        let rw1 = (if rw_refcount rw > 0 then rw\<lparr>rw_refcount := rw_refcount rw - 1\<rparr>
                   else rw\<lparr>rw_refcount := 0\<rparr>) in
        if rw_nwaitwriters rw1 > 0 then (RwReturn signal_res, SignalWriters, rw1)
        else if rw_nwaitreaders rw1 > 0 then (RwReturn signal_res, BroadcastReaders, rw1)
        else (RwReturn lock_res, NoWake, rw1))"

text \<open>The wrappers, as in \<^verbatim>\<open>unpv22e/my_rwlock\<close>.\<close>

definition Pthread_rwlock_rdlock_c :: "int \<Rightarrow> rwlock \<Rightarrow> (int \<times> string) + rw_out \<times> rwlock" where
  "Pthread_rwlock_rdlock_c r rw =
     rw_check_out ''pthread_rwlock_rdlock error'' (pthread_rwlock_rdlock_c r rw)"

definition Pthread_rwlock_wrlock_c :: "int \<Rightarrow> rwlock \<Rightarrow> (int \<times> string) + rw_out \<times> rwlock" where
  "Pthread_rwlock_wrlock_c r rw =
     rw_check_out ''pthread_rwlock_wrlock error'' (pthread_rwlock_wrlock_c r rw)"

definition Pthread_rwlock_tryrdlock_c :: "int \<Rightarrow> rwlock \<Rightarrow> (int \<times> string) + rw_out \<times> rwlock" where
  "Pthread_rwlock_tryrdlock_c r rw =
     rw_check_out ''pthread_rwlock_tryrdlock error'' (pthread_rwlock_tryrdlock_c r rw)"

definition Pthread_rwlock_unlock_c ::
  "int \<Rightarrow> int \<Rightarrow> rwlock \<Rightarrow> (int \<times> string) + rw_out \<times> rw_wake \<times> rwlock" where
  "Pthread_rwlock_unlock_c r g rw =
     rw_check_out ''pthread_rwlock_unlock error'' (pthread_rwlock_unlock_c r g rw)"

section \<open>The contract\<close>

definition my_rwlock_cancel_ops :: rw_ops where
  "my_rwlock_cancel_ops =
     \<lparr>op_rdlock = pthread_rwlock_rdlock_c, op_rdwake = rdlock_wake_c,
      op_wrlock = pthread_rwlock_wrlock_c, op_wrwake = wrlock_wake_c,
      op_tryrdlock = pthread_rwlock_tryrdlock_c, op_trywrlock = pthread_rwlock_trywrlock_c,
      op_unlock = pthread_rwlock_unlock_c,
      op_cancelrd = rwlock_cancelrdwait, op_cancelwr = rwlock_cancelwrwait\<rparr>"

lemmas rdlock_c_defs = pthread_rwlock_rdlock_c_def rdlock_wake_c_def rdlock_loop_c_def
  rdlock_end_c_def pthread_rwlock_tryrdlock_c_def rwlock_cancelrdwait_def
lemmas wrlock_c_defs = pthread_rwlock_wrlock_c_def wrlock_wake_c_def wrlock_loop_c_def
  wrlock_end_c_def pthread_rwlock_trywrlock_c_def pthread_rwlock_trywrlock_def
  rwlock_cancelwrwait_def

lemmas cancel_ops_defs = my_rwlock_cancel_ops_def rdlock_c_defs wrlock_c_defs
  pthread_rwlock_unlock_c_def

text \<open>It is met as long as the threads library does not fail, with or without cancellation.\<close>

interpretation cancel_rw: rwlock_contract my_rwlock_cancel_ops False cancels
  by unfold_locales
    (auto simp: my_rwlock_cancel_ops_def rdlock_c_defs wrlock_c_defs pthread_rwlock_unlock_c_def
       Let_def lock_spec_def try_spec_def unlock_spec_def rd_blocked_def errno_defs)

text \<open>C38. While the calls of the threads library succeed, and with cancellation of waiting threads at
  any time: a thread that holds the write lock excludes every other holder, and in every reachable
  state the two waiting counts are the numbers of threads that wait. (When \<^verbatim>\<open>pthread_cond_wait\<close> fails,
  the blocking calls of this version return 0 without the lock, and exclusion is lost.)\<close>

theorem rwlock_cancel_mutual_exclusion:
  assumes "rw_reach my_rwlock_cancel_ops False cancels n s"
  shows "rw_nwaitreaders (lk s) = cnt RdSleep (ths s) + cnt RdWoken (ths s) \<and>
    rw_nwaitwriters (lk s) = cnt WrSleep (ths s) + cnt WrWoken (ths s) \<and>
    (\<forall>i j. i < length (ths s) \<and> j < length (ths s) \<and> i \<noteq> j \<and> ths s ! i = WrHeld \<longrightarrow>
       ths s ! j \<noteq> RdHeld \<and> ths s ! j \<noteq> WrHeld)"
  using cancel_rw.writer_excludes [OF assms] cancel_rw.reach_inv [OF assms]
  by (auto simp: rw_inv_def)

text \<open>Cancelling a waiting writer loses a wake-up: the handler decrements the count of waiting
  writers and wakes nobody. There is a reachable state in which a reader sleeps although the
  lock is free, no writer waits, and no thread holds the lock or has been woken.\<close>

theorem rwlock_cancel_lost_wakeup:
  "\<exists>s. rw_reach my_rwlock_cancel_ops False True 3 s \<and> ths s ! 2 = RdSleep \<and>
     rw_refcount (lk s) = 0 \<and> rw_nwaitwriters (lk s) = 0 \<and>
     set (ths s) \<inter> {RdHeld, WrHeld, RdWoken, WrWoken} = {}"
proof -
  let ?R = "rw_reach my_rwlock_cancel_ops False True 3"
  let ?l = "\<lambda>r w c. rwlock_initializer\<lparr>rw_nwaitreaders := r, rw_nwaitwriters := w, rw_refcount := c\<rparr>"
  note defs = cancel_ops_defs rwlock_initializer_def rd_phase_def wr_phase_def numeral_3_eq_3
  have s1: "?R \<lparr>lk = ?l 0 0 1, ths = [RdHeld, Idle, Idle]\<rparr>"
    by (rule reach_rdlock [OF rw_reach.init, where i = 0 and out = "RwReturn 0"]) (simp_all add: defs)
  have s2: "?R \<lparr>lk = ?l 0 1 1, ths = [RdHeld, WrSleep, Idle]\<rparr>"
    by (rule reach_wrlock [OF s1, where i = 1 and out = RwWait]) (simp_all add: defs)
  have s3: "?R \<lparr>lk = ?l 1 1 1, ths = [RdHeld, WrSleep, RdSleep]\<rparr>"
    by (rule reach_rdlock [OF s2, where i = 2 and out = RwWait]) (simp_all add: defs)
  have s4: "?R \<lparr>lk = ?l 1 1 0, ths = [Idle, WrWoken, RdSleep]\<rparr>"
    by (rule reach_unlock_signal [OF s3, where i = 0 and j = 1 and e = 0]) (simp_all add: defs)
  have "?R \<lparr>lk = op_cancelwr my_rwlock_cancel_ops (?l 1 1 0), ths = [Idle, WrWoken, RdSleep][1 := Gone]\<rparr>"
    by (rule rw_reach.step [OF s4], rule rw_step.cancel_wr) simp_all
  then have "?R \<lparr>lk = ?l 1 0 0, ths = [Idle, Gone, RdSleep]\<rparr>"
    by (simp add: my_rwlock_cancel_ops_def rwlock_cancelwrwait_def rwlock_initializer_def)
  then show ?thesis by (intro exI [of _ "\<lparr>lk = ?l 1 0 0, ths = [Idle, Gone, RdSleep]\<rparr>"]) simp
qed

text \<open>The blocking calls hide failures: when \<^verbatim>\<open>pthread_cond_wait\<close> fails, the read lock call
  returns 0 without having counted a reader. A reader then runs beside a writer.\<close>

theorem rwlock_cancel_hides_failure:
  "\<exists>s. rw_reach my_rwlock_cancel_ops True False 2 s \<and> ths s = [WrHeld, RdHeld]"
proof -
  let ?R = "rw_reach my_rwlock_cancel_ops True False 2"
  let ?l = "\<lambda>r c. rwlock_initializer\<lparr>rw_nwaitreaders := r, rw_refcount := c\<rparr>"
  note defs = cancel_ops_defs rwlock_initializer_def rd_phase_def wr_phase_def numeral_2_eq_2
  have s1: "?R \<lparr>lk = ?l 0 (-1), ths = [WrHeld, Idle]\<rparr>"
    by (rule reach_wrlock [OF rw_reach.init, where i = 0 and out = "RwReturn 0"]) (simp_all add: defs)
  have s2: "?R \<lparr>lk = ?l 1 (-1), ths = [WrHeld, RdSleep]\<rparr>"
    by (rule reach_rdlock [OF s1, where i = 1 and out = RwWait]) (simp_all add: defs)
  have s3: "?R \<lparr>lk = ?l 1 (-1), ths = [WrHeld, RdSleep][1 := RdWoken]\<rparr>"
    by (rule rw_reach.step [OF s2], rule rw_step.spurious_rd) simp_all
  have "rw_step my_rwlock_cancel_ops True False \<lparr>lk = ?l 1 (-1), ths = [WrHeld, RdWoken]\<rparr>
     \<lparr>lk = ?l 0 (-1), ths = [WrHeld, RdWoken][1 := rd_phase (RwReturn 0)]\<rparr>"
    by (rule rw_step.rdwake [where r = EINVAL]) (simp_all add: defs errno_defs)
  then have "?R \<lparr>lk = ?l 0 (-1), ths = [WrHeld, RdHeld]\<rparr>"
    using rw_reach.step s3 by (simp add: rd_phase_def)
  then show ?thesis by (intro exI [of _ "\<lparr>lk = ?l 0 (-1), ths = [WrHeld, RdHeld]\<rparr>"]) simp
qed

subsection \<open>Witness\<close>

lemma reach_writer_c:
  "rw_reach my_rwlock_cancel_ops errs cancels 2
     \<lparr>lk = rwlock_initializer\<lparr>rw_refcount := -1\<rparr>, ths = [WrHeld, Idle]\<rparr>"
  by (rule reach_wrlock [OF rw_reach.init, where i = 0 and out = "RwReturn 0"])
    (simp_all add: cancel_ops_defs rwlock_initializer_def wr_phase_def numeral_2_eq_2)

theorem rwlock_cancel_mutual_exclusion_witness:
  "let s = \<lparr>lk = rwlock_initializer\<lparr>rw_refcount := -1\<rparr>, ths = [WrHeld, Idle]\<rparr> in
     rw_reach my_rwlock_cancel_ops False True 2 s \<and> ths s ! 0 = WrHeld \<and>
     rw_nwaitreaders (lk s) = 0 \<and> ths s ! 1 \<noteq> RdHeld \<and> ths s ! 1 \<noteq> WrHeld"
  using rwlock_cancel_mutual_exclusion [OF reach_writer_c [of False True]]
    reach_writer_c [of False True]
  by (simp add: Let_def cnt_def)

end
