(* ===== verification/Sem_Spec.thy ===== *)
theory Sem_Spec
  imports Prelude
begin

text \<open>
  The interface of a counting semaphore that the three implementations of Posix semaphores
  provide (\<^verbatim>\<open>unpv22e/my_pxsem_mmap\<close>, \<^verbatim>\<open>my_pxsem_fifo\<close>, \<^verbatim>\<open>my_pxsem_svsem\<close>), as the locale
  \<open>sem_impl\<close>, and what a client may conclude from it: a sequence of posts and waits never lets
  more waits through than the initial value and the posts allow.
\<close>

text \<open>
  How a call ends: it returns its value, returns \<open>-1\<close> with \<^verbatim>\<open>errno\<close> set, or blocks.
\<close>

datatype sem_out = SemReturn int | SemError int | SemWait

text \<open>The wrappers \<^verbatim>\<open>Mysem_*\<close> end the process when the call fails (\<open>Inl\<close>, with the message).\<close>

definition sem_check :: "string \<Rightarrow> sem_out \<times> 'a \<Rightarrow> string + sem_out \<times> 'a" where
  "sem_check msg res = (case res of (out, s) \<Rightarrow>
     (case out of SemError _ \<Rightarrow> Inl msg | _ \<Rightarrow> Inr (out, s)))"

text \<open>The calls of a client, in the order in which they take effect. A wait that blocks has no
  effect; it takes effect when it is tried again.\<close>

datatype sem_ev = EvPost | EvWait

fun sem_run :: "('s \<Rightarrow> sem_out \<times> 's) \<Rightarrow> ('s \<Rightarrow> sem_out \<times> 's) \<Rightarrow> sem_ev list \<Rightarrow> 's \<Rightarrow>
    sem_out list \<times> 's" where
  "sem_run post wait [] s = ([], s)"
| "sem_run post wait (e # es) s =
     (let (out, s1) = (if e = EvPost then post s else wait s);
          (outs, s2) = sem_run post wait es s1
      in (out # outs, s2))"

text \<open>How many waits of a run were let through, and how many posts it has.\<close>

fun passed :: "sem_ev list \<Rightarrow> sem_out list \<Rightarrow> nat" where
  "passed (e # es) (out # outs) = (if e = EvWait \<and> out = SemReturn 0 then 1 else 0) + passed es outs"
| "passed _ _ = 0"

definition posts :: "sem_ev list \<Rightarrow> nat" where
  "posts es = length (filter (\<lambda>e. e = EvPost) es)"

lemma posts_simps [simp]:
  "posts [] = 0" "posts (EvPost # es) = Suc (posts es)" "posts (EvWait # es) = posts es"
  by (simp_all add: posts_def)

text \<open>The same calls on a number.\<close>

fun counter_run :: "sem_ev list \<Rightarrow> nat \<Rightarrow> sem_out list \<times> nat" where
  "counter_run [] v = ([], v)"
| "counter_run (EvPost # es) v = (case counter_run es (Suc v) of (outs, v') \<Rightarrow> (SemReturn 0 # outs, v'))"
| "counter_run (EvWait # es) v =
     (if v = 0 then (case counter_run es v of (outs, v') \<Rightarrow> (SemWait # outs, v'))
      else (case counter_run es (v - 1) of (outs, v') \<Rightarrow> (SemReturn 0 # outs, v')))"

locale sem_impl =
  fixes sval :: "'s \<Rightarrow> nat" and cap :: nat and sinv :: "'s \<Rightarrow> bool"
    and post :: "'s \<Rightarrow> sem_out \<times> 's" and wait :: "'s \<Rightarrow> sem_out \<times> 's"
  assumes post_ok: "sinv s \<Longrightarrow> sval s < cap \<Longrightarrow>
      fst (post s) = SemReturn 0 \<and> sval (snd (post s)) = Suc (sval s) \<and> sinv (snd (post s))"
    and wait_ok: "sinv s \<Longrightarrow> 0 < sval s \<Longrightarrow>
      fst (wait s) = SemReturn 0 \<and> sval (snd (wait s)) = sval s - 1 \<and> sinv (snd (wait s))"
    and wait_block: "sinv s \<Longrightarrow> sval s = 0 \<Longrightarrow> wait s = (SemWait, s)"
begin

lemma run_conserves:
  assumes "sinv s" and "sval s + posts es \<le> cap" and "sem_run post wait es s = (outs, s')"
  shows "sval s' + passed es outs = sval s + posts es \<and> sinv s'"
  using assms
proof (induction es arbitrary: s outs)
  case Nil
  then show ?case by simp
next
  case (Cons e es)
  obtain out s1 where o: "(if e = EvPost then post s else wait s) = (out, s1)"
    by fastforce
  obtain outs' where r: "sem_run post wait es s1 = (outs', s')" and outs: "outs = out # outs'"
    using Cons.prems(3) o by (auto simp: Let_def split: prod.splits)
  show ?case
  proof (cases e)
    case EvPost
    then have "out = SemReturn 0" and "sval s1 = Suc (sval s)" and "sinv s1"
      using post_ok [OF Cons.prems(1)] Cons.prems(2) o by auto
    then show ?thesis
      using Cons.IH [OF _ _ r] Cons.prems(2) EvPost outs by simp
  next
    case EvWait
    show ?thesis
    proof (cases "sval s = 0")
      case True
      then have "out = SemWait" and "s1 = s"
        using wait_block [OF Cons.prems(1)] o EvWait by auto
      then show ?thesis using Cons.IH [OF _ _ r] Cons.prems EvWait outs by simp
    next
      case False
      then have "out = SemReturn 0" and "sval s1 = sval s - 1" and "sinv s1"
        using wait_ok [OF Cons.prems(1)] o EvWait by auto
      then show ?thesis using Cons.IH [OF _ _ r] Cons.prems(2) EvWait outs False by simp
    qed
  qed
qed

lemma run_counter:
  "sinv s \<Longrightarrow> sval s + posts es \<le> cap \<Longrightarrow> map_prod id sval (sem_run post wait es s) = counter_run es (sval s)"
proof (induction es arbitrary: s)
  case (Cons e es)
  consider "e = EvPost" | "e = EvWait" "sval s = 0" | "e = EvWait" "0 < sval s" by (cases e) auto
  then show ?case
  proof cases
    case 1
    then show ?thesis using post_ok [OF Cons.prems(1)] Cons.IH [of "snd (post s)"] Cons.prems(2)
      by (cases "post s"; cases "sem_run post wait es (snd (post s))") (auto split: prod.splits)
  next
    case 2
    then show ?thesis using wait_block [OF Cons.prems(1)] Cons.IH [of s] Cons.prems
      by (cases "sem_run post wait es s") (auto split: prod.splits)
  next
    case 3
    then show ?thesis using wait_ok [OF Cons.prems(1)] Cons.IH [of "snd (wait s)"] Cons.prems(2)
      by (cases "wait s"; cases "sem_run post wait es (snd (wait s))") (auto split: prod.splits)
  qed
qed simp

end

end
