(* ===== verification/Prodcons.thy ===== *)
theory Prodcons
  imports Sem_Spec
begin

text \<open>
  The producer and the consumer of \<^verbatim>\<open>unpv22e/my_pxsem_mmap/prodcons1.c\<close> (the same program is in
  \<^verbatim>\<open>my_pxsem_fifo\<close> and \<^verbatim>\<open>my_pxsem_svsem\<close>), over an arbitrary implementation of semaphores. The
  operations \<open>post\<close> and \<open>wait\<close> are arguments; the laws of \<open>sem_impl\<close> give the correctness of the
  program once, and each implementation instantiates it.
\<close>

definition NBUFF :: nat where "NBUFF = 10"

text \<open>The position of a thread in the body of its loop: before the first wait, before the wait for
  the mutex, before the access to the buffer, before the post of the mutex, before the last post.\<close>

datatype pos = P0 | P1 | P2 | P3 | P4

record 's prodcons =
  sh_mutex :: 's
  sh_nempty :: 's
  sh_nstored :: 's
  sh_buff :: "int list"
  p_pos :: pos
  p_i :: nat
  c_pos :: pos
  c_i :: nat
  printed :: "(nat \<times> int) list"

text \<open>What one statement of a thread does: it goes on, it cannot (it is blocked, or its loop is
  over), or a wrapper ends the process.\<close>

datatype 'a outcome = Go 'a | Stay | Halt string

definition sem_call :: "string \<Rightarrow> sem_out \<times> 's \<Rightarrow> ('s \<Rightarrow> 'a) \<Rightarrow> 'a outcome" where
  "sem_call msg res k = (case sem_check msg res of
     Inl m \<Rightarrow> Halt m
   | Inr (SemReturn _, s) \<Rightarrow> Go (k s)
   | Inr _ \<Rightarrow> Stay)"

definition produce :: "('s \<Rightarrow> sem_out \<times> 's) \<Rightarrow> ('s \<Rightarrow> sem_out \<times> 's) \<Rightarrow> nat \<Rightarrow> 's prodcons \<Rightarrow>
    's prodcons outcome" where
  "produce post wait nitems st = (case p_pos st of
     P0 \<Rightarrow> if p_i st < nitems
           then sem_call ''mysem_wait error'' (wait (sh_nempty st))
                  (\<lambda>s. st\<lparr>sh_nempty := s, p_pos := P1\<rparr>)
           else Stay
   | P1 \<Rightarrow> sem_call ''mysem_wait error'' (wait (sh_mutex st)) (\<lambda>s. st\<lparr>sh_mutex := s, p_pos := P2\<rparr>)
   | P2 \<Rightarrow> Go (st\<lparr>sh_buff := (sh_buff st)[p_i st mod NBUFF := int (p_i st)], p_pos := P3\<rparr>)
   | P3 \<Rightarrow> sem_call ''mysem_post error'' (post (sh_mutex st)) (\<lambda>s. st\<lparr>sh_mutex := s, p_pos := P4\<rparr>)
   | P4 \<Rightarrow> sem_call ''mysem_post error'' (post (sh_nstored st))
             (\<lambda>s. st\<lparr>sh_nstored := s, p_pos := P0, p_i := Suc (p_i st)\<rparr>))"

definition consume :: "('s \<Rightarrow> sem_out \<times> 's) \<Rightarrow> ('s \<Rightarrow> sem_out \<times> 's) \<Rightarrow> nat \<Rightarrow> 's prodcons \<Rightarrow>
    's prodcons outcome" where
  "consume post wait nitems st = (case c_pos st of
     P0 \<Rightarrow> if c_i st < nitems
           then sem_call ''mysem_wait error'' (wait (sh_nstored st))
                  (\<lambda>s. st\<lparr>sh_nstored := s, c_pos := P1\<rparr>)
           else Stay
   | P1 \<Rightarrow> sem_call ''mysem_wait error'' (wait (sh_mutex st)) (\<lambda>s. st\<lparr>sh_mutex := s, c_pos := P2\<rparr>)
   | P2 \<Rightarrow> (let v = sh_buff st ! (c_i st mod NBUFF) in
            Go (st\<lparr>printed := (if v \<noteq> int (c_i st) then printed st @ [(c_i st, v)] else printed st),
                   c_pos := P3\<rparr>))
   | P3 \<Rightarrow> sem_call ''mysem_post error'' (post (sh_mutex st)) (\<lambda>s. st\<lparr>sh_mutex := s, c_pos := P4\<rparr>)
   | P4 \<Rightarrow> sem_call ''mysem_post error'' (post (sh_nempty st))
             (\<lambda>s. st\<lparr>sh_nempty := s, c_pos := P0, c_i := Suc (c_i st)\<rparr>))"

text \<open>\<^verbatim>\<open>main\<close> opens the three semaphores with the values 1, \<open>NBUFF\<close> and 0; \<open>mk v\<close> is a semaphore
  opened with the value \<open>v\<close>. The buffer is a static object.\<close>

definition prodcons_main :: "(nat \<Rightarrow> 's) \<Rightarrow> 's prodcons" where
  "prodcons_main mk = \<lparr>sh_mutex = mk 1, sh_nempty = mk NBUFF, sh_nstored = mk 0,
     sh_buff = replicate NBUFF 0, p_pos = P0, p_i = 0, c_pos = P0, c_i = 0, printed = []\<rparr>"

text \<open>The two threads interleave. \<open>pc_reach n\<close> says how many statements have been executed.\<close>

inductive pc_step :: "('s \<Rightarrow> sem_out \<times> 's) \<Rightarrow> ('s \<Rightarrow> sem_out \<times> 's) \<Rightarrow> nat \<Rightarrow> 's prodcons \<Rightarrow>
    's prodcons outcome \<Rightarrow> bool" for post wait nitems where
  producer: "produce post wait nitems st = r \<Longrightarrow> r \<noteq> Stay \<Longrightarrow> pc_step post wait nitems st r"
| consumer: "consume post wait nitems st = r \<Longrightarrow> r \<noteq> Stay \<Longrightarrow> pc_step post wait nitems st r"

inductive pc_reach :: "('s \<Rightarrow> sem_out \<times> 's) \<Rightarrow> ('s \<Rightarrow> sem_out \<times> 's) \<Rightarrow> (nat \<Rightarrow> 's) \<Rightarrow> nat \<Rightarrow> nat \<Rightarrow>
    's prodcons \<Rightarrow> bool" for post wait mk nitems where
  start: "pc_reach post wait mk nitems 0 (prodcons_main mk)"
| step: "pc_reach post wait mk nitems n st \<Longrightarrow> pc_step post wait nitems st (Go st') \<Longrightarrow>
    pc_reach post wait mk nitems (Suc n) st'"

text \<open>The invariant: what each semaphore counts, and which slots hold which items.\<close>

fun pnum :: "pos \<Rightarrow> nat" where
  "pnum P0 = 0" | "pnum P1 = 1" | "pnum P2 = 2" | "pnum P3 = 3" | "pnum P4 = 4"

definition in_crit :: "pos \<Rightarrow> nat" where
  "in_crit p = (if p = P2 \<or> p = P3 then 1 else 0)"

definition started :: "pos \<Rightarrow> nat" where
  "started p = (if p = P0 then 0 else 1)"

definition stored :: "pos \<Rightarrow> nat" where
  "stored p = (if p = P3 \<or> p = P4 then 1 else 0)"

lemma pos_simps [simp]:
  "in_crit P0 = 0" "in_crit P1 = 0" "in_crit P2 = 1" "in_crit P3 = 1" "in_crit P4 = 0"
  "started P0 = 0" "started P1 = 1" "started P2 = 1" "started P3 = 1" "started P4 = 1"
  "stored P0 = 0" "stored P1 = 0" "stored P2 = 0" "stored P3 = 1" "stored P4 = 1"
  by (simp_all add: in_crit_def started_def stored_def)

definition holds_items :: "int list \<Rightarrow> nat \<Rightarrow> nat \<Rightarrow> bool" where
  "holds_items b lo hi \<longleftrightarrow> length b = NBUFF \<and>
     (\<forall>k. lo \<le> k \<longrightarrow> k < hi \<longrightarrow> b ! (k mod NBUFF) = int k)"

lemma mod_window_neq:
  fixes k i N :: nat
  assumes "k < i" and "i < k + N"
  shows "k mod N \<noteq> i mod N"
proof
  assume "k mod N = i mod N"
  then have "N dvd i - k"
    using assms(1) mod_eq_dvd_iff_nat [of k i N] by simp
  then show False using assms by (auto dest: dvd_imp_le)
qed

lemma holds_items_store:
  assumes "holds_items b lo i" and "i < lo + NBUFF"
  shows "holds_items (b[i mod NBUFF := int i]) lo (Suc i)"
proof -
  have "k mod NBUFF \<noteq> i mod NBUFF" if "lo \<le> k" "k < i" for k
    using mod_window_neq [of k i NBUFF] that assms(2) by linarith
  moreover have "length b = NBUFF"
    using assms(1) by (simp add: holds_items_def)
  moreover have "i mod NBUFF < NBUFF"
    by (simp add: NBUFF_def)
  ultimately show ?thesis
    using assms(1) by (simp add: holds_items_def nth_list_update less_Suc_eq) metis
qed

lemma holds_items_mono: "holds_items b lo hi \<Longrightarrow> holds_items b (Suc lo) hi"
  by (simp add: holds_items_def)

lemma holds_items_get: "holds_items b lo hi \<Longrightarrow> lo < hi \<Longrightarrow> b ! (lo mod NBUFF) = int lo"
  by (simp add: holds_items_def)

locale prodcons_impl = sem_impl +
  fixes mk :: "nat \<Rightarrow> 'a"
  assumes mk_ok: "v \<le> NBUFF \<Longrightarrow> sinv (mk v) \<and> sval (mk v) = v"
    and cap_ok: "NBUFF \<le> cap"
begin

definition pc_inv :: "nat \<Rightarrow> nat \<Rightarrow> 'a prodcons \<Rightarrow> bool" where
  "pc_inv nitems n st \<longleftrightarrow>
     sinv (sh_mutex st) \<and> sinv (sh_nempty st) \<and> sinv (sh_nstored st) \<and>
     sval (sh_mutex st) + in_crit (p_pos st) + in_crit (c_pos st) = 1 \<and>
     sval (sh_nempty st) + p_i st + started (p_pos st) = NBUFF + c_i st \<and>
     sval (sh_nstored st) + c_i st + started (c_pos st) = p_i st \<and>
     p_i st + started (p_pos st) \<le> nitems \<and>
     holds_items (sh_buff st) (c_i st) (p_i st + stored (p_pos st)) \<and>
     printed st = [] \<and>
     n = 5 * p_i st + pnum (p_pos st) + 5 * c_i st + pnum (c_pos st)"

lemma call_wait:
  assumes "sinv s"
  shows "sem_call msg (wait s) k = (if sval s = 0 then Stay else Go (k (snd (wait s))))"
  using assms wait_ok [of s] wait_block [of s]
  by (cases "wait s") (auto simp: sem_call_def sem_check_def)

lemma call_post:
  assumes "sinv s" and "sval s < cap"
  shows "sem_call msg (post s) k = Go (k (snd (post s)))"
  using assms post_ok [of s] by (cases "post s") (auto simp: sem_call_def sem_check_def)

lemma post_not_stay:
  assumes "sinv s" and "sval s < cap"
  shows "sem_call msg (post s) k \<noteq> Stay"
  by (simp add: call_post [OF assms])

lemma main_inv: "pc_inv nitems 0 (prodcons_main mk)"
  using mk_ok [of 1] mk_ok [of NBUFF] mk_ok [of 0]
  by (simp add: pc_inv_def prodcons_main_def holds_items_def NBUFF_def)

lemma inv_caps:
  assumes "pc_inv nitems n st"
  shows "p_pos st = P3 \<or> c_pos st = P3 \<Longrightarrow> sval (sh_mutex st) < cap"
    and "p_pos st = P4 \<Longrightarrow> sval (sh_nstored st) < cap"
    and "c_pos st = P4 \<Longrightarrow> sval (sh_nempty st) < cap"
  using assms cap_ok by (auto simp: pc_inv_def NBUFF_def)

lemma inv_sinv:
  assumes "pc_inv nitems n st"
  shows "sinv (sh_mutex st)" and "sinv (sh_nempty st)" and "sinv (sh_nstored st)"
  using assms by (auto simp: pc_inv_def)

lemma produce_inv:
  assumes "pc_inv nitems n st" and "produce post wait nitems st = r" and "r \<noteq> Stay"
  shows "\<exists>st'. r = Go st' \<and> pc_inv nitems (Suc n) st'"
proof (cases "p_pos st")
  case P0
  then show ?thesis
    using assms wait_ok [of "sh_nempty st"]
    by (auto simp: produce_def call_wait pc_inv_def split: if_splits)
next
  case P1
  then show ?thesis
    using assms wait_ok [of "sh_mutex st"]
    by (auto simp: produce_def call_wait pc_inv_def split: if_splits)
next
  case P2
  then show ?thesis
    using assms holds_items_store [of "sh_buff st" "c_i st" "p_i st"]
    by (auto simp: produce_def pc_inv_def)
next
  case P3
  have "sval (sh_mutex st) < cap" and "sinv (sh_mutex st)"
    using inv_caps [OF assms(1)] inv_sinv [OF assms(1)] P3 by auto
  then show ?thesis
    using assms P3 post_ok [of "sh_mutex st"]
    by (auto simp: produce_def call_post pc_inv_def)
next
  case P4
  have "sval (sh_nstored st) < cap" and "sinv (sh_nstored st)"
    using inv_caps [OF assms(1)] inv_sinv [OF assms(1)] P4 by auto
  then show ?thesis
    using assms P4 post_ok [of "sh_nstored st"]
    by (auto simp: produce_def call_post pc_inv_def)
qed

lemma consume_inv:
  assumes "pc_inv nitems n st" and "consume post wait nitems st = r" and "r \<noteq> Stay"
  shows "\<exists>st'. r = Go st' \<and> pc_inv nitems (Suc n) st'"
proof (cases "c_pos st")
  case P0
  then show ?thesis
    using assms wait_ok [of "sh_nstored st"]
    by (auto simp: consume_def call_wait pc_inv_def split: if_splits)
next
  case P1
  then show ?thesis
    using assms wait_ok [of "sh_mutex st"]
    by (auto simp: consume_def call_wait pc_inv_def split: if_splits)
next
  case P2
  then show ?thesis
    using assms holds_items_get [of "sh_buff st" "c_i st" "p_i st + stored (p_pos st)"]
    by (auto simp: consume_def pc_inv_def Let_def)
next
  case P3
  have "sval (sh_mutex st) < cap" and "sinv (sh_mutex st)"
    using inv_caps [OF assms(1)] inv_sinv [OF assms(1)] P3 by auto
  then show ?thesis
    using assms P3 post_ok [of "sh_mutex st"]
    by (auto simp: consume_def call_post pc_inv_def)
next
  case P4
  have "sval (sh_nempty st) < cap" and "sinv (sh_nempty st)"
    using inv_caps [OF assms(1)] inv_sinv [OF assms(1)] P4 by auto
  then show ?thesis
    using assms P4 post_ok [of "sh_nempty st"]
      holds_items_mono [of "sh_buff st" "c_i st"]
    by (auto simp: consume_def call_post pc_inv_def)
qed

lemma step_pc_inv:
  assumes "pc_inv nitems n st" and "pc_step post wait nitems st r"
  shows "\<exists>st'. r = Go st' \<and> pc_inv nitems (Suc n) st'"
  using assms(2) by (cases rule: pc_step.cases) (auto intro: produce_inv consume_inv assms(1))

lemma reach_pc_inv: "pc_reach post wait mk nitems n st \<Longrightarrow> pc_inv nitems n st"
  by (induction rule: pc_reach.induct) (auto intro: main_inv dest: step_pc_inv)

lemma reach_no_print: "pc_reach post wait mk nitems n st \<Longrightarrow> printed st = []"
  using reach_pc_inv by (simp add: pc_inv_def)

lemma reach_bounded: "pc_reach post wait mk nitems n st \<Longrightarrow> n \<le> 10 * nitems"
  using reach_pc_inv [of nitems n st]
  by (cases "p_pos st"; cases "c_pos st") (auto simp: pc_inv_def)

lemma no_halt: "pc_reach post wait mk nitems n st \<Longrightarrow> \<not> pc_step post wait nitems st (Halt m)"
  using step_pc_inv [OF reach_pc_inv] by blast

lemma produce_stay:
  assumes "pc_inv nitems n st" and "produce post wait nitems st = Stay"
  shows "p_pos st = P0 \<and> (p_i st = nitems \<or> sval (sh_nempty st) = 0) \<or>
    p_pos st = P1 \<and> sval (sh_mutex st) = 0"
proof (cases "p_pos st")
qed (use assms inv_sinv [OF assms(1)] inv_caps [OF assms(1)]
      in \<open>auto simp: produce_def call_wait post_not_stay pc_inv_def split: if_splits\<close>)

lemma consume_stay:
  assumes "pc_inv nitems n st" and "consume post wait nitems st = Stay"
  shows "c_pos st = P0 \<and> (nitems \<le> c_i st \<or> sval (sh_nstored st) = 0) \<or>
    c_pos st = P1 \<and> sval (sh_mutex st) = 0"
proof (cases "c_pos st")
qed (use assms inv_sinv [OF assms(1)] inv_caps [OF assms(1)]
      in \<open>auto simp: consume_def call_wait post_not_stay Let_def split: if_splits\<close>)

lemma stuck_finished:
  assumes "pc_inv nitems n st" and "\<And>r. \<not> pc_step post wait nitems st r"
  shows "p_i st = nitems \<and> c_i st = nitems \<and> n = 10 * nitems"
proof -
  have "produce post wait nitems st = Stay" and "consume post wait nitems st = Stay"
    using assms(2) pc_step.intros by metis+
  then show ?thesis
    using produce_stay [OF assms(1)] consume_stay [OF assms(1)] assms(1)
    by (auto simp: pc_inv_def NBUFF_def)
qed

text \<open>Every run of the program ends, after ten statements for every item, with all the items
  transferred.\<close>

lemma reach_stuck_finished:
  assumes "pc_reach post wait mk nitems n st" and "\<And>r. \<not> pc_step post wait nitems st r"
  shows "p_i st = nitems \<and> c_i st = nitems \<and> n = 10 * nitems"
  using stuck_finished [OF reach_pc_inv [OF assms(1)]] assms(2) by blast

lemma reach_progress:
  assumes "pc_reach post wait mk nitems n st"
  shows "n = 10 * nitems \<and> p_i st = nitems \<and> c_i st = nitems \<or>
    (\<exists>st'. pc_step post wait nitems st (Go st'))"
proof (cases "\<exists>r. pc_step post wait nitems st r")
  case True
  then show ?thesis using step_pc_inv [OF reach_pc_inv [OF assms]] by blast
next
  case False
  then show ?thesis using reach_stuck_finished [OF assms] by blast
qed

end

end
