(* ===== verification/Open_Acts.thy ===== *)
theory Open_Acts
  imports Prelude "HOL-Library.Sublist"
begin

text \<open>
  What the functions that open and close an object (\<^verbatim>\<open>mysem_open\<close>, \<^verbatim>\<open>mymq_open\<close>, \<dots>) do to the
  resources of the process and of the system, as a list of actions, and the accounts drawn
  from such a list: which descriptors are still open, which mappings and blocks of memory are
  still held, whether a file the call has created is left behind.
\<close>

text \<open>A mapping is named by the attempt (the number of \<^verbatim>\<open>goto again\<close> executed) that made it.\<close>

datatype act =
    Opened int
  | Closed int
  | Mapped nat
  | Unmapped nat
  | Allocated
  | Freed
  | FileCreated
  | FileUnlinked
  | Wrote
  | MutexInit
  | CondInit
  | CountSet
  | UserExecOff
  | IpcCreated int
  | IpcRemoved int
  | Slept

text \<open>How an attempt ends: the function returns, or goes back to \<^verbatim>\<open>again\<close> with the mapping its
  pointer variable holds.\<close>

datatype 'r attempt = Done "int + 'r" | Again "nat option"

fun fds :: "act list \<Rightarrow> int list \<Rightarrow> int list" where
  "fds [] xs = xs"
| "fds (Opened fd # as) xs = fds as (fd # xs)"
| "fds (Closed fd # as) xs = fds as (remove1 fd xs)"
| "fds (_ # as) xs = fds as xs"

fun maps :: "act list \<Rightarrow> nat list \<Rightarrow> nat list" where
  "maps [] xs = xs"
| "maps (Mapped m # as) xs = maps as (m # xs)"
| "maps (Unmapped m # as) xs = maps as (remove1 m xs)"
| "maps (_ # as) xs = maps as xs"

text \<open>A created file is left behind, with the user-execute bit still on or already off.\<close>

fun file_left :: "act list \<Rightarrow> bool \<Rightarrow> bool" where
  "file_left [] b = b"
| "file_left (FileCreated # as) b = file_left as True"
| "file_left (FileUnlinked # as) b = file_left as False"
| "file_left (_ # as) b = file_left as b"

lemma fds_append: "fds (as @ bs) xs = fds bs (fds as xs)"
  by (induction as xs rule: fds.induct) auto

lemma maps_append: "maps (as @ bs) xs = maps bs (maps as xs)"
  by (induction as xs rule: maps.induct) auto

lemma file_left_append: "file_left (as @ bs) b = file_left bs (file_left as b)"
  by (induction as b rule: file_left.induct) auto

text \<open>The wait for the creator of the file to finish: at most \<open>n\<close> calls of \<^verbatim>\<open>stat\<close>, a second apart.
  The \<open>i\<close>-th call fails with an error or says whether the user-execute bit is on.\<close>

datatype stat_res = StReady | StAgain | StErr int

fun init_wait :: "bool \<Rightarrow> (nat \<Rightarrow> int + bool) \<Rightarrow> nat \<Rightarrow> nat \<Rightarrow> act list \<times> stat_res" where
  "init_wait creat st i 0 = ([], StErr ETIMEDOUT)"
| "init_wait creat st i (Suc n) = (case st i of
     Inl e \<Rightarrow> ([], if e = ENOENT \<and> creat then StAgain else StErr e)
   | Inr ixusr \<Rightarrow>
       if \<not> ixusr then ([], StReady)
       else (let (as, r) = init_wait creat st (Suc i) n in (Slept # as, r)))"

lemma init_wait_acts [simp]:
  "fds (fst (init_wait creat st i n)) xs = xs"
  "maps (fst (init_wait creat st i n)) ms = ms"
  "file_left (fst (init_wait creat st i n)) b = b"
  by (induction n arbitrary: i) (simp_all add: Let_def case_prod_beta split: sum.split)

lemma init_wait_ready:
  "snd (init_wait creat st i n) = StReady \<Longrightarrow> \<exists>j. i \<le> j \<and> j < i + n \<and> st j = Inr False"
proof (induction n arbitrary: i)
  case (Suc n)
  show ?case
  proof (cases "st i = Inr False")
    case False
    then have "snd (init_wait creat st (Suc i) n) = StReady"
      using Suc.prems by (simp add: Let_def case_prod_beta split: sum.splits if_splits)
    then obtain j where "Suc i \<le> j" and "j < Suc i + n" and "st j = Inr False"
      using Suc.IH by blast
    then show ?thesis by (intro exI [of _ j]) simp
  qed auto
qed simp

lemma init_wait_again: "snd (init_wait creat st i n) = StAgain \<Longrightarrow> creat"
  by (induction n arbitrary: i) (simp_all add: Let_def case_prod_beta split: sum.splits if_splits)

end
