(* ===== verification/Sem_Mmap.thy ===== *)
theory Sem_Mmap
  imports Prodcons Open_Acts
begin

text \<open>
  Posix semaphores in a memory-mapped file (\<^verbatim>\<open>unpv22e/my_pxsem_mmap\<close>): the functions
  \<^verbatim>\<open>mysem_wait\<close>, \<^verbatim>\<open>mysem_trywait\<close>, \<^verbatim>\<open>mysem_post\<close>, \<^verbatim>\<open>mysem_getvalue\<close>, \<^verbatim>\<open>mysem_open\<close>,
  \<^verbatim>\<open>mysem_close\<close>, \<^verbatim>\<open>mysem_unlink\<close> and their wrappers, and the system of threads that block on
  one semaphore. As for the read-write locks, a function runs with the mutex held and
  \<open>SemWait\<close> is its call of \<^verbatim>\<open>pthread_cond_wait\<close>.
\<close>

section \<open>The semaphore\<close>

record mysem =
  sem_count :: "32 word"
  sem_magic :: int

definition SEM_MAGIC :: int where "SEM_MAGIC = 0x67458923"

text \<open>The first argument of the functions below is the result of \<^verbatim>\<open>pthread_mutex_lock\<close>.
  \<open>mysem_post\<close> also says whether it signals the condition variable.\<close>

definition mysem_post :: "int \<Rightarrow> mysem \<Rightarrow> sem_out \<times> bool \<times> mysem" where
  "mysem_post lock_res sem =
     (if sem_magic sem \<noteq> SEM_MAGIC then (SemError EINVAL, False, sem)
      else if lock_res \<noteq> 0 then (SemError lock_res, False, sem)
      else (SemReturn 0, sem_count sem = 0, sem\<lparr>sem_count := sem_count sem + 1\<rparr>))"

text \<open>The loop of \<^verbatim>\<open>mysem_wait\<close>: entered after the lock, and again when the wait returns.\<close>

definition wait_loop :: "mysem \<Rightarrow> sem_out \<times> mysem" where
  "wait_loop sem =
     (if sem_count sem = 0 then (SemWait, sem)
      else (SemReturn 0, sem\<lparr>sem_count := sem_count sem - 1\<rparr>))"

definition mysem_wait :: "int \<Rightarrow> mysem \<Rightarrow> sem_out \<times> mysem" where
  "mysem_wait lock_res sem =
     (if sem_magic sem \<noteq> SEM_MAGIC then (SemError EINVAL, sem)
      else if lock_res \<noteq> 0 then (SemError lock_res, sem)
      else wait_loop sem)"

definition mysem_trywait :: "int \<Rightarrow> mysem \<Rightarrow> sem_out \<times> mysem" where
  "mysem_trywait lock_res sem =
     (if sem_magic sem \<noteq> SEM_MAGIC then (SemError EINVAL, sem)
      else if lock_res \<noteq> 0 then (SemError lock_res, sem)
      else if sem_count sem > 0 then (SemReturn 0, sem\<lparr>sem_count := sem_count sem - 1\<rparr>)
      else (SemError EAGAIN, sem))"

text \<open>The value stored through \<^verbatim>\<open>pvalue\<close> is the count converted to a signed integer.\<close>

definition mysem_getvalue :: "int \<Rightarrow> mysem \<Rightarrow> sem_out \<times> int option" where
  "mysem_getvalue lock_res sem =
     (if sem_magic sem \<noteq> SEM_MAGIC then (SemError EINVAL, None)
      else if lock_res \<noteq> 0 then (SemError lock_res, None)
      else (SemReturn 0, Some (sint (sem_count sem))))"

text \<open>\<open>munmap_err\<close> and \<open>unlink_err\<close> are the error of the system call, if it fails.\<close>

definition mysem_close :: "int option \<Rightarrow> mysem \<Rightarrow> sem_out" where
  "mysem_close munmap_err sem =
     (if sem_magic sem \<noteq> SEM_MAGIC then SemError EINVAL
      else case munmap_err of Some e \<Rightarrow> SemError e | None \<Rightarrow> SemReturn 0)"

definition mysem_unlink :: "int option \<Rightarrow> sem_out" where
  "mysem_unlink unlink_err = (case unlink_err of Some e \<Rightarrow> SemError e | None \<Rightarrow> SemReturn 0)"

text \<open>The wrappers. \<^verbatim>\<open>Mysem_trywait\<close> lets \<^verbatim>\<open>EAGAIN\<close> through.\<close>

definition Mysem_post :: "int \<Rightarrow> mysem \<Rightarrow> string + sem_out \<times> bool \<times> mysem" where
  "Mysem_post r sem = sem_check ''mysem_post error'' (mysem_post r sem)"

definition Mysem_wait :: "int \<Rightarrow> mysem \<Rightarrow> string + sem_out \<times> mysem" where
  "Mysem_wait r sem = sem_check ''mysem_wait error'' (mysem_wait r sem)"

definition Mysem_trywait :: "int \<Rightarrow> mysem \<Rightarrow> string + sem_out \<times> mysem" where
  "Mysem_trywait r sem =
     (case mysem_trywait r sem of (out, sem') \<Rightarrow>
        (case out of SemError e \<Rightarrow> if e \<noteq> EAGAIN then Inl ''mysem_trywait error'' else Inr (out, sem')
         | _ \<Rightarrow> Inr (out, sem')))"

definition Mysem_getvalue :: "int \<Rightarrow> mysem \<Rightarrow> string + sem_out \<times> int option" where
  "Mysem_getvalue r sem = sem_check ''mysem_getvalue error'' (mysem_getvalue r sem)"

definition Mysem_close :: "int option \<Rightarrow> mysem \<Rightarrow> string + sem_out \<times> mysem" where
  "Mysem_close e sem = sem_check ''mysem_close error'' (mysem_close e sem, sem)"

definition Mysem_unlink :: "int option \<Rightarrow> string + sem_out \<times> unit" where
  "Mysem_unlink e = sem_check ''mysem_unlink error'' (mysem_unlink e, ())"

lemmas sem_defs = mysem_post_def mysem_wait_def wait_loop_def mysem_trywait_def mysem_getvalue_def

section \<open>The semaphore interface\<close>

lemma unat_plus_one: "unat (c :: 32 word) < 2 ^ 32 - 1 \<Longrightarrow> unat (c + 1) = Suc (unat c)"
  by (simp add: unat_word_ariths)

lemma unat_minus_one_Suc: "(c :: 32 word) \<noteq> 0 \<Longrightarrow> Suc (unat (c - 1)) = unat c"
  by (simp add: unat_minus_one unat_gt_0)

text \<open>The post as an operation of the interface.\<close>

definition post_mmap :: "mysem \<Rightarrow> sem_out \<times> mysem" where
  "post_mmap sem = (let (out, _, sem') = mysem_post 0 sem in (out, sem'))"

interpretation mmap_sem: sem_impl "\<lambda>s. unat (sem_count s)" "2 ^ 32 - 1" "\<lambda>s. sem_magic s = SEM_MAGIC"
  post_mmap "mysem_wait 0"
  by unfold_locales
    (auto simp: sem_defs post_mmap_def unat_plus_one unat_minus_one unat_eq_zero)

definition sem_of :: "nat \<Rightarrow> mysem" where
  "sem_of v = \<lparr>sem_count = of_nat v, sem_magic = SEM_MAGIC\<rparr>"

interpretation mmap_pc: prodcons_impl "\<lambda>s. unat (sem_count s)" "2 ^ 32 - 1" "\<lambda>s. sem_magic s = SEM_MAGIC"
  post_mmap "mysem_wait 0" sem_of
  by unfold_locales (auto simp: sem_of_def NBUFF_def unat_of_nat)

text \<open>A semaphore with value \<open>v\<close> lets through at most \<open>v\<close> waits more than there are posts,
  and its count is what remains, as long as the sum stays below \<open>2 ^ 32\<close>.\<close>

theorem mmap_sem_conserves:
  assumes "sem_magic s = SEM_MAGIC" and "unat (sem_count s) + posts es < 2 ^ 32"
    and "sem_run post_mmap (mysem_wait 0) es s = (outs, s')"
  shows "unat (sem_count s') + passed es outs = unat (sem_count s) + posts es"
  using mmap_sem.run_conserves [of s es outs s'] assms by simp

theorem mmap_sem_conserves_witness:
  "unat (sem_count (sem_of 0)) + passed [EvWait, EvWait, EvPost, EvWait]
     [SemReturn 0, SemWait, SemReturn 0, SemReturn 0] = 2"
  using mmap_sem_conserves [of "sem_of 1" "[EvWait, EvWait, EvPost, EvWait]"
      "[SemReturn 0, SemWait, SemReturn 0, SemReturn 0]" "sem_of 0"]
  by (simp add: sem_defs post_mmap_def sem_of_def)

section \<open>Threads that block\<close>

text \<open>A thread that calls \<^verbatim>\<open>mysem_wait\<close> sleeps in \<^verbatim>\<open>pthread_cond_wait\<close> until it is woken by a signal
  or without cause, and then runs the loop again. \<open>acquired\<close> and \<open>posted\<close> count the successful
  calls.\<close>

datatype sphase = SIdle | SSleep | SWoken

record sem_sys =
  ss_sem :: mysem
  ss_threads :: "sphase list"
  acquired :: nat
  posted :: nat

definition sphase_of :: "sem_out \<Rightarrow> sphase" where
  "sphase_of out = (if out = SemWait then SSleep else SIdle)"

definition won :: "sem_out \<Rightarrow> nat" where
  "won out = (if out = SemReturn 0 then 1 else 0)"

text \<open>A signal wakes one sleeping thread, if there is one.\<close>

inductive signalled :: "bool \<Rightarrow> sphase list \<Rightarrow> sphase list \<Rightarrow> bool" where
  no_signal: "signalled False ts ts"
| nobody: "SSleep \<notin> set ts \<Longrightarrow> signalled True ts ts"
| one: "j < length ts \<Longrightarrow> ts ! j = SSleep \<Longrightarrow> signalled True ts (ts[j := SWoken])"

inductive sem_step :: "sem_sys \<Rightarrow> sem_sys \<Rightarrow> bool" where
  wait: "i < length (ss_threads s) \<Longrightarrow> ss_threads s ! i = SIdle \<Longrightarrow>
    mysem_wait r (ss_sem s) = (out, m) \<Longrightarrow>
    sem_step s (s\<lparr>ss_sem := m, ss_threads := (ss_threads s)[i := sphase_of out],
                  acquired := acquired s + won out\<rparr>)"
| resume: "i < length (ss_threads s) \<Longrightarrow> ss_threads s ! i = SWoken \<Longrightarrow>
    wait_loop (ss_sem s) = (out, m) \<Longrightarrow>
    sem_step s (s\<lparr>ss_sem := m, ss_threads := (ss_threads s)[i := sphase_of out],
                  acquired := acquired s + won out\<rparr>)"
| trywait: "i < length (ss_threads s) \<Longrightarrow> ss_threads s ! i = SIdle \<Longrightarrow>
    mysem_trywait r (ss_sem s) = (out, m) \<Longrightarrow>
    sem_step s (s\<lparr>ss_sem := m, acquired := acquired s + won out\<rparr>)"
| post: "i < length (ss_threads s) \<Longrightarrow> ss_threads s ! i = SIdle \<Longrightarrow>
    mysem_post r (ss_sem s) = (out, sig, m) \<Longrightarrow> signalled sig (ss_threads s) ts \<Longrightarrow>
    sem_step s (s\<lparr>ss_sem := m, ss_threads := ts, posted := posted s + won out\<rparr>)"
| spurious: "i < length (ss_threads s) \<Longrightarrow> ss_threads s ! i = SSleep \<Longrightarrow>
    sem_step s (s\<lparr>ss_threads := (ss_threads s)[i := SWoken]\<rparr>)"

inductive sem_reach :: "nat \<Rightarrow> 32 word \<Rightarrow> sem_sys \<Rightarrow> bool" for n v where
  start: "sem_reach n v \<lparr>ss_sem = \<lparr>sem_count = v, sem_magic = SEM_MAGIC\<rparr>,
    ss_threads = replicate n SIdle, acquired = 0, posted = 0\<rparr>"
| step: "sem_reach n v s \<Longrightarrow> sem_step s s' \<Longrightarrow> sem_reach n v s'"

definition sem_balance :: "32 word \<Rightarrow> sem_sys \<Rightarrow> bool" where
  "sem_balance v s \<longleftrightarrow> sem_magic (ss_sem s) = SEM_MAGIC \<and>
     (unat v + posted s < 2 ^ 32 \<longrightarrow> unat (sem_count (ss_sem s)) + acquired s = unat v + posted s)"

lemma wait_loop_balance:
  "wait_loop m = (out, m') \<Longrightarrow> sem_magic m' = sem_magic m \<and>
     unat (sem_count m') + won out = unat (sem_count m)"
  by (auto simp: wait_loop_def won_def unat_minus_one_Suc split: if_splits)

lemma wait_balance:
  "mysem_wait r m = (out, m') \<Longrightarrow> sem_magic m' = sem_magic m \<and>
     unat (sem_count m') + won out = unat (sem_count m)"
  using wait_loop_balance [of m out m'] by (auto simp: mysem_wait_def won_def split: if_splits)

lemma trywait_balance:
  "mysem_trywait r m = (out, m') \<Longrightarrow> sem_magic m' = sem_magic m \<and>
     unat (sem_count m') + won out = unat (sem_count m)"
  by (auto simp: mysem_trywait_def won_def unat_minus_one_Suc word_gt_0 split: if_splits)

lemma post_balance:
  "mysem_post r m = (out, sig, m') \<Longrightarrow> sem_magic m' = sem_magic m \<and>
     (unat (sem_count m) + won out < 2 ^ 32 \<longrightarrow> unat (sem_count m') = unat (sem_count m) + won out)"
  by (auto simp: mysem_post_def won_def unat_plus_one split: if_splits)

lemma step_balance:
  assumes "sem_step s s'" and "sem_balance v s"
  shows "sem_balance v s'"
  using assms
proof (cases rule: sem_step.cases)
  case (wait i r out m)
  then show ?thesis using wait_balance [OF wait(4)] assms(2) by (auto simp: sem_balance_def)
next
  case (resume i out m)
  then show ?thesis using wait_loop_balance [OF resume(4)] assms(2) by (auto simp: sem_balance_def)
next
  case (trywait i r out m)
  then show ?thesis using trywait_balance [OF trywait(4)] assms(2) by (auto simp: sem_balance_def)
next
  case (post i r out sig m ts)
  then show ?thesis using post_balance [OF post(4)] assms(2) by (auto simp: sem_balance_def)
qed (simp add: sem_balance_def)

lemma reach_balance: "sem_reach n v s \<Longrightarrow> sem_balance v s"
proof (induction rule: sem_reach.induct)
  case start
  show ?case by (simp add: sem_balance_def)
next
  case (step s s')
  then show ?case by (blast intro: step_balance)
qed

text \<open>With any number of threads, in any interleaving and with wake-ups without cause, the
  number of acquisitions is the initial value and the posts less the count.\<close>

theorem mmap_sem_threads_conserve:
  assumes "sem_reach n v s" and "unat v + posted s < 2 ^ 32"
  shows "unat (sem_count (ss_sem s)) + acquired s = unat v + posted s"
  using reach_balance [OF assms(1)] assms(2) by (simp add: sem_balance_def)

theorem mmap_sem_threads_conserve_witness:
  "\<exists>s. sem_reach 1 3 s \<and> unat (sem_count (ss_sem s)) + acquired s = 3"
  using mmap_sem_threads_conserve [OF sem_reach.start, of 3 1] sem_reach.start [of 1 3] by fastforce

text \<open>Runs, for the theorem below.\<close>

lemma reach_wait_sleep:
  assumes "sem_reach n v s" and "i < length (ss_threads s)" and "ss_threads s ! i = SIdle"
    and "sem_magic (ss_sem s) = SEM_MAGIC" and "sem_count (ss_sem s) = 0"
    and "s' = s\<lparr>ss_threads := (ss_threads s)[i := SSleep]\<rparr>"
  shows "sem_reach n v s'"
  using sem_reach.step [OF assms(1) sem_step.wait [OF assms(2,3), of 0 SemWait "ss_sem s"]] assms(4-6)
  by (simp add: mysem_wait_def wait_loop_def sphase_of_def won_def)

lemma reach_post:
  assumes "sem_reach n v s" and "i < length (ss_threads s)" and "ss_threads s ! i = SIdle"
    and "sem_magic (ss_sem s) = SEM_MAGIC"
    and "signalled (sem_count (ss_sem s) = 0) (ss_threads s) ts"
    and "s' = s\<lparr>ss_sem := (ss_sem s)\<lparr>sem_count := sem_count (ss_sem s) + 1\<rparr>, ss_threads := ts,
                posted := posted s + 1\<rparr>"
  shows "sem_reach n v s'"
  using sem_reach.step [OF assms(1) sem_step.post [OF assms(2,3) _ assms(5), of 0 "SemReturn 0"]] assms(4,6)
  by (simp add: mysem_post_def won_def)

lemma reach_resume_take:
  assumes "sem_reach n v s" and "i < length (ss_threads s)" and "ss_threads s ! i = SWoken"
    and "sem_count (ss_sem s) \<noteq> 0"
    and "s' = s\<lparr>ss_sem := (ss_sem s)\<lparr>sem_count := sem_count (ss_sem s) - 1\<rparr>,
                ss_threads := (ss_threads s)[i := SIdle], acquired := acquired s + 1\<rparr>"
  shows "sem_reach n v s'"
  using sem_reach.step [OF assms(1) sem_step.resume [OF assms(2,3), of "SemReturn 0"]] assms(4,5)
  by (simp add: wait_loop_def sphase_of_def won_def)

text \<open>The condition variable is signalled only when the count was zero. Two threads sleep,
  a third posts twice before the first wakes: the second post does not signal, and the second
  thread sleeps on although the count is positive.\<close>

theorem mmap_sem_lost_wakeup:
  "\<exists>s. sem_reach 3 0 s \<and> sem_count (ss_sem s) = 1 \<and> ss_threads s = [SIdle, SSleep, SIdle]"
proof -
  define mk where "mk c ts a p = \<lparr>ss_sem = \<lparr>sem_count = c, sem_magic = SEM_MAGIC\<rparr>,
    ss_threads = ts, acquired = a, posted = p\<rparr>" for c ts a p
  have "sem_reach 3 0 (mk 0 [SIdle, SIdle, SIdle] 0 0)"
    using sem_reach.start [of 3 0] by (simp add: mk_def numeral_3_eq_3)
  then have "sem_reach 3 0 (mk 0 [SSleep, SIdle, SIdle] 0 0)"
    by (rule reach_wait_sleep [where i = 0]) (simp_all add: mk_def)
  then have "sem_reach 3 0 (mk 0 [SSleep, SSleep, SIdle] 0 0)"
    by (rule reach_wait_sleep [where i = 1]) (simp_all add: mk_def)
  then have "sem_reach 3 0 (mk 1 [SWoken, SSleep, SIdle] 0 1)"
    by (rule reach_post [where i = 2 and ts = "[SWoken, SSleep, SIdle]"])
      (use signalled.one [of 0 "[SSleep, SSleep, SIdle]"] in \<open>simp_all add: mk_def\<close>)
  then have "sem_reach 3 0 (mk 2 [SWoken, SSleep, SIdle] 0 2)"
    by (rule reach_post [where i = 2 and ts = "[SWoken, SSleep, SIdle]"])
      (simp_all add: mk_def signalled.no_signal)
  then have "sem_reach 3 0 (mk 1 [SIdle, SSleep, SIdle] 1 2)"
    by (rule reach_resume_take [where i = 0]) (simp_all add: mk_def)
  then show ?thesis by (auto simp: mk_def)
qed

section \<open>The producer and the consumer\<close>

text \<open>
  \<^verbatim>\<open>prodcons1.c\<close> over these semaphores, with the condition variables: a thread whose wait finds the count zero sleeps
  until the other thread posts that semaphore and signals, or until it is woken without cause, and then goes on in the loop of
  \<^verbatim>\<open>mysem_wait\<close>.
\<close>

datatype sem_name = Mutex | Nempty | Nstored

record mmap_pc =
  pc :: "mysem prodcons"
  p_phase :: sphase
  c_phase :: sphase

definition sem_named :: "mysem prodcons \<Rightarrow> sem_name \<Rightarrow> mysem" where
  "sem_named st x = (case x of Mutex \<Rightarrow> sh_mutex st | Nempty \<Rightarrow> sh_nempty st | Nstored \<Rightarrow> sh_nstored st)"

text \<open>The semaphore that a thread waits for, or posts, where it is; \<open>x\<close> is the first one it waits for and \<open>y\<close> the last one it posts.\<close>

definition waits_for :: "sem_name \<Rightarrow> pos \<Rightarrow> sem_name option" where
  "waits_for x p = (case p of P0 \<Rightarrow> Some x | P1 \<Rightarrow> Some Mutex | _ \<Rightarrow> None)"

definition posts_to :: "sem_name \<Rightarrow> pos \<Rightarrow> sem_name option" where
  "posts_to y p = (case p of P3 \<Rightarrow> Some Mutex | P4 \<Rightarrow> Some y | _ \<Rightarrow> None)"

text \<open>Whether the statement that posts \<open>y\<close> signals.\<close>

definition post_signals :: "mysem prodcons \<Rightarrow> sem_name option \<Rightarrow> bool" where
  "post_signals st y = (case y of None \<Rightarrow> False | Some n \<Rightarrow> fst (snd (mysem_post 0 (sem_named st n))))"

text \<open>The other thread, which sleeps on \<open>x\<close>, when \<open>y\<close> is posted.\<close>

definition other_phase :: "mysem prodcons \<Rightarrow> sem_name option \<Rightarrow> sem_name option \<Rightarrow> sphase \<Rightarrow> sphase" where
  "other_phase st y x ph = (if ph = SSleep \<and> y = x \<and> post_signals st y then SWoken else ph)"

definition waiter :: "sphase \<Rightarrow> mysem \<Rightarrow> sem_out \<times> mysem" where
  "waiter ph = (if ph = SWoken then wait_loop else mysem_wait 0)"

text \<open>The next statement of a thread that does not sleep. The flag says whether it has been completed; otherwise the thread has
  gone to sleep.\<close>

definition run_producer :: "nat \<Rightarrow> mmap_pc \<Rightarrow> (bool \<times> mmap_pc) outcome" where
  "run_producer nitems s =
     (if p_phase s = SSleep then Stay
      else case produce post_mmap (waiter (p_phase s)) nitems (pc s) of
        Go st \<Rightarrow> Go (True, s\<lparr>pc := st, p_phase := SIdle,
          c_phase := other_phase (pc s) (posts_to Nstored (p_pos (pc s))) (waits_for Nstored (c_pos (pc s))) (c_phase s)\<rparr>)
      | Stay \<Rightarrow> if p_pos (pc s) = P0 \<and> nitems \<le> p_i (pc s) then Stay else Go (False, s\<lparr>p_phase := SSleep\<rparr>)
      | Halt m \<Rightarrow> Halt m)"

definition run_consumer :: "nat \<Rightarrow> mmap_pc \<Rightarrow> (bool \<times> mmap_pc) outcome" where
  "run_consumer nitems s =
     (if c_phase s = SSleep then Stay
      else case consume post_mmap (waiter (c_phase s)) nitems (pc s) of
        Go st \<Rightarrow> Go (True, s\<lparr>pc := st, c_phase := SIdle,
          p_phase := other_phase (pc s) (posts_to Nempty (c_pos (pc s))) (waits_for Nempty (p_pos (pc s))) (p_phase s)\<rparr>)
      | Stay \<Rightarrow> if c_pos (pc s) = P0 \<and> nitems \<le> c_i (pc s) then Stay else Go (False, s\<lparr>c_phase := SSleep\<rparr>)
      | Halt m \<Rightarrow> Halt m)"

text \<open>\<open>n\<close> completed statements, \<open>z\<close> times a thread has gone to sleep, \<open>w\<close> times one has been woken without cause.\<close>

inductive mmap_reach :: "nat \<Rightarrow> nat \<Rightarrow> nat \<Rightarrow> nat \<Rightarrow> mmap_pc \<Rightarrow> bool" for nitems where
  start: "mmap_reach nitems 0 0 0 \<lparr>pc = prodcons_main sem_of, p_phase = SIdle, c_phase = SIdle\<rparr>"
| producer: "mmap_reach nitems n z w s \<Longrightarrow> run_producer nitems s = Go (b, s') \<Longrightarrow>
    mmap_reach nitems (if b then Suc n else n) (if b then z else Suc z) w s'"
| consumer: "mmap_reach nitems n z w s \<Longrightarrow> run_consumer nitems s = Go (b, s') \<Longrightarrow>
    mmap_reach nitems (if b then Suc n else n) (if b then z else Suc z) w s'"
| spurious_p: "mmap_reach nitems n z w s \<Longrightarrow> p_phase s = SSleep \<Longrightarrow> mmap_reach nitems n z (Suc w) (s\<lparr>p_phase := SWoken\<rparr>)"
| spurious_c: "mmap_reach nitems n z w s \<Longrightarrow> c_phase s = SSleep \<Longrightarrow> mmap_reach nitems n z (Suc w) (s\<lparr>c_phase := SWoken\<rparr>)"

text \<open>A thread that sleeps has not been forgotten: its semaphore is still zero.\<close>

definition sleeps_right :: "mysem prodcons \<Rightarrow> sem_name option \<Rightarrow> sphase \<Rightarrow> bool" where
  "sleeps_right st x ph \<longleftrightarrow> (ph = SSleep \<longrightarrow> (\<exists>n. x = Some n \<and> sem_count (sem_named st n) = 0))"

definition asleep :: "sphase \<Rightarrow> nat" where
  "asleep ph = (if ph = SSleep then 1 else 0)"

definition posts_done :: "mysem prodcons \<Rightarrow> nat" where
  "posts_done st = 2 * p_i st + (if p_pos st = P4 then 1 else 0) + 2 * c_i st + (if c_pos st = P4 then 1 else 0)"

definition mmap_inv :: "nat \<Rightarrow> nat \<Rightarrow> nat \<Rightarrow> nat \<Rightarrow> mmap_pc \<Rightarrow> bool" where
  "mmap_inv nitems n z w s \<longleftrightarrow> pc_reach post_mmap (mysem_wait 0) sem_of nitems n (pc s) \<and>
     sleeps_right (pc s) (waits_for Nempty (p_pos (pc s))) (p_phase s) \<and>
     sleeps_right (pc s) (waits_for Nstored (c_pos (pc s))) (c_phase s) \<and>
     z \<le> posts_done (pc s) + w + asleep (p_phase s) + asleep (c_phase s)"

lemma waiter_eq:
  assumes "sem_magic s = SEM_MAGIC"
  shows "waiter ph s = mysem_wait 0 s"
  using assms by (simp add: waiter_def mysem_wait_def)

lemma thread_waiter:
  assumes "pc_reach post_mmap (mysem_wait 0) sem_of nitems n st"
  shows "produce post_mmap (waiter ph) nitems st = produce post_mmap (mysem_wait 0) nitems st"
    and "consume post_mmap (waiter ph) nitems st = consume post_mmap (mysem_wait 0) nitems st"
proof -
  note v = mmap_pc.inv_sinv [OF mmap_pc.reach_pc_inv [OF assms]]
  show "produce post_mmap (waiter ph) nitems st = produce post_mmap (mysem_wait 0) nitems st"
    using v by (cases "p_pos st") (simp_all add: produce_def waiter_eq)
  show "consume post_mmap (waiter ph) nitems st = consume post_mmap (mysem_wait 0) nitems st"
    using v by (cases "c_pos st") (simp_all add: consume_def waiter_eq)
qed

text \<open>The statements, on the semaphores they change.\<close>

lemma produce_go:
  assumes "produce post_mmap (mysem_wait 0) nitems st = Go st'" and "pc_reach post_mmap (mysem_wait 0) sem_of nitems n st"
    and "sleeps_right st (waits_for Nstored (c_pos st)) ph"
  shows "c_pos st' = c_pos st \<and> c_i st' = c_i st \<and>
    sleeps_right st' (waits_for Nstored (c_pos st)) (other_phase st (posts_to Nstored (p_pos st)) (waits_for Nstored (c_pos st)) ph) \<and>
    posts_done st + asleep ph \<le> posts_done st' + asleep (other_phase st (posts_to Nstored (p_pos st)) (waits_for Nstored (c_pos st)) ph)"
  using assms mmap_pc.inv_sinv [OF mmap_pc.reach_pc_inv [OF assms(2)]]
  by (cases "p_pos st"; cases "c_pos st")
    (auto simp: produce_def sem_call_def sem_check_def mysem_wait_def wait_loop_def post_mmap_def mysem_post_def sleeps_right_def
      other_phase_def posts_to_def waits_for_def post_signals_def sem_named_def posts_done_def asleep_def split: if_splits)

lemma consume_go:
  assumes "consume post_mmap (mysem_wait 0) nitems st = Go st'" and "pc_reach post_mmap (mysem_wait 0) sem_of nitems n st"
    and "sleeps_right st (waits_for Nempty (p_pos st)) ph"
  shows "p_pos st' = p_pos st \<and> p_i st' = p_i st \<and>
    sleeps_right st' (waits_for Nempty (p_pos st)) (other_phase st (posts_to Nempty (c_pos st)) (waits_for Nempty (p_pos st)) ph) \<and>
    posts_done st + asleep ph \<le> posts_done st' + asleep (other_phase st (posts_to Nempty (c_pos st)) (waits_for Nempty (p_pos st)) ph)"
  using assms mmap_pc.inv_sinv [OF mmap_pc.reach_pc_inv [OF assms(2)]]
  by (cases "c_pos st"; cases "p_pos st")
    (auto simp: consume_def sem_call_def sem_check_def mysem_wait_def wait_loop_def post_mmap_def mysem_post_def sleeps_right_def
      other_phase_def posts_to_def waits_for_def post_signals_def sem_named_def posts_done_def asleep_def Let_def split: if_splits)

lemma produce_sleep:
  assumes "produce post_mmap (mysem_wait 0) nitems st = Stay" and "pc_reach post_mmap (mysem_wait 0) sem_of nitems n st"
    and "\<not> (p_pos st = P0 \<and> nitems \<le> p_i st)"
  shows "sleeps_right st (waits_for Nempty (p_pos st)) ph"
  using mmap_pc.produce_stay [OF mmap_pc.reach_pc_inv [OF assms(2)] assms(1)] assms(3)
  by (auto simp: sleeps_right_def waits_for_def sem_named_def unat_eq_zero)

lemma consume_sleep:
  assumes "consume post_mmap (mysem_wait 0) nitems st = Stay" and "pc_reach post_mmap (mysem_wait 0) sem_of nitems n st"
    and "\<not> (c_pos st = P0 \<and> nitems \<le> c_i st)"
  shows "sleeps_right st (waits_for Nstored (c_pos st)) ph"
  using mmap_pc.consume_stay [OF mmap_pc.reach_pc_inv [OF assms(2)] assms(1)] assms(3)
  by (auto simp: sleeps_right_def waits_for_def sem_named_def unat_eq_zero)

lemma producer_inv:
  assumes "mmap_inv nitems n z w s" and "run_producer nitems s = Go (b, s')"
  shows "mmap_inv nitems (if b then Suc n else n) (if b then z else Suc z) w s'"
proof -
  have r: "pc_reach post_mmap (mysem_wait 0) sem_of nitems n (pc s)" using assms(1) by (simp add: mmap_inv_def)
  have a: "p_phase s \<noteq> SSleep" "asleep (p_phase s) = 0" using assms(2) by (auto simp: run_producer_def asleep_def split: if_splits)
  show ?thesis
  proof (cases "produce post_mmap (mysem_wait 0) nitems (pc s)")
    case (Go st)
    have "pc_reach post_mmap (mysem_wait 0) sem_of nitems (Suc n) st"
      using pc_reach.step [OF r] pc_step.producer [OF Go] by simp
    then show ?thesis using assms a Go produce_go [OF Go r, of "c_phase s"] thread_waiter(1) [OF r, of "p_phase s"]
      by (auto simp: run_producer_def mmap_inv_def sleeps_right_def [of _ _ SIdle] asleep_def [of SIdle])
  next
    case Stay
    then show ?thesis using assms a thread_waiter(1) [OF r, of "p_phase s"] produce_sleep [OF Stay r]
      by (auto simp: run_producer_def mmap_inv_def asleep_def [of SSleep] split: if_splits)
  next
    case (Halt m)
    then show ?thesis using assms(2) a thread_waiter(1) [OF r, of "p_phase s"] by (simp add: run_producer_def)
  qed
qed

lemma consumer_inv:
  assumes "mmap_inv nitems n z w s" and "run_consumer nitems s = Go (b, s')"
  shows "mmap_inv nitems (if b then Suc n else n) (if b then z else Suc z) w s'"
proof -
  have r: "pc_reach post_mmap (mysem_wait 0) sem_of nitems n (pc s)" using assms(1) by (simp add: mmap_inv_def)
  have a: "c_phase s \<noteq> SSleep" "asleep (c_phase s) = 0" using assms(2) by (auto simp: run_consumer_def asleep_def split: if_splits)
  show ?thesis
  proof (cases "consume post_mmap (mysem_wait 0) nitems (pc s)")
    case (Go st)
    have "pc_reach post_mmap (mysem_wait 0) sem_of nitems (Suc n) st"
      using pc_reach.step [OF r] pc_step.consumer [OF Go] by simp
    then show ?thesis using assms a Go consume_go [OF Go r, of "p_phase s"] thread_waiter(2) [OF r, of "c_phase s"]
      by (auto simp: run_consumer_def mmap_inv_def sleeps_right_def [of _ _ SIdle] asleep_def [of SIdle])
  next
    case Stay
    then show ?thesis using assms a thread_waiter(2) [OF r, of "c_phase s"] consume_sleep [OF Stay r]
      by (auto simp: run_consumer_def mmap_inv_def asleep_def [of SSleep] split: if_splits)
  next
    case (Halt m)
    then show ?thesis using assms(2) a thread_waiter(2) [OF r, of "c_phase s"] by (simp add: run_consumer_def)
  qed
qed

lemma mmap_reach_inv: "mmap_reach nitems n z w s \<Longrightarrow> mmap_inv nitems n z w s"
proof (induction rule: mmap_reach.induct)
  case start
  show ?case by (simp add: mmap_inv_def pc_reach.start sleeps_right_def)
next
  case (producer n z w s b s')
  then show ?case by (blast intro: producer_inv)
next
  case (consumer n z w s b s')
  then show ?case by (blast intro: consumer_inv)
next
  case (spurious_p n z w s)
  then show ?case by (simp add: mmap_inv_def sleeps_right_def asleep_def)
next
  case (spurious_c n z w s)
  then show ?case by (simp add: mmap_inv_def sleeps_right_def asleep_def)
qed

lemma posts_bound: "pc_reach post_mmap (mysem_wait 0) sem_of nitems n st \<Longrightarrow> posts_done st \<le> 4 * nitems"
  using mmap_pc.reach_pc_inv [of nitems n st]
  by (cases "p_pos st"; cases "c_pos st") (auto simp: mmap_pc.pc_inv_def posts_done_def)

text \<open>A thread that could do its statement does not sleep.\<close>

lemma sleeping_stays:
  assumes "mmap_inv nitems n z w s"
  shows "p_phase s = SSleep \<Longrightarrow> produce post_mmap (mysem_wait 0) nitems (pc s) = Stay"
    and "c_phase s = SSleep \<Longrightarrow> consume post_mmap (mysem_wait 0) nitems (pc s) = Stay"
proof -
  have r: "pc_reach post_mmap (mysem_wait 0) sem_of nitems n (pc s)" using assms by (simp add: mmap_inv_def)
  note v = mmap_pc.inv_sinv [OF mmap_pc.reach_pc_inv [OF r]]
  show "produce post_mmap (mysem_wait 0) nitems (pc s) = Stay" if "p_phase s = SSleep"
    using that assms v
    by (cases "p_pos (pc s)") (auto simp: mmap_inv_def sleeps_right_def waits_for_def sem_named_def produce_def mmap_pc.call_wait)
  show "consume post_mmap (mysem_wait 0) nitems (pc s) = Stay" if "c_phase s = SSleep"
    using that assms v
    by (cases "c_pos (pc s)") (auto simp: mmap_inv_def sleeps_right_def waits_for_def sem_named_def consume_def mmap_pc.call_wait)
qed

lemma thread_goes:
  assumes "mmap_inv nitems n z w s" and "pc_step post_mmap (mysem_wait 0) nitems (pc s) (Go st)"
  shows "\<exists>s'. run_producer nitems s = Go (True, s') \<or> run_consumer nitems s = Go (True, s')"
proof -
  have r: "pc_reach post_mmap (mysem_wait 0) sem_of nitems n (pc s)" using assms(1) by (simp add: mmap_inv_def)
  from assms(2) show ?thesis
  proof cases
    case producer
    then show ?thesis using sleeping_stays(1) [OF assms(1)] thread_waiter(1) [OF r, of "p_phase s"] by (auto simp: run_producer_def)
  next
    case consumer
    then show ?thesis using sleeping_stays(2) [OF assms(1)] thread_waiter(2) [OF r, of "c_phase s"] by (auto simp: run_consumer_def)
  qed
qed

lemma thread_no_halt:
  assumes "mmap_inv nitems n z w s"
  shows "run_producer nitems s \<noteq> Halt m" and "run_consumer nitems s \<noteq> Halt m"
proof -
  have r: "pc_reach post_mmap (mysem_wait 0) sem_of nitems n (pc s)" using assms by (simp add: mmap_inv_def)
  have "produce post_mmap (mysem_wait 0) nitems (pc s) \<noteq> Halt m" "consume post_mmap (mysem_wait 0) nitems (pc s) \<noteq> Halt m"
    using mmap_pc.no_halt [OF r] pc_step.intros by blast+
  then show "run_producer nitems s \<noteq> Halt m" "run_consumer nitems s \<noteq> Halt m"
    by (auto simp: run_producer_def run_consumer_def thread_waiter [OF r] split: outcome.splits)
qed

text \<open>C12. The producer and the consumer over these semaphores, in any interleaving and with wake-ups without cause: the
  consumer never finds a value other than the one stored for its item, and no wrapper ends the process. Until all the items
  have been transferred, after exactly ten statements for each, there is a thread that is not asleep and completes its next statement: no
  wake-up is lost. The threads go to sleep at most \<open>4 * nitems + 2\<close> times, not counting the sleeps after a wake-up without cause.\<close>

theorem mmap_prodcons_correct:
  assumes "mmap_reach nitems n z w s"
  shows "printed (pc s) = [] \<and> run_producer nitems s \<noteq> Halt m \<and> run_consumer nitems s \<noteq> Halt m \<and> z \<le> 4 * nitems + w + 2 \<and>
    (n = 10 * nitems \<and> p_i (pc s) = nitems \<and> c_i (pc s) = nitems \<or>
     n < 10 * nitems \<and> (\<exists>s'. run_producer nitems s = Go (True, s') \<or> run_consumer nitems s = Go (True, s')))"
proof -
  have i: "mmap_inv nitems n z w s" by (rule mmap_reach_inv [OF assms])
  then have r: "pc_reach post_mmap (mysem_wait 0) sem_of nitems n (pc s)" by (simp add: mmap_inv_def)
  have "z \<le> 4 * nitems + w + 2"
    using i posts_bound [OF r] by (auto simp: mmap_inv_def asleep_def split: if_splits)
  moreover have "n = 10 * nitems \<and> p_i (pc s) = nitems \<and> c_i (pc s) = nitems \<or>
     n < 10 * nitems \<and> (\<exists>st. pc_step post_mmap (mysem_wait 0) nitems (pc s) (Go st))"
    using mmap_pc.reach_progress [OF r] mmap_pc.reach_bounded [OF pc_reach.step [OF r]] Suc_le_lessD by blast
  ultimately show ?thesis
    using mmap_pc.reach_no_print [OF r] thread_no_halt [OF i] thread_goes [OF i] by blast
qed

theorem mmap_prodcons_correct_witness:
  "\<exists>s'. run_producer 3 \<lparr>pc = prodcons_main sem_of, p_phase = SIdle, c_phase = SIdle\<rparr> = Go (True, s') \<or>
    run_consumer 3 \<lparr>pc = prodcons_main sem_of, p_phase = SIdle, c_phase = SIdle\<rparr> = Go (True, s')"
  using mmap_prodcons_correct [OF mmap_reach.start, of 3] by simp

section \<open>Opening\<close>

text \<open>
  The answers of the system in one attempt to open the semaphore, in the order in which
  \<^verbatim>\<open>mysem_open\<close> asks for them: \<open>Inl\<close> or \<open>Some\<close> an error, otherwise success.
\<close>

record sem_env =
  env_creat :: "int + int"
  env_write :: "int option"
  env_mmap :: "int option"
  env_mattr :: int
  env_mutex :: int
  env_cattr :: int
  env_cond :: int
  env_fchmod :: "int option"
  env_open :: "int + int"
  env_mmap2 :: "int option"
  env_stat :: "nat \<Rightarrow> int + bool"
  env_shared :: mysem

definition MAX_TRIES :: nat where "MAX_TRIES = 10"

text \<open>The labels \<^verbatim>\<open>err\<close> and \<^verbatim>\<open>exists\<close>. \<open>sem\<close> is the mapping the pointer holds, if any.\<close>

definition sem_err :: "bool \<Rightarrow> nat option \<Rightarrow> int \<Rightarrow> int \<Rightarrow> act list \<times> 'r attempt" where
  "sem_err created sem fd e =
     ((if created then [FileUnlinked] else []) @
      (case sem of None \<Rightarrow> [] | Some m \<Rightarrow> [Unmapped m]) @ [Closed fd], Done (Inl e))"

definition then_acts :: "act list \<Rightarrow> act list \<times> 'r attempt \<Rightarrow> act list \<times> 'r attempt" where
  "then_acts as r = (as @ fst r, snd r)"

definition sem_exists :: "bool \<Rightarrow> sem_env \<Rightarrow> nat \<Rightarrow> nat option \<Rightarrow> act list \<times> (nat \<times> mysem) attempt" where
  "sem_exists creat env k sem = (case env_open env of
     Inl e \<Rightarrow> if e = ENOENT \<and> creat then ([], Again sem) else sem_err False sem (-1) e
   | Inr fd \<Rightarrow> then_acts [Opened fd] (case env_mmap2 env of
       Some e \<Rightarrow> sem_err False None fd e
     | None \<Rightarrow> then_acts [Mapped k]
         (let (as, r) = init_wait creat (env_stat env) 0 MAX_TRIES in then_acts as (case r of
            StAgain \<Rightarrow> ([Closed fd], Again (Some k))
          | StErr e \<Rightarrow> sem_err False (Some k) fd e
          | StReady \<Rightarrow> ([Closed fd], Done (Inr (k, (env_shared env)\<lparr>sem_magic := SEM_MAGIC\<rparr>)))))))"

definition sem_create :: "32 word \<Rightarrow> int \<Rightarrow> sem_env \<Rightarrow> nat \<Rightarrow> nat option \<Rightarrow> int \<Rightarrow>
    act list \<times> (nat \<times> mysem) attempt" where
  "sem_create val vmax env k sem fd = then_acts [Opened fd, FileCreated] (case env_write env of
     Some e \<Rightarrow> sem_err True sem fd e
   | None \<Rightarrow> then_acts [Wrote] (case env_mmap env of
       Some e \<Rightarrow> sem_err True None fd e
     | None \<Rightarrow> then_acts [Mapped k]
         (if env_mattr env \<noteq> 0 then sem_err True (Some k) fd (env_mattr env)
          else if env_mutex env \<noteq> 0 then sem_err True (Some k) fd (env_mutex env)
          else then_acts [MutexInit]
            (if env_cattr env \<noteq> 0 then sem_err True (Some k) fd (env_cattr env)
             else if env_cond env \<noteq> 0 then sem_err True (Some k) fd (env_cond env)
             else then_acts [CondInit, CountSet]
               (if uint val > vmax then sem_err True (Some k) fd EINVAL
                else (case env_fchmod env of
                  Some e \<Rightarrow> sem_err True (Some k) fd e
                | None \<Rightarrow> ([UserExecOff, Closed fd],
                           Done (Inr (k, \<lparr>sem_count = val, sem_magic = SEM_MAGIC\<rparr>)))))))))"

text \<open>One attempt, from the label \<^verbatim>\<open>again\<close>; \<open>vmax\<close> is \<^verbatim>\<open>sysconf(_SC_SEM_VALUE_MAX)\<close>.\<close>

definition sem_attempt :: "bool \<Rightarrow> bool \<Rightarrow> 32 word \<Rightarrow> int \<Rightarrow> sem_env \<Rightarrow> nat \<Rightarrow> nat option \<Rightarrow>
    act list \<times> (nat \<times> mysem) attempt" where
  "sem_attempt creat excl val vmax env k sem =
     (if creat then (case env_creat env of
        Inl e \<Rightarrow> if e = EEXIST \<and> \<not> excl then sem_exists creat env k sem else ([], Done (Inl e))
      | Inr fd \<Rightarrow> sem_create val vmax env k sem fd)
      else sem_exists creat env k sem)"

text \<open>The function over the answers of successive attempts. \<open>None\<close>: the answers are used up and it
  has not returned.\<close>

fun mysem_open_from :: "bool \<Rightarrow> bool \<Rightarrow> 32 word \<Rightarrow> int \<Rightarrow> nat \<Rightarrow> nat option \<Rightarrow> sem_env list \<Rightarrow>
    (act list \<times> (int + nat \<times> mysem)) option" where
  "mysem_open_from creat excl val vmax k sem [] = None"
| "mysem_open_from creat excl val vmax k sem (env # envs) =
     (case sem_attempt creat excl val vmax env k sem of
        (as, Done r) \<Rightarrow> Some (as, r)
      | (as, Again sem') \<Rightarrow>
          map_option (\<lambda>(bs, r). (as @ bs, r))
            (mysem_open_from creat excl val vmax (Suc k) sem' envs))"

definition mysem_open :: "bool \<Rightarrow> bool \<Rightarrow> 32 word \<Rightarrow> int \<Rightarrow> sem_env list \<Rightarrow>
    (act list \<times> (int + nat \<times> mysem)) option" where
  "mysem_open creat excl val vmax envs = mysem_open_from creat excl val vmax 0 None envs"

definition Mysem_open :: "string \<Rightarrow> bool \<Rightarrow> bool \<Rightarrow> 32 word \<Rightarrow> int \<Rightarrow> sem_env list \<Rightarrow>
    (string + nat \<times> mysem) option" where
  "Mysem_open pathname creat excl val vmax envs =
     (case mysem_open creat excl val vmax envs of
        None \<Rightarrow> None
      | Some (_, Inl _) \<Rightarrow> Some (Inl (''mysem_open error for '' @ pathname))
      | Some (_, Inr sem) \<Rightarrow> Some (Inr sem))"

lemmas open_defs = sem_attempt_def sem_exists_def sem_create_def sem_err_def then_acts_def

lemmas acts_simps = fds_append maps_append file_left_append

lemmas open_splits = sum.splits option.splits if_splits prod.splits stat_res.splits

text \<open>What one attempt does to the descriptors, to a created file and to the result.\<close>

definition ready_seen :: "(nat \<Rightarrow> int + bool) \<Rightarrow> bool" where
  "ready_seen st \<longleftrightarrow> (\<exists>j < MAX_TRIES. st j = Inr False)"

text \<open>Every step of the initialisation has succeeded, and the user-execute bit has been turned off behind them.\<close>

definition sem_created :: "sem_env \<Rightarrow> bool" where
  "sem_created env \<longleftrightarrow> env_write env = None \<and> env_mmap env = None \<and> env_mattr env = 0 \<and> env_mutex env = 0 \<and>
     env_cattr env = 0 \<and> env_cond env = 0 \<and> env_fchmod env = None"

definition sem_init_acts :: "nat \<Rightarrow> act list" where
  "sem_init_acts m = [FileCreated, Wrote, Mapped m, MutexInit, CondInit, CountSet, UserExecOff]"

definition open_ok :: "32 word \<Rightarrow> int \<Rightarrow> sem_env \<Rightarrow> nat \<Rightarrow> nat list \<Rightarrow> act list \<Rightarrow>
    (nat \<times> mysem) attempt \<Rightarrow> bool" where
  "open_ok val vmax env k ms as res \<longleftrightarrow> fds as [] = [] \<and> (case res of
     Done (Inr (m, s)) \<Rightarrow> m = k \<and> maps as ms = k # ms \<and> sem_magic s = SEM_MAGIC \<and>
       (if file_left as False
        then sem_count s = val \<and> uint val \<le> vmax \<and> sem_created env \<and> subseq (sem_init_acts m) as
        else ready_seen (env_stat env) \<and> sem_count s = sem_count (env_shared env))
   | _ \<Rightarrow> \<not> file_left as False)"

lemma exists_attempt:
  assumes "sem_exists creat env k sem = (as, res)"
  shows "open_ok val vmax env k ms as res"
  using assms init_wait_ready [of creat "env_stat env" 0 MAX_TRIES]
    init_wait_acts [of creat "env_stat env" 0 MAX_TRIES]
  by (cases "init_wait creat (env_stat env) 0 MAX_TRIES")
    (auto simp: sem_exists_def sem_err_def then_acts_def acts_simps open_ok_def ready_seen_def
      split: open_splits)

lemma create_attempt:
  assumes "sem_create val vmax env k sem fd = (as, res)"
  shows "open_ok val vmax env k ms as res \<and> (\<exists>r. res = Done r)"
  using assms
  by (auto simp: sem_create_def sem_err_def then_acts_def open_ok_def sem_created_def sem_init_acts_def split: open_splits)

lemma sem_attempt_ok:
  assumes "sem_attempt creat excl val vmax env k sem = (as, res)"
  shows "open_ok val vmax env k ms as res"
proof (cases "creat \<and> (\<exists>fd. env_creat env = Inr fd)")
  case True
  then show ?thesis using assms create_attempt by (auto simp: sem_attempt_def)
next
  case False
  then consider "sem_exists creat env k sem = (as, res)"
    | e where "as = []" and "res = Done (Inl e)"
    using assms by (auto simp: sem_attempt_def split: sum.splits if_splits)
  then show ?thesis
  proof cases
    case 1
    then show ?thesis by (rule exists_attempt)
  next
    case 2
    then show ?thesis by (simp add: open_ok_def)
  qed
qed

lemma open_from_resources:
  assumes "mysem_open_from creat excl val vmax k sem envs = Some (as, r)"
  shows "fds as [] = [] \<and> (case r of
      Inl e \<Rightarrow> \<not> file_left as False
    | Inr (m, s) \<Rightarrow> m \<in> set (maps as ms) \<and> sem_magic s = SEM_MAGIC \<and>
        (if file_left as False
         then sem_count s = val \<and> uint val \<le> vmax \<and> subseq (sem_init_acts m) as \<and> (\<exists>env \<in> set envs. sem_created env)
         else \<exists>env \<in> set envs. ready_seen (env_stat env) \<and> sem_count s = sem_count (env_shared env)))"
  using assms
proof (induction creat excl val vmax k sem envs arbitrary: as ms rule: mysem_open_from.induct)
  case (2 creat excl val vmax k sem env envs)
  obtain as1 res where a: "sem_attempt creat excl val vmax env k sem = (as1, res)"
    by fastforce
  have ok: "open_ok val vmax env k ms as1 res"
    using a by (rule sem_attempt_ok)
  show ?case
  proof (cases res)
    case (Done r1)
    then have "as = as1" and "r = r1" using 2 a by auto
    then show ?thesis using ok Done
      by (auto simp: open_ok_def split: sum.splits prod.splits if_splits)
  next
    case (Again sem')
    then obtain bs where b: "mysem_open_from creat excl val vmax (Suc k) sem' envs = Some (bs, r)"
      and as: "as = as1 @ bs" using 2 a by auto
    have "fds as1 [] = []" and "\<not> file_left as1 False"
      using ok Again by (auto simp: open_ok_def)
    then show ?thesis
      using "2.IH" [OF a [symmetric] Again b, of "maps as1 ms"] as
      by (auto simp: acts_simps list_emb_append2 split: sum.splits if_splits)
  qed
qed simp

text \<open>C33. Whatever the system answers, when \<^verbatim>\<open>mysem_open\<close> returns it has closed every descriptor it
  opened. If it fails, no file it created is left. If it succeeds, the semaphore carries the magic
  number, and either the call created it, with the value asked for and within the limit, after the file had been written and mapped
  and the mutex, the condition variable and the count had been initialised without an error, in this order, and with the
  user-execute bit turned off last; or the user-execute bit was seen off, so that its creator had finished.\<close>

theorem mysem_open_resources:
  assumes "mysem_open creat excl val vmax envs = Some (as, r)"
  shows "fds as [] = [] \<and> (case r of
      Inl e \<Rightarrow> \<not> file_left as False
    | Inr (m, s) \<Rightarrow> m \<in> set (maps as []) \<and> sem_magic s = SEM_MAGIC \<and>
        (if file_left as False
         then sem_count s = val \<and> uint val \<le> vmax \<and> subseq (sem_init_acts m) as \<and> (\<exists>env \<in> set envs. sem_created env)
         else \<exists>env \<in> set envs. ready_seen (env_stat env) \<and> sem_count s = sem_count (env_shared env)))"
  using open_from_resources assms unfolding mysem_open_def by blast

text \<open>A system in which every call succeeds, the file exists and the creator has not finished when
  \<^verbatim>\<open>stat\<close> is called for the first time.\<close>

definition env_quiet :: sem_env where
  "env_quiet = \<lparr>env_creat = Inl EEXIST, env_write = None, env_mmap = None, env_mattr = 0,
     env_mutex = 0, env_cattr = 0, env_cond = 0, env_fchmod = None, env_open = Inr 3,
     env_mmap2 = None, env_stat = (\<lambda>i. Inr (i = 0)), env_shared = \<lparr>sem_count = 7, sem_magic = 0\<rparr>\<rparr>"

theorem mysem_open_resources_witness:
  "\<exists>as m s. mysem_open True False 1 100 [env_quiet] = Some (as, Inr (m, s)) \<and> fds as [] = [] \<and>
     sem_magic s = SEM_MAGIC \<and> Slept \<in> set as"
  using mysem_open_resources [of True False 1 100 "[env_quiet]"
      "[Opened 3, Mapped 0, Slept, Closed 3]" "Inr (0, \<lparr>sem_count = 7, sem_magic = SEM_MAGIC\<rparr>)"]
  by (simp add: mysem_open_def sem_attempt_def sem_exists_def then_acts_def env_quiet_def
      MAX_TRIES_def eval_nat_numeral)

text \<open>When the file disappears between \<^verbatim>\<open>open\<close> and \<^verbatim>\<open>stat\<close>, the function starts again without
  unmapping what it had mapped: it then returns the semaphore with two mappings held, of which
  the caller knows one.\<close>

theorem mysem_open_again_leaks:
  "\<exists>envs as s. mysem_open True False 1 100 envs = Some (as, Inr (1, s)) \<and> maps as [] = [1, 0]"
proof -
  let ?gone = "env_quiet\<lparr>env_stat := \<lambda>i. Inl ENOENT\<rparr>" and ?fresh = "env_quiet\<lparr>env_creat := Inr 3\<rparr>"
  have "mysem_open True False 1 100 [?gone, ?fresh] =
    Some ([Opened 3, Mapped 0, Closed 3, Opened 3, FileCreated, Wrote, Mapped 1, MutexInit, CondInit, CountSet, UserExecOff,
        Closed 3],
      Inr (1, \<lparr>sem_count = 1, sem_magic = SEM_MAGIC\<rparr>))"
    by (simp add: mysem_open_def open_defs env_quiet_def MAX_TRIES_def eval_nat_numeral)
  then show ?thesis by fastforce
qed

end
