(* ===== verification/Sem_Fifo.thy ===== *)
theory Sem_Fifo
  imports Prodcons Open_Acts
begin

text \<open>
  Posix semaphores over a FIFO (\<^verbatim>\<open>unpv22e/my_pxsem_fifo\<close>): the value of the semaphore is the number
  of bytes in the FIFO, a post writes one byte and a wait reads one. The descriptor for reading
  blocks, the one for writing does not. The FIFO is the one object shared by all who open it; its
  capacity \<open>pcap\<close> is a parameter.
\<close>

unbundle bit_operations_syntax

definition O_NONBLOCK :: "32 word" where "O_NONBLOCK = 0x800"

definition SEM_MAGIC_fifo :: "32 word" where "SEM_MAGIC_fifo = 0x89674523"

record fifo_sem =
  rd_fd :: int
  wr_fd :: int
  magic_fifo :: "32 word"
  rd_flags :: "32 word"
  fifo_bytes :: nat

text \<open>\<^verbatim>\<open>read\<close> and \<^verbatim>\<open>write\<close> of one byte. \<open>err\<close> is an error of the call that does not come from the state
  of the FIFO (a signal, a bad descriptor).\<close>

definition fifo_read :: "int option \<Rightarrow> fifo_sem \<Rightarrow> sem_out \<times> fifo_sem" where
  "fifo_read err sem = (case err of
     Some e \<Rightarrow> (SemError e, sem)
   | None \<Rightarrow>
       if fifo_bytes sem > 0 then (SemReturn 1, sem\<lparr>fifo_bytes := fifo_bytes sem - 1\<rparr>)
       else if rd_flags sem AND O_NONBLOCK = 0 then (SemWait, sem)
       else (SemError EAGAIN, sem))"

definition fifo_write :: "nat \<Rightarrow> int option \<Rightarrow> nat \<Rightarrow> int + nat" where
  "fifo_write pcap err bytes = (case err of
     Some e \<Rightarrow> Inl e
   | None \<Rightarrow> if bytes < pcap then Inr (Suc bytes) else Inl EAGAIN)"

definition mysem_wait_fifo :: "int option \<Rightarrow> fifo_sem \<Rightarrow> sem_out \<times> fifo_sem" where
  "mysem_wait_fifo err sem =
     (if magic_fifo sem \<noteq> SEM_MAGIC_fifo then (SemError EINVAL, sem)
      else (case fifo_read err sem of
        (SemReturn n, sem') \<Rightarrow> (SemReturn (if n = 1 then 0 else -1), sem')
      | r \<Rightarrow> r))"

definition mysem_post_fifo :: "nat \<Rightarrow> int option \<Rightarrow> fifo_sem \<Rightarrow> sem_out \<times> fifo_sem" where
  "mysem_post_fifo pcap err sem =
     (if magic_fifo sem \<noteq> SEM_MAGIC_fifo then (SemError EINVAL, sem)
      else (case fifo_write pcap err (fifo_bytes sem) of
        Inl e \<Rightarrow> (SemError e, sem)
      | Inr n \<Rightarrow> (SemReturn 0, sem\<lparr>fifo_bytes := n\<rparr>)))"

text \<open>\<^verbatim>\<open>mysem_close\<close>: if the first \<^verbatim>\<open>close\<close> fails the second is not called.\<close>

definition mysem_close_fifo :: "int option \<Rightarrow> int option \<Rightarrow> fifo_sem \<Rightarrow> sem_out \<times> act list \<times> fifo_sem" where
  "mysem_close_fifo e0 e1 sem =
     (if magic_fifo sem \<noteq> SEM_MAGIC_fifo then (SemError EINVAL, [], sem)
      else (let sem' = sem\<lparr>magic_fifo := 0\<rparr> in
        (case e0 of
           Some e \<Rightarrow> (SemError e, [Freed], sem')
         | None \<Rightarrow> (case e1 of
             Some e \<Rightarrow> (SemError e, [Closed (rd_fd sem), Freed], sem')
           | None \<Rightarrow> (SemReturn 0, [Closed (rd_fd sem), Closed (wr_fd sem), Freed], sem')))))"

definition mysem_unlink_fifo :: "int option \<Rightarrow> sem_out" where
  "mysem_unlink_fifo unlink_err = (case unlink_err of Some e \<Rightarrow> SemError e | None \<Rightarrow> SemReturn 0)"

definition Mysem_post_fifo :: "nat \<Rightarrow> int option \<Rightarrow> fifo_sem \<Rightarrow> string + sem_out \<times> fifo_sem" where
  "Mysem_post_fifo pcap err sem = sem_check ''mysem_post error'' (mysem_post_fifo pcap err sem)"

definition Mysem_wait_fifo :: "int option \<Rightarrow> fifo_sem \<Rightarrow> string + sem_out \<times> fifo_sem" where
  "Mysem_wait_fifo err sem = sem_check ''mysem_wait error'' (mysem_wait_fifo err sem)"

definition Mysem_close_fifo :: "int option \<Rightarrow> int option \<Rightarrow> fifo_sem \<Rightarrow>
    string + sem_out \<times> act list \<times> fifo_sem" where
  "Mysem_close_fifo e0 e1 sem = sem_check ''mysem_close error'' (mysem_close_fifo e0 e1 sem)"

definition Mysem_unlink_fifo :: "int option \<Rightarrow> string + sem_out \<times> unit" where
  "Mysem_unlink_fifo e = sem_check ''mysem_unlink error'' (mysem_unlink_fifo e, ())"

section \<open>Opening\<close>

text \<open>The answers of the system to \<^verbatim>\<open>mysem_open\<close>; \<open>fe_bytes\<close> is what an existing FIFO holds.\<close>

record fifo_env =
  fe_mkfifo :: "int option"
  fe_malloc :: bool
  fe_open0 :: "int + int"
  fe_open1 :: "int + int"
  fe_getfl :: "int + 32 word"
  fe_setfl :: "int option"
  fe_write :: "nat \<Rightarrow> int option"
  fe_bytes :: nat

text \<open>The loop that writes the initial value: \<open>n\<close> writes to go, the next is the \<open>i\<close>-th.\<close>

fun fifo_fill :: "nat \<Rightarrow> (nat \<Rightarrow> int option) \<Rightarrow> nat \<Rightarrow> nat \<Rightarrow> nat \<Rightarrow> int + nat" where
  "fifo_fill pcap wr i 0 bytes = Inr bytes"
| "fifo_fill pcap wr i (Suc n) bytes = (case fifo_write pcap (wr i) bytes of
     Inl e \<Rightarrow> Inl e
   | Inr b \<Rightarrow> fifo_fill pcap wr (Suc i) n b)"

definition fifo_error :: "bool \<Rightarrow> int \<Rightarrow> int \<Rightarrow> int \<Rightarrow> act list \<times> (int + fifo_sem)" where
  "fifo_error creat fd0 fd1 e =
     ((if creat then [FileUnlinked] else []) @ [Closed fd0, Closed fd1, Freed], Inl e)"

definition with_acts :: "act list \<Rightarrow> act list \<times> 'r \<Rightarrow> act list \<times> 'r" where
  "with_acts as r = (as @ fst r, snd r)"

text \<open>From \<^verbatim>\<open>malloc\<close> on; \<open>creat\<close> is what is left of \<^verbatim>\<open>O_CREAT\<close> in \<^verbatim>\<open>oflag\<close>.\<close>

definition fifo_setup :: "nat \<Rightarrow> bool \<Rightarrow> nat \<Rightarrow> fifo_env \<Rightarrow> act list \<times> (int + fifo_sem)" where
  "fifo_setup pcap creat val env =
     (if \<not> fe_malloc env then ([], Inl ENOMEM)
      else with_acts [Allocated] (case fe_open0 env of
        Inl e \<Rightarrow> fifo_error creat (-1) (-1) e
      | Inr fd0 \<Rightarrow> with_acts [Opened fd0] (case fe_open1 env of
          Inl e \<Rightarrow> fifo_error creat fd0 (-1) e
        | Inr fd1 \<Rightarrow> with_acts [Opened fd1] (case fe_getfl env of
            Inl e \<Rightarrow> fifo_error creat fd0 fd1 e
          | Inr flags \<Rightarrow> (case fe_setfl env of
              Some e \<Rightarrow> fifo_error creat fd0 fd1 e
            | None \<Rightarrow>
                (let sem = \<lparr>rd_fd = fd0, wr_fd = fd1, magic_fifo = SEM_MAGIC_fifo,
                            rd_flags = flags AND NOT O_NONBLOCK,
                            fifo_bytes = (if creat then 0 else fe_bytes env)\<rparr>
                 in if creat then (case fifo_fill pcap (fe_write env) 0 val 0 of
                        Inl e \<Rightarrow> fifo_error creat fd0 fd1 e
                      | Inr b \<Rightarrow> ([], Inr (sem\<lparr>fifo_bytes := b\<rparr>)))
                    else ([], Inr sem)))))))"

definition mysem_open_fifo :: "nat \<Rightarrow> bool \<Rightarrow> bool \<Rightarrow> nat \<Rightarrow> fifo_env \<Rightarrow> act list \<times> (int + fifo_sem)" where
  "mysem_open_fifo pcap creat excl val env =
     (if creat then (case fe_mkfifo env of
        Some e \<Rightarrow> if e = EEXIST \<and> \<not> excl then fifo_setup pcap False val env else ([], Inl e)
      | None \<Rightarrow> with_acts [FileCreated] (fifo_setup pcap True val env))
      else fifo_setup pcap False val env)"

definition Mysem_open_fifo :: "string \<Rightarrow> nat \<Rightarrow> bool \<Rightarrow> bool \<Rightarrow> nat \<Rightarrow> fifo_env \<Rightarrow> string + fifo_sem" where
  "Mysem_open_fifo pathname pcap creat excl val env =
     (case snd (mysem_open_fifo pcap creat excl val env) of
        Inl _ \<Rightarrow> Inl (''mysem_open error for '' @ pathname)
      | Inr sem \<Rightarrow> Inr sem)"

lemmas fifo_defs = mysem_wait_fifo_def mysem_post_fifo_def fifo_read_def fifo_write_def

section \<open>The semaphore interface\<close>

definition fifo_inv :: "fifo_sem \<Rightarrow> bool" where
  "fifo_inv sem \<longleftrightarrow> magic_fifo sem = SEM_MAGIC_fifo \<and> rd_flags sem AND O_NONBLOCK = 0"

definition fifo_of :: "nat \<Rightarrow> fifo_sem" where
  "fifo_of v = \<lparr>rd_fd = 3, wr_fd = 4, magic_fifo = SEM_MAGIC_fifo, rd_flags = 0, fifo_bytes = v\<rparr>"

text \<open>\<^verbatim>\<open>_POSIX_PIPE_BUF\<close> bytes fit into every FIFO; the interpretation holds for any larger capacity.\<close>

definition POSIX_PIPE_BUF :: nat where "POSIX_PIPE_BUF = 512"

interpretation fifo_pc: prodcons_impl fifo_bytes "POSIX_PIPE_BUF + x" fifo_inv
  "mysem_post_fifo (POSIX_PIPE_BUF + x) None" "mysem_wait_fifo None" fifo_of for x
  by unfold_locales
    (auto simp: fifo_defs fifo_inv_def fifo_of_def POSIX_PIPE_BUF_def NBUFF_def)

lemma and_not_mask: "(a AND NOT b) AND b = (0 :: 32 word)"
  by (rule bit_eqI) (auto simp: bit_simps)

lemma fifo_fill_result:
  "fifo_fill pcap wr i n bytes = Inr b \<Longrightarrow> b = bytes + n \<and> (n > 0 \<longrightarrow> b \<le> pcap)"
  by (induction pcap wr i n bytes rule: fifo_fill.induct)
    (auto simp: fifo_write_def split: sum.splits option.splits if_splits)

lemma fifo_fill_ok:
  "bytes + n \<le> pcap \<Longrightarrow> (\<And>i. wr i = None) \<Longrightarrow> fifo_fill pcap wr i n bytes = Inr (bytes + n)"
  by (induction n arbitrary: i bytes) (auto simp: fifo_write_def)

lemma fifo_setup_ok:
  assumes "fifo_setup pcap creat val env = (as, Inr sem)"
  shows "fifo_inv sem \<and> fds as [] = [wr_fd sem, rd_fd sem] \<and> file_left as b = b \<and>
    fifo_bytes sem = (if creat then val else fe_bytes env)"
  using assms
  by (auto simp: fifo_setup_def with_acts_def fifo_error_def fifo_inv_def and_not_mask Let_def
      dest: fifo_fill_result split: sum.splits option.splits if_splits)

lemma fifo_setup_err:
  assumes "fifo_setup pcap creat val env = (as, Inl e)"
  shows "fds as [] = [] \<and> file_left as b = (b \<and> \<not> (creat \<and> fe_malloc env))"
  using assms
  by (auto simp: fifo_setup_def with_acts_def fifo_error_def Let_def
      split: sum.splits option.splits if_splits)

definition fifo_open_ok :: "fifo_env \<Rightarrow> nat \<Rightarrow> bool \<Rightarrow> act list \<Rightarrow> int + fifo_sem \<Rightarrow> bool" where
  "fifo_open_ok env val b as r \<longleftrightarrow> (case r of
     Inr sem \<Rightarrow> fifo_inv sem \<and> fds as [] = [wr_fd sem, rd_fd sem] \<and>
       fifo_bytes sem = (if file_left as b then val else fe_bytes env)
   | Inl e \<Rightarrow> fds as [] = [] \<and> (fe_malloc env \<longrightarrow> \<not> file_left as b))"

lemma fifo_setup_open_ok:
  assumes "fifo_setup pcap c val env = (as, r)"
  shows "fifo_open_ok env val c as r"
  using fifo_setup_ok [of pcap c val env as] fifo_setup_err [of pcap c val env as] assms
  by (auto simp: fifo_open_ok_def split: sum.splits)

lemma mysem_open_fifo_ok:
  assumes "mysem_open_fifo pcap creat excl val env = (as, r)"
  shows "fifo_open_ok env val False as r"
proof -
  consider "fifo_setup pcap False val env = (as, r)"
    | as' where "fifo_setup pcap True val env = (as', r)" and "as = FileCreated # as'"
    | e where "as = []" and "r = Inl e"
    using assms that
    by (cases "fifo_setup pcap True val env")
      (auto simp: mysem_open_fifo_def with_acts_def split: if_splits option.splits)
  then show ?thesis
  proof cases
    case 1
    then show ?thesis by (rule fifo_setup_open_ok)
  next
    case 2
    then show ?thesis using fifo_setup_open_ok [OF 2(1)]
      by (auto simp: fifo_open_ok_def split: sum.splits)
  qed (simp add: fifo_open_ok_def)
qed

text \<open>A FIFO semaphore that opens has the value asked for if the call created it and the value of
  the existing one otherwise, its read descriptor blocks, and exactly its two descriptors are open.
  If the call fails all descriptors are closed, and the created FIFO is removed unless it is the
  allocation that failed.\<close>

theorem fifo_sem_open:
  assumes "mysem_open_fifo pcap creat excl val env = (as, r)"
  shows "case r of
      Inr sem \<Rightarrow> fifo_inv sem \<and> fds as [] = [wr_fd sem, rd_fd sem] \<and>
        fifo_bytes sem = (if file_left as False then val else fe_bytes env)
    | Inl e \<Rightarrow> fds as [] = [] \<and> (fe_malloc env \<longrightarrow> \<not> file_left as False)"
  using mysem_open_fifo_ok [OF assms] by (simp add: fifo_open_ok_def)

definition fifo_env_quiet :: fifo_env where
  "fifo_env_quiet = \<lparr>fe_mkfifo = None, fe_malloc = True, fe_open0 = Inr 3, fe_open1 = Inr 4,
     fe_getfl = Inr O_NONBLOCK, fe_setfl = None, fe_write = (\<lambda>_. None), fe_bytes = 0\<rparr>"

theorem fifo_sem_open_witness:
  "\<exists>as sem. mysem_open_fifo 512 True True 2 fifo_env_quiet = (as, Inr sem) \<and>
     fds as [] = [4, 3] \<and> fifo_bytes sem = 2"
  using fifo_sem_open [of 512 True True 2 fifo_env_quiet
      "[FileCreated, Allocated, Opened 3, Opened 4]" "Inr (fifo_of 2)"]
  by (simp add: mysem_open_fifo_def with_acts_def fifo_setup_def fifo_env_quiet_def fifo_of_def
      fifo_write_def eval_nat_numeral)

text \<open>The producer and the consumer over FIFO semaphores: the consumer finds every item in its
  place, and the program ends with all the items transferred.\<close>

theorem fifo_prodcons_correct:
  assumes "pc_reach (mysem_post_fifo (POSIX_PIPE_BUF + x) None) (mysem_wait_fifo None) fifo_of nitems n st"
  shows "printed st = [] \<and>
    (n = 10 * nitems \<and> p_i st = nitems \<and> c_i st = nitems \<or>
     (\<exists>st'. pc_step (mysem_post_fifo (POSIX_PIPE_BUF + x) None) (mysem_wait_fifo None) nitems st (Go st')))"
  using fifo_pc.reach_no_print [OF assms] fifo_pc.reach_progress [OF assms] by blast

theorem fifo_prodcons_correct_witness:
  "\<exists>st'. pc_step (mysem_post_fifo (POSIX_PIPE_BUF + 0) None) (mysem_wait_fifo None) 3
     (prodcons_main fifo_of) (Go st')"
  using fifo_prodcons_correct [OF pc_reach.start, where x = 0 and nitems = 3] by simp

end
