(* ===== verification/Sem_Svsem.thy ===== *)
theory Sem_Svsem
  imports Prodcons Open_Acts
begin

text \<open>
  Posix semaphores over System V semaphores (\<^verbatim>\<open>unpv22e/my_pxsem_svsem\<close>). A handle holds the
  identifier of a set with one System V semaphore; the operations are calls of \<^verbatim>\<open>semop\<close>, whose effect
  on the value and on \<^verbatim>\<open>sem_otime\<close> is modelled here.
\<close>

definition SEM_MAGIC_sv :: int where "SEM_MAGIC_sv = 0x45678923"

definition SEMVMX :: int where "SEMVMX = 32767"

record sv_sem =
  sem_semid :: int
  magic_sv :: int
  semval :: int
  sem_otime :: bool

text \<open>\<^verbatim>\<open>semop\<close> with one operation: a positive \<^verbatim>\<open>sem_op\<close> adds, a negative one waits until it can
  subtract, zero waits for zero; a successful operation sets \<^verbatim>\<open>sem_otime\<close>. \<open>err\<close> is an error that
  does not come from the value (a removed set, a signal).\<close>

definition semop :: "int option \<Rightarrow> int \<Rightarrow> bool \<Rightarrow> sv_sem \<Rightarrow> sem_out \<times> sv_sem" where
  "semop err sem_op nowait sem = (case err of
     Some e \<Rightarrow> (SemError e, sem)
   | None \<Rightarrow>
       if sem_op > 0 \<and> semval sem + sem_op > SEMVMX then (SemError ERANGE, sem)
       else if sem_op < 0 \<and> semval sem + sem_op < 0 \<or> sem_op = 0 \<and> semval sem \<noteq> 0
         then (if nowait then (SemError EAGAIN, sem) else (SemWait, sem))
       else (SemReturn 0, sem\<lparr>semval := semval sem + sem_op, sem_otime := True\<rparr>))"

definition mysem_post_sv :: "int option \<Rightarrow> sv_sem \<Rightarrow> sem_out \<times> sv_sem" where
  "mysem_post_sv err sem =
     (if magic_sv sem \<noteq> SEM_MAGIC_sv then (SemError EINVAL, sem) else semop err 1 False sem)"

definition mysem_wait_sv :: "int option \<Rightarrow> sv_sem \<Rightarrow> sem_out \<times> sv_sem" where
  "mysem_wait_sv err sem =
     (if magic_sv sem \<noteq> SEM_MAGIC_sv then (SemError EINVAL, sem) else semop err (-1) False sem)"

definition mysem_trywait_sv :: "int option \<Rightarrow> sv_sem \<Rightarrow> sem_out \<times> sv_sem" where
  "mysem_trywait_sv err sem =
     (if magic_sv sem \<noteq> SEM_MAGIC_sv then (SemError EINVAL, sem) else semop err (-1) True sem)"

definition mysem_getvalue_sv :: "int option \<Rightarrow> sv_sem \<Rightarrow> sem_out \<times> int option" where
  "mysem_getvalue_sv err sem =
     (if magic_sv sem \<noteq> SEM_MAGIC_sv then (SemError EINVAL, None)
      else (case err of Some e \<Rightarrow> (SemError e, None) | None \<Rightarrow> (SemReturn 0, Some (semval sem))))"

definition mysem_close_sv :: "sv_sem \<Rightarrow> sem_out \<times> act list \<times> sv_sem" where
  "mysem_close_sv sem =
     (if magic_sv sem \<noteq> SEM_MAGIC_sv then (SemError EINVAL, [], sem)
      else (SemReturn 0, [Freed], sem\<lparr>magic_sv := 0\<rparr>))"

text \<open>\<^verbatim>\<open>mysem_unlink\<close>: the results of \<^verbatim>\<open>ftok\<close>, \<^verbatim>\<open>unlink\<close>, \<^verbatim>\<open>semget\<close> and \<^verbatim>\<open>semctl\<close>.\<close>

definition mysem_unlink_sv :: "int option \<Rightarrow> int option \<Rightarrow> int + int \<Rightarrow> int option \<Rightarrow> sem_out \<times> act list" where
  "mysem_unlink_sv ftok_err unlink_err semget_res rmid_err = (case ftok_err of
     Some e \<Rightarrow> (SemError e, [])
   | None \<Rightarrow> (case unlink_err of
       Some e \<Rightarrow> (SemError e, [])
     | None \<Rightarrow> (case semget_res of
         Inl e \<Rightarrow> (SemError e, [FileUnlinked])
       | Inr semid \<Rightarrow> (case rmid_err of
           Some e \<Rightarrow> (SemError e, [FileUnlinked])
         | None \<Rightarrow> (SemReturn 0, [FileUnlinked, IpcRemoved semid])))))"

definition Mysem_post_sv :: "int option \<Rightarrow> sv_sem \<Rightarrow> string + sem_out \<times> sv_sem" where
  "Mysem_post_sv err sem = sem_check ''mysem_post error'' (mysem_post_sv err sem)"

definition Mysem_wait_sv :: "int option \<Rightarrow> sv_sem \<Rightarrow> string + sem_out \<times> sv_sem" where
  "Mysem_wait_sv err sem = sem_check ''mysem_wait error'' (mysem_wait_sv err sem)"

definition Mysem_trywait_sv :: "int option \<Rightarrow> sv_sem \<Rightarrow> string + sem_out \<times> sv_sem" where
  "Mysem_trywait_sv err sem =
     (case mysem_trywait_sv err sem of (out, sem') \<Rightarrow>
        (case out of SemError e \<Rightarrow> if e \<noteq> EAGAIN then Inl ''mysem_trywait error'' else Inr (out, sem')
         | _ \<Rightarrow> Inr (out, sem')))"

definition Mysem_getvalue_sv :: "int option \<Rightarrow> sv_sem \<Rightarrow> string + sem_out \<times> int option" where
  "Mysem_getvalue_sv err sem = sem_check ''mysem_getvalue error'' (mysem_getvalue_sv err sem)"

definition Mysem_close_sv :: "sv_sem \<Rightarrow> string + sem_out \<times> act list \<times> sv_sem" where
  "Mysem_close_sv sem = sem_check ''mysem_close error'' (mysem_close_sv sem)"

definition Mysem_unlink_sv :: "int option \<Rightarrow> int option \<Rightarrow> int + int \<Rightarrow> int option \<Rightarrow>
    string + sem_out \<times> act list" where
  "Mysem_unlink_sv ftok_err unlink_err semget_res rmid_err =
     sem_check ''mysem_unlink error'' (mysem_unlink_sv ftok_err unlink_err semget_res rmid_err)"

section \<open>Opening\<close>

text \<open>The answers of the system to \<^verbatim>\<open>mysem_open\<close>, in the order in which it asks: the file, the key,
  the set created exclusively, \<^verbatim>\<open>SETVAL\<close>, the initial \<^verbatim>\<open>semop\<close>, then the key again, the existing set
  and what \<^verbatim>\<open>IPC_STAT\<close> says of its \<^verbatim>\<open>sem_otime\<close>, and \<^verbatim>\<open>malloc\<close>.\<close>

record sv_env =
  se_open :: "int + int"
  se_ftok :: "int option"
  se_semget_excl :: "int + int"
  se_setval :: "int option"
  se_semop :: "int option"
  se_ftok2 :: "int option"
  se_semget :: "int + int"
  se_stat :: "nat \<Rightarrow> int + bool"
  se_malloc :: bool
  se_value :: int

definition MAX_TRIES_sv :: nat where "MAX_TRIES_sv = 10"

text \<open>The labels \<^verbatim>\<open>err\<close> and \<^verbatim>\<open>finish\<close>. \<open>semid\<close> is \<open>-1\<close> until a set has been created or found.\<close>

definition sv_err :: "int \<Rightarrow> int \<Rightarrow> act list \<times> (int + sv_sem)" where
  "sv_err semid e = ((if semid \<noteq> -1 then [IpcRemoved semid] else []), Inl e)"

definition sv_finish :: "sv_env \<Rightarrow> int \<Rightarrow> int \<Rightarrow> act list \<times> (int + sv_sem)" where
  "sv_finish env semid val =
     (if \<not> se_malloc env then sv_err semid ENOMEM
      else ([Allocated], Inr \<lparr>sem_semid = semid, magic_sv = SEM_MAGIC_sv, semval = val,
                              sem_otime = True\<rparr>))"

text \<open>The wait for a nonzero \<^verbatim>\<open>sem_otime\<close>.\<close>

fun otime_wait :: "(nat \<Rightarrow> int + bool) \<Rightarrow> nat \<Rightarrow> nat \<Rightarrow> act list \<times> int option" where
  "otime_wait st i 0 = ([], Some ETIMEDOUT)"
| "otime_wait st i (Suc n) = (case st i of
     Inl e \<Rightarrow> ([], Some e)
   | Inr otime \<Rightarrow>
       if otime then ([], None)
       else (let (as, r) = otime_wait st (Suc i) n in (Slept # as, r)))"

definition sv_exists :: "sv_env \<Rightarrow> act list \<times> (int + sv_sem)" where
  "sv_exists env = (case se_ftok2 env of
     Some e \<Rightarrow> sv_err (-1) e
   | None \<Rightarrow> (case se_semget env of
       Inl e \<Rightarrow> sv_err (-1) e
     | Inr semid \<Rightarrow>
         (let (as, r) = otime_wait (se_stat env) 0 MAX_TRIES_sv;
              (bs, res) = (case r of Some e \<Rightarrow> sv_err semid e
                           | None \<Rightarrow> sv_finish env semid (se_value env))
          in (as @ bs, res))))"

definition sv_create :: "int \<Rightarrow> sv_env \<Rightarrow> int \<Rightarrow> act list \<times> (int + sv_sem)" where
  "sv_create val env semid =
     (let (as, res) = (case se_setval env of
        Some e \<Rightarrow> sv_err semid e
      | None \<Rightarrow>
          if val > SEMVMX then sv_err semid EINVAL
          else (case semop (se_semop env) val False
                  \<lparr>sem_semid = semid, magic_sv = 0, semval = 0, sem_otime = False\<rparr> of
              (SemError e, _) \<Rightarrow> sv_err semid e
            | (_, sv) \<Rightarrow> sv_finish env semid (semval sv)))
      in (IpcCreated semid # as, res))"

definition mysem_open_sv :: "bool \<Rightarrow> bool \<Rightarrow> 32 word \<Rightarrow> sv_env \<Rightarrow> act list \<times> (int + sv_sem)" where
  "mysem_open_sv creat excl val env =
     (if creat then (case se_open env of
        Inl e \<Rightarrow> ([], Inl e)
      | Inr fd \<Rightarrow>
          (let (as, res) = (case se_ftok env of
             Some e \<Rightarrow> ([], Inl e)
           | None \<Rightarrow> (case se_semget_excl env of
               Inr semid \<Rightarrow> sv_create (uint val) env semid
             | Inl e \<Rightarrow> if e \<noteq> EEXIST \<or> excl then sv_err (-1) e else sv_exists env))
           in ([Opened fd, Closed fd] @ as, res)))
      else sv_exists env)"

definition Mysem_open_sv :: "string \<Rightarrow> bool \<Rightarrow> bool \<Rightarrow> 32 word \<Rightarrow> sv_env \<Rightarrow> string + sv_sem" where
  "Mysem_open_sv pathname creat excl val env = (case snd (mysem_open_sv creat excl val env) of
     Inl _ \<Rightarrow> Inl (''mysem_open error for '' @ pathname)
   | Inr sem \<Rightarrow> Inr sem)"

section \<open>The semaphore interface\<close>

definition sv_inv :: "sv_sem \<Rightarrow> bool" where
  "sv_inv sem \<longleftrightarrow> magic_sv sem = SEM_MAGIC_sv \<and> 0 \<le> semval sem"

definition sv_of :: "nat \<Rightarrow> sv_sem" where
  "sv_of v = \<lparr>sem_semid = 0, magic_sv = SEM_MAGIC_sv, semval = int v, sem_otime = True\<rparr>"

interpretation sv_pc: prodcons_impl "\<lambda>s. nat (semval s)" "nat SEMVMX" sv_inv
  "mysem_post_sv None" "mysem_wait_sv None" sv_of
  by unfold_locales
    (auto simp: mysem_post_sv_def mysem_wait_sv_def semop_def sv_inv_def sv_of_def SEMVMX_def NBUFF_def)

text \<open>A semaphore over System V semaphores lets through at most its value plus the posts, and
  what remains is its value, as long as the sum does not exceed \<^verbatim>\<open>SEMVMX\<close>.\<close>

theorem sv_sem_conserves:
  assumes "sv_inv s" and "nat (semval s) + posts es \<le> nat SEMVMX"
    and "sem_run (mysem_post_sv None) (mysem_wait_sv None) es s = (outs, s')"
  shows "nat (semval s') + passed es outs = nat (semval s) + posts es"
  using sv_pc.run_conserves [OF assms] by simp

theorem sv_sem_conserves_witness:
  "nat (semval (sv_of 1)) + passed [EvWait, EvPost, EvWait, EvPost]
     [SemWait, SemReturn 0, SemReturn 0, SemReturn 0] = 2"
  using sv_sem_conserves [of "sv_of 0" "[EvWait, EvPost, EvWait, EvPost]"
      "[SemWait, SemReturn 0, SemReturn 0, SemReturn 0]" "sv_of 1"]
  by (simp add: mysem_post_sv_def mysem_wait_sv_def semop_def sv_inv_def sv_of_def SEMVMX_def)

text \<open>The producer and the consumer of \<^verbatim>\<open>my_pxsem_svsem/prodcons1.c\<close>.\<close>

lemma sv_prodcons_correct:
  assumes "pc_reach (mysem_post_sv None) (mysem_wait_sv None) sv_of nitems n st"
  shows "printed st = [] \<and>
    (n = 10 * nitems \<and> p_i st = nitems \<and> c_i st = nitems \<or>
     (\<exists>st'. pc_step (mysem_post_sv None) (mysem_wait_sv None) nitems st (Go st')))"
  using sv_pc.reach_no_print [OF assms] sv_pc.reach_progress [OF assms] by blast

lemma otime_wait_done:
  "otime_wait st i n = (as, None) \<Longrightarrow> \<exists>j. i \<le> j \<and> j < i + n \<and> st j = Inr True"
proof (induction n arbitrary: i as)
  case (Suc n)
  show ?case
  proof (cases "st i = Inr True")
    case False
    then obtain bs where "otime_wait st (Suc i) n = (bs, None)"
      using Suc.prems by (auto split: sum.splits if_splits prod.splits)
    then obtain j where "Suc i \<le> j" and "j < Suc i + n" and "st j = Inr True"
      using Suc.IH by blast
    then show ?thesis by (intro exI [of _ j]) simp
  qed auto
qed simp

lemma otime_wait_acts: "otime_wait st i n = (as, r) \<Longrightarrow> set as \<subseteq> {Slept}"
  by (induction n arbitrary: i as) (fastforce split: sum.splits if_splits prod.splits)+

definition sv_ready :: "sv_env \<Rightarrow> bool" where
  "sv_ready env \<longleftrightarrow> (\<exists>j < MAX_TRIES_sv. se_stat env j = Inr True)"

lemma sv_exists_ok:
  assumes "sv_exists env = (as, Inr sem)"
  shows "magic_sv sem = SEM_MAGIC_sv \<and> IpcCreated semid \<notin> set as \<and>
    semval sem = se_value env \<and> sv_ready env"
proof -
  obtain as1 r where w: "otime_wait (se_stat env) 0 MAX_TRIES_sv = (as1, r)"
    by fastforce
  show ?thesis
    using assms w otime_wait_acts [OF w] otime_wait_done [of "se_stat env" 0 MAX_TRIES_sv as1]
    by (auto simp: sv_exists_def sv_finish_def sv_err_def sv_ready_def Let_def
        split: sum.splits option.splits if_splits)
qed

lemma sv_create_ok:
  assumes "sv_create val env semid = (as, Inr sem)" and "0 \<le> val"
  shows "magic_sv sem = SEM_MAGIC_sv \<and> IpcCreated semid \<in> set as \<and> semval sem = val \<and>
    val \<le> SEMVMX"
  using assms
  by (auto simp: sv_create_def sv_finish_def sv_err_def semop_def
      split: sum.splits option.splits if_splits)

text \<open>A call of \<^verbatim>\<open>mysem_open\<close> that creates the System V semaphore returns it with the value asked
  for, at most \<^verbatim>\<open>SEMVMX\<close>; one that finds it existing returns it only after seeing \<^verbatim>\<open>sem_otime\<close> set,
  that is, after the creator's \<^verbatim>\<open>semop\<close>. In both cases it carries the magic number.\<close>

theorem sv_sem_open:
  assumes "mysem_open_sv creat excl val env = (as, Inr sem)"
  shows "magic_sv sem = SEM_MAGIC_sv \<and>
    (if \<exists>semid. IpcCreated semid \<in> set as
     then semval sem = uint val \<and> uint val \<le> SEMVMX
     else semval sem = se_value env \<and> sv_ready env)"
proof -
  have "(\<exists>semid as'. sv_create (uint val) env semid = (as', Inr sem) \<and> set as' \<subseteq> set as) \<or>
    (\<exists>as'. sv_exists env = (as', Inr sem) \<and> set as \<subseteq> range Opened \<union> range Closed \<union> set as')"
    using assms
    by (cases "sv_exists env")
      (fastforce simp: mysem_open_sv_def sv_err_def split: sum.splits option.splits if_splits prod.splits)
  then consider semid as' where "sv_create (uint val) env semid = (as', Inr sem)" and "set as' \<subseteq> set as"
    | as' where "sv_exists env = (as', Inr sem)" and "set as \<subseteq> range Opened \<union> range Closed \<union> set as'"
    by blast
  then show ?thesis
  proof cases
    case 1
    then show ?thesis using sv_create_ok [OF 1(1)] by auto
  next
    case 2
    then show ?thesis using sv_exists_ok [OF 2(1)] by auto
  qed
qed

definition sv_env_quiet :: sv_env where
  "sv_env_quiet = \<lparr>se_open = Inr 3, se_ftok = None, se_semget_excl = Inl EEXIST, se_setval = None,
     se_semop = None, se_ftok2 = None, se_semget = Inr 12, se_stat = (\<lambda>i. Inr (i = 1)),
     se_malloc = True, se_value = 4\<rparr>"

theorem sv_sem_open_witness:
  "\<exists>as sem. mysem_open_sv True False 1 sv_env_quiet = (as, Inr sem) \<and> semval sem = 4 \<and>
     magic_sv sem = SEM_MAGIC_sv"
  using sv_sem_open [of True False 1 sv_env_quiet "[Opened 3, Closed 3, Slept, Allocated]"
      "\<lparr>sem_semid = 12, magic_sv = SEM_MAGIC_sv, semval = 4, sem_otime = True\<rparr>"]
  by (simp add: mysem_open_sv_def sv_exists_def sv_finish_def sv_env_quiet_def MAX_TRIES_sv_def
      eval_nat_numeral)

text \<open>A call that only opens an existing semaphore removes it from the system when it fails after
  having found it, here because \<^verbatim>\<open>malloc\<close> fails: every other process that uses it loses it.\<close>

theorem sv_sem_open_removes_existing:
  "\<exists>env as e. mysem_open_sv False False 0 env = (as, Inl e) \<and> IpcRemoved 12 \<in> set as \<and>
     (\<forall>semid. IpcCreated semid \<notin> set as) \<and> sv_ready env"
proof -
  let ?env = "sv_env_quiet\<lparr>se_malloc := False\<rparr>"
  have "mysem_open_sv False False 0 ?env = ([Slept, IpcRemoved 12], Inl ENOMEM)"
    by (simp add: mysem_open_sv_def sv_exists_def sv_finish_def sv_err_def sv_env_quiet_def
        MAX_TRIES_sv_def eval_nat_numeral)
  moreover have "sv_ready ?env"
    by (auto simp: sv_ready_def sv_env_quiet_def MAX_TRIES_sv_def)
  ultimately show ?thesis by fastforce
qed

end
