(* ===== verification/Mqueue_Spec.thy ===== *)
theory Mqueue_Spec
  imports Prelude "HOL-Library.Multiset"
begin

text \<open>
  The interface of a bounded priority message queue, as the locale \<open>prio_queue\<close>: the laws of one send
  and one receive, and what follows for a client that fills an empty queue and drains it, namely
  that the messages come out sorted by falling priority, and those of equal priority in the order
  in which they were sent.
\<close>

text \<open>The place of a new message: behind all those of at least its priority.\<close>

definition behind :: "('m \<Rightarrow> int) \<Rightarrow> 'm \<Rightarrow> 'm list \<Rightarrow> 'm list" where
  "behind key m q = takeWhile (\<lambda>x. key m \<le> key x) q @ m # dropWhile (\<lambda>x. key m \<le> key x) q"

definition falling :: "('m \<Rightarrow> int) \<Rightarrow> 'm list \<Rightarrow> bool" where
  "falling key q \<longleftrightarrow> sorted_wrt (\<lambda>a b. key b \<le> key a) q"

lemma falling_dropWhile:
  assumes "falling key q" and "x \<in> set (dropWhile (\<lambda>x. k \<le> key x) q)"
  shows "key x < k"
proof -
  obtain y ys where y: "dropWhile (\<lambda>x. k \<le> key x) q = y # ys"
    using assms(2) by (cases "dropWhile (\<lambda>x. k \<le> key x) q") auto
  then have "\<not> k \<le> key y" by (metis dropWhile_eq_Cons_conv)
  moreover have "falling key (y # ys)"
    using assms(1) y unfolding falling_def by (metis sorted_wrt_append takeWhile_dropWhile_id)
  ultimately show ?thesis using assms(2) y by (auto simp: falling_def)
qed

lemma falling_behind:
  assumes "falling key q"
  shows "falling key (behind key m q)"
proof -
  have "q = takeWhile (\<lambda>x. key m \<le> key x) q @ dropWhile (\<lambda>x. key m \<le> key x) q" by simp
  then have "sorted_wrt (\<lambda>a b. key b \<le> key a) (takeWhile (\<lambda>x. key m \<le> key x) q)"
    and "sorted_wrt (\<lambda>a b. key b \<le> key a) (dropWhile (\<lambda>x. key m \<le> key x) q)"
    and "\<forall>a \<in> set (takeWhile (\<lambda>x. key m \<le> key x) q). \<forall>b \<in> set (dropWhile (\<lambda>x. key m \<le> key x) q). key b \<le> key a"
    using assms unfolding falling_def by (metis sorted_wrt_append)+
  then show ?thesis
    using falling_dropWhile [OF assms, of _ "key m"]
    by (auto simp: falling_def behind_def sorted_wrt_append dest: set_takeWhileD intro: less_imp_le)
qed

lemma filter_behind:
  assumes "falling key q"
  shows "filter (\<lambda>x. key k = key x) (behind key m q) =
    filter (\<lambda>x. key k = key x) q @ (if key k = key m then [m] else [])"
proof -
  let ?t = "takeWhile (\<lambda>x. key m \<le> key x) q" and ?d = "dropWhile (\<lambda>x. key m \<le> key x) q"
  have "filter (\<lambda>x. key k = key x) q = filter (\<lambda>x. key k = key x) ?t @ filter (\<lambda>x. key k = key x) ?d"
    by (metis filter_append takeWhile_dropWhile_id)
  moreover have "filter (\<lambda>x. key k = key x) ?d = []" if "key k = key m"
    using falling_dropWhile [OF assms] that by (fastforce simp: filter_empty_conv)
  ultimately show ?thesis by (simp add: behind_def)
qed

text \<open>Sending the messages of a list one after the other sorts them, stably.\<close>

lemma fold_behind_sort:
  "foldl (\<lambda>q m. behind key m q) [] ms = sort_key (\<lambda>m. - key m) ms"
proof -
  define q where "q = foldl (\<lambda>q m. behind key m q) [] ms"
  have "falling key q \<and> mset q = mset ms \<and>
      (\<forall>k. filter (\<lambda>x. key k = key x) q = filter (\<lambda>x. key k = key x) ms)"
    unfolding q_def
  proof (induction ms rule: rev_induct)
    case (snoc m ms)
    let ?q = "foldl (\<lambda>q m. behind key m q) [] ms"
    have "mset ?q = mset (takeWhile (\<lambda>x. key m \<le> key x) ?q) + mset (dropWhile (\<lambda>x. key m \<le> key x) ?q)"
      by (metis mset_append takeWhile_dropWhile_id)
    then have "mset (behind key m ?q) = add_mset m (mset ?q)"
      by (simp add: behind_def)
    then show ?case using snoc by (simp add: falling_behind filter_behind)
  qed (simp add: falling_def)
  then show ?thesis
    unfolding q_def [symmetric]
    by (intro properties_for_sort_key [symmetric]) (auto simp: falling_def sorted_map)
qed

fun send_all :: "('m \<Rightarrow> 's \<Rightarrow> 's option) \<Rightarrow> 'm list \<Rightarrow> 's \<Rightarrow> 's option" where
  "send_all send [] s = Some s"
| "send_all send (m # ms) s = (case send m s of None \<Rightarrow> None | Some s' \<Rightarrow> send_all send ms s')"

fun recv_all :: "('s \<Rightarrow> ('m \<times> 's) option) \<Rightarrow> nat \<Rightarrow> 's \<Rightarrow> ('m list \<times> 's) option" where
  "recv_all recv 0 s = Some ([], s)"
| "recv_all recv (Suc n) s = (case recv s of
     None \<Rightarrow> None
   | Some (m, s') \<Rightarrow> map_option (\<lambda>(ms, s''). (m # ms, s'')) (recv_all recv n s'))"

locale prio_queue =
  fixes rel :: "'s \<Rightarrow> 'm list \<Rightarrow> bool" and room :: "'s \<Rightarrow> nat" and fits :: "'s \<Rightarrow> 'm \<Rightarrow> bool"
    and key :: "'m \<Rightarrow> int" and send :: "'m \<Rightarrow> 's \<Rightarrow> 's option" and recv :: "'s \<Rightarrow> ('m \<times> 's) option"
  assumes send_law: "rel s q \<Longrightarrow> length q < room s \<Longrightarrow> fits s m \<Longrightarrow>
      \<exists>s'. send m s = Some s' \<and> rel s' (behind key m q) \<and> room s' = room s \<and> fits s' = fits s"
    and recv_law: "rel s (m # q) \<Longrightarrow> \<exists>s'. recv s = Some (m, s') \<and> rel s' q"
begin

lemma send_all_rel:
  assumes "rel s q" and "length q + length ms \<le> room s" and "\<forall>m \<in> set ms. fits s m"
  shows "\<exists>s'. send_all send ms s = Some s' \<and> rel s' (foldl (\<lambda>q m. behind key m q) q ms)"
  using assms
proof (induction ms arbitrary: s q)
  case (Cons m ms)
  then obtain s1 where "send m s = Some s1" and "rel s1 (behind key m q)"
    and "room s1 = room s" and "fits s1 = fits s"
    using send_law [of s q m] by auto
  moreover have "length (behind key m q) = Suc (length q)"
    by (simp add: behind_def) (metis length_append takeWhile_dropWhile_id)
  ultimately show ?case using Cons.IH [of s1 "behind key m q"] Cons.prems by simp
qed simp

lemma recv_all_rel:
  "rel s q \<Longrightarrow> \<exists>s'. recv_all recv (length q) s = Some (q, s') \<and> rel s' []"
proof (induction q arbitrary: s)
  case (Cons m q)
  then show ?case using recv_law [of s m q] by fastforce
qed simp

theorem fill_and_drain:
  assumes "rel s []" and "length ms \<le> room s" and "\<forall>m \<in> set ms. fits s m"
  shows "\<exists>s1 s2. send_all send ms s = Some s1 \<and>
    recv_all recv (length ms) s1 = Some (sort_key (\<lambda>m. - key m) ms, s2) \<and> rel s2 []"
  using send_all_rel [of s "[]" ms] recv_all_rel assms
  by (fastforce simp: fold_behind_sort)

end

end
