(* ===== verification/Mqueue.thy ===== *)
theory Mqueue
  imports Mqueue_Spec
begin

text \<open>
  Posix message queues in a memory-mapped file (\<^verbatim>\<open>unpv22e/my_pxmsg_mmap\<close>). The mapped file is a header
  followed by \<^verbatim>\<open>mq_maxmsg\<close> slots of equal size; a slot is named by its byte offset in the file. Two
  chains, linked by \<^verbatim>\<open>msg_next\<close> and ended by the offset 0, start in the header: the messages on the
  queue, by falling priority, and the free slots. The functions run with the mutex held; a call of
  \<^verbatim>\<open>pthread_cond_wait\<close> is the result \<open>MqWait\<close>.
\<close>

unbundle bit_operations_syntax

section \<open>Data\<close>

type_synonym bytes = "8 word list"

record mymq_attr =
  mq_flags :: int
  mq_maxmsg :: int
  mq_msgsize :: int
  mq_curmsgs :: int

record sigevent =
  sigev_notify :: int
  sigev_signo :: int
  sigev_value :: int

text \<open>A slot: its header and the bytes behind it.\<close>

record mymsg =
  msg_next :: int
  msg_len :: int
  msg_prio :: "32 word"
  msg_data :: bytes

record mymq_hdr =
  mqh_attr :: mymq_attr
  mqh_head :: int
  mqh_free :: int
  mqh_nwait :: int
  mqh_pid :: int
  mqh_event :: sigevent
  mqh_msgs :: "int \<Rightarrow> mymsg"

record mymq_info =
  mqi_magic :: int
  mqi_flags :: "32 word"

definition MQI_MAGIC :: int where "MQI_MAGIC = 0x98765432"
definition SIGEV_SIGNAL :: int where "SIGEV_SIGNAL = 0"
definition MQ_NONBLOCK :: "32 word" where "MQ_NONBLOCK = 0x800"

text \<open>Sizes on a 64-bit Linux system.\<close>

definition sizeof_long :: int where "sizeof_long = 8"
definition sizeof_mymq_hdr :: int where "sizeof_mymq_hdr = 216"
definition sizeof_mymsg_hdr :: int where "sizeof_mymsg_hdr = 24"

definition MSGSIZE :: "int \<Rightarrow> int" where
  "MSGSIZE i = ((i + sizeof_long - 1) div sizeof_long) * sizeof_long"

text \<open>How a call ends, and what it does besides: the signal it queues for a registered process, and
  whether it signals the condition variable.\<close>

datatype mq_out = MqReturn int | MqErr int | MqWait | MqDump

record mq_eff =
  eff_sigqueue :: "(int \<times> int \<times> int) option"
  eff_signal :: bool

definition no_eff :: mq_eff where
  "no_eff = \<lparr>eff_sigqueue = None, eff_signal = False\<rparr>"

abbreviation maxmsg :: "mymq_hdr \<Rightarrow> int" where "maxmsg hdr \<equiv> mq_maxmsg (mqh_attr hdr)"
abbreviation msgsize :: "mymq_hdr \<Rightarrow> int" where "msgsize hdr \<equiv> mq_msgsize (mqh_attr hdr)"
abbreviation curmsgs :: "mymq_hdr \<Rightarrow> int" where "curmsgs hdr \<equiv> mq_curmsgs (mqh_attr hdr)"

definition set_curmsgs :: "int \<Rightarrow> mymq_hdr \<Rightarrow> mymq_hdr" where
  "set_curmsgs n hdr = hdr\<lparr>mqh_attr := (mqh_attr hdr)\<lparr>mq_curmsgs := n\<rparr>\<rparr>"

section \<open>Sending\<close>

text \<open>\<^verbatim>\<open>pmsghdr\<close> points to the message before the place, or to \<^verbatim>\<open>mqh_head\<close> read as a message whose
  first member is \<^verbatim>\<open>msg_next\<close>.\<close>

datatype pmsg = PHead | PMsg int

definition set_next :: "pmsg \<Rightarrow> int \<Rightarrow> mymq_hdr \<Rightarrow> mymq_hdr" where
  "set_next p v hdr = (case p of
     PHead \<Rightarrow> hdr\<lparr>mqh_head := v\<rparr>
   | PMsg i \<Rightarrow> hdr\<lparr>mqh_msgs := (mqh_msgs hdr)(i := (mqh_msgs hdr i)\<lparr>msg_next := v\<rparr>)\<rparr>)"

text \<open>The search for the place: the value is \<^verbatim>\<open>index\<close> and \<^verbatim>\<open>pmsghdr\<close> when the loop ends.\<close>

partial_function (option) find_place :: "(int \<Rightarrow> mymsg) \<Rightarrow> 32 word \<Rightarrow> int \<Rightarrow> pmsg \<Rightarrow>
    (int \<times> pmsg) option" where
  "find_place ms prio index pm =
     (if index = 0 then Some (index, pm)
      else if prio > msg_prio (ms index) then Some (index, pm)
      else find_place ms prio (msg_next (ms index)) (PMsg index))"

declare find_place.simps [code]

text \<open>The first free slot is filled and taken off the free chain.\<close>

definition fill_slot :: "bytes \<Rightarrow> 32 word \<Rightarrow> mymq_hdr \<Rightarrow> mymq_hdr" where
  "fill_slot ptr prio hdr =
     (let freeindex = mqh_free hdr; n = mqh_msgs hdr freeindex in
      hdr\<lparr>mqh_msgs := (mqh_msgs hdr)(freeindex := n\<lparr>msg_prio := prio, msg_len := int (length ptr),
            msg_data := ptr @ drop (length ptr) (msg_data n)\<rparr>), mqh_free := msg_next n\<rparr>)"

text \<open>The links are written in one order inside the loop and in the other behind it.\<close>

definition link_in :: "pmsg \<Rightarrow> int \<Rightarrow> int \<Rightarrow> mymq_hdr \<Rightarrow> mymq_hdr" where
  "link_in pm freeindex index hdr =
     (if index \<noteq> 0 then set_next pm freeindex (set_next (PMsg freeindex) index hdr)
      else set_next (PMsg freeindex) 0 (set_next pm freeindex hdr))"

text \<open>The part of \<^verbatim>\<open>mymq_send\<close> behind the wait. \<open>None\<close>: the search does not end.\<close>

definition send_store :: "bytes \<Rightarrow> 32 word \<Rightarrow> mymq_hdr \<Rightarrow> (mq_out \<times> mq_eff \<times> mymq_hdr) option" where
  "send_store ptr prio hdr =
     (let freeindex = mqh_free hdr in
      if freeindex = 0 then Some (MqDump, no_eff, hdr)
      else
        let hdr1 = fill_slot ptr prio hdr
        in (case find_place (mqh_msgs hdr1) prio (mqh_head hdr1) PHead of
              None \<Rightarrow> None
            | Some (index, pm) \<Rightarrow>
                let hdr2 = link_in pm freeindex index hdr1
                in Some (MqReturn 0, no_eff\<lparr>eff_signal := curmsgs hdr2 = 0\<rparr>,
                         set_curmsgs (curmsgs hdr2 + 1) hdr2)))"

text \<open>The loop of the wait for room.\<close>

definition send_loop :: "bytes \<Rightarrow> 32 word \<Rightarrow> mymq_hdr \<Rightarrow> (mq_out \<times> mq_eff \<times> mymq_hdr) option" where
  "send_loop ptr prio hdr =
     (if curmsgs hdr \<ge> maxmsg hdr then Some (MqWait, no_eff, hdr) else send_store ptr prio hdr)"

text \<open>A registered process is told of a message on the empty queue, if nobody waits in
  \<^verbatim>\<open>mymq_receive\<close>, and its registration ends.\<close>

definition send_notify :: "mymq_hdr \<Rightarrow> (int \<times> int \<times> int) option \<times> mymq_hdr" where
  "send_notify hdr =
     (if mqh_pid hdr \<noteq> 0 \<and> mqh_nwait hdr = 0
      then (let ev = mqh_event hdr in
            (if sigev_notify ev = SIGEV_SIGNAL
             then Some (mqh_pid hdr, sigev_signo ev, sigev_value ev) else None),
            hdr\<lparr>mqh_pid := 0\<rparr>)
      else (None, hdr))"

definition mymq_send :: "int \<Rightarrow> mymq_info \<Rightarrow> bytes \<Rightarrow> 32 word \<Rightarrow> mymq_hdr \<Rightarrow>
    (mq_out \<times> mq_eff \<times> mymq_hdr) option" where
  "mymq_send lock_res mqinfo ptr prio hdr =
     (if mqi_magic mqinfo \<noteq> MQI_MAGIC then Some (MqErr EBADF, no_eff, hdr)
      else if lock_res \<noteq> 0 then Some (MqErr lock_res, no_eff, hdr)
      else if int (length ptr) > msgsize hdr then Some (MqErr EMSGSIZE, no_eff, hdr)
      else if curmsgs hdr = 0 then
        (case send_notify hdr of (sq, hdr1) \<Rightarrow>
           map_option (\<lambda>(out, eff, hdr2). (out, eff\<lparr>eff_sigqueue := sq\<rparr>, hdr2))
             (send_store ptr prio hdr1))
      else if curmsgs hdr \<ge> maxmsg hdr then
        (if mqi_flags mqinfo AND MQ_NONBLOCK \<noteq> 0 then Some (MqErr EAGAIN, no_eff, hdr)
         else send_loop ptr prio hdr)
      else send_store ptr prio hdr)"

section \<open>Receiving\<close>

text \<open>A message as it is delivered: the bytes and the priority.\<close>

definition recv_take :: "mymq_hdr \<Rightarrow> mq_out \<times> (bytes \<times> 32 word) option \<times> mq_eff \<times> mymq_hdr" where
  "recv_take hdr =
     (let index = mqh_head hdr in
      if index = 0 then (MqDump, None, no_eff, hdr)
      else
        let m = mqh_msgs hdr index;
            hdr1 = hdr\<lparr>mqh_head := msg_next m\<rparr>;
            hdr2 = hdr1\<lparr>mqh_msgs := (mqh_msgs hdr1)(index := m\<lparr>msg_next := mqh_free hdr1\<rparr>),
                        mqh_free := index\<rparr>
        in (MqReturn (msg_len m), Some (take (nat (msg_len m)) (msg_data m), msg_prio m),
            no_eff\<lparr>eff_signal := curmsgs hdr2 = maxmsg hdr2\<rparr>,
            set_curmsgs (curmsgs hdr2 - 1) hdr2))"

text \<open>The loop of the wait for a message, from its test on.\<close>

definition recv_loop :: "mymq_hdr \<Rightarrow> mq_out \<times> (bytes \<times> 32 word) option \<times> mq_eff \<times> mymq_hdr" where
  "recv_loop hdr =
     (if curmsgs hdr = 0 then (MqWait, None, no_eff, hdr)
      else recv_take (hdr\<lparr>mqh_nwait := mqh_nwait hdr - 1\<rparr>))"

definition mymq_receive :: "int \<Rightarrow> mymq_info \<Rightarrow> int \<Rightarrow> mymq_hdr \<Rightarrow>
    mq_out \<times> (bytes \<times> 32 word) option \<times> mq_eff \<times> mymq_hdr" where
  "mymq_receive lock_res mqinfo maxlen hdr =
     (if mqi_magic mqinfo \<noteq> MQI_MAGIC then (MqErr EBADF, None, no_eff, hdr)
      else if lock_res \<noteq> 0 then (MqErr lock_res, None, no_eff, hdr)
      else if maxlen < msgsize hdr then (MqErr EMSGSIZE, None, no_eff, hdr)
      else if curmsgs hdr = 0 then
        (if mqi_flags mqinfo AND MQ_NONBLOCK \<noteq> 0 then (MqErr EAGAIN, None, no_eff, hdr)
         else recv_loop (hdr\<lparr>mqh_nwait := mqh_nwait hdr + 1\<rparr>))
      else recv_take hdr)"

section \<open>Notification and attributes\<close>

text \<open>\<open>alive\<close>: the registered process exists, as far as \<^verbatim>\<open>kill(pid, 0)\<close> can tell.\<close>

definition mymq_notify :: "int \<Rightarrow> mymq_info \<Rightarrow> int \<Rightarrow> bool \<Rightarrow> sigevent option \<Rightarrow> mymq_hdr \<Rightarrow>
    mq_out \<times> mymq_hdr" where
  "mymq_notify lock_res mqinfo pid alive notification hdr =
     (if mqi_magic mqinfo \<noteq> MQI_MAGIC then (MqErr EBADF, hdr)
      else if lock_res \<noteq> 0 then (MqErr lock_res, hdr)
      else (case notification of
        None \<Rightarrow> (MqReturn 0, if mqh_pid hdr = pid then hdr\<lparr>mqh_pid := 0\<rparr> else hdr)
      | Some ev \<Rightarrow>
          if mqh_pid hdr \<noteq> 0 \<and> alive then (MqErr EBUSY, hdr)
          else (MqReturn 0, hdr\<lparr>mqh_pid := pid, mqh_event := ev\<rparr>)))"

definition mymq_getattr :: "int \<Rightarrow> mymq_info \<Rightarrow> mymq_hdr \<Rightarrow> mq_out \<times> mymq_attr option" where
  "mymq_getattr lock_res mqinfo hdr =
     (if mqi_magic mqinfo \<noteq> MQI_MAGIC then (MqErr EBADF, None)
      else if lock_res \<noteq> 0 then (MqErr lock_res, None)
      else (MqReturn 0, Some \<lparr>mq_flags = sint (mqi_flags mqinfo), mq_maxmsg = maxmsg hdr,
                              mq_msgsize = msgsize hdr, mq_curmsgs = curmsgs hdr\<rparr>))"

text \<open>\<open>want\<close>: the caller asks for the previous attributes (\<^verbatim>\<open>omqstat != NULL\<close>).\<close>

definition mymq_setattr :: "int \<Rightarrow> mymq_info \<Rightarrow> 32 word \<Rightarrow> bool \<Rightarrow> mymq_hdr \<Rightarrow>
    mq_out \<times> mymq_attr option \<times> mymq_info" where
  "mymq_setattr lock_res mqinfo flags want hdr =
     (if mqi_magic mqinfo \<noteq> MQI_MAGIC then (MqErr EBADF, None, mqinfo)
      else if lock_res \<noteq> 0 then (MqErr lock_res, None, mqinfo)
      else (MqReturn 0,
            (if want then Some \<lparr>mq_flags = sint (mqi_flags mqinfo), mq_maxmsg = maxmsg hdr,
                               mq_msgsize = msgsize hdr, mq_curmsgs = curmsgs hdr\<rparr> else None),
            mqinfo\<lparr>mqi_flags := (if flags AND MQ_NONBLOCK \<noteq> 0 then mqi_flags mqinfo OR MQ_NONBLOCK
                                 else mqi_flags mqinfo AND NOT MQ_NONBLOCK)\<rparr>))"

text \<open>\<^verbatim>\<open>mymq_close\<close> unregisters the process, unmaps the file and frees the descriptor.\<close>

text \<open>The size of the file, a product of 64 bits stored into a \<^verbatim>\<open>long\<close>: it wraps around.\<close>

definition to_long :: "int \<Rightarrow> int" where
  "to_long x = sint (of_int x :: 64 word)"

definition mq_filesize :: "mymq_attr \<Rightarrow> int" where
  "mq_filesize attr =
     to_long (sizeof_mymq_hdr + mq_maxmsg attr * (sizeof_mymsg_hdr + to_long (MSGSIZE (mq_msgsize attr))))"

definition mymq_close :: "int \<Rightarrow> int \<Rightarrow> (int \<Rightarrow> int option) \<Rightarrow> mymq_info \<Rightarrow> mymq_hdr \<Rightarrow>
    mq_out \<times> mymq_info \<times> mymq_hdr" where
  "mymq_close lock_res pid munmap mqinfo hdr =
     (if mqi_magic mqinfo \<noteq> MQI_MAGIC then (MqErr EBADF, mqinfo, hdr)
      else (case mymq_notify lock_res mqinfo pid False None hdr of
        (MqReturn _, hdr1) \<Rightarrow>
          (case munmap (mq_filesize (mqh_attr hdr1)) of
             Some e \<Rightarrow> (MqErr e, mqinfo, hdr1)
           | None \<Rightarrow> (MqReturn 0, mqinfo\<lparr>mqi_magic := 0\<rparr>, hdr1))
      | (out, hdr1) \<Rightarrow> (out, mqinfo, hdr1)))"

definition mymq_unlink :: "int option \<Rightarrow> mq_out" where
  "mymq_unlink unlink_err = (case unlink_err of Some e \<Rightarrow> MqErr e | None \<Rightarrow> MqReturn 0)"

text \<open>The wrappers end the process when the call fails.\<close>

definition mq_check :: "string \<Rightarrow> mq_out \<Rightarrow> 'a \<Rightarrow> string + 'a" where
  "mq_check msg out res = (case out of MqErr _ \<Rightarrow> Inl msg | _ \<Rightarrow> Inr res)"

definition Mymq_send :: "int \<Rightarrow> mymq_info \<Rightarrow> bytes \<Rightarrow> 32 word \<Rightarrow> mymq_hdr \<Rightarrow>
    (string + mq_out \<times> mq_eff \<times> mymq_hdr) option" where
  "Mymq_send r mqd ptr prio hdr =
     map_option (\<lambda>res. mq_check ''mymq_send error'' (fst res) res) (mymq_send r mqd ptr prio hdr)"

definition Mymq_receive :: "int \<Rightarrow> mymq_info \<Rightarrow> int \<Rightarrow> mymq_hdr \<Rightarrow>
    string + mq_out \<times> (bytes \<times> 32 word) option \<times> mq_eff \<times> mymq_hdr" where
  "Mymq_receive r mqd len hdr =
     (let res = mymq_receive r mqd len hdr in mq_check ''mymq_receive error'' (fst res) res)"

definition Mymq_notify :: "int \<Rightarrow> mymq_info \<Rightarrow> int \<Rightarrow> bool \<Rightarrow> sigevent option \<Rightarrow> mymq_hdr \<Rightarrow>
    string + mq_out \<times> mymq_hdr" where
  "Mymq_notify r mqd pid alive ev hdr =
     (let res = mymq_notify r mqd pid alive ev hdr in mq_check ''mymq_notify error'' (fst res) res)"

definition Mymq_getattr :: "int \<Rightarrow> mymq_info \<Rightarrow> mymq_hdr \<Rightarrow> string + mq_out \<times> mymq_attr option" where
  "Mymq_getattr r mqd hdr =
     (let res = mymq_getattr r mqd hdr in mq_check ''mymq_getattr error'' (fst res) res)"

definition Mymq_setattr :: "int \<Rightarrow> mymq_info \<Rightarrow> 32 word \<Rightarrow> bool \<Rightarrow> mymq_hdr \<Rightarrow>
    string + mq_out \<times> mymq_attr option \<times> mymq_info" where
  "Mymq_setattr r mqd flags want hdr =
     (let res = mymq_setattr r mqd flags want hdr in mq_check ''mymq_setattr error'' (fst res) res)"

definition Mymq_close :: "int \<Rightarrow> int \<Rightarrow> (int \<Rightarrow> int option) \<Rightarrow> mymq_info \<Rightarrow> mymq_hdr \<Rightarrow>
    string + mq_out \<times> mymq_info \<times> mymq_hdr" where
  "Mymq_close r pid munmap mqd hdr =
     (let res = mymq_close r pid munmap mqd hdr in mq_check ''mymq_close error'' (fst res) res)"

definition Mymq_unlink :: "int option \<Rightarrow> string + mq_out" where
  "Mymq_unlink e = (let out = mymq_unlink e in mq_check ''mymq_unlink error'' out out)"

section \<open>The invariant and the abstract queue\<close>

text \<open>The offsets of the slots.\<close>

definition slot :: "mymq_hdr \<Rightarrow> nat \<Rightarrow> int" where
  "slot hdr k = sizeof_mymq_hdr + int k * (sizeof_mymsg_hdr + MSGSIZE (msgsize hdr))"

definition slots :: "mymq_hdr \<Rightarrow> int set" where
  "slots hdr = slot hdr ` {..< nat (maxmsg hdr)}"

definition nxt :: "(int \<Rightarrow> mymsg) \<Rightarrow> int \<Rightarrow> int" where
  "nxt ms = (\<lambda>i. msg_next (ms i))"

lemma nxt_upd [simp]: "nxt (ms(i := m)) = (nxt ms)(i := msg_next m)"
  by (auto simp: nxt_def)

lemma nxt_apply: "msg_next (ms i) = nxt ms i"
  by (simp add: nxt_def)

text \<open>The message in a slot, and the relation between the mapped file, the offsets \<open>us\<close> on the queue
  and \<open>fs\<close> on the free chain: together they are all the slots, each exactly once; the priorities
  fall along the queue; the count is right and every message fits into its slot.\<close>

definition msg_of :: "mymsg \<Rightarrow> 32 word \<times> bytes" where
  "msg_of m = (msg_prio m, take (nat (msg_len m)) (msg_data m))"

definition msg_ok :: "int \<Rightarrow> mymsg \<Rightarrow> bool" where
  "msg_ok sz m \<longleftrightarrow> 0 \<le> msg_len m \<and> msg_len m \<le> sz \<and> msg_len m \<le> int (length (msg_data m))"

definition mq_rep :: "mymq_hdr \<Rightarrow> int list \<Rightarrow> int list \<Rightarrow> bool" where
  "mq_rep hdr us fs \<longleftrightarrow>
     chain (nxt (mqh_msgs hdr)) (mqh_head hdr) us \<and> chain (nxt (mqh_msgs hdr)) (mqh_free hdr) fs \<and>
     distinct (us @ fs) \<and> set (us @ fs) = slots hdr \<and>
     sorted_wrt (\<lambda>a b. msg_prio (mqh_msgs hdr b) \<le> msg_prio (mqh_msgs hdr a)) us \<and>
     int (length us) = curmsgs hdr \<and> int (length us + length fs) = maxmsg hdr \<and>
     (\<forall>u \<in> set us. msg_ok (msgsize hdr) (mqh_msgs hdr u))"

definition mq_abs :: "mymq_hdr \<Rightarrow> (32 word \<times> bytes) list \<Rightarrow> bool" where
  "mq_abs hdr q \<longleftrightarrow> 0 < maxmsg hdr \<and>
     (\<exists>us fs. mq_rep hdr us fs \<and> q = map (\<lambda>u. msg_of (mqh_msgs hdr u)) us)"

text \<open>The abstract queue: a new message goes behind all messages of at least its priority.\<close>

definition pq_send :: "32 word \<times> bytes \<Rightarrow> (32 word \<times> bytes) list \<Rightarrow> (32 word \<times> bytes) list" where
  "pq_send m q = takeWhile (\<lambda>m'. fst m \<le> fst m') q @ m # dropWhile (\<lambda>m'. fst m \<le> fst m') q"

lemma mq_absE:
  assumes "mq_abs hdr q"
  obtains us fs where "mq_rep hdr us fs" and "q = map (\<lambda>u. msg_of (mqh_msgs hdr u)) us"
  using assms by (auto simp: mq_abs_def)

lemma mq_abs_length: "mq_abs hdr q \<Longrightarrow> int (length q) = curmsgs hdr \<and> curmsgs hdr \<le> maxmsg hdr"
  by (auto simp: mq_abs_def mq_rep_def)

lemma mq_abs_sorted: "mq_abs hdr (m # q) \<Longrightarrow> \<forall>m' \<in> set q. fst m' \<le> fst m"
  by (auto simp: mq_abs_def mq_rep_def msg_of_def)

lemma find_place_spec:
  assumes "chain (nxt ms) i us"
  shows "find_place ms prio i pm =
    (let as = takeWhile (\<lambda>u. prio \<le> msg_prio (ms u)) us;
         bs = dropWhile (\<lambda>u. prio \<le> msg_prio (ms u)) us
     in Some (if bs = [] then 0 else hd bs, if as = [] then pm else PMsg (last as)))"
  using assms
  by (induction us arbitrary: i pm)
    (auto simp: find_place.simps [of ms prio _] nxt_apply Let_def not_le)

text \<open>The two orders in which the links are written have the same effect.\<close>

lemma link_in_head:
  "link_in PHead f index hdr = hdr\<lparr>mqh_head := f,
     mqh_msgs := (mqh_msgs hdr)(f := (mqh_msgs hdr f)\<lparr>msg_next := index\<rparr>)\<rparr>"
  by (simp add: link_in_def set_next_def)

lemma link_in_msg:
  "x \<noteq> f \<Longrightarrow> link_in (PMsg x) f index hdr = hdr\<lparr>
     mqh_msgs := (mqh_msgs hdr)(x := (mqh_msgs hdr x)\<lparr>msg_next := f\<rparr>,
                                f := (mqh_msgs hdr f)\<lparr>msg_next := index\<rparr>)\<rparr>"
  by (auto simp: link_in_def set_next_def fun_upd_twist)

lemma chain_link_in:
  assumes "chain (nxt (mqh_msgs hdr)) (mqh_head hdr) (as @ bs)" and "distinct (as @ bs)"
    and "f \<notin> set (as @ bs)" and "f \<noteq> 0"
    and "hdr' = link_in (if as = [] then PHead else PMsg (last as)) f (if bs = [] then 0 else hd bs) hdr"
  shows "chain (nxt (mqh_msgs hdr')) (mqh_head hdr') (as @ f # bs)"
proof (cases as rule: rev_cases)
  case Nil
  then show ?thesis using assms by (cases bs) (auto simp: link_in_head)
next
  case (snoc as' x)
  then have "chain ((nxt (mqh_msgs hdr))(x := f, f := (if bs = [] then 0 else hd bs)))
      (mqh_head hdr) (as' @ x # f # bs)"
    using assms(1-4) by (intro chain_link) auto
  then show ?thesis using assms(3,5) snoc by (auto simp: link_in_msg)
qed

text \<open>Linking changes only the head and the links.\<close>

lemma link_in_keeps:
  assumes "pm \<noteq> PMsg f"
  shows "mqh_attr (link_in pm f i hdr) = mqh_attr hdr" "mqh_free (link_in pm f i hdr) = mqh_free hdr"
    "mqh_nwait (link_in pm f i hdr) = mqh_nwait hdr" "mqh_pid (link_in pm f i hdr) = mqh_pid hdr"
    "msg_prio (mqh_msgs (link_in pm f i hdr) j) = msg_prio (mqh_msgs hdr j)"
    "msg_len (mqh_msgs (link_in pm f i hdr) j) = msg_len (mqh_msgs hdr j)"
    "msg_data (mqh_msgs (link_in pm f i hdr) j) = msg_data (mqh_msgs hdr j)"
    "PMsg j \<noteq> pm \<Longrightarrow> j \<noteq> f \<Longrightarrow> mqh_msgs (link_in pm f i hdr) j = mqh_msgs hdr j"
  by (auto simp: link_in_def set_next_def split: pmsg.splits)

lemma last_neq: "f \<notin> set as \<Longrightarrow> (if as = [] then PHead else PMsg (last as)) \<noteq> PMsg f"
  by (cases as rule: rev_cases) auto

lemma chain_cong:
  "(\<And>x. x \<in> set xs \<Longrightarrow> nx x = nx' x) \<Longrightarrow> chain nx i xs = chain nx' i xs"
  by (induction xs arbitrary: i) auto

lemma slots_cong: "mqh_attr hdr' = mqh_attr hdr \<Longrightarrow> slots hdr' = slots hdr"
  by (simp add: slots_def slot_def cong: image_cong)

lemma set_curmsgs_simps [simp]:
  "mqh_msgs (set_curmsgs n hdr) = mqh_msgs hdr" "mqh_head (set_curmsgs n hdr) = mqh_head hdr"
  "mqh_free (set_curmsgs n hdr) = mqh_free hdr" "mqh_nwait (set_curmsgs n hdr) = mqh_nwait hdr"
  "mqh_pid (set_curmsgs n hdr) = mqh_pid hdr"
  "curmsgs (set_curmsgs n hdr) = n" "maxmsg (set_curmsgs n hdr) = maxmsg hdr"
  "msgsize (set_curmsgs n hdr) = msgsize hdr" "slots (set_curmsgs n hdr) = slots hdr"
  by (simp_all add: set_curmsgs_def slots_def slot_def cong: image_cong)

lemma send_store_eq:
  assumes "mq_rep hdr us (f # fs)"
    and "as = takeWhile (\<lambda>u. prio \<le> msg_prio (mqh_msgs hdr u)) us"
    and "bs = dropWhile (\<lambda>u. prio \<le> msg_prio (mqh_msgs hdr u)) us"
    and "hdr' = link_in (if as = [] then PHead else PMsg (last as)) f (if bs = [] then 0 else hd bs)
                  (fill_slot ptr prio hdr)"
  shows "send_store ptr prio hdr =
    Some (MqReturn 0, no_eff\<lparr>eff_signal := curmsgs hdr = 0\<rparr>, set_curmsgs (curmsgs hdr + 1) hdr')"
proof -
  have f: "mqh_free hdr = f" "f \<noteq> 0" "f \<notin> set us" and us: "chain (nxt (mqh_msgs hdr)) (mqh_head hdr) us"
    using assms(1) by (auto simp: mq_rep_def)
  let ?h = "fill_slot ptr prio hdr"
  have same: "mqh_msgs ?h u = mqh_msgs hdr u" if "u \<in> set us" for u
    using f that by (auto simp: fill_slot_def Let_def)
  have "as = takeWhile (\<lambda>u. prio \<le> msg_prio (mqh_msgs ?h u)) us"
    "bs = dropWhile (\<lambda>u. prio \<le> msg_prio (mqh_msgs ?h u)) us"
    using assms(2,3) same by (auto cong: takeWhile_cong dropWhile_cong)
  moreover have "chain (nxt (mqh_msgs ?h)) (mqh_head ?h) us"
    using us f by (simp add: fill_slot_def Let_def)
  ultimately have "find_place (mqh_msgs ?h) prio (mqh_head ?h) PHead =
      Some (if bs = [] then 0 else hd bs, if as = [] then PHead else PMsg (last as))"
    by (simp add: find_place_spec Let_def)
  moreover have "(if as = [] then PHead else PMsg (last as)) \<noteq> PMsg f"
    using f(3) assms(2) by (intro last_neq) (auto dest: set_takeWhileD)
  then have "curmsgs hdr' = curmsgs hdr"
    unfolding assms(4) by (simp add: link_in_keeps(1) fill_slot_def Let_def)
  ultimately show ?thesis
    using f assms(4) by (simp add: send_store_def Let_def)
qed

lemma sorted_wrt_insert:
  assumes "sorted_wrt (\<lambda>a b. g b \<le> g a) us" and "as = takeWhile (\<lambda>u. p \<le> g u) us"
    and "bs = dropWhile (\<lambda>u. p \<le> g u) us" and "g f = (p :: 'b :: linorder)"
  shows "sorted_wrt (\<lambda>a b. g b \<le> g a) (as @ f # bs)"
proof -
  have "us = as @ bs" using assms by simp
  moreover have "\<forall>a \<in> set as. p \<le> g a" using assms(2) by (auto dest: set_takeWhileD)
  moreover have "\<forall>b \<in> set bs. g b \<le> p"
  proof (cases bs)
    case (Cons b bs')
    then have "\<not> p \<le> g b" using assms(3) by (metis dropWhile_eq_Cons_conv)
    then show ?thesis using assms(1) \<open>us = as @ bs\<close> Cons by (auto simp: sorted_wrt_append)
  qed simp
  ultimately show ?thesis using assms(1,4) by (auto simp: sorted_wrt_append)
qed

lemma fill_slot_simps:
  "mqh_attr (fill_slot ptr prio hdr) = mqh_attr hdr" "mqh_head (fill_slot ptr prio hdr) = mqh_head hdr"
  "mqh_nwait (fill_slot ptr prio hdr) = mqh_nwait hdr" "mqh_pid (fill_slot ptr prio hdr) = mqh_pid hdr"
  "mqh_free (fill_slot ptr prio hdr) = nxt (mqh_msgs hdr) (mqh_free hdr)"
  "nxt (mqh_msgs (fill_slot ptr prio hdr)) = nxt (mqh_msgs hdr)"
  "u \<noteq> mqh_free hdr \<Longrightarrow> mqh_msgs (fill_slot ptr prio hdr) u = mqh_msgs hdr u"
  "msg_of (mqh_msgs (fill_slot ptr prio hdr) (mqh_free hdr)) = (prio, ptr)"
  "msg_prio (mqh_msgs (fill_slot ptr prio hdr) (mqh_free hdr)) = prio"
  "int (length ptr) \<le> sz \<Longrightarrow> msg_ok sz (mqh_msgs (fill_slot ptr prio hdr) (mqh_free hdr))"
  by (auto simp: fill_slot_def Let_def nxt_def msg_of_def msg_ok_def)

text \<open>Filling the slot \<open>f\<close> and linking it in leaves the other messages as they are.\<close>

lemma stored_msgs:
  assumes "mqh_free hdr = f" and "pm \<noteq> PMsg f" and "hdr' = link_in pm f i (fill_slot ptr prio hdr)"
    and "int (length ptr) \<le> sz"
  shows "msg_of (mqh_msgs hdr' f) = (prio, ptr)" and "msg_prio (mqh_msgs hdr' f) = prio"
    and "msg_ok sz (mqh_msgs hdr' f)"
    and "u \<noteq> f \<Longrightarrow> msg_of (mqh_msgs hdr' u) = msg_of (mqh_msgs hdr u)"
    and "u \<noteq> f \<Longrightarrow> msg_prio (mqh_msgs hdr' u) = msg_prio (mqh_msgs hdr u)"
    and "u \<noteq> f \<Longrightarrow> msg_ok n (mqh_msgs hdr' u) = msg_ok n (mqh_msgs hdr u)"
    and "u \<noteq> f \<Longrightarrow> pm \<noteq> PMsg u \<Longrightarrow> nxt (mqh_msgs hdr') u = nxt (mqh_msgs hdr) u"
    and "mqh_attr hdr' = mqh_attr hdr" and "mqh_free hdr' = nxt (mqh_msgs hdr) f"
    and "slots hdr' = slots hdr"
  using assms fill_slot_simps(8-10) [where ptr = ptr and hdr = hdr]
  by (auto simp: msg_of_def msg_ok_def nxt_def link_in_keeps fill_slot_simps intro!: slots_cong)

lemma send_store_rep:
  assumes "mq_rep hdr us (f # fs)" and "int (length ptr) \<le> msgsize hdr"
    and "as = takeWhile (\<lambda>u. prio \<le> msg_prio (mqh_msgs hdr u)) us"
    and "bs = dropWhile (\<lambda>u. prio \<le> msg_prio (mqh_msgs hdr u)) us"
    and "hdr' = link_in (if as = [] then PHead else PMsg (last as)) f (if bs = [] then 0 else hd bs)
                  (fill_slot ptr prio hdr)"
  shows "mq_rep (set_curmsgs (curmsgs hdr + 1) hdr') (as @ f # bs) fs"
proof -
  let ?pm = "if as = [] then PHead else PMsg (last as)" and ?p = "\<lambda>u. msg_prio (mqh_msgs hdr' u)"
  have f: "mqh_free hdr = f" "f \<noteq> 0" "f \<notin> set us" "f \<notin> set fs" "distinct us"
      "set us \<inter> set fs = {}" and us: "us = as @ bs"
    and ch: "chain (nxt (mqh_msgs hdr)) (mqh_head hdr) us" "chain (nxt (mqh_msgs hdr)) (nxt (mqh_msgs hdr) f) fs"
    using assms by (auto simp: mq_rep_def)
  then have "set fs \<inter> set as = {}" and "f \<notin> set as" by auto
  then have pm: "?pm \<noteq> PMsg f" "\<forall>g \<in> set fs. ?pm \<noteq> PMsg g"
    using last_neq by (blast, metis disjoint_iff last_neq)
  note st = stored_msgs [OF f(1) pm(1) assms(5,2)]
  have same: "?p u = msg_prio (mqh_msgs hdr u)" if "u \<in> set us" for u
    using that f(3) st(5) by metis
  have "chain (nxt (mqh_msgs hdr')) (mqh_head hdr') (as @ f # bs)"
    using ch(1) f us by (intro chain_link_in [OF _ _ _ _ assms(5)]) (simp_all add: fill_slot_simps)
  moreover have "chain (nxt (mqh_msgs hdr')) (mqh_free hdr') fs = chain (nxt (mqh_msgs hdr)) (mqh_free hdr') fs"
    using pm(2) f(4) by (intro chain_cong st(7)) auto
  moreover have "sorted_wrt (\<lambda>a b. ?p b \<le> ?p a) us"
    by (rule sorted_wrt_mono_rel [where P = "\<lambda>a b. msg_prio (mqh_msgs hdr b) \<le> msg_prio (mqh_msgs hdr a)"])
      (use assms(1) same in \<open>auto simp: mq_rep_def\<close>)
  moreover have "as = takeWhile (\<lambda>u. prio \<le> ?p u) us" "bs = dropWhile (\<lambda>u. prio \<le> ?p u) us"
    using assms(3,4) same by (auto cong: takeWhile_cong dropWhile_cong)
  then have "sorted_wrt (\<lambda>a b. ?p b \<le> ?p a) (as @ f # bs)"
    using calculation(3) st(2) by (intro sorted_wrt_insert) auto
  moreover have "\<forall>u \<in> set us. msg_ok (msgsize hdr) (mqh_msgs hdr' u)"
    using assms(1) f(3) st(6) by (metis mq_rep_def)
  ultimately show ?thesis
    using assms(1) f ch(2) us st by (auto simp: mq_rep_def)
qed

lemma map_takeWhile_fst:
  assumes "\<And>u. u \<in> set us \<Longrightarrow> fst (g u) = h u"
  shows "takeWhile (\<lambda>m. p \<le> fst m) (map g us) = map g (takeWhile (\<lambda>u. p \<le> h u) us)"
    and "dropWhile (\<lambda>m. p \<le> fst m) (map g us) = map g (dropWhile (\<lambda>u. p \<le> h u) us)"
  using assms by (induction us) auto

lemma send_store_abs:
  assumes "mq_abs hdr q" and "curmsgs hdr < maxmsg hdr" and "int (length ptr) \<le> msgsize hdr"
  obtains hdr' where "send_store ptr prio hdr =
      Some (MqReturn 0, no_eff\<lparr>eff_signal := curmsgs hdr = 0\<rparr>, hdr')"
    and "mq_abs hdr' (pq_send (prio, ptr) q)"
    and "maxmsg hdr' = maxmsg hdr" and "msgsize hdr' = msgsize hdr"
    and "mqh_nwait hdr' = mqh_nwait hdr" and "mqh_pid hdr' = mqh_pid hdr"
proof -
  obtain us fs where rep: "mq_rep hdr us fs" and q: "q = map (\<lambda>u. msg_of (mqh_msgs hdr u)) us"
    using assms(1) by (rule mq_absE)
  then obtain f fs' where fs: "fs = f # fs'"
    using assms(2) by (cases fs) (auto simp: mq_rep_def)
  define as bs where "as = takeWhile (\<lambda>u. prio \<le> msg_prio (mqh_msgs hdr u)) us"
    and "bs = dropWhile (\<lambda>u. prio \<le> msg_prio (mqh_msgs hdr u)) us"
  define hdr' where "hdr' = link_in (if as = [] then PHead else PMsg (last as)) f
    (if bs = [] then 0 else hd bs) (fill_slot ptr prio hdr)"
  note args = rep [unfolded fs] and defs = as_def bs_def hdr'_def
  have us: "us = as @ bs" "f \<notin> set us"
    using rep by (auto simp: defs fs mq_rep_def)
  have pm: "(if as = [] then PHead else PMsg (last as)) \<noteq> PMsg f"
    using us by (intro last_neq) auto
  have "takeWhile (\<lambda>m. prio \<le> fst m) q = map (\<lambda>u. msg_of (mqh_msgs hdr u)) as"
    "dropWhile (\<lambda>m. prio \<le> fst m) q = map (\<lambda>u. msg_of (mqh_msgs hdr u)) bs"
    unfolding q as_def bs_def by (intro map_takeWhile_fst; simp add: msg_of_def)+
  moreover have "mqh_free hdr = f" using rep fs by (simp add: mq_rep_def)
  then have "msg_of (mqh_msgs hdr' f) = (prio, ptr)"
    and "\<forall>u \<in> set us. msg_of (mqh_msgs hdr' u) = msg_of (mqh_msgs hdr u)"
    using us(2) stored_msgs(1,4) [OF _ pm hdr'_def assms(3)] by metis+
  ultimately have "map (\<lambda>u. msg_of (mqh_msgs hdr' u)) (as @ f # bs) = pq_send (prio, ptr) q"
    using us(1) by (simp add: pq_send_def)
  then have "mq_abs (set_curmsgs (curmsgs hdr + 1) hdr') (pq_send (prio, ptr) q)"
    using send_store_rep [OF args assms(3) defs] assms(1,2) link_in_keeps(1) [OF pm]
    unfolding mq_abs_def by (force simp: hdr'_def fill_slot_simps)
  then show thesis
    using that send_store_eq [OF args defs] pm
    by (simp add: hdr'_def link_in_keeps fill_slot_simps)
qed

lemma recv_take_abs:
  assumes "mq_abs hdr (m # q)"
  obtains hdr' where "recv_take hdr = (MqReturn (int (length (snd m))), Some (snd m, fst m),
      no_eff\<lparr>eff_signal := curmsgs hdr = maxmsg hdr\<rparr>, hdr')"
    and "mq_abs hdr' q" and "maxmsg hdr' = maxmsg hdr" and "msgsize hdr' = msgsize hdr"
    and "mqh_nwait hdr' = mqh_nwait hdr" and "mqh_pid hdr' = mqh_pid hdr"
    and "int (length (snd m)) \<le> msgsize hdr"
proof -
  obtain us fs where rep: "mq_rep hdr us fs" and "m # q = map (\<lambda>u. msg_of (mqh_msgs hdr u)) us"
    using assms by (rule mq_absE)
  then obtain u us' where us: "us = u # us'" and m: "m = msg_of (mqh_msgs hdr u)"
    and q: "q = map (\<lambda>u. msg_of (mqh_msgs hdr u)) us'"
    by (cases us) auto
  define hdr' where "hdr' = hdr\<lparr>mqh_head := nxt (mqh_msgs hdr) u,
    mqh_msgs := (mqh_msgs hdr)(u := (mqh_msgs hdr u)\<lparr>msg_next := mqh_free hdr\<rparr>), mqh_free := u\<rparr>"
  have u: "mqh_head hdr = u" "u \<noteq> 0" "u \<notin> set us'" "u \<notin> set fs" "msg_ok (msgsize hdr) (mqh_msgs hdr u)"
    using rep us by (auto simp: mq_rep_def)
  have "mq_rep (set_curmsgs (curmsgs hdr - 1) hdr') us' (u # fs)"
    unfolding mq_rep_def
  proof (intro conjI)
    have "msg_prio (mqh_msgs hdr' x) = msg_prio (mqh_msgs hdr x)" for x
      by (simp add: hdr'_def)
    then show "sorted_wrt (\<lambda>a b. msg_prio (mqh_msgs (set_curmsgs (curmsgs hdr - 1) hdr') b)
        \<le> msg_prio (mqh_msgs (set_curmsgs (curmsgs hdr - 1) hdr') a)) us'"
      using rep us by (simp add: mq_rep_def)
    have "slots hdr' = slots hdr" by (rule slots_cong) (simp add: hdr'_def)
    then show "set (us' @ u # fs) = slots (set_curmsgs (curmsgs hdr - 1) hdr')"
      using rep us by (auto simp: mq_rep_def)
  qed (use rep u us in \<open>auto simp: mq_rep_def hdr'_def\<close>)
  moreover have "q = map (\<lambda>u. msg_of (mqh_msgs hdr' u)) us'"
    using u(3) by (auto simp: q hdr'_def)
  ultimately have "mq_abs (set_curmsgs (curmsgs hdr - 1) hdr') q"
    using assms by (auto simp: mq_abs_def hdr'_def)
  then show thesis
    using that u by (auto simp: recv_take_def hdr'_def m msg_of_def msg_ok_def nxt_def Let_def)
qed

lemma mq_abs_cong:
  assumes "mq_abs hdr q" and "mqh_attr hdr' = mqh_attr hdr" and "mqh_head hdr' = mqh_head hdr"
    and "mqh_free hdr' = mqh_free hdr" and "mqh_msgs hdr' = mqh_msgs hdr"
  shows "mq_abs hdr' q"
  using assms slots_cong [OF assms(2)] by (simp add: mq_abs_def mq_rep_def)

lemma send_notify_keeps:
  assumes "send_notify hdr = (sq, hdr')"
  shows "mqh_attr hdr' = mqh_attr hdr \<and> mqh_head hdr' = mqh_head hdr \<and>
    mqh_free hdr' = mqh_free hdr \<and> mqh_msgs hdr' = mqh_msgs hdr \<and> mqh_nwait hdr' = mqh_nwait hdr"
  using assms by (auto simp: send_notify_def Let_def split: if_splits)

text \<open>What \<^verbatim>\<open>mymq_send\<close> and \<^verbatim>\<open>mymq_receive\<close> return, on every branch.\<close>

definition send_result :: "mymq_info \<Rightarrow> bytes \<Rightarrow> mymq_hdr \<Rightarrow> mq_out" where
  "send_result mqd ptr hdr =
     (if int (length ptr) > msgsize hdr then MqErr EMSGSIZE
      else if curmsgs hdr < maxmsg hdr then MqReturn 0
      else if mqi_flags mqd AND MQ_NONBLOCK \<noteq> 0 then MqErr EAGAIN else MqWait)"

definition recv_result :: "mymq_info \<Rightarrow> int \<Rightarrow> mymq_hdr \<Rightarrow> (32 word \<times> bytes) list \<Rightarrow> mq_out" where
  "recv_result mqd maxlen hdr q =
     (if maxlen < msgsize hdr then MqErr EMSGSIZE
      else if q \<noteq> [] then MqReturn (int (length (snd (hd q))))
      else if mqi_flags mqd AND MQ_NONBLOCK \<noteq> 0 then MqErr EAGAIN else MqWait)"

text \<open>The attributes that no operation changes.\<close>

definition same_shape :: "mymq_hdr \<Rightarrow> mymq_hdr \<Rightarrow> bool" where
  "same_shape hdr hdr' \<longleftrightarrow> maxmsg hdr' = maxmsg hdr \<and> msgsize hdr' = msgsize hdr"

lemma mymq_send_abs:
  assumes "mq_abs hdr q" and "mqi_magic mqd = MQI_MAGIC"
  shows "\<exists>eff hdr'. mymq_send 0 mqd ptr prio hdr = Some (send_result mqd ptr hdr, eff, hdr') \<and>
    same_shape hdr hdr' \<and> mqh_nwait hdr' = mqh_nwait hdr \<and>
    (send_result mqd ptr hdr = MqReturn 0 \<longrightarrow> eff_signal eff = (curmsgs hdr = 0)) \<and>
    mq_abs hdr' (if send_result mqd ptr hdr = MqReturn 0 then pq_send (prio, ptr) q else q)"
proof -
  consider "int (length ptr) > msgsize hdr" | "int (length ptr) \<le> msgsize hdr" "curmsgs hdr = 0"
    | "int (length ptr) \<le> msgsize hdr" "curmsgs hdr \<noteq> 0" "curmsgs hdr < maxmsg hdr"
    | "int (length ptr) \<le> msgsize hdr" "curmsgs hdr \<noteq> 0" "curmsgs hdr \<ge> maxmsg hdr"
    by linarith
  then show ?thesis
  proof cases
    case 1
    then show ?thesis using assms by (simp add: mymq_send_def send_result_def same_shape_def)
  next
    case 2
    obtain sq hdr1 where n: "send_notify hdr = (sq, hdr1)" by fastforce
    note k = send_notify_keeps [OF n]
    have "mq_abs hdr1 q" using mq_abs_cong [OF assms(1)] k by blast
    moreover have "0 < maxmsg hdr" using assms(1) by (simp add: mq_abs_def)
    ultimately obtain hdr' where "send_store ptr prio hdr1 =
        Some (MqReturn 0, no_eff\<lparr>eff_signal := curmsgs hdr1 = 0\<rparr>, hdr')"
      and "mq_abs hdr' (pq_send (prio, ptr) q)" "maxmsg hdr' = maxmsg hdr1"
        "msgsize hdr' = msgsize hdr1" "mqh_nwait hdr' = mqh_nwait hdr1"
      using send_store_abs [of hdr1 q ptr prio] k 2 by (metis (no_types))
    then show ?thesis using 2 n k assms \<open>0 < maxmsg hdr\<close>
      by (simp add: mymq_send_def send_result_def same_shape_def)
  next
    case 3
    then obtain hdr' where "send_store ptr prio hdr =
        Some (MqReturn 0, no_eff\<lparr>eff_signal := curmsgs hdr = 0\<rparr>, hdr')"
      and "mq_abs hdr' (pq_send (prio, ptr) q)" "maxmsg hdr' = maxmsg hdr"
        "msgsize hdr' = msgsize hdr" "mqh_nwait hdr' = mqh_nwait hdr"
      using send_store_abs [OF assms(1), of ptr prio] by blast
    then show ?thesis using 3 assms by (simp add: mymq_send_def send_result_def same_shape_def)
  next
    case 4
    then show ?thesis using assms
      by (simp add: mymq_send_def send_loop_def send_result_def same_shape_def)
  qed
qed

lemma mymq_receive_abs:
  assumes "mq_abs hdr q" and "mqi_magic mqd = MQI_MAGIC"
  shows "\<exists>got eff hdr'. mymq_receive 0 mqd maxlen hdr = (recv_result mqd maxlen hdr q, got, eff, hdr') \<and>
    same_shape hdr hdr' \<and>
    mqh_nwait hdr' = mqh_nwait hdr + (if recv_result mqd maxlen hdr q = MqWait then 1 else 0) \<and>
    (case recv_result mqd maxlen hdr q of
       MqReturn _ \<Rightarrow> got = Some (snd (hd q), fst (hd q)) \<and> mq_abs hdr' (tl q)
     | _ \<Rightarrow> got = None \<and> mq_abs hdr' q)"
proof (cases "maxlen < msgsize hdr \<or> q = []")
  case True
  moreover have "curmsgs hdr = 0" if "q = []" using mq_abs_length [OF assms(1)] that by simp
  moreover have "mq_abs (hdr\<lparr>mqh_nwait := mqh_nwait hdr + 1\<rparr>) q"
    by (rule mq_abs_cong [OF assms(1)]) simp_all
  ultimately show ?thesis using assms
    by (auto simp: mymq_receive_def recv_loop_def recv_result_def same_shape_def)
next
  case False
  then obtain m q' where q: "q = m # q'" by (cases q) auto
  have "curmsgs hdr \<noteq> 0" using mq_abs_length [OF assms(1)] q by simp
  moreover obtain hdr' where "recv_take hdr = (MqReturn (int (length (snd m))), Some (snd m, fst m),
      no_eff\<lparr>eff_signal := curmsgs hdr = maxmsg hdr\<rparr>, hdr')"
    and "mq_abs hdr' q'" "maxmsg hdr' = maxmsg hdr" "msgsize hdr' = msgsize hdr"
      "mqh_nwait hdr' = mqh_nwait hdr"
    using recv_take_abs [of hdr m q'] assms(1) q by metis
  ultimately show ?thesis using False assms(2) q
    by (simp add: mymq_receive_def recv_result_def same_shape_def)
qed

section \<open>The queue interface\<close>

text \<open>The operations of the interface: a send and a receive by an open, blocking descriptor, which
  succeed or else do nothing.\<close>

definition mqd_open :: mymq_info where
  "mqd_open = \<lparr>mqi_magic = MQI_MAGIC, mqi_flags = 0\<rparr>"

definition mq_send_op :: "32 word \<times> bytes \<Rightarrow> mymq_hdr \<Rightarrow> mymq_hdr option" where
  "mq_send_op m hdr = (case mymq_send 0 mqd_open (snd m) (fst m) hdr of
     Some (MqReturn _, _, hdr') \<Rightarrow> Some hdr' | _ \<Rightarrow> None)"

definition mq_recv_op :: "mymq_hdr \<Rightarrow> ((32 word \<times> bytes) \<times> mymq_hdr) option" where
  "mq_recv_op hdr = (case mymq_receive 0 mqd_open (msgsize hdr) hdr of
     (MqReturn _, Some (data, prio), _, hdr') \<Rightarrow> Some ((prio, data), hdr') | _ \<Rightarrow> None)"

definition mq_key :: "32 word \<times> bytes \<Rightarrow> int" where
  "mq_key m = uint (fst m)"

lemma pq_send_behind: "pq_send m q = behind mq_key m q"
  by (simp add: pq_send_def behind_def mq_key_def word_le_def)

interpretation mq: prio_queue mq_abs "\<lambda>hdr. nat (maxmsg hdr)"
  "\<lambda>hdr m. int (length (snd m)) \<le> msgsize hdr" mq_key mq_send_op mq_recv_op
proof
  fix hdr q and m :: "32 word \<times> bytes"
  assume a: "mq_abs hdr q" and r: "length q < nat (maxmsg hdr)"
    and f: "int (length (snd m)) \<le> msgsize hdr"
  have "send_result mqd_open (snd m) hdr = MqReturn 0"
    using mq_abs_length [OF a] r f by (auto simp: send_result_def)
  then obtain eff hdr' where "mymq_send 0 mqd_open (snd m) (fst m) hdr = Some (MqReturn 0, eff, hdr')"
    and "same_shape hdr hdr'" and "mq_abs hdr' (pq_send m q)"
    using mymq_send_abs [OF a, of mqd_open "snd m" "fst m"] by (auto simp: mqd_open_def)
  then show "\<exists>hdr'. mq_send_op m hdr = Some hdr' \<and> mq_abs hdr' (behind mq_key m q) \<and>
      nat (maxmsg hdr') = nat (maxmsg hdr) \<and>
      (\<lambda>m. int (length (snd m)) \<le> msgsize hdr') = (\<lambda>m. int (length (snd m)) \<le> msgsize hdr)"
    by (simp add: mq_send_op_def same_shape_def pq_send_behind)
next
  fix hdr m q
  assume a: "mq_abs hdr (m # q)"
  then show "\<exists>hdr'. mq_recv_op hdr = Some (m, hdr') \<and> mq_abs hdr' q"
    using mymq_receive_abs [OF a, of mqd_open "msgsize hdr"]
    by (auto simp: mq_recv_op_def recv_result_def mqd_open_def)
qed

text \<open>C13. \<^verbatim>\<open>mymq_send\<close> on a well-formed queue always returns, with the result its conditions call for, and
  leaves a well-formed queue: the message placed behind all those of at least its priority if there
  was room, and the same messages otherwise. In particular \<^verbatim>\<open>err_dump\<close> is never reached.\<close>

theorem mq_send_refines:
  assumes "mq_abs hdr q" and "mqi_magic mqd = MQI_MAGIC"
  shows "\<exists>out eff hdr'. mymq_send 0 mqd ptr prio hdr = Some (out, eff, hdr') \<and>
    out = (if int (length ptr) > msgsize hdr then MqErr EMSGSIZE
           else if int (length q) < maxmsg hdr then MqReturn 0
           else if mqi_flags mqd AND MQ_NONBLOCK \<noteq> 0 then MqErr EAGAIN else MqWait) \<and>
    mq_abs hdr' (if out = MqReturn 0 then pq_send (prio, ptr) q else q)"
  using mymq_send_abs [OF assms, of ptr prio] mq_abs_length [OF assms(1)]
  by (force simp: send_result_def)

text \<open>A queue with two slots, the first of which holds a message or is free, for the evaluations
  below.\<close>

definition hdr_two :: "bool \<Rightarrow> mymq_hdr" where
  "hdr_two used = \<lparr>mqh_attr = \<lparr>mq_flags = 0, mq_maxmsg = 2, mq_msgsize = 8,
       mq_curmsgs = (if used then 1 else 0)\<rparr>,
     mqh_head = (if used then 216 else 0), mqh_free = (if used then 248 else 216),
     mqh_nwait = 0, mqh_pid = 0, mqh_event = \<lparr>sigev_notify = 0, sigev_signo = 0, sigev_value = 0\<rparr>,
     mqh_msgs = (\<lambda>i. \<lparr>msg_next = (if \<not> used \<and> i = 216 then 248 else 0), msg_len = 2, msg_prio = 5,
                      msg_data = [7, 7, 0, 0, 0, 0, 0, 0]\<rparr>)\<rparr>"

lemma hdr_two_slots: "slots (hdr_two used) = {216, 248}"
  by (auto simp: slots_def slot_def hdr_two_def sizeof_mymq_hdr_def sizeof_mymsg_hdr_def
      MSGSIZE_def sizeof_long_def lessThan_Suc numeral_2_eq_2)

lemma hdr_two_abs: "mq_abs (hdr_two True) [(5, [7, 7])]" "mq_abs (hdr_two False) []"
proof -
  have "mq_rep (hdr_two True) [216] [248]" "mq_rep (hdr_two False) [] [216, 248]"
    unfolding mq_rep_def hdr_two_slots by (auto simp: hdr_two_def nxt_def msg_ok_def)
  moreover have "[(5, [7, 7])] = map (\<lambda>u. msg_of (mqh_msgs (hdr_two True) u)) [216]"
    by (simp add: hdr_two_def msg_of_def)
  moreover have "0 < maxmsg (hdr_two used)" for used
    by (simp add: hdr_two_def)
  ultimately show "mq_abs (hdr_two True) [(5, [7, 7])]" "mq_abs (hdr_two False) []"
    unfolding mq_abs_def by (metis, metis list.map(1))
qed

theorem mq_send_refines_witness:
  "\<exists>eff hdr'. mymq_send 0 mqd_open [1, 2, 3] 9 (hdr_two True) = Some (MqReturn 0, eff, hdr') \<and>
     mq_abs hdr' [(9, [1, 2, 3]), (5, [7, 7])]"
  using mq_send_refines [OF hdr_two_abs(1), of mqd_open "[1, 2, 3]" 9]
  by (simp add: mqd_open_def hdr_two_def pq_send_def)

text \<open>C14. \<^verbatim>\<open>mymq_receive\<close> on a well-formed queue returns the first message of the queue, the oldest of
  the highest priority, and takes it off; on an empty queue, or with too small a buffer, it waits or
  fails and leaves the messages as they are.\<close>

theorem mq_receive_refines:
  assumes "mq_abs hdr q" and "mqi_magic mqd = MQI_MAGIC"
  shows "\<exists>out got eff hdr'. mymq_receive 0 mqd maxlen hdr = (out, got, eff, hdr') \<and>
    (if maxlen < msgsize hdr then out = MqErr EMSGSIZE \<and> got = None \<and> mq_abs hdr' q
     else if q \<noteq> [] then out = MqReturn (int (length (snd (hd q)))) \<and>
        got = Some (snd (hd q), fst (hd q)) \<and> mq_abs hdr' (tl q) \<and> (\<forall>m \<in> set q. fst m \<le> fst (hd q))
     else out = (if mqi_flags mqd AND MQ_NONBLOCK \<noteq> 0 then MqErr EAGAIN else MqWait) \<and>
        got = None \<and> mq_abs hdr' q)"
  using mymq_receive_abs [OF assms, of maxlen] mq_abs_sorted [of hdr "hd q" "tl q"] assms(1)
  by (cases q) (auto simp: recv_result_def split: if_splits)

theorem mq_receive_refines_witness:
  "\<exists>eff hdr'. mymq_receive 0 mqd_open 8 (hdr_two True) = (MqReturn 2, Some ([7, 7], 5), eff, hdr') \<and>
     mq_abs hdr' []"
  using mq_receive_refines [OF hdr_two_abs(1), of mqd_open 8] by (simp add: mqd_open_def hdr_two_def)

text \<open>Messages sent to an empty queue that has room for them all come out sorted by falling
  priority, those of equal priority in the order in which they were sent.\<close>

theorem mq_fill_and_drain:
  assumes "mq_abs hdr []" and "int (length ms) \<le> maxmsg hdr"
    and "\<forall>m \<in> set ms. int (length (snd m)) \<le> msgsize hdr"
  shows "\<exists>hdr1 hdr2. send_all mq_send_op ms hdr = Some hdr1 \<and>
    recv_all mq_recv_op (length ms) hdr1 = Some (sort_key (\<lambda>m. - mq_key m) ms, hdr2) \<and> mq_abs hdr2 []"
  using mq.fill_and_drain [of hdr ms] assms by simp

theorem mq_fill_and_drain_witness:
  "\<exists>hdr1 hdr2. send_all mq_send_op [(1, [10]), (4, [11, 12])] (hdr_two False) = Some hdr1 \<and>
     recv_all mq_recv_op 2 hdr1 = Some ([(4, [11, 12]), (1, [10])], hdr2) \<and> mq_abs hdr2 []"
proof -
  have "maxmsg (hdr_two False) = 2" and "msgsize (hdr_two False) = 8"
    by (simp_all add: hdr_two_def)
  moreover have "sort_key (\<lambda>m. - mq_key m) [(1, [10]), (4, [11, 12])] = [(4, [11, 12]), (1, [10])]"
    by (simp add: mq_key_def)
  ultimately show ?thesis
    using mq_fill_and_drain [OF hdr_two_abs(2), of "[(1, [10]), (4, [11, 12])]"]
    by (simp only: list.size list.set snd_conv numeral_2_eq_2) simp
qed

end
