(* ===== verification/Mqueue_Open.thy ===== *)
theory Mqueue_Open
  imports Mqueue Open_Acts
begin

text \<open>
  \<^verbatim>\<open>mymq_open\<close>: the creation of the file with its header and the chain of free slots, the opening of an
  existing queue, and what the function does to the resources of the process on every path.
\<close>

definition defattr :: mymq_attr where
  "defattr = \<lparr>mq_flags = 0, mq_maxmsg = 128, mq_msgsize = 1024, mq_curmsgs = 0\<rparr>"

definition MQ_MAX_TRIES :: nat where "MQ_MAX_TRIES = 10"

section \<open>The initial queue\<close>

text \<open>The file is extended to its size by writing its last byte: what has not been written is zero.\<close>

definition zero_slot :: "int \<Rightarrow> mymsg" where
  "zero_slot sz = \<lparr>msg_next = 0, msg_len = 0, msg_prio = 0, msg_data = replicate (nat sz) 0\<rparr>"

text \<open>The loop that chains the slots, with \<open>n\<close> links to go: \<open>i\<close> is an \<^verbatim>\<open>int\<close> of 32 bits, \<open>index\<close> a \<^verbatim>\<open>long\<close>. \<open>None\<close>: it writes outside of the
  mapped file, whose size is \<open>fsize\<close>, or \<open>i\<close> overflows.\<close>

definition in_file :: "int \<Rightarrow> int \<Rightarrow> bool" where
  "in_file fsize index \<longleftrightarrow> 0 \<le> index \<and> index + sizeof_mymsg_hdr \<le> fsize"

fun link_slots :: "int \<Rightarrow> int \<Rightarrow> nat \<Rightarrow> int \<Rightarrow> int \<Rightarrow> (int \<Rightarrow> mymsg) \<Rightarrow> (int \<Rightarrow> mymsg) option" where
  "link_slots fsize stride 0 i index ms =
     (if in_file fsize index then Some (ms(index := (ms index)\<lparr>msg_next := 0\<rparr>)) else None)"
| "link_slots fsize stride (Suc n) i index ms =
     (if in_file fsize index \<and> i < 2 ^ 31 - 1 then
        (let next = to_long (index + stride)
         in link_slots fsize stride n (i + 1) next (ms(index := (ms index)\<lparr>msg_next := next\<rparr>)))
      else None)"

text \<open>The header and the slots as they are initialised, \<open>None\<close> as above.\<close>

definition mq_init :: "mymq_attr \<Rightarrow> mymq_hdr option" where
  "mq_init attr =
     (let msize = to_long (MSGSIZE (mq_msgsize attr)); fsize = mq_filesize attr in
      if fsize < sizeof_mymq_hdr then None
      else map_option (\<lambda>ms.
        \<lparr>mqh_attr = \<lparr>mq_flags = 0, mq_maxmsg = mq_maxmsg attr, mq_msgsize = mq_msgsize attr,
                     mq_curmsgs = 0\<rparr>,
         mqh_head = 0, mqh_free = sizeof_mymq_hdr, mqh_nwait = 0, mqh_pid = 0,
         mqh_event = \<lparr>sigev_notify = 0, sigev_signo = 0, sigev_value = 0\<rparr>, mqh_msgs = ms\<rparr>)
        (link_slots fsize (to_long (sizeof_mymsg_hdr + msize)) (nat (mq_maxmsg attr - 1)) 0 sizeof_mymq_hdr (\<lambda>_. zero_slot msize)))"

text \<open>The attributes for which the code is right: the file has a size below \<open>2 ^ 63\<close>, and the number of slots is at most \<open>2 ^ 31\<close>.\<close>

definition attr_fits :: "mymq_attr \<Rightarrow> bool" where
  "attr_fits attr \<longleftrightarrow> mq_maxmsg attr \<le> 2 ^ 31 \<and>
     sizeof_mymq_hdr + mq_maxmsg attr * (sizeof_mymsg_hdr + MSGSIZE (mq_msgsize attr)) < 2 ^ 63"

text \<open>The chain without limits.\<close>

fun chain_slots :: "int \<Rightarrow> nat \<Rightarrow> int \<Rightarrow> (int \<Rightarrow> mymsg) \<Rightarrow> (int \<Rightarrow> mymsg)" where
  "chain_slots stride 0 index ms = ms(index := (ms index)\<lparr>msg_next := 0\<rparr>)"
| "chain_slots stride (Suc n) index ms =
     chain_slots stride n (index + stride) (ms(index := (ms index)\<lparr>msg_next := index + stride\<rparr>))"

lemma to_long_id: "- (2 ^ 63) \<le> x \<Longrightarrow> x < 2 ^ 63 \<Longrightarrow> to_long x = x"
  by (simp add: to_long_def sint_uint signed_take_bit_take_bit unsigned_of_int signed_take_bit_int_eq_self)

lemma link_slots_fits:
  "0 < stride \<Longrightarrow> 0 \<le> index \<Longrightarrow> index + int n * stride + sizeof_mymsg_hdr \<le> fsize \<Longrightarrow> fsize < 2 ^ 63 \<Longrightarrow> i + int n < 2 ^ 31 \<Longrightarrow>
    link_slots fsize stride n i index ms = Some (chain_slots stride n index ms)"
proof (induction n arbitrary: i index ms)
  case 0
  then show ?case by (simp add: in_file_def fun_upd_def)
next
  case (Suc n)
  have p: "0 \<le> int n * stride" using Suc.prems(1) by simp
  have e: "index + int (Suc n) * stride = index + stride + int n * stride" by (simp add: algebra_simps)
  have f: "in_file fsize index" using Suc.prems p e unfolding in_file_def by linarith
  have "index + stride < 2 ^ 63" using Suc.prems p e unfolding sizeof_mymsg_hdr_def by linarith
  then have t: "to_long (index + stride) = index + stride" using Suc.prems(1,2) by (intro to_long_id) simp_all
  show ?case using Suc.IH [of "index + stride" "i + 1"] Suc.prems e f t by (simp add: Let_def)
qed

text \<open>The offsets the loop visits.\<close>

fun steps :: "int \<Rightarrow> nat \<Rightarrow> int \<Rightarrow> int list" where
  "steps stride 0 index = [index]"
| "steps stride (Suc n) index = index # steps stride n (index + stride)"

lemma set_steps: "set (steps stride n index) = (\<lambda>k. index + int k * stride) ` {..n}"
  by (induction n arbitrary: index)
    (auto simp: atMost_Suc_eq_insert_0 image_image algebra_simps)

lemma length_steps [simp]: "length (steps stride n index) = Suc n"
  by (induction n arbitrary: index) auto

lemma steps_distinct: "0 < stride \<Longrightarrow> distinct (steps stride n index)"
proof (induction n arbitrary: index)
  case (Suc n)
  have "index \<notin> set (steps stride n (index + stride))"
    using Suc.prems by (auto simp: set_steps) (smt (verit) mult_nonneg_nonneg of_nat_0_le_iff)
  then show ?case using Suc by simp
qed simp

lemma nxt_chain_slots:
  "0 < stride \<Longrightarrow> x < index \<Longrightarrow> nxt (chain_slots stride n index ms) x = nxt ms x"
  by (induction n arbitrary: index ms) auto

lemma chain_slots_chain:
  "0 < stride \<Longrightarrow> 0 < index \<Longrightarrow> chain (nxt (chain_slots stride n index ms)) index (steps stride n index)"
proof (induction n arbitrary: index ms)
  case (Suc n)
  then show ?case using nxt_chain_slots [of stride index "index + stride"] by simp
qed simp

lemma MSGSIZE_pos: "0 < i \<Longrightarrow> i \<le> MSGSIZE i"
  by (simp add: MSGSIZE_def sizeof_long_def)

lemma mq_init_fits:
  assumes "0 < mq_maxmsg attr" and "0 < mq_msgsize attr" and "attr_fits attr"
  shows "mq_init attr = Some
    \<lparr>mqh_attr = \<lparr>mq_flags = 0, mq_maxmsg = mq_maxmsg attr, mq_msgsize = mq_msgsize attr, mq_curmsgs = 0\<rparr>,
     mqh_head = 0, mqh_free = sizeof_mymq_hdr, mqh_nwait = 0, mqh_pid = 0,
     mqh_event = \<lparr>sigev_notify = 0, sigev_signo = 0, sigev_value = 0\<rparr>,
     mqh_msgs = chain_slots (sizeof_mymsg_hdr + MSGSIZE (mq_msgsize attr)) (nat (mq_maxmsg attr - 1)) sizeof_mymq_hdr
       (\<lambda>_. zero_slot (MSGSIZE (mq_msgsize attr)))\<rparr>"
proof -
  define msize where "msize = MSGSIZE (mq_msgsize attr)"
  define stride where "stride = sizeof_mymsg_hdr + msize"
  define n where "n = nat (mq_maxmsg attr - 1)"
  have m: "0 < msize" using MSGSIZE_pos [OF assms(2)] assms(2) by (simp add: msize_def)
  have n: "mq_maxmsg attr = int n + 1" using assms(1) by (simp add: n_def)
  have fits: "sizeof_mymq_hdr + mq_maxmsg attr * stride < 2 ^ 63" "int n < 2 ^ 31"
    using assms(3) n by (simp_all add: attr_fits_def stride_def msize_def)
  have p: "0 \<le> int n * stride" using m by (simp add: stride_def sizeof_mymsg_hdr_def)
  have e: "mq_maxmsg attr * stride = int n * stride + stride" by (simp add: n algebra_simps)
  have "stride < 2 ^ 63" using fits(1) p e by (simp add: sizeof_mymq_hdr_def)
  then have st: "to_long msize = msize" "to_long stride = stride"
    using m by (auto intro!: to_long_id simp: stride_def sizeof_mymsg_hdr_def)
  have f: "mq_filesize attr = sizeof_mymq_hdr + mq_maxmsg attr * stride"
    using fits(1) p m e st(1) unfolding mq_filesize_def msize_def [symmetric] st(1) stride_def [symmetric]
    by (intro to_long_id) (simp_all add: stride_def sizeof_mymsg_hdr_def sizeof_mymq_hdr_def)
  have l: "link_slots (mq_filesize attr) stride n 0 sizeof_mymq_hdr ms = Some (chain_slots stride n sizeof_mymq_hdr ms)" for ms
    using fits m e by (intro link_slots_fits) (simp_all add: f stride_def sizeof_mymsg_hdr_def sizeof_mymq_hdr_def)
  have "0 < stride" using m by (simp add: stride_def sizeof_mymsg_hdr_def)
  then have "\<not> mq_filesize attr < sizeof_mymq_hdr" using p e f by linarith
  then show ?thesis using st l
    by (simp add: mq_init_def Let_def msize_def [symmetric] stride_def [symmetric] n_def [symmetric])
qed

lemma mq_init_abs:
  assumes "0 < mq_maxmsg attr" and "0 < mq_msgsize attr" and "attr_fits attr"
  shows "\<exists>hdr. mq_init attr = Some hdr \<and> mq_abs hdr [] \<and> mqh_nwait hdr = 0 \<and> maxmsg hdr = mq_maxmsg attr \<and> msgsize hdr = mq_msgsize attr"
proof -
  define stride where "stride = sizeof_mymsg_hdr + MSGSIZE (mq_msgsize attr)"
  define fs where "fs = steps stride (nat (mq_maxmsg attr - 1)) sizeof_mymq_hdr"
  obtain hdr where h: "mq_init attr = Some hdr" using mq_init_fits [OF assms] by blast
  note d = mq_init_fits [OF assms, unfolded h option.inject]
  have pos: "0 < stride" "0 < sizeof_mymq_hdr"
    using MSGSIZE_pos [OF assms(2)] assms(2) by (auto simp: stride_def sizeof_mymsg_hdr_def sizeof_mymq_hdr_def)
  have n: "Suc (nat (mq_maxmsg attr - 1)) = nat (mq_maxmsg attr)" using assms(1) by simp
  have "{..nat (mq_maxmsg attr - 1)} = {..<nat (mq_maxmsg attr)}"
    by (simp flip: n add: lessThan_Suc_atMost)
  then have "set fs = slots hdr"
    by (simp add: fs_def set_steps slots_def slot_def d stride_def)
  moreover have "chain (nxt (mqh_msgs hdr)) (mqh_free hdr) fs"
    using chain_slots_chain [OF pos] by (simp add: fs_def d stride_def)
  moreover have "length fs = nat (mq_maxmsg attr)"
    by (simp add: fs_def n)
  ultimately have "mq_rep hdr [] fs"
    using steps_distinct [OF pos(1)] assms(1) by (simp add: mq_rep_def d fs_def)
  then have "mq_abs hdr []" using assms(1) by (auto simp: mq_abs_def d)
  then show ?thesis using h by (simp add: d)
qed

text \<open>With \<open>2 ^ 59\<close> messages of at most 8 bytes the size of the file wraps around to that of the header, and the first slot is written
  behind the end of the file.\<close>

lemma mq_init_wraps:
  "mq_filesize \<lparr>mq_flags = 0, mq_maxmsg = 2 ^ 59, mq_msgsize = 8, mq_curmsgs = 0\<rparr> = sizeof_mymq_hdr \<and>
   mq_init \<lparr>mq_flags = 0, mq_maxmsg = 2 ^ 59, mq_msgsize = 8, mq_curmsgs = 0\<rparr> = None"
proof -
  let ?a = "\<lparr>mq_flags = 0, mq_maxmsg = 2 ^ 59, mq_msgsize = 8, mq_curmsgs = 0\<rparr>"
  have f: "mq_filesize ?a = sizeof_mymq_hdr"
    by (simp add: mq_filesize_def to_long_def MSGSIZE_def sizeof_long_def sizeof_mymq_hdr_def sizeof_mymsg_hdr_def)
  have "link_slots sizeof_mymq_hdr stride n 0 sizeof_mymq_hdr ms = None" for stride n ms
    by (cases n) (simp_all add: in_file_def sizeof_mymsg_hdr_def)
  then show ?thesis using f by (simp add: mq_init_def f)
qed

section \<open>Opening\<close>

text \<open>The answers of the system in one attempt. \<^verbatim>\<open>lseek\<close> and \<^verbatim>\<open>mmap\<close> are told the offset and the size.\<close>

record mq_env =
  me_creat :: "int + int"
  me_lseek :: "int \<Rightarrow> int option"
  me_write :: "int option"
  me_mmap :: "int \<Rightarrow> int option"
  me_malloc :: bool
  me_mattr :: int
  me_mutex :: int
  me_cattr :: int
  me_cond :: int
  me_fchmod :: "int option"
  me_open :: "int + int"
  me_stat :: "nat \<Rightarrow> int + bool"
  me_mmap2 :: "int option"
  me_malloc2 :: bool
  me_shared :: mymq_hdr

text \<open>The label \<^verbatim>\<open>err\<close>; \<open>m\<close> is the mapping and \<open>info\<close> says whether \<^verbatim>\<open>mqinfo\<close> is allocated.\<close>

definition mq_err :: "bool \<Rightarrow> nat option \<Rightarrow> bool \<Rightarrow> int \<Rightarrow> int \<Rightarrow> act list \<times> 'r attempt" where
  "mq_err created m info fd e =
     ((if created then [FileUnlinked] else []) @
      (case m of None \<Rightarrow> [] | Some k \<Rightarrow> [Unmapped k]) @
      (if info then [Freed] else []) @ [Closed fd], Done (Inl e))"

definition prep :: "act list \<Rightarrow> act list \<times> 'r attempt \<Rightarrow> act list \<times> 'r attempt" where
  "prep as r = (as @ fst r, snd r)"

definition mqd_of :: "32 word \<Rightarrow> mymq_info" where
  "mqd_of nonblock = \<lparr>mqi_magic = MQI_MAGIC, mqi_flags = nonblock\<rparr>"

text \<open>From the computation of the file size on. The result \<open>None\<close>: the initialisation has written outside of the mapped file.\<close>

definition mq_build :: "32 word \<Rightarrow> mymq_attr \<Rightarrow> mq_env \<Rightarrow> nat \<Rightarrow> int \<Rightarrow>
    act list \<times> (mymq_info \<times> mymq_hdr) option attempt" where
  "mq_build nonblock attr env k fd = (case me_lseek env (to_long (mq_filesize attr - 1)) of
     Some e \<Rightarrow> mq_err True None False fd e
   | None \<Rightarrow> (case me_write env of
       Some e \<Rightarrow> mq_err True None False fd e
     | None \<Rightarrow> prep [Wrote] (case me_mmap env (mq_filesize attr) of
         Some e \<Rightarrow> mq_err True None False fd e
       | None \<Rightarrow> prep [Mapped k]
           (if \<not> me_malloc env then mq_err True (Some k) False fd ENOMEM
            else prep [Allocated]
              (case mq_init attr of
                 None \<Rightarrow> ([], Done (Inr None))
               | Some hdr \<Rightarrow>
                   if me_mattr env \<noteq> 0 then mq_err True (Some k) True fd (me_mattr env)
                   else if me_mutex env \<noteq> 0 then mq_err True (Some k) True fd (me_mutex env)
                   else prep [MutexInit]
                     (if me_cattr env \<noteq> 0 then mq_err True (Some k) True fd (me_cattr env)
                      else if me_cond env \<noteq> 0 then mq_err True (Some k) True fd (me_cond env)
                      else prep [CondInit]
                        (case me_fchmod env of
                           Some e \<Rightarrow> mq_err True (Some k) True fd e
                         | None \<Rightarrow> ([UserExecOff, Closed fd], Done (Inr (Some (mqd_of nonblock, hdr)))))))))))"

definition mq_create :: "32 word \<Rightarrow> mymq_attr option \<Rightarrow> mq_env \<Rightarrow> nat \<Rightarrow> int \<Rightarrow>
    act list \<times> (mymq_info \<times> mymq_hdr) option attempt" where
  "mq_create nonblock attrp env k fd = prep [Opened fd, FileCreated]
     (case attrp of
        Some attr \<Rightarrow>
          if mq_maxmsg attr \<le> 0 \<or> mq_msgsize attr \<le> 0 then mq_err True None False fd EINVAL
          else mq_build nonblock attr env k fd
      | None \<Rightarrow> mq_build nonblock defattr env k fd)"

text \<open>The label \<^verbatim>\<open>exists\<close>: the wait for the creator, the mapping, and the descriptor closed before the
  allocation.\<close>

definition mq_exists :: "bool \<Rightarrow> 32 word \<Rightarrow> mq_env \<Rightarrow> nat \<Rightarrow>
    act list \<times> (mymq_info \<times> mymq_hdr) option attempt" where
  "mq_exists creat nonblock env k = (case me_open env of
     Inl e \<Rightarrow> if e = ENOENT \<and> creat then ([], Again None) else mq_err False None False (-1) e
   | Inr fd \<Rightarrow> prep [Opened fd]
       (let (as, r) = init_wait creat (me_stat env) 0 MQ_MAX_TRIES in prep as (case r of
          StAgain \<Rightarrow> ([Closed fd], Again None)
        | StErr e \<Rightarrow> mq_err False None False fd e
        | StReady \<Rightarrow> (case me_mmap2 env of
            Some e \<Rightarrow> mq_err False None False fd e
          | None \<Rightarrow> prep [Mapped k, Closed fd]
              (if \<not> me_malloc2 env then mq_err False (Some k) False fd ENOMEM
               else ([Allocated], Done (Inr (Some (mqd_of nonblock, me_shared env)))))))))"

definition mq_attempt :: "bool \<Rightarrow> bool \<Rightarrow> 32 word \<Rightarrow> mymq_attr option \<Rightarrow> mq_env \<Rightarrow> nat \<Rightarrow>
    act list \<times> (mymq_info \<times> mymq_hdr) option attempt" where
  "mq_attempt creat excl nonblock attrp env k =
     (if creat then (case me_creat env of
        Inl e \<Rightarrow> if e = EEXIST \<and> \<not> excl then mq_exists creat nonblock env k else ([], Done (Inl e))
      | Inr fd \<Rightarrow> mq_create nonblock attrp env k fd)
      else mq_exists creat nonblock env k)"

text \<open>The function over the answers of successive attempts, \<open>None\<close> when they are used up.\<close>

fun mymq_open_from :: "bool \<Rightarrow> bool \<Rightarrow> 32 word \<Rightarrow> mymq_attr option \<Rightarrow> nat \<Rightarrow> mq_env list \<Rightarrow>
    (act list \<times> (int + (mymq_info \<times> mymq_hdr) option)) option" where
  "mymq_open_from creat excl nonblock attrp k [] = None"
| "mymq_open_from creat excl nonblock attrp k (env # envs) =
     (case mq_attempt creat excl nonblock attrp env k of
        (as, Done r) \<Rightarrow> Some (as, r)
      | (as, Again _) \<Rightarrow>
          map_option (\<lambda>(bs, r). (as @ bs, r)) (mymq_open_from creat excl nonblock attrp (Suc k) envs))"

definition mymq_open :: "bool \<Rightarrow> bool \<Rightarrow> 32 word \<Rightarrow> mymq_attr option \<Rightarrow> mq_env list \<Rightarrow>
    (act list \<times> (int + (mymq_info \<times> mymq_hdr) option)) option" where
  "mymq_open creat excl oflag attrp envs = mymq_open_from creat excl (oflag AND MQ_NONBLOCK) attrp 0 envs"

definition Mymq_open :: "string \<Rightarrow> bool \<Rightarrow> bool \<Rightarrow> 32 word \<Rightarrow> mymq_attr option \<Rightarrow> mq_env list \<Rightarrow>
    (string + (mymq_info \<times> mymq_hdr) option) option" where
  "Mymq_open pathname creat excl oflag attrp envs = (case mymq_open creat excl oflag attrp envs of
     None \<Rightarrow> None
   | Some (_, Inl _) \<Rightarrow> Some (Inl (''mymq_open error for '' @ pathname))
   | Some (_, Inr mqd) \<Rightarrow> Some (Inr mqd))"

section \<open>What opening does\<close>

text \<open>The blocks of memory still held.\<close>

definition held :: "act list \<Rightarrow> int" where
  "held as = int (count_list as Allocated) - int (count_list as Freed)"

lemma held_append [simp]: "held (as @ bs) = held as + held bs"
  by (simp add: held_def)

lemma held_simps [simp]:
  "held [] = 0"
  "held (a # as) = held as + (if a = Allocated then 1 else 0) - (if a = Freed then 1 else 0)"
  by (simp_all add: held_def)

lemma init_wait_held [simp]: "held (fst (init_wait creat st i n)) = 0"
  by (induction n arbitrary: i) (auto simp: held_def Let_def case_prod_beta split: sum.split)

definition creator_done :: "mq_env \<Rightarrow> bool" where
  "creator_done env \<longleftrightarrow> (\<exists>j < MQ_MAX_TRIES. me_stat env j = Inr False)"

text \<open>Every step of the initialisation has succeeded, and the user-execute bit has been turned off behind them.\<close>

definition mq_created :: "mymq_attr option \<Rightarrow> mq_env \<Rightarrow> bool" where
  "mq_created attrp env \<longleftrightarrow> (let size' = mq_filesize (case attrp of None \<Rightarrow> defattr | Some a \<Rightarrow> a) in
     me_lseek env (size' - 1) = None \<and> me_write env = None \<and> me_mmap env size' = None \<and> me_malloc env \<and> me_mattr env = 0 \<and>
     me_mutex env = 0 \<and> me_cattr env = 0 \<and> me_cond env = 0 \<and> me_fchmod env = None)"

definition mq_init_acts :: "act list" where
  "mq_init_acts = [FileCreated, Wrote, Allocated, MutexInit, CondInit, UserExecOff]"

definition new_queue :: "mymq_attr option \<Rightarrow> mymq_hdr \<Rightarrow> bool" where
  "new_queue attrp hdr \<longleftrightarrow> (let attr = (case attrp of None \<Rightarrow> defattr | Some a \<Rightarrow> a) in
     mq_abs hdr [] \<and> mqh_nwait hdr = 0 \<and> maxmsg hdr = mq_maxmsg attr \<and> msgsize hdr = mq_msgsize attr)"

definition mq_open_ok :: "mymq_attr option \<Rightarrow> 32 word \<Rightarrow> mq_env \<Rightarrow> act list \<Rightarrow> (mymq_info \<times> mymq_hdr) option attempt \<Rightarrow> bool" where
  "mq_open_ok attrp nonblock env as res \<longleftrightarrow> fds as [] = [] \<and> (case res of
     Done (Inr (Some (mqd, hdr))) \<Rightarrow> mqd = mqd_of nonblock \<and> length (maps as []) = 1 \<and> held as = 1 \<and>
       (if file_left as False then new_queue attrp hdr \<and> mq_created attrp env \<and> subseq mq_init_acts as
        else hdr = me_shared env \<and> creator_done env)
   | Done (Inr None) \<Rightarrow> False
   | _ \<Rightarrow> maps as [] = [] \<and> held as = 0 \<and> \<not> file_left as False)"

lemmas mq_open_splits = sum.splits option.splits if_splits prod.splits stat_res.splits

definition attrp_fits :: "mymq_attr option \<Rightarrow> bool" where
  "attrp_fits attrp = (case attrp of None \<Rightarrow> True | Some a \<Rightarrow> attr_fits a)"

lemma mq_filesize_pos: "mq_init attr = Some hdr \<Longrightarrow> to_long (mq_filesize attr - 1) = mq_filesize attr - 1"
  using sint_lt [of "of_int (sizeof_mymq_hdr + mq_maxmsg attr * (sizeof_mymsg_hdr + to_long (MSGSIZE (mq_msgsize attr)))) :: 64 word"]
  by (intro to_long_id)
    (auto simp: mq_init_def Let_def mq_filesize_def to_long_def sizeof_mymq_hdr_def split: if_splits)

lemma mq_build_ok:
  assumes "mq_build nonblock attr env k fd = (as, res)" and "0 < mq_maxmsg attr" and "0 < mq_msgsize attr" and "attr_fits attr"
    and "attr = (case attrp of None \<Rightarrow> defattr | Some a \<Rightarrow> a)"
  shows "mq_open_ok attrp nonblock env (Opened fd # FileCreated # as) res"
proof -
  obtain hdr where h: "mq_init attr = Some hdr" "mq_abs hdr []" "mqh_nwait hdr = 0" "maxmsg hdr = mq_maxmsg attr" "msgsize hdr = mq_msgsize attr"
    using mq_init_abs [OF assms(2-4)] by blast
  then have "new_queue attrp hdr" using assms(5) by (simp add: new_queue_def)
  then show ?thesis
    using assms(1,5) h(1) mq_filesize_pos [OF h(1)]
    by (auto simp: mq_build_def mq_err_def prep_def mq_open_ok_def held_def mq_created_def mq_init_acts_def split: mq_open_splits)
qed

lemma mq_create_ok:
  assumes "mq_create nonblock attrp env k fd = (as, res)" and "attrp_fits attrp"
  shows "mq_open_ok attrp nonblock env as res"
proof (cases attrp)
  case None
  have "attr_fits defattr"
    by (simp add: attr_fits_def defattr_def MSGSIZE_def sizeof_long_def sizeof_mymq_hdr_def sizeof_mymsg_hdr_def)
  then show ?thesis
    using assms None mq_build_ok [of nonblock defattr env k fd _ _ None]
    by (cases "mq_build nonblock defattr env k fd") (auto simp: mq_create_def prep_def defattr_def)
next
  case (Some attr)
  show ?thesis
  proof (cases "mq_maxmsg attr \<le> 0 \<or> mq_msgsize attr \<le> 0")
    case True
    then show ?thesis
      using assms Some by (auto simp: mq_create_def prep_def mq_err_def mq_open_ok_def held_def)
  next
    case False
    then show ?thesis
      using assms Some mq_build_ok [of nonblock attr env k fd _ _ "Some attr"]
      by (cases "mq_build nonblock attr env k fd") (auto simp: mq_create_def prep_def attrp_fits_def)
  qed
qed

lemma mq_exists_ok:
  assumes "mq_exists creat nonblock env k = (as, res)"
  shows "mq_open_ok attrp nonblock env as res"
proof -
  obtain ws r where w: "init_wait creat (me_stat env) 0 MQ_MAX_TRIES = (ws, r)" by fastforce
  have "fds ws xs = xs" "maps ws ms = ms" "file_left ws b = b" "held ws = 0" for xs ms b
    using init_wait_acts [of creat "me_stat env" 0 MQ_MAX_TRIES]
      init_wait_held [of creat "me_stat env" 0 MQ_MAX_TRIES] w by auto
  moreover have "creator_done env" if "r = StReady"
    using init_wait_ready [of creat "me_stat env" 0 MQ_MAX_TRIES] w that by (auto simp: creator_done_def)
  ultimately show ?thesis
    using assms w unfolding mq_exists_def
    by (auto simp: mq_err_def prep_def fds_append maps_append file_left_append mq_open_ok_def
        split: mq_open_splits)
qed

lemma mq_attempt_ok:
  assumes "mq_attempt creat excl nonblock attrp env k = (as, res)" and "attrp_fits attrp"
  shows "mq_open_ok attrp nonblock env as res"
proof -
  consider "mq_exists creat nonblock env k = (as, res)" | fd where "mq_create nonblock attrp env k fd = (as, res)"
    | e where "as = []" and "res = Done (Inl e)"
    using assms(1) by (auto simp: mq_attempt_def split: sum.splits if_splits)
  then show ?thesis
  proof cases
    case 1
    then show ?thesis by (rule mq_exists_ok)
  next
    case 2
    then show ?thesis using assms(2) by (rule mq_create_ok)
  qed (simp add: mq_open_ok_def held_def)
qed

definition mq_opened :: "mymq_attr option \<Rightarrow> 32 word \<Rightarrow> mq_env list \<Rightarrow> act list \<Rightarrow> int + (mymq_info \<times> mymq_hdr) option \<Rightarrow> bool" where
  "mq_opened attrp nonblock envs as r \<longleftrightarrow> fds as [] = [] \<and> (case r of
     Inr None \<Rightarrow> False
   | Inr (Some (mqd, hdr)) \<Rightarrow> mqd = mqd_of nonblock \<and> length (maps as []) = 1 \<and> held as = 1 \<and>
       (if file_left as False then new_queue attrp hdr \<and> subseq mq_init_acts as \<and> (\<exists>env \<in> set envs. mq_created attrp env)
        else \<exists>env \<in> set envs. hdr = me_shared env \<and> creator_done env)
   | Inl e \<Rightarrow> maps as [] = [] \<and> held as = 0 \<and> \<not> file_left as False)"

lemma mymq_open_from_ok:
  "mymq_open_from creat excl nonblock attrp k envs = Some (as, r) \<Longrightarrow> attrp_fits attrp \<Longrightarrow>
    mq_opened attrp nonblock envs as r"
proof (induction envs arbitrary: k as)
  case (Cons env envs)
  obtain as1 res where a: "mq_attempt creat excl nonblock attrp env k = (as1, res)" by fastforce
  then have ok: "mq_open_ok attrp nonblock env as1 res" using Cons.prems(2) by (rule mq_attempt_ok)
  show ?case
  proof (cases res)
    case (Done r1)
    then show ?thesis using Cons.prems(1) a ok
      by (auto simp: mq_open_ok_def mq_opened_def split: sum.splits prod.splits option.splits if_splits)
  next
    case (Again m)
    then obtain bs where "mymq_open_from creat excl nonblock attrp (Suc k) envs = Some (bs, r)"
      and as: "as = as1 @ bs" using Cons.prems(1) a by auto
    then have "mq_opened attrp nonblock envs bs r" using Cons.IH Cons.prems(2) by blast
    then show ?thesis
      using ok Again as
      by (auto simp: mq_open_ok_def mq_opened_def fds_append maps_append file_left_append list_emb_append2
          split: sum.splits option.splits if_splits)
  qed
qed simp

text \<open>C34. When \<^verbatim>\<open>mymq_open\<close> returns, every descriptor it opened is closed. On success it holds exactly one
  mapping and one block of memory, and the queue is either one it created, empty, well-formed and with the attributes asked for,
  after every step of the initialisation had succeeded, in the order of the code and with the user-execute bit turned off last, or
  an existing one whose creator was seen to have finished. On failure it holds nothing and leaves
  no file it created. It never writes outside of the file. This holds if the attributes fit: at most \<open>2 ^ 31\<close> messages, and a
  file of less than \<open>2 ^ 63\<close> bytes.\<close>

theorem mymq_open_resources:
  assumes "mymq_open creat excl oflag attrp envs = Some (as, r)" and "attrp_fits attrp"
  shows "fds as [] = [] \<and> (case r of
      Inr None \<Rightarrow> False
    | Inr (Some (mqd, hdr)) \<Rightarrow> mqd = mqd_of (oflag AND MQ_NONBLOCK) \<and> length (maps as []) = 1 \<and> held as = 1 \<and>
        (if file_left as False then new_queue attrp hdr \<and> subseq mq_init_acts as \<and> (\<exists>env \<in> set envs. mq_created attrp env)
         else \<exists>env \<in> set envs. hdr = me_shared env \<and> creator_done env)
    | Inl e \<Rightarrow> maps as [] = [] \<and> held as = 0 \<and> \<not> file_left as False)"
  using mymq_open_from_ok assms unfolding mymq_open_def mq_opened_def by blast

definition mq_env_quiet :: mq_env where
  "mq_env_quiet = \<lparr>me_creat = Inr 3, me_lseek = (\<lambda>_. None), me_write = None, me_mmap = (\<lambda>_. None),
     me_malloc = True, me_mattr = 0, me_mutex = 0, me_cattr = 0, me_cond = 0, me_fchmod = None,
     me_open = Inr 3, me_stat = (\<lambda>i. Inr False), me_mmap2 = None, me_malloc2 = True,
     me_shared = the (mq_init defattr)\<rparr>"

theorem mymq_open_resources_witness:
  "\<exists>hdr. mymq_open True True 0 None [mq_env_quiet] =
     Some ([Opened 3, FileCreated, Wrote, Mapped 0, Allocated, MutexInit, CondInit, UserExecOff, Closed 3],
       Inr (Some (mqd_of 0, hdr))) \<and> new_queue None hdr"
proof -
  have "attr_fits defattr"
    by (simp add: attr_fits_def defattr_def MSGSIZE_def sizeof_long_def sizeof_mymq_hdr_def sizeof_mymsg_hdr_def)
  then obtain hdr where h: "mq_init defattr = Some hdr" using mq_init_abs [of defattr] by (auto simp: defattr_def)
  have o: "mymq_open True True 0 None [mq_env_quiet] =
     Some ([Opened 3, FileCreated, Wrote, Mapped 0, Allocated, MutexInit, CondInit, UserExecOff, Closed 3],
       Inr (Some (mqd_of 0, hdr)))"
    by (simp add: mymq_open_def mq_attempt_def mq_create_def mq_build_def prep_def mq_env_quiet_def h)
  then show ?thesis using mymq_open_resources [OF o] by (simp add: attrp_fits_def)
qed

text \<open>When the allocation fails for an existing queue, the descriptor, closed already, is closed a
  second time: by then it may name a file that another thread has opened.\<close>

lemma mymq_open_closes_twice:
  "mymq_open False False 0 None [mq_env_quiet\<lparr>me_malloc2 := False\<rparr>] =
     Some ([Opened 3, Mapped 0, Closed 3, Unmapped 0, Closed 3], Inl ENOMEM)"
  by (simp add: mymq_open_def mq_attempt_def mq_exists_def mq_err_def prep_def mq_env_quiet_def
      MQ_MAX_TRIES_def eval_nat_numeral)

end
