(* ===== verification/Mqueue_Threads.thy ===== *)
theory Mqueue_Threads
  imports Mqueue_Open
begin

text \<open>
  Threads that share one message queue. A sender waits for room and a receiver for a message on the
  same condition variable \<^verbatim>\<open>mqh_wait\<close>; a signal wakes one of the sleeping threads, whichever it is.
\<close>

text \<open>A thread is outside the two functions, or waits in one of them; when it has been woken it runs
  the loop of its wait again.\<close>

datatype mphase = MIdle | MSend bytes "32 word" bool | MRecv bool

text \<open>The flag says whether the thread has been woken.\<close>

fun asleep :: "mphase \<Rightarrow> bool" where
  "asleep (MSend _ _ woken) = (\<not> woken)"
| "asleep (MRecv woken) = (\<not> woken)"
| "asleep MIdle = False"

fun woken_up :: "mphase \<Rightarrow> mphase" where
  "woken_up (MSend ptr prio _) = MSend ptr prio True"
| "woken_up (MRecv _) = MRecv True"
| "woken_up MIdle = MIdle"

fun receiving :: "mphase \<Rightarrow> bool" where
  "receiving (MRecv _) = True"
| "receiving _ = False"

record mq_sys =
  ms_hdr :: mymq_hdr
  ms_threads :: "mphase list"
  ms_dumped :: bool

inductive mq_signalled :: "bool \<Rightarrow> mphase list \<Rightarrow> mphase list \<Rightarrow> bool" where
  no_signal: "mq_signalled False ts ts"
| nobody: "\<forall>t \<in> set ts. \<not> asleep t \<Longrightarrow> mq_signalled True ts ts"
| one: "j < length ts \<Longrightarrow> asleep (ts ! j) \<Longrightarrow> mq_signalled True ts (ts[j := woken_up (ts ! j)])"

definition send_phase :: "mq_out \<Rightarrow> bytes \<Rightarrow> 32 word \<Rightarrow> mphase" where
  "send_phase out ptr prio = (if out = MqWait then MSend ptr prio False else MIdle)"

definition recv_phase :: "mq_out \<Rightarrow> mphase" where
  "recv_phase out = (if out = MqWait then MRecv False else MIdle)"

inductive mq_step :: "mq_sys \<Rightarrow> mq_sys \<Rightarrow> bool" where
  send: "i < length (ms_threads s) \<Longrightarrow> ms_threads s ! i = MIdle \<Longrightarrow>
    mymq_send r mqd ptr prio (ms_hdr s) = Some (out, eff, hdr) \<Longrightarrow>
    mq_signalled (eff_signal eff) ((ms_threads s)[i := send_phase out ptr prio]) ts \<Longrightarrow>
    mq_step s \<lparr>ms_hdr = hdr, ms_threads = ts, ms_dumped = (ms_dumped s \<or> out = MqDump)\<rparr>"
| resume_send: "i < length (ms_threads s) \<Longrightarrow> ms_threads s ! i = MSend ptr prio True \<Longrightarrow>
    send_loop ptr prio (ms_hdr s) = Some (out, eff, hdr) \<Longrightarrow>
    mq_signalled (eff_signal eff) ((ms_threads s)[i := send_phase out ptr prio]) ts \<Longrightarrow>
    mq_step s \<lparr>ms_hdr = hdr, ms_threads = ts, ms_dumped = (ms_dumped s \<or> out = MqDump)\<rparr>"
| receive: "i < length (ms_threads s) \<Longrightarrow> ms_threads s ! i = MIdle \<Longrightarrow>
    mymq_receive r mqd maxlen (ms_hdr s) = (out, got, eff, hdr) \<Longrightarrow>
    mq_signalled (eff_signal eff) ((ms_threads s)[i := recv_phase out]) ts \<Longrightarrow>
    mq_step s \<lparr>ms_hdr = hdr, ms_threads = ts, ms_dumped = (ms_dumped s \<or> out = MqDump)\<rparr>"
| resume_receive: "i < length (ms_threads s) \<Longrightarrow> ms_threads s ! i = MRecv True \<Longrightarrow>
    recv_loop (ms_hdr s) = (out, got, eff, hdr) \<Longrightarrow>
    mq_signalled (eff_signal eff) ((ms_threads s)[i := recv_phase out]) ts \<Longrightarrow>
    mq_step s \<lparr>ms_hdr = hdr, ms_threads = ts, ms_dumped = (ms_dumped s \<or> out = MqDump)\<rparr>"
| notify: "i < length (ms_threads s) \<Longrightarrow> ms_threads s ! i = MIdle \<Longrightarrow>
    mymq_notify r mqd pid alive ev (ms_hdr s) = (out, hdr) \<Longrightarrow> mq_step s (s\<lparr>ms_hdr := hdr\<rparr>)"
| spurious: "i < length (ms_threads s) \<Longrightarrow> asleep (ms_threads s ! i) \<Longrightarrow>
    mq_step s (s\<lparr>ms_threads := (ms_threads s)[i := woken_up (ms_threads s ! i)]\<rparr>)"

inductive mq_reach :: "nat \<Rightarrow> mymq_hdr \<Rightarrow> mq_sys \<Rightarrow> bool" for n hdr where
  start: "mq_reach n hdr \<lparr>ms_hdr = hdr, ms_threads = replicate n MIdle, ms_dumped = False\<rparr>"
| step: "mq_reach n hdr s \<Longrightarrow> mq_step s s' \<Longrightarrow> mq_reach n hdr s'"

text \<open>The invariant: the queue is well-formed, \<^verbatim>\<open>mqh_nwait\<close> counts the threads in the wait of
  \<^verbatim>\<open>mymq_receive\<close>, and the message of a waiting sender fits.\<close>

definition fits_phase :: "int \<Rightarrow> mphase \<Rightarrow> bool" where
  "fits_phase sz t = (case t of MSend ptr _ _ \<Rightarrow> int (length ptr) \<le> sz | _ \<Rightarrow> True)"

definition nrecv :: "mphase list \<Rightarrow> int" where
  "nrecv ts = int (length (filter receiving ts))"

definition mq_sys_inv :: "mq_sys \<Rightarrow> bool" where
  "mq_sys_inv s \<longleftrightarrow> (\<exists>q. mq_abs (ms_hdr s) q) \<and> mqh_nwait (ms_hdr s) = nrecv (ms_threads s) \<and>
     (\<forall>t \<in> set (ms_threads s). fits_phase (msgsize (ms_hdr s)) t) \<and> \<not> ms_dumped s"

lemma nrecv_simps [simp]:
  "nrecv [] = 0" "nrecv (t # ts) = nrecv ts + (if receiving t then 1 else 0)"
  by (simp_all add: nrecv_def)

lemma nrecv_update:
  "i < length ts \<Longrightarrow> nrecv (ts[i := t]) =
     nrecv ts - (if receiving (ts ! i) then 1 else 0) + (if receiving t then 1 else 0)"
  by (induction ts arbitrary: i) (auto split: nat.splits)

lemma receiving_woken [simp]: "receiving (woken_up t) = receiving t"
  by (cases t) auto

lemma fits_woken [simp]: "fits_phase sz (woken_up t) = fits_phase sz t"
  by (cases t) (auto simp: fits_phase_def)

lemma signalled_keeps:
  assumes "mq_signalled sig ts ts'"
  shows "nrecv ts' = nrecv ts" and "(\<forall>t \<in> set ts. fits_phase sz t) \<Longrightarrow> \<forall>t \<in> set ts'. fits_phase sz t"
  using assms
  by (cases rule: mq_signalled.cases; auto simp: nrecv_update dest!: set_update_subset_insert [THEN subsetD])+

lemma phase_simps [simp]:
  "receiving (send_phase out ptr prio) = False" "receiving (recv_phase out) = (out = MqWait)"
  "fits_phase sz (recv_phase out)"
  by (auto simp: send_phase_def recv_phase_def fits_phase_def)

text \<open>One rule for all calls: what is to be shown of a call that leaves the thread in phase \<open>t\<close>.\<close>

lemma call_inv:
  assumes "mq_sys_inv s" and "i < length (ms_threads s)"
    and "mq_signalled sig ((ms_threads s)[i := t]) ts"
    and "\<exists>q. mq_abs hdr q" and "msgsize hdr = msgsize (ms_hdr s)"
    and "mqh_nwait hdr = mqh_nwait (ms_hdr s) - (if receiving (ms_threads s ! i) then 1 else 0)
           + (if receiving t then 1 else 0)"
    and "fits_phase (msgsize hdr) t" and "out \<noteq> MqDump"
  shows "mq_sys_inv \<lparr>ms_hdr = hdr, ms_threads = ts, ms_dumped = (ms_dumped s \<or> out = MqDump)\<rparr>"
proof -
  have "\<forall>t \<in> set ((ms_threads s)[i := t]). fits_phase (msgsize hdr) t"
    using assms(1,5,7) by (auto simp: mq_sys_inv_def dest!: set_update_subset_insert [THEN subsetD])
  then show ?thesis
    using assms(1,2,4,6,8) signalled_keeps [OF assms(3)] by (auto simp: mq_sys_inv_def nrecv_update)
qed

lemma mymq_send_total:
  assumes "mq_abs hdr q"
  shows "mymq_send r mqd ptr prio hdr \<noteq> None"
  using mymq_send_abs [OF assms, of mqd ptr prio]
  by (cases "r = 0 \<and> mqi_magic mqd = MQI_MAGIC") (auto simp: mymq_send_def)

lemma mymq_send_any:
  assumes "mq_abs hdr q" and "mymq_send r mqd ptr prio hdr = Some (out, eff, hdr')"
  shows "(\<exists>q'. mq_abs hdr' q') \<and> msgsize hdr' = msgsize hdr \<and> mqh_nwait hdr' = mqh_nwait hdr \<and>
    out \<noteq> MqDump \<and> (out = MqWait \<longrightarrow> int (length ptr) \<le> msgsize hdr)"
proof (cases "mqi_magic mqd = MQI_MAGIC \<and> r = 0")
  case True
  then show ?thesis
    using mymq_send_abs [OF assms(1), of mqd ptr prio] assms(2)
    by (auto simp: send_result_def same_shape_def split: if_splits)
next
  case False
  then show ?thesis using assms by (auto simp: mymq_send_def split: if_splits)
qed

lemma mymq_receive_any:
  assumes "mq_abs hdr q" and "mymq_receive r mqd maxlen hdr = (out, got, eff, hdr')"
  shows "(\<exists>q'. mq_abs hdr' q') \<and> msgsize hdr' = msgsize hdr \<and> out \<noteq> MqDump \<and>
    mqh_nwait hdr' = mqh_nwait hdr + (if out = MqWait then 1 else 0)"
proof (cases "mqi_magic mqd = MQI_MAGIC \<and> r = 0")
  case True
  then show ?thesis
    using mymq_receive_abs [OF assms(1), of mqd maxlen] assms(2)
    by (auto simp: recv_result_def same_shape_def split: if_splits)
next
  case False
  then show ?thesis using assms by (auto simp: mymq_receive_def split: if_splits)
qed

lemma send_loop_any:
  assumes "mq_abs hdr q" and "int (length ptr) \<le> msgsize hdr" and "send_loop ptr prio hdr = Some (out, eff, hdr')"
  shows "(\<exists>q'. mq_abs hdr' q') \<and> msgsize hdr' = msgsize hdr \<and> mqh_nwait hdr' = mqh_nwait hdr \<and> out \<noteq> MqDump"
proof (cases "curmsgs hdr < maxmsg hdr")
  case True
  obtain hdr1 where "send_store ptr prio hdr =
      Some (MqReturn 0, no_eff\<lparr>eff_signal := curmsgs hdr = 0\<rparr>, hdr1)"
    and "mq_abs hdr1 (pq_send (prio, ptr) q)" "msgsize hdr1 = msgsize hdr" "mqh_nwait hdr1 = mqh_nwait hdr"
    using send_store_abs [OF assms(1) True assms(2)] by metis
  then show ?thesis using True assms(3) by (auto simp: send_loop_def)
next
  case False
  then show ?thesis using assms by (auto simp: send_loop_def)
qed

lemma recv_loop_any:
  assumes "mq_abs hdr q" and "recv_loop hdr = (out, got, eff, hdr')"
  shows "(\<exists>q'. mq_abs hdr' q') \<and> msgsize hdr' = msgsize hdr \<and> out \<noteq> MqDump \<and>
    mqh_nwait hdr' = mqh_nwait hdr - (if out = MqWait then 0 else 1)"
proof (cases q)
  case Nil
  then show ?thesis using assms mq_abs_length [OF assms(1)] by (auto simp: recv_loop_def)
next
  case (Cons m q')
  let ?hdr = "hdr\<lparr>mqh_nwait := mqh_nwait hdr - 1\<rparr>"
  have "mq_abs ?hdr (m # q')"
    using assms(1) Cons by (auto intro: mq_abs_cong)
  then obtain hdr1 where "recv_take ?hdr = (MqReturn (int (length (snd m))), Some (snd m, fst m),
      no_eff\<lparr>eff_signal := curmsgs ?hdr = maxmsg ?hdr\<rparr>, hdr1)"
    and "mq_abs hdr1 q'" "msgsize hdr1 = msgsize ?hdr" "mqh_nwait hdr1 = mqh_nwait ?hdr"
    by (rule recv_take_abs)
  then show ?thesis
    using assms(2) mq_abs_length [OF assms(1)] Cons by (auto simp: recv_loop_def)
qed

lemma mymq_notify_keeps:
  "mymq_notify r mqd pid alive ev hdr = (out, hdr') \<Longrightarrow> mqh_attr hdr' = mqh_attr hdr \<and>
     mqh_head hdr' = mqh_head hdr \<and> mqh_free hdr' = mqh_free hdr \<and> mqh_msgs hdr' = mqh_msgs hdr \<and>
     mqh_nwait hdr' = mqh_nwait hdr"
  by (auto simp: mymq_notify_def split: if_splits option.splits)

lemma mq_step_inv:
  assumes "mq_step s s'" and "mq_sys_inv s"
  shows "mq_sys_inv s'"
proof -
  obtain q where q: "mq_abs (ms_hdr s) q" using assms(2) by (auto simp: mq_sys_inv_def)
  show ?thesis
    using assms(1)
  proof (cases rule: mq_step.cases)
    case (send i r mqd ptr prio out eff hdr ts)
    then show ?thesis
      unfolding send(1) using mymq_send_any [OF q send(4)]
      by (intro call_inv [OF assms(2) send(2,5)]) (auto simp: fits_phase_def send_phase_def)
  next
    case (resume_send i ptr prio out eff hdr ts)
    then have "int (length ptr) \<le> msgsize (ms_hdr s)"
      using assms(2) nth_mem by (force simp: mq_sys_inv_def fits_phase_def)
    then show ?thesis
      unfolding resume_send(1) using resume_send(3) send_loop_any [OF q _ resume_send(4)]
      by (intro call_inv [OF assms(2) resume_send(2,5)]) (auto simp: fits_phase_def send_phase_def)
  next
    case (receive i r mqd maxlen out got eff hdr ts)
    then show ?thesis
      unfolding receive(1) using mymq_receive_any [OF q receive(4)]
      by (intro call_inv [OF assms(2) receive(2,5)]) auto
  next
    case (resume_receive i out got eff hdr ts)
    then show ?thesis
      unfolding resume_receive(1) using recv_loop_any [OF q resume_receive(4)]
      by (intro call_inv [OF assms(2) resume_receive(2,5)]) auto
  next
    case (notify i r mqd pid alive ev out hdr)
    then show ?thesis
      using mymq_notify_keeps [OF notify(4)] assms(2) mq_abs_cong [OF q]
      by (auto simp: mq_sys_inv_def)
  next
    case (spurious i)
    then show ?thesis
      using assms(2)
      by (auto simp: mq_sys_inv_def nrecv_update dest!: set_update_subset_insert [THEN subsetD])
  qed
qed

lemma mq_reach_inv:
  assumes "mq_reach n hdr s" and "mq_abs hdr q" and "mqh_nwait hdr = 0"
  shows "mq_sys_inv s"
  using assms(1)
proof (induction rule: mq_reach.induct)
  case start
  have "nrecv (replicate n MIdle) = 0" by (induction n) auto
  then show ?case using assms(2,3) by (auto simp: mq_sys_inv_def fits_phase_def)
next
  case (step s s')
  then show ?case by (blast intro: mq_step_inv)
qed

text \<open>C4. Threads that send, receive, wait, wake with or without cause and register for notification,
  in any interleaving: the queue stays well-formed, so no call reaches \<^verbatim>\<open>err_dump\<close> and every send
  ends, and \<^verbatim>\<open>mqh_nwait\<close> is the number of threads waiting for a message.\<close>

theorem mq_threads_safe:
  assumes "mq_reach n hdr s" and "mq_abs hdr q" and "mqh_nwait hdr = 0"
  shows "\<not> ms_dumped s \<and> (\<exists>q'. mq_abs (ms_hdr s) q') \<and>
    mymq_send r mqd ptr prio (ms_hdr s) \<noteq> None \<and>
    mqh_nwait (ms_hdr s) = int (length (filter receiving (ms_threads s)))"
  using mq_reach_inv [OF assms] mymq_send_total by (auto simp: mq_sys_inv_def nrecv_def)

theorem mq_threads_safe_witness:
  "\<exists>s. mq_reach 2 (hdr_two True) s \<and> (\<exists>q'. mq_abs (ms_hdr s) q')"
  using mq_threads_safe [OF mq_reach.start hdr_two_abs(1), of 2] mq_reach.start [of 2 "hdr_two True"]
  by (fastforce simp: hdr_two_def)

section \<open>Waiting threads that nobody wakes\<close>

lemma reach_recv_sleep:
  assumes "mq_reach n hdr s" and "i < length (ms_threads s)" and "ms_threads s ! i = MIdle"
    and "curmsgs (ms_hdr s) = 0"
    and "s' = s\<lparr>ms_hdr := (ms_hdr s)\<lparr>mqh_nwait := mqh_nwait (ms_hdr s) + 1\<rparr>,
                ms_threads := (ms_threads s)[i := MRecv False]\<rparr>"
  shows "mq_reach n hdr s'"
proof -
  have "mymq_receive 0 mqd_open (msgsize (ms_hdr s)) (ms_hdr s) =
      (MqWait, None, no_eff, (ms_hdr s)\<lparr>mqh_nwait := mqh_nwait (ms_hdr s) + 1\<rparr>)"
    using assms(4) by (simp add: mymq_receive_def recv_loop_def mqd_open_def)
  from mq_step.receive [OF assms(2,3) this, of "(ms_threads s)[i := MRecv False]"]
  have "mq_step s \<lparr>ms_hdr = (ms_hdr s)\<lparr>mqh_nwait := mqh_nwait (ms_hdr s) + 1\<rparr>,
      ms_threads = (ms_threads s)[i := MRecv False], ms_dumped = (ms_dumped s \<or> MqWait = MqDump)\<rparr>"
    by (simp add: no_eff_def recv_phase_def mq_signalled.no_signal)
  moreover have "s' = \<lparr>ms_hdr = (ms_hdr s)\<lparr>mqh_nwait := mqh_nwait (ms_hdr s) + 1\<rparr>,
      ms_threads = (ms_threads s)[i := MRecv False], ms_dumped = (ms_dumped s \<or> MqWait = MqDump)\<rparr>"
    using assms(5) by simp
  ultimately show ?thesis using mq_reach.step [OF assms(1)] by simp
qed

lemma reach_send:
  assumes "mq_reach n hdr s" and "i < length (ms_threads s)" and "ms_threads s ! i = MIdle"
    and "mymq_send 0 mqd_open ptr prio (ms_hdr s) = Some (MqReturn 0, eff, hdr1)"
    and "mq_signalled (eff_signal eff) (ms_threads s) ts" and "\<not> ms_dumped s"
  shows "mq_reach n hdr \<lparr>ms_hdr = hdr1, ms_threads = ts, ms_dumped = False\<rparr>"
proof -
  have "(ms_threads s)[i := send_phase (MqReturn 0) ptr prio] = ms_threads s"
    using assms(3) by (metis list_update_id mq_out.distinct(3) send_phase_def)
  then show ?thesis
    using mq_reach.step [OF assms(1) mq_step.send [OF assms(2-4)]] assms(5,6) by fastforce
qed

lemma reach_resume_recv:
  assumes "mq_reach n hdr s" and "i < length (ms_threads s)" and "ms_threads s ! i = MRecv True"
    and "recv_loop (ms_hdr s) = (MqReturn v, got, eff, hdr1)" and "\<not> ms_dumped s"
    and "mq_signalled (eff_signal eff) ((ms_threads s)[i := MIdle]) ts"
  shows "mq_reach n hdr \<lparr>ms_hdr = hdr1, ms_threads = ts, ms_dumped = False\<rparr>"
  using mq_reach.step [OF assms(1) mq_step.resume_receive [OF assms(2-4)]] assms(5,6)
  by (fastforce simp: recv_phase_def)

lemma send_signals:
  assumes "mq_abs hdr q" and "int (length q) < maxmsg hdr" and "int (length ptr) \<le> msgsize hdr"
  obtains eff hdr' where "mymq_send 0 mqd_open ptr prio hdr = Some (MqReturn 0, eff, hdr')"
    and "eff_signal eff = (q = [])" and "mq_abs hdr' (pq_send (prio, ptr) q)"
    and "maxmsg hdr' = maxmsg hdr" and "msgsize hdr' = msgsize hdr"
proof -
  have "send_result mqd_open ptr hdr = MqReturn 0" and "curmsgs hdr = 0 \<longleftrightarrow> q = []"
    using assms mq_abs_length [OF assms(1)] by (auto simp: send_result_def)
  then show thesis
    using mymq_send_abs [OF assms(1), of mqd_open ptr prio] that
    by (auto simp: mqd_open_def same_shape_def)
qed

lemma recv_loop_signals:
  assumes "mq_abs hdr (m # q)"
  obtains eff hdr' where "recv_loop hdr = (MqReturn (int (length (snd m))), Some (snd m, fst m), eff, hdr')"
    and "eff_signal eff = (int (length (m # q)) = maxmsg hdr)" and "mq_abs hdr' q"
proof -
  let ?hdr = "hdr\<lparr>mqh_nwait := mqh_nwait hdr - 1\<rparr>"
  have "mq_abs ?hdr (m # q)" using assms by (auto intro: mq_abs_cong)
  then obtain hdr1 where "recv_take ?hdr = (MqReturn (int (length (snd m))), Some (snd m, fst m),
      no_eff\<lparr>eff_signal := curmsgs ?hdr = maxmsg ?hdr\<rparr>, hdr1)" and "mq_abs hdr1 q"
    by (rule recv_take_abs)
  then show thesis using that mq_abs_length [OF assms] by (auto simp: recv_loop_def)
qed

lemma two_messages:
  "pq_send (0, [1]) [] = [(0, [1])]" "pq_send (0, [2]) [(0, [1])] = [(0, [1]), (0, [2])]"
  by (simp_all add: pq_send_def)

text \<open>A run in which a message stays on the queue with a receiver asleep, for any queue that is empty
  at first and has more than two slots.\<close>

lemma lost_wakeup_run:
  assumes "mq_abs hdr []" and "2 < maxmsg hdr" and "0 < msgsize hdr"
  shows "\<exists>s. mq_reach 3 hdr s \<and> mq_abs (ms_hdr s) [(0, [2])] \<and> ms_threads s = [MIdle, MRecv False, MIdle]"
proof -
  define hdr2 where "hdr2 = hdr\<lparr>mqh_nwait := mqh_nwait hdr + 2\<rparr>"
  have h2: "mq_abs hdr2 []" "maxmsg hdr2 = maxmsg hdr" "msgsize hdr2 = msgsize hdr"
    using assms(1) by (auto simp: hdr2_def intro: mq_abs_cong)
  have empty: "curmsgs hdr = 0" using mq_abs_length [OF assms(1)] by simp
  have "mq_reach 3 hdr \<lparr>ms_hdr = hdr, ms_threads = [MIdle, MIdle, MIdle], ms_dumped = False\<rparr>"
    using mq_reach.start [of 3 hdr] by (simp add: numeral_3_eq_3)
  then have "mq_reach 3 hdr \<lparr>ms_hdr = hdr\<lparr>mqh_nwait := mqh_nwait hdr + 1\<rparr>,
      ms_threads = [MRecv False, MIdle, MIdle], ms_dumped = False\<rparr>"
    by (rule reach_recv_sleep [where i = 0]) (simp_all add: empty)
  then have r: "mq_reach 3 hdr \<lparr>ms_hdr = hdr2, ms_threads = [MRecv False, MRecv False, MIdle], ms_dumped = False\<rparr>"
    by (rule reach_recv_sleep [where i = 1]) (simp_all add: empty hdr2_def)
  obtain eff3 hdr3 where s3: "mymq_send 0 mqd_open [1] 0 hdr2 = Some (MqReturn 0, eff3, hdr3)"
    "eff_signal eff3" "mq_abs hdr3 [(0, [1])]" "maxmsg hdr3 = maxmsg hdr" "msgsize hdr3 = msgsize hdr"
    by (rule send_signals [OF h2(1), of "[1]" 0]) (use assms h2 two_messages(1) in auto)
  have "mq_signalled True [MRecv False, MRecv False, MIdle] [MRecv True, MRecv False, MIdle]"
    using mq_signalled.one [of 0 "[MRecv False, MRecv False, MIdle]"] by simp
  then have r: "mq_reach 3 hdr \<lparr>ms_hdr = hdr3, ms_threads = [MRecv True, MRecv False, MIdle], ms_dumped = False\<rparr>"
    using reach_send [OF r, of 2 "[1]" 0 eff3 hdr3] s3 by simp
  obtain eff4 hdr4 where s4: "mymq_send 0 mqd_open [2] 0 hdr3 = Some (MqReturn 0, eff4, hdr4)"
    "\<not> eff_signal eff4" "mq_abs hdr4 [(0, [1]), (0, [2])]" "maxmsg hdr4 = maxmsg hdr"
    by (rule send_signals [OF s3(3), of "[2]" 0]) (use assms s3 two_messages(2) in auto)
  have r: "mq_reach 3 hdr \<lparr>ms_hdr = hdr4, ms_threads = [MRecv True, MRecv False, MIdle], ms_dumped = False\<rparr>"
    using reach_send [OF r, of 2 "[2]" 0 eff4 hdr4] s4 by (simp add: mq_signalled.no_signal)
  obtain eff5 hdr5 where s5: "recv_loop hdr4 = (MqReturn 1, Some ([1], 0), eff5, hdr5)"
    "\<not> eff_signal eff5" "mq_abs hdr5 [(0, [2])]"
    by (rule recv_loop_signals [OF s4(3)]) (use assms s4 in auto)
  have "mq_reach 3 hdr \<lparr>ms_hdr = hdr5, ms_threads = [MIdle, MRecv False, MIdle], ms_dumped = False\<rparr>"
    using reach_resume_recv [OF r, of 0 1 _ eff5 hdr5] s5 by (simp add: mq_signalled.no_signal)
  then show ?thesis using s5(3) by fastforce
qed

text \<open>\<^verbatim>\<open>mymq_send\<close> signals only when the queue was empty. Two receivers sleep, a sender sends two
  messages before the first receiver runs: the second receiver sleeps on with a message on the
  queue. This holds of a newly created queue with three slots.\<close>

theorem mq_lost_wakeup:
  "\<exists>s hdr. mq_init \<lparr>mq_flags = 0, mq_maxmsg = 3, mq_msgsize = 8, mq_curmsgs = 0\<rparr> = Some hdr \<and> mq_reach 3 hdr s \<and>
     mq_abs (ms_hdr s) [(0, [2])] \<and> ms_threads s = [MIdle, MRecv False, MIdle]"
proof -
  let ?a = "\<lparr>mq_flags = 0, mq_maxmsg = 3, mq_msgsize = 8, mq_curmsgs = 0\<rparr>"
  have "attr_fits ?a" by (simp add: attr_fits_def MSGSIZE_def sizeof_long_def sizeof_mymq_hdr_def sizeof_mymsg_hdr_def)
  then obtain hdr where h: "mq_init ?a = Some hdr" "mq_abs hdr []" "maxmsg hdr = 3" "msgsize hdr = 8"
    using mq_init_abs [of ?a] by auto
  then show ?thesis using lost_wakeup_run [of hdr] by auto
qed

end
