(* ===== verification/Cstring.thy ===== *)
theory Cstring
  imports Prelude
begin

text \<open>
  What the sources use of the C library on strings: decimal output as \<^verbatim>\<open>sprintf\<close> writes it (with and
  without a field width), \<^verbatim>\<open>atol\<close>, \<^verbatim>\<open>strchr\<close>, null-terminated strings in a buffer; and files as lists
  of characters that are overwritten from an offset on.
\<close>

definition NUL :: char where "NUL = CHR 0x00"
definition SPACE :: char where "SPACE = CHR 0x20"
definition NEWLINE :: char where "NEWLINE = CHR 0x0A"

lemmas char_defs = NUL_def SPACE_def NEWLINE_def

section \<open>Decimal numbers\<close>

definition digit :: "nat \<Rightarrow> char" where
  "digit d = char_of (48 + d)"

definition digit_val :: "char \<Rightarrow> nat" where
  "digit_val c = of_char c - 48"

definition isdigit :: "char \<Rightarrow> bool" where
  "isdigit c \<longleftrightarrow> (48 :: nat) \<le> of_char c \<and> of_char c \<le> (57 :: nat)"

definition isspace :: "char \<Rightarrow> bool" where
  "isspace c \<longleftrightarrow> c = SPACE \<or> (9 :: nat) \<le> of_char c \<and> of_char c \<le> (13 :: nat)"

fun dec :: "nat \<Rightarrow> string" where
  "dec n = (if n < 10 then [] else dec (n div 10)) @ [digit (n mod 10)]"

declare dec.simps [simp del]

text \<open>A field of at least \<open>w\<close> characters, filled with blanks on the left.\<close>

definition pad :: "nat \<Rightarrow> string \<Rightarrow> string" where
  "pad w s = replicate (w - length s) SPACE @ s"

definition digits_val :: "string \<Rightarrow> nat" where
  "digits_val s = foldl (\<lambda>n c. 10 * n + digit_val c) 0 s"

definition atol :: "string \<Rightarrow> int" where
  "atol s =
     (let t = dropWhile isspace s;
          num = (\<lambda>u. int (digits_val (takeWhile isdigit u)))
      in if t \<noteq> [] \<and> hd t = CHR ''-'' then - num (tl t)
         else if t \<noteq> [] \<and> hd t = CHR ''+'' then num (tl t) else num t)"

lemma of_char_digit: "d < 10 \<Longrightarrow> of_char (digit d) = 48 + d"
  by (simp add: digit_def)

lemma digit_facts [simp]:
  assumes "d < 10"
  shows "isdigit (digit d)" "digit_val (digit d) = d"
  using of_char_digit [OF assms] assms by (simp_all add: isdigit_def digit_val_def)

lemma isdigit_not:
  "isdigit c \<Longrightarrow> \<not> isspace c" "isdigit c \<Longrightarrow> c \<noteq> CHR ''-''" "isdigit c \<Longrightarrow> c \<noteq> CHR ''+''"
  "isdigit c \<Longrightarrow> c \<noteq> CHR '':''" "isdigit c \<Longrightarrow> c \<noteq> NUL" "isdigit c \<Longrightarrow> c \<noteq> NEWLINE"
  "isdigit c \<Longrightarrow> c \<noteq> CHR ''.''"
  by (auto simp: isdigit_def isspace_def char_defs)

lemma dec_digits: "c \<in> set (dec n) \<Longrightarrow> isdigit c"
  by (induction n rule: dec.induct) (subst (asm) (2) dec.simps, auto split: if_splits)

lemma dec_nonempty [simp]: "dec n \<noteq> []"
  by (subst dec.simps) simp

lemma length_dec_pos [simp]: "0 < length (dec n)"
  by simp

lemma digits_val_snoc: "digits_val (s @ [c]) = 10 * digits_val s + digit_val c"
  by (simp add: digits_val_def)

lemma digits_val_dec [simp]: "digits_val (dec n) = n"
proof (induction n rule: dec.induct)
  case (1 n)
  show ?case
  proof (cases "n < 10")
    case True
    then have "dec n = [digit n]" by (subst dec.simps) simp
    then show ?thesis using True by (simp add: digits_val_def)
  next
    case False
    then have "dec n = dec (n div 10) @ [digit (n mod 10)]" by (subst dec.simps) simp
    then show ?thesis using 1 False by (simp add: digits_val_snoc)
  qed
qed

lemma dec_inj: "dec m = dec n \<longleftrightarrow> m = n"
  by (metis digits_val_dec)

lemma length_dec: "0 < k \<Longrightarrow> length (dec n) \<le> k \<longleftrightarrow> n < 10 ^ k"
proof (induction n arbitrary: k rule: dec.induct)
  case (1 n)
  show ?case
  proof (cases "n < 10")
    case True
    then have "dec n = [digit n]" by (subst dec.simps) simp
    moreover have "(10 :: nat) ^ 1 \<le> 10 ^ k" using 1(2) by (intro power_increasing) auto
    ultimately show ?thesis using True 1(2) by (auto simp: Suc_le_eq)
  next
    case False
    then have d: "dec n = dec (n div 10) @ [digit (n mod 10)]" by (subst dec.simps) simp
    show ?thesis
    proof (cases "k = 1")
      case True
      then show ?thesis using False d by (simp add: le_Suc_eq)
    next
      case False
      then obtain j where k: "k = Suc j" "0 < j" using 1(2) by (cases k) auto
      then have "length (dec n) \<le> k \<longleftrightarrow> n div 10 < 10 ^ j"
        using d 1(1) [of j] \<open>\<not> n < 10\<close> by simp
      also have "\<dots> \<longleftrightarrow> n < 10 ^ k" using k by (simp add: div_less_iff_less_mult mult.commute)
      finally show ?thesis .
    qed
  qed
qed

lemma length_pad: "length s \<le> w \<Longrightarrow> length (pad w s) = w"
  by (simp add: pad_def)

lemma length_pad_dec: "0 < k \<Longrightarrow> n < 10 ^ k \<Longrightarrow> length (pad k (dec n)) = k"
  by (simp add: length_pad length_dec)

lemma dropWhile_replicate_append: "P x \<Longrightarrow> dropWhile P (replicate n x @ ys) = dropWhile P ys"
  by (induction n) auto

lemma takeWhile_dec_append:
  assumes "rest = [] \<or> \<not> isdigit (hd rest)"
  shows "takeWhile isdigit (dec n @ rest) = dec n"
proof -
  have "takeWhile isdigit rest = []" using assms by (cases rest) auto
  then show ?thesis using dec_digits by (subst takeWhile_append2) auto
qed

lemma dec_hd_tl: obtains c s where "dec n = c # s" and "isdigit c"
  using dec_digits [of _ n] dec_nonempty [of n] by (metis list.set_intros(1) neq_Nil_conv)

text \<open>What \<^verbatim>\<open>sprintf\<close> writes, \<^verbatim>\<open>atol\<close> reads back, whatever follows that is not a digit.\<close>

lemma atol_pad_dec:
  assumes "rest = [] \<or> \<not> isdigit (hd rest)"
  shows "atol (pad w (dec n) @ rest) = int n"
proof -
  obtain c s where c: "dec n = c # s" "isdigit c" by (rule dec_hd_tl)
  have "dropWhile isspace (dec n @ rest) = dec n @ rest"
    using c isdigit_not(1) by simp
  then have "dropWhile isspace (pad w (dec n) @ rest) = dec n @ rest"
    by (simp add: pad_def dropWhile_replicate_append isspace_def)
  then show ?thesis
    using c isdigit_not(2,3) [OF c(2)] takeWhile_dec_append [OF assms, of n] digits_val_dec [of n]
    by (auto simp: atol_def Let_def)
qed

lemma atol_dec:
  assumes "rest = [] \<or> \<not> isdigit (hd rest)"
  shows "atol (dec n @ rest) = int n"
  using atol_pad_dec [OF assms, of 0 n] by (simp add: pad_def)

section \<open>Strings in a buffer\<close>

definition cstr :: "string \<Rightarrow> string" where
  "cstr s = takeWhile (\<lambda>c. c \<noteq> NUL) s"

definition strchr :: "char \<Rightarrow> string \<Rightarrow> nat option" where
  "strchr c s =
     (let n = length (takeWhile (\<lambda>x. x \<noteq> c \<and> x \<noteq> NUL) s)
      in if n < length s \<and> s ! n = c then Some n else None)"

lemma cstr_append_NUL: "NUL \<notin> set s \<Longrightarrow> cstr (s @ NUL # t) = s"
  unfolding cstr_def by (subst takeWhile_append2) auto

lemma cstr_id: "NUL \<notin> set s \<Longrightarrow> cstr s = s"
  by (induction s) (auto simp: cstr_def)

lemma strchr_here:
  assumes "c \<notin> set s" and "NUL \<notin> set s"
  shows "strchr c (s @ c # t) = Some (length s)"
proof -
  have "takeWhile (\<lambda>x. x \<noteq> c \<and> x \<noteq> NUL) (s @ c # t) = s"
    using assms by (subst takeWhile_append2) auto
  then show ?thesis by (simp add: strchr_def)
qed

lemma strchr_none:
  assumes "c \<notin> set s" and "c \<noteq> NUL"
  shows "strchr c (s @ NUL # t) = None"
proof -
  let ?P = "\<lambda>x. x \<noteq> c \<and> x \<noteq> NUL" and ?n = "length (takeWhile (\<lambda>x. x \<noteq> c \<and> x \<noteq> NUL) s)"
  have n: "length (takeWhile ?P (s @ NUL # t)) = ?n"
    by (simp add: takeWhile_tail)
  have "(s @ NUL # t) ! ?n \<noteq> c"
  proof (cases "?n < length s")
    case True
    then have "s ! ?n \<in> set s" by simp
    then have "s ! ?n \<noteq> c" using assms(1) by metis
    then show ?thesis using True by (simp add: nth_append)
  next
    case False
    then have "?n = length s" using length_takeWhile_le [of ?P s] by simp
    then show ?thesis using assms(2) by simp
  qed
  then show ?thesis by (simp add: strchr_def n Let_def)
qed

section \<open>Files\<close>

text \<open>Writing \<open>bs\<close> at \<open>pos\<close>; beyond the end of the file the gap reads as null bytes.\<close>

definition splice :: "nat \<Rightarrow> string \<Rightarrow> string \<Rightarrow> string" where
  "splice pos bs s =
     take pos s @ replicate (pos - length s) NUL @ bs @ drop (pos + length bs) s"

lemma splice_middle: "length b = length b' \<Longrightarrow> splice (length a) b' (a @ b @ c) = a @ b' @ c"
  by (simp add: splice_def)

lemma splice_end: "splice (length s) bs s = s @ bs"
  by (simp add: splice_def)

lemma length_splice: "pos \<le> length s \<Longrightarrow> length (splice pos bs s) = max (length s) (pos + length bs)"
  by (auto simp: splice_def)

end
