(* ===== verification/Db_File.thy ===== *)
theory Db_File
  imports Cstring
begin

text \<open>
  The database library of \<^verbatim>\<open>apue.3e/db/db.c\<close>. The two files are lists of characters with the current
  offset of the process; the members of the structure \<^verbatim>\<open>DB\<close> are kept as they are. A function is a
  state transformer that may end the process with a message (\<open>Inl\<close>) or, where it follows a chain, not
  end at all (\<open>None\<close>). System calls on the files succeed, except that a read may end early at the end
  of the file and a seek to a negative offset fails; the record locks held are kept in a list.
\<close>

section \<open>Constants and the structure\<close>

definition IDXLEN_SZ :: nat where "IDXLEN_SZ = 4"
definition SEP :: char where "SEP = CHR '':''"
definition PTR_SZ :: nat where "PTR_SZ = 7"
definition PTR_MAX :: int where "PTR_MAX = 9999999"
definition NHASH_DEF :: nat where "NHASH_DEF = 137"
definition FREE_OFF :: int where "FREE_OFF = 0"
definition HASH_OFF :: int where "HASH_OFF = 7"
definition IDXLEN_MIN :: int where "IDXLEN_MIN = 6"
definition IDXLEN_MAX :: int where "IDXLEN_MAX = 1024"
definition DATLEN_MIN :: int where "DATLEN_MIN = 2"
definition DATLEN_MAX :: int where "DATLEN_MAX = 1024"
definition DB_INSERT :: int where "DB_INSERT = 1"
definition DB_REPLACE :: int where "DB_REPLACE = 2"
definition DB_STORE :: int where "DB_STORE = 3"

lemmas db_consts = IDXLEN_SZ_def PTR_SZ_def PTR_MAX_def NHASH_DEF_def FREE_OFF_def HASH_OFF_def
  IDXLEN_MIN_def IDXLEN_MAX_def DATLEN_MIN_def DATLEN_MAX_def

text \<open>A record lock: on the index file or the data file, its first byte, its length (0: to the end of the
  file), for writing or for reading.\<close>

datatype dblock = Lk (lk_idx: bool) (lk_off: int) (lk_len: int) (lk_write: bool)

record db =
  idxfile :: string
  datfile :: string
  idxpos :: nat
  datpos :: nat
  idxbuf :: string
  datbuf :: string
  idxoff :: int
  idxlen :: int
  datoff :: int
  datlen :: int
  ptrval :: int
  ptroff :: int
  chainoff :: int
  hashoff :: int
  nhash :: nat
  cnt_delok :: "64 word"
  cnt_delerr :: "64 word"
  cnt_fetchok :: "64 word"
  cnt_fetcherr :: "64 word"
  cnt_nextrec :: "64 word"
  cnt_stor1 :: "64 word"
  cnt_stor2 :: "64 word"
  cnt_stor3 :: "64 word"
  cnt_stor4 :: "64 word"
  cnt_storerr :: "64 word"
  locks :: "dblock list"

type_synonym 'a dbm = "db \<Rightarrow> (string + 'a \<times> db) option"

definition retM :: "'a \<Rightarrow> 'a dbm" where
  "retM a = (\<lambda>db. Some (Inr (a, db)))"

definition bindM :: "'a dbm \<Rightarrow> ('a \<Rightarrow> 'b dbm) \<Rightarrow> 'b dbm" where
  "bindM f g = (\<lambda>db. case f db of
     None \<Rightarrow> None
   | Some (Inl e) \<Rightarrow> Some (Inl e)
   | Some (Inr (a, db')) \<Rightarrow> g a db')"

definition thenM :: "'a dbm \<Rightarrow> 'b dbm \<Rightarrow> 'b dbm" where
  "thenM f g = bindM f (\<lambda>_. g)"

definition getM :: "(db \<Rightarrow> 'a) \<Rightarrow> 'a dbm" where
  "getM f = (\<lambda>db. Some (Inr (f db, db)))"

definition updM :: "(db \<Rightarrow> db) \<Rightarrow> unit dbm" where
  "updM f = (\<lambda>db. Some (Inr ((), f db)))"

text \<open>\<^verbatim>\<open>err_dump\<close>, unless the condition holds.\<close>

definition checkM :: "bool \<Rightarrow> string \<Rightarrow> unit dbm" where
  "checkM b msg = (\<lambda>db. if b then Some (Inr ((), db)) else Some (Inl msg))"

lemmas monad_defs = retM_def bindM_def thenM_def getM_def updM_def checkM_def

text \<open>Running a composed function: one rule for each way it can begin.\<close>

named_theorems dbm_simps "equations that run a function of the database library"

lemma bind_ret [dbm_simps]: "bindM (retM a) g db = g a db"
  by (simp add: monad_defs)

lemma bind_get [dbm_simps]: "bindM (getM f) g db = g (f db) db"
  by (simp add: monad_defs)

lemma then_ret [dbm_simps]: "thenM (retM a) g db = g db"
  by (simp add: monad_defs)

lemma then_upd [dbm_simps]: "thenM (updM f) g db = g (f db)"
  by (simp add: monad_defs)

lemma then_check [dbm_simps]: "thenM (checkM b msg) g db = (if b then g db else Some (Inl msg))"
  by (simp add: monad_defs)

lemma bind_then [dbm_simps]: "bindM (thenM f g) h db = thenM f (bindM g h) db"
  by (simp add: monad_defs split: option.split sum.split prod.split)

lemma bind_bind [dbm_simps]: "bindM (bindM f g) h db = bindM f (\<lambda>a. bindM (g a) h) db"
  by (simp add: monad_defs split: option.split sum.split prod.split)

lemma then_then [dbm_simps]: "thenM (thenM f g) h db = thenM f (thenM g h) db"
  by (simp add: monad_defs split: option.split sum.split prod.split)

lemma then_bind [dbm_simps]: "thenM (bindM f g) h db = bindM f (\<lambda>a. thenM (g a) h) db"
  by (simp add: monad_defs split: option.split sum.split prod.split)

lemma run_ret [dbm_simps]: "retM a db = Some (Inr (a, db))"
  by (simp add: monad_defs)

lemma run_get [dbm_simps]: "getM f db = Some (Inr (f db, db))"
  by (simp add: monad_defs)

lemma run_upd [dbm_simps]: "updM f db = Some (Inr ((), f db))"
  by (simp add: monad_defs)

lemma run_check [dbm_simps]: "checkM b msg db = (if b then Some (Inr ((), db)) else Some (Inl msg))"
  by (simp add: monad_defs)

lemma bind_if [dbm_simps]: "bindM (if b then f else f') g db = (if b then bindM f g db else bindM f' g db)"
  by simp

lemma then_if [dbm_simps]: "thenM (if b then f else f') g db = (if b then thenM f g db else thenM f' g db)"
  by simp

lemma bindM_ok: "f db = Some (Inr (a, db')) \<Longrightarrow> bindM f g db = g a db'"
  by (simp add: monad_defs)

lemma thenM_ok: "f db = Some (Inr (a, db')) \<Longrightarrow> thenM f g db = g db'"
  by (simp add: monad_defs)

section \<open>System calls\<close>

definition idx_seek :: "int \<Rightarrow> string \<Rightarrow> unit dbm" where
  "idx_seek off msg = thenM (checkM (0 \<le> off) msg) (updM (\<lambda>db. db\<lparr>idxpos := nat off\<rparr>))"

definition idx_read :: "nat \<Rightarrow> string dbm" where
  "idx_read n = bindM (getM (\<lambda>db. take n (drop (idxpos db) (idxfile db))))
     (\<lambda>s. thenM (updM (\<lambda>db. db\<lparr>idxpos := idxpos db + length s\<rparr>)) (retM s))"

definition idx_write :: "string \<Rightarrow> unit dbm" where
  "idx_write s = updM (\<lambda>db. db\<lparr>idxfile := splice (idxpos db) s (idxfile db),
     idxpos := idxpos db + length s\<rparr>)"

definition dat_seek :: "int \<Rightarrow> string \<Rightarrow> unit dbm" where
  "dat_seek off msg = thenM (checkM (0 \<le> off) msg) (updM (\<lambda>db. db\<lparr>datpos := nat off\<rparr>))"

definition dat_read :: "nat \<Rightarrow> string dbm" where
  "dat_read n = bindM (getM (\<lambda>db. take n (drop (datpos db) (datfile db))))
     (\<lambda>s. thenM (updM (\<lambda>db. db\<lparr>datpos := datpos db + length s\<rparr>)) (retM s))"

definition dat_write :: "string \<Rightarrow> unit dbm" where
  "dat_write s = updM (\<lambda>db. db\<lparr>datfile := splice (datpos db) s (datfile db),
     datpos := datpos db + length s\<rparr>)"

definition lockM :: "dblock \<Rightarrow> unit dbm" where
  "lockM l = updM (\<lambda>db. db\<lparr>locks := l # locks db\<rparr>)"

text \<open>\<^verbatim>\<open>un_lock\<close> gives up what is held on the range.\<close>

definition un_lock :: "bool \<Rightarrow> int \<Rightarrow> int \<Rightarrow> unit dbm" where
  "un_lock isidx off len = updM (\<lambda>db. db\<lparr>locks :=
     filter (\<lambda>l. \<not> (lk_idx l = isidx \<and> lk_off l = off \<and> lk_len l = len)) (locks db)\<rparr>)"

lemmas sys_defs = idx_seek_def idx_read_def idx_write_def dat_seek_def dat_read_def dat_write_def
  lockM_def un_lock_def

section \<open>Reading\<close>

definition schar :: "char \<Rightarrow> int" where
  "schar c = (let v = of_char c in if v < 128 then v else v - 256)"

fun hash_loop :: "string \<Rightarrow> int \<Rightarrow> 64 word \<Rightarrow> 64 word" where
  "hash_loop [] i hval = hval"
| "hash_loop (c # key) i hval = hash_loop key (i + 1) (hval + of_int (schar c * i))"

definition db_hash :: "nat \<Rightarrow> string \<Rightarrow> nat" where
  "db_hash n key = unat (hash_loop key 1 0) mod n"

definition db_readptr :: "int \<Rightarrow> int dbm" where
  "db_readptr offset =
     thenM (idx_seek offset ''_db_readptr: lseek error to ptr field'')
     (bindM (idx_read PTR_SZ) (\<lambda>asciiptr.
      thenM (checkM (length asciiptr = PTR_SZ) ''_db_readptr: read error of ptr field'')
      (retM (atol asciiptr))))"

text \<open>The part of \<^verbatim>\<open>_db_readidx\<close> that splits the record read into \<^verbatim>\<open>idxbuf\<close>.\<close>

definition db_splitidx :: "unit dbm" where
  "db_splitidx =
     bindM (getM idxbuf) (\<lambda>buf.
     case strchr SEP buf of
       None \<Rightarrow> checkM False ''_db_readidx: missing first separator''
     | Some n1 \<Rightarrow>
         (let ptr1 = n1 + 1; buf1 = buf[n1 := NUL] in
          case strchr SEP (drop ptr1 buf1) of
            None \<Rightarrow> checkM False ''_db_readidx: missing second separator''
          | Some n2 \<Rightarrow>
              (let ptr2 = ptr1 + n2 + 1; buf2 = buf1[ptr1 + n2 := NUL] in
               thenM (updM (\<lambda>db. db\<lparr>idxbuf := buf2\<rparr>))
               (thenM (checkM (strchr SEP (drop ptr2 buf2) = None) ''_db_readidx: too many separators'')
               (thenM (updM (\<lambda>db. db\<lparr>datoff := atol (drop ptr1 buf2)\<rparr>))
               (thenM (checkM (0 \<le> atol (drop ptr1 buf2)) ''_db_readidx: starting offset < 0'')
               (thenM (updM (\<lambda>db. db\<lparr>datlen := atol (drop ptr2 buf2)\<rparr>))
               (checkM (0 < atol (drop ptr2 buf2) \<and> atol (drop ptr2 buf2) \<le> DATLEN_MAX)
                  ''_db_readidx: invalid length''))))))))"

text \<open>\<^verbatim>\<open>_db_readidx\<close>: an offset of 0 means the current offset of the file; then the end of the file is
  no error.\<close>

definition db_readidx :: "int \<Rightarrow> int dbm" where
  "db_readidx offset =
     thenM (if offset = 0 then retM () else idx_seek offset ''_db_readidx: lseek error'')
     (thenM (updM (\<lambda>db. db\<lparr>idxoff := int (idxpos db)\<rparr>))
     (bindM (idx_read (PTR_SZ + IDXLEN_SZ)) (\<lambda>s.
      if length s \<noteq> PTR_SZ + IDXLEN_SZ
      then (if length s = 0 \<and> offset = 0 then retM (-1)
            else bindM (checkM False ''_db_readidx: readv error of index record'') (\<lambda>_. retM 0))
      else
        (let asciiptr = take PTR_SZ s; asciilen = drop PTR_SZ s in
         thenM (updM (\<lambda>db. db\<lparr>ptrval := atol asciiptr, idxlen := atol asciilen\<rparr>))
         (thenM (checkM (IDXLEN_MIN \<le> atol asciilen \<and> atol asciilen \<le> IDXLEN_MAX)
                  ''_db_readidx: invalid length'')
         (bindM (idx_read (nat (atol asciilen))) (\<lambda>t.
          thenM (checkM (int (length t) = atol asciilen) ''_db_readidx: read error of index record'')
          (thenM (checkM (last t = NEWLINE) ''_db_readidx: missing newline'')
          (thenM (updM (\<lambda>db. db\<lparr>idxbuf := butlast t @ [NUL]\<rparr>))
          (thenM db_splitidx
          (getM ptrval)))))))))))"

definition db_readdat :: "string dbm" where
  "db_readdat =
     bindM (getM datoff) (\<lambda>off.
     thenM (dat_seek off ''_db_readdat: lseek error'')
     (bindM (getM datlen) (\<lambda>len.
      bindM (dat_read (nat len)) (\<lambda>t.
      thenM (checkM (int (length t) = len) ''_db_readdat: read error'')
      (thenM (checkM (t \<noteq> [] \<and> last t = NEWLINE) ''_db_readdat: missing newline'')
      (thenM (updM (\<lambda>db. db\<lparr>datbuf := butlast t @ [NUL]\<rparr>))
      (getM (\<lambda>db. cstr (datbuf db)))))))))"

text \<open>The search along a chain, from the offset of its first record on.\<close>

partial_function (option) find_loop :: "string \<Rightarrow> int \<Rightarrow> db \<Rightarrow> (string + int \<times> db) option" where
  "find_loop key offset db =
     (if offset = 0 then Some (Inr (0, db))
      else (case db_readidx offset db of
        None \<Rightarrow> None
      | Some (Inl e) \<Rightarrow> Some (Inl e)
      | Some (Inr (nextoffset, db1)) \<Rightarrow>
          if cstr (idxbuf db1) = key then Some (Inr (offset, db1))
          else find_loop key nextoffset (db1\<lparr>ptroff := offset\<rparr>)))"

declare find_loop.simps [code]

definition db_find_and_lock :: "string \<Rightarrow> bool \<Rightarrow> int dbm" where
  "db_find_and_lock key writelock =
     thenM (updM (\<lambda>db. db\<lparr>chainoff := int (db_hash (nhash db) key * PTR_SZ) + hashoff db\<rparr>))
     (thenM (updM (\<lambda>db. db\<lparr>ptroff := chainoff db\<rparr>))
     (bindM (getM chainoff) (\<lambda>off.
      thenM (lockM (Lk True off 1 writelock))
      (bindM (getM ptroff) (\<lambda>poff.
       bindM (db_readptr poff) (\<lambda>offset.
       bindM (find_loop key offset) (\<lambda>found.
       retM (if found = 0 then -1 else 0))))))))"

definition db_fetch :: "string \<Rightarrow> string option dbm" where
  "db_fetch key =
     bindM (db_find_and_lock key False) (\<lambda>rc.
     bindM (if rc < 0 then thenM (updM (\<lambda>db. db\<lparr>cnt_fetcherr := cnt_fetcherr db + 1\<rparr>)) (retM None)
            else bindM db_readdat (\<lambda>s.
              thenM (updM (\<lambda>db. db\<lparr>cnt_fetchok := cnt_fetchok db + 1\<rparr>)) (retM (Some s)))) (\<lambda>ptr.
     bindM (getM chainoff) (\<lambda>off. thenM (un_lock True off 1) (retM ptr))))"

section \<open>Writing\<close>

text \<open>\<open>atend\<close> is \<^verbatim>\<open>SEEK_END\<close> with offset 0, otherwise the offset is from the start of the file.\<close>

definition db_writedat :: "string \<Rightarrow> int \<Rightarrow> bool \<Rightarrow> unit dbm" where
  "db_writedat data offset atend =
     thenM (if atend then lockM (Lk False 0 0 True) else retM ())
     (bindM (getM (\<lambda>db. if atend then int (length (datfile db)) else offset)) (\<lambda>off.
      thenM (dat_seek off ''_db_writedat: lseek error'')
      (thenM (updM (\<lambda>db. db\<lparr>datoff := off, datlen := int (length data) + 1\<rparr>))
      (thenM (dat_write (data @ [NEWLINE]))
      (if atend then un_lock False 0 0 else retM ())))))"

definition db_writeidx :: "string \<Rightarrow> int \<Rightarrow> bool \<Rightarrow> int \<Rightarrow> unit dbm" where
  "db_writeidx key offset atend ptr =
     thenM (updM (\<lambda>db. db\<lparr>ptrval := ptr\<rparr>))
     (thenM (checkM (0 \<le> ptr \<and> ptr \<le> PTR_MAX) ''_db_writeidx: invalid ptr'')
     (thenM (updM (\<lambda>db. db\<lparr>idxbuf := key @ [SEP] @ dec (nat (datoff db)) @ [SEP] @
                            dec (nat (datlen db)) @ [NEWLINE]\<rparr>))
     (bindM (getM idxbuf) (\<lambda>buf.
      thenM (checkM (IDXLEN_MIN \<le> int (length buf) \<and> int (length buf) \<le> IDXLEN_MAX)
              ''_db_writeidx: invalid length'')
      (bindM (getM (\<lambda>db. int ((nhash db + 1) * PTR_SZ + 1))) (\<lambda>recs.
       thenM (if atend then lockM (Lk True recs 0 True) else retM ())
       (bindM (getM (\<lambda>db. if atend then int (length (idxfile db)) else offset)) (\<lambda>off.
        thenM (idx_seek off ''_db_writeidx: lseek error'')
        (thenM (updM (\<lambda>db. db\<lparr>idxoff := off\<rparr>))
        (thenM (idx_write (pad PTR_SZ (dec (nat ptr)) @ pad IDXLEN_SZ (dec (length buf)) @ buf))
        (if atend then un_lock True recs 0 else retM ())))))))))))"

definition db_writeptr :: "int \<Rightarrow> int \<Rightarrow> unit dbm" where
  "db_writeptr offset ptr =
     thenM (checkM (0 \<le> ptr \<and> ptr \<le> PTR_MAX) ''_db_writeptr: invalid ptr'')
     (thenM (idx_seek offset ''_db_writeptr: lseek error to ptr field'')
     (idx_write (pad PTR_SZ (dec (nat ptr)))))"

text \<open>\<^verbatim>\<open>_db_dodelete\<close>: the key in \<^verbatim>\<open>idxbuf\<close>, up to its terminator, is replaced by blanks.\<close>

definition db_dodelete :: "unit dbm" where
  "db_dodelete =
     thenM (updM (\<lambda>db. db\<lparr>datbuf := replicate (nat (datlen db) - 1) SPACE @ [NUL]\<rparr>))
     (thenM (updM (\<lambda>db. db\<lparr>idxbuf := replicate (length (cstr (idxbuf db))) SPACE @
                            drop (length (cstr (idxbuf db))) (idxbuf db)\<rparr>))
     (thenM (lockM (Lk True FREE_OFF 1 True))
     (bindM (getM (\<lambda>db. (cstr (datbuf db), datoff db))) (\<lambda>(blanks, off).
      thenM (db_writedat blanks off False)
      (bindM (db_readptr FREE_OFF) (\<lambda>freeptr.
       bindM (getM ptrval) (\<lambda>saveptr.
       bindM (getM (\<lambda>db. (cstr (idxbuf db), idxoff db))) (\<lambda>(key, ioff).
       thenM (db_writeidx key ioff False freeptr)
       (bindM (getM idxoff) (\<lambda>ioff'.
        thenM (db_writeptr FREE_OFF ioff')
        (bindM (getM ptroff) (\<lambda>poff.
         thenM (db_writeptr poff saveptr)
         (un_lock True FREE_OFF 1)))))))))))))"

definition db_delete :: "string \<Rightarrow> int dbm" where
  "db_delete key =
     bindM (db_find_and_lock key True) (\<lambda>found.
     bindM (if found = 0
            then thenM db_dodelete (thenM (updM (\<lambda>db. db\<lparr>cnt_delok := cnt_delok db + 1\<rparr>)) (retM 0))
            else thenM (updM (\<lambda>db. db\<lparr>cnt_delerr := cnt_delerr db + 1\<rparr>)) (retM (-1))) (\<lambda>rc.
     bindM (getM chainoff) (\<lambda>off. thenM (un_lock True off 1) (retM rc))))"

text \<open>The search of the free list for a record with a key and data of the given lengths; the value is
  \<^verbatim>\<open>offset\<close> and \<^verbatim>\<open>saveoffset\<close> at the end of the loop.\<close>

partial_function (option) free_loop :: "nat \<Rightarrow> int \<Rightarrow> int \<Rightarrow> int \<Rightarrow> db \<Rightarrow>
    (string + (int \<times> int) \<times> db) option" where
  "free_loop keylen dlen offset saveoffset db =
     (if offset = 0 then Some (Inr ((0, saveoffset), db))
      else (case db_readidx offset db of
        None \<Rightarrow> None
      | Some (Inl e) \<Rightarrow> Some (Inl e)
      | Some (Inr (nextoffset, db1)) \<Rightarrow>
          if length (cstr (idxbuf db1)) = keylen \<and> datlen db1 = dlen
          then Some (Inr ((offset, saveoffset), db1))
          else free_loop keylen dlen nextoffset offset db1))"

declare free_loop.simps [code]

definition db_findfree :: "nat \<Rightarrow> int \<Rightarrow> int dbm" where
  "db_findfree keylen dlen =
     thenM (lockM (Lk True FREE_OFF 1 True))
     (bindM (db_readptr FREE_OFF) (\<lambda>first.
      bindM (free_loop keylen dlen first FREE_OFF) (\<lambda>(offset, saveoffset).
      bindM (if offset = 0 then retM (-1)
             else bindM (getM ptrval) (\<lambda>ptr. thenM (db_writeptr saveoffset ptr) (retM 0))) (\<lambda>rc.
      thenM (un_lock True FREE_OFF 1) (retM rc)))))"

text \<open>\<^verbatim>\<open>db_store\<close> when the key was not found, and when it was.\<close>

definition store_new :: "string \<Rightarrow> string \<Rightarrow> unit dbm" where
  "store_new key data =
     bindM (getM chainoff) (\<lambda>coff.
     bindM (db_readptr coff) (\<lambda>ptr.
     bindM (db_findfree (length key) (int (length data) + 1)) (\<lambda>rc.
     if rc < 0 then
       thenM (db_writedat data 0 True)
       (thenM (db_writeidx key 0 True ptr)
       (bindM (getM idxoff) (\<lambda>ioff.
        thenM (db_writeptr coff ioff)
        (updM (\<lambda>db. db\<lparr>cnt_stor1 := cnt_stor1 db + 1\<rparr>)))))
     else
       bindM (getM datoff) (\<lambda>doff.
       thenM (db_writedat data doff False)
       (bindM (getM idxoff) (\<lambda>ioff.
        thenM (db_writeidx key ioff False ptr)
        (bindM (getM idxoff) (\<lambda>ioff'.
         thenM (db_writeptr coff ioff')
         (updM (\<lambda>db. db\<lparr>cnt_stor2 := cnt_stor2 db + 1\<rparr>))))))))))"

definition store_replace :: "string \<Rightarrow> string \<Rightarrow> unit dbm" where
  "store_replace key data =
     bindM (getM datlen) (\<lambda>olen.
     if int (length data) + 1 \<noteq> olen then
       thenM db_dodelete
       (bindM (getM chainoff) (\<lambda>coff.
        bindM (db_readptr coff) (\<lambda>ptr.
        thenM (db_writedat data 0 True)
        (thenM (db_writeidx key 0 True ptr)
        (bindM (getM idxoff) (\<lambda>ioff.
         thenM (db_writeptr coff ioff)
         (updM (\<lambda>db. db\<lparr>cnt_stor3 := cnt_stor3 db + 1\<rparr>))))))))
     else
       bindM (getM datoff) (\<lambda>doff.
       thenM (db_writedat data doff False)
       (updM (\<lambda>db. db\<lparr>cnt_stor4 := cnt_stor4 db + 1\<rparr>))))"

text \<open>The value is the return code and the error number, where one is set.\<close>

definition db_store :: "string \<Rightarrow> string \<Rightarrow> int \<Rightarrow> (int \<times> int option) dbm" where
  "db_store key data flag =
     (if flag \<noteq> DB_INSERT \<and> flag \<noteq> DB_REPLACE \<and> flag \<noteq> DB_STORE then retM (-1, Some EINVAL)
      else
        thenM (checkM (DATLEN_MIN \<le> int (length data) + 1 \<and> int (length data) + 1 \<le> DATLEN_MAX)
                ''db_store: invalid data length'')
        (bindM (db_find_and_lock key True) (\<lambda>found.
         bindM (if found < 0 then
                  (if flag = DB_REPLACE
                   then thenM (updM (\<lambda>db. db\<lparr>cnt_storerr := cnt_storerr db + 1\<rparr>)) (retM (-1, Some ENOENT))
                   else thenM (store_new key data) (retM (0, None)))
                else
                  (if flag = DB_INSERT
                   then thenM (updM (\<lambda>db. db\<lparr>cnt_storerr := cnt_storerr db + 1\<rparr>)) (retM (1, None))
                   else thenM (store_replace key data) (retM (0, None)))) (\<lambda>rc.
         bindM (getM chainoff) (\<lambda>off. thenM (un_lock True off 1) (retM rc))))))"

section \<open>Opening and enumerating\<close>

definition db_rewind :: "unit dbm" where
  "db_rewind =
     bindM (getM (\<lambda>db. int ((nhash db + 1) * PTR_SZ))) (\<lambda>offset.
     thenM (idx_seek (offset + 1) ''db_rewind: lseek error'')
     (updM (\<lambda>db. db\<lparr>idxoff := offset + 1\<rparr>)))"

text \<open>\<open>None\<close> at the end of the index file.\<close>

partial_function (option) nextrec_loop :: "db \<Rightarrow> (string + bool \<times> db) option" where
  "nextrec_loop db =
     (case db_readidx 0 db of
        None \<Rightarrow> None
      | Some (Inl e) \<Rightarrow> Some (Inl e)
      | Some (Inr (ptr, db1)) \<Rightarrow>
          if ptr < 0 then Some (Inr (False, db1))
          else if \<forall>c \<in> set (cstr (idxbuf db1)). c = SPACE then nextrec_loop db1
          else Some (Inr (True, db1)))"

declare nextrec_loop.simps [code]

definition db_nextrec :: "(string \<times> string) option dbm" where
  "db_nextrec =
     thenM (lockM (Lk True FREE_OFF 1 False))
     (bindM nextrec_loop (\<lambda>more.
      bindM (if more
             then bindM (getM (\<lambda>db. cstr (idxbuf db))) (\<lambda>key.
                  bindM db_readdat (\<lambda>ptr.
                  thenM (updM (\<lambda>db. db\<lparr>cnt_nextrec := cnt_nextrec db + 1\<rparr>)) (retM (Some (key, ptr)))))
             else retM None) (\<lambda>res.
      thenM (un_lock True FREE_OFF 1) (retM res))))"

text \<open>\<^verbatim>\<open>_db_alloc\<close>: the structure with all members zero, for files with the given contents.\<close>

definition db_alloc :: "string \<Rightarrow> string \<Rightarrow> db" where
  "db_alloc idx dat = \<lparr>idxfile = idx, datfile = dat, idxpos = 0, datpos = 0, idxbuf = [], datbuf = [],
     idxoff = 0, idxlen = 0, datoff = 0, datlen = 0, ptrval = 0, ptroff = 0, chainoff = 0,
     hashoff = 0, nhash = 0, cnt_delok = 0, cnt_delerr = 0, cnt_fetchok = 0, cnt_fetcherr = 0,
     cnt_nextrec = 0, cnt_stor1 = 0, cnt_stor2 = 0, cnt_stor3 = 0, cnt_stor4 = 0, cnt_storerr = 0,
     locks = []\<rparr>"

text \<open>\<^verbatim>\<open>db_open\<close>: \<open>idx\<close> and \<open>dat\<close> are the contents of the files once \<^verbatim>\<open>open\<close> has been called, or \<open>None\<close>
  where it failed; \<open>init\<close> says that both \<^verbatim>\<open>O_CREAT\<close> and \<^verbatim>\<open>O_TRUNC\<close> are given.\<close>

definition db_open :: "bool \<Rightarrow> string option \<Rightarrow> string option \<Rightarrow> (string + db option) option" where
  "db_open init idx dat = (case (idx, dat) of
     (Some i, Some d) \<Rightarrow>
       (let db = (db_alloc i d)\<lparr>nhash := NHASH_DEF, hashoff := HASH_OFF\<rparr>;
            setup = (if init
              then thenM (lockM (Lk True 0 0 True))
                   (bindM (getM (\<lambda>db. length (idxfile db))) (\<lambda>st_size.
                    thenM (if st_size = 0
                           then idx_write (concat (replicate (NHASH_DEF + 1) (pad PTR_SZ (dec 0))) @ [NEWLINE])
                           else retM ())
                    (un_lock True 0 0)))
              else retM ())
        in (case thenM setup db_rewind db of
              None \<Rightarrow> None
            | Some (Inl e) \<Rightarrow> Some (Inl e)
            | Some (Inr (_, db')) \<Rightarrow> Some (Inr (Some db'))))
   | _ \<Rightarrow> Some (Inr None))"

section \<open>Closing\<close>

text \<open>\<^verbatim>\<open>_db_free\<close>: what is given back, in order. A descriptor below 0 was not opened; the buffers are there
  whenever \<^verbatim>\<open>_db_alloc\<close> has returned.\<close>

datatype release_act = CloseFd int | FreeMem string

definition db_free :: "int \<Rightarrow> int \<Rightarrow> release_act list" where
  "db_free idxfd datfd =
     (if 0 \<le> idxfd then [CloseFd idxfd] else []) @ (if 0 \<le> datfd then [CloseFd datfd] else []) @
     [FreeMem ''idxbuf'', FreeMem ''datbuf'', FreeMem ''name'', FreeMem ''DB'']"

definition db_close :: "int \<Rightarrow> int \<Rightarrow> release_act list" where
  "db_close idxfd datfd = db_free idxfd datfd"

lemma db_close_once:
  "idxfd \<noteq> datfd \<Longrightarrow> distinct (db_close idxfd datfd) \<and>
    {fd. CloseFd fd \<in> set (db_close idxfd datfd)} = {fd \<in> {idxfd, datfd}. 0 \<le> fd}"
  by (auto simp: db_close_def db_free_def)

end
