(* ===== verification/Db_Layout.thy ===== *)
theory Db_Layout
  imports Db_File
begin

text \<open>
  The layout of the index file: the free list pointer, the hash table, a newline, and the index
  records one after the other. The functions that read and write the file are shown to work on a
  file with this layout as reads and updates of the pointers and records it is made of.
\<close>

section \<open>Records and the file they make up\<close>

record arec =
  r_ptr :: nat
  r_key :: string
  r_off :: nat
  r_len :: nat

definition ptr7 :: "nat \<Rightarrow> string" where
  "ptr7 n = pad PTR_SZ (dec n)"

definition body :: "arec \<Rightarrow> string" where
  "body r = r_key r @ [SEP] @ dec (r_off r) @ [SEP] @ dec (r_len r) @ [NEWLINE]"

definition rrec :: "arec \<Rightarrow> string" where
  "rrec r = ptr7 (r_ptr r) @ pad IDXLEN_SZ (dec (length (body r))) @ body r"

definition rec_ok :: "arec \<Rightarrow> bool" where
  "rec_ok r \<longleftrightarrow> int (r_ptr r) \<le> PTR_MAX \<and> NUL \<notin> set (r_key r) \<and> SEP \<notin> set (r_key r) \<and>
     0 < r_len r \<and> int (r_len r) \<le> DATLEN_MAX \<and>
     IDXLEN_MIN \<le> int (length (body r)) \<and> int (length (body r)) \<le> IDXLEN_MAX"

lemma length_ptr7: "int n \<le> PTR_MAX \<Longrightarrow> length (ptr7 n) = 7"
  unfolding ptr7_def PTR_SZ_def by (rule length_pad_dec) (simp_all add: PTR_MAX_def)

lemma length_asciilen: "int n \<le> IDXLEN_MAX \<Longrightarrow> length (pad IDXLEN_SZ (dec n)) = 4"
  unfolding IDXLEN_SZ_def by (rule length_pad_dec) (simp_all add: IDXLEN_MAX_def)

lemma length_rrec: "rec_ok r \<Longrightarrow> length (rrec r) = 11 + length (body r)"
  by (simp add: rrec_def rec_ok_def length_ptr7 length_asciilen)

lemma atol_ptr7: "atol (ptr7 n) = int n"
  using atol_pad_dec [of "[]" PTR_SZ n] by (simp add: ptr7_def)

lemma SEP_NUL [simp]: "SEP \<noteq> NUL" "NUL \<noteq> SEP" "\<not> isdigit NUL" "\<not> isdigit SEP" "\<not> isdigit NEWLINE"
  by (simp_all add: SEP_def NUL_def isdigit_def NEWLINE_def)

lemma dec_no_sep [simp]: "SEP \<notin> set (dec n)" "NUL \<notin> set (dec n)"
  using dec_digits [of SEP n] dec_digits [of NUL n] by auto

section \<open>Reading\<close>

text \<open>The state of the structure after the record \<open>r\<close> at offset \<open>off\<close> has been read.\<close>

definition split_buf :: "arec \<Rightarrow> string" where
  "split_buf r = r_key r @ [NUL] @ dec (r_off r) @ [NUL] @ dec (r_len r) @ [NUL]"

definition after_read :: "nat \<Rightarrow> arec \<Rightarrow> db \<Rightarrow> db" where
  "after_read off r db = db\<lparr>idxpos := off + length (rrec r), idxoff := int off,
     idxlen := int (length (body r)), ptrval := int (r_ptr r), idxbuf := split_buf r,
     datoff := int (r_off r), datlen := int (r_len r)\<rparr>"

lemma cstr_split_buf: "rec_ok r \<Longrightarrow> cstr (split_buf r) = r_key r"
  using cstr_append_NUL [of "r_key r"] by (simp add: split_buf_def rec_ok_def)

lemma list_update_here: "(xs @ x # ys)[length xs := y] = xs @ y # ys"
  by simp

lemma db_splitidx_spec:
  assumes "idxbuf db = r_key r @ [SEP] @ dec (r_off r) @ [SEP] @ dec (r_len r) @ [NUL]" and "rec_ok r"
  shows "db_splitidx db = Some (Inr ((), db\<lparr>idxbuf := split_buf r, datoff := int (r_off r),
    datlen := int (r_len r)\<rparr>))"
proof -
  let ?k = "r_key r" and ?o = "dec (r_off r)" and ?l = "dec (r_len r)"
  have ok: "SEP \<notin> set ?k" "NUL \<notin> set ?k" "0 < r_len r" "int (r_len r) \<le> DATLEN_MAX"
    using assms(2) by (auto simp: rec_ok_def)
  have s1: "strchr SEP (idxbuf db) = Some (length ?k)"
    using strchr_here [OF ok(1,2)] assms(1) by simp
  have b1: "(idxbuf db)[length ?k := NUL] = ?k @ [NUL] @ ?o @ [SEP] @ ?l @ [NUL]"
    using assms(1) by simp
  have s2: "strchr SEP (drop (length ?k + 1) (?k @ [NUL] @ ?o @ [SEP] @ ?l @ [NUL])) = Some (length ?o)"
    using strchr_here [of SEP ?o "?l @ [NUL]"] by simp
  have b2: "(?k @ [NUL] @ ?o @ [SEP] @ ?l @ [NUL])[length ?k + 1 + length ?o := NUL] = split_buf r"
    using list_update_here [of "?k @ [NUL] @ ?o" SEP "?l @ [NUL]" NUL] by (simp add: split_buf_def)
  have d1: "drop (length ?k + 1) (split_buf r) = ?o @ [NUL] @ ?l @ [NUL]"
    and d2: "drop (length ?k + 1 + length ?o + 1) (split_buf r) = ?l @ [NUL]"
    by (simp_all add: split_buf_def)
  have "strchr SEP (?l @ [NUL]) = None" by (rule strchr_none) simp_all
  moreover have "atol (?o @ [NUL] @ ?l @ [NUL]) = int (r_off r)" "atol (?l @ [NUL]) = int (r_len r)"
    by (simp_all add: atol_dec)
  ultimately show ?thesis
    using ok(3,4) unfolding db_splitidx_def
    by (simp only: bindM_def getM_def option.case sum.case prod.case s1 Let_def b1 s2 b2 d1 d2
        thenM_def updM_def checkM_def) simp
qed

lemma db_readidx_spec:
  assumes "idxfile db = a @ rrec r @ c" and "rec_ok r"
    and "offset = int (length a) \<and> offset \<noteq> 0 \<or> offset = 0 \<and> idxpos db = length a"
  shows "db_readidx offset db = Some (Inr (int (r_ptr r), after_read (length a) r db))"
proof -
  define p l where "p = ptr7 (r_ptr r)" and "l = pad IDXLEN_SZ (dec (length (body r)))"
  define db1 where "db1 = db\<lparr>idxpos := length a, idxoff := int (length a)\<rparr>"
  have len: "length p = 7" "length l = 4" "IDXLEN_MIN \<le> int (length (body r))"
      "int (length (body r)) \<le> IDXLEN_MAX"
    using assms(2) by (auto simp: rec_ok_def length_ptr7 length_asciilen p_def l_def)
  have num: "atol p = int (r_ptr r)" "atol l = int (length (body r))"
    using atol_pad_dec [of "[]" IDXLEN_SZ] by (simp_all add: atol_ptr7 p_def l_def)
  have contents: "idxfile db = a @ p @ l @ body r @ c"
    by (simp add: assms(1) rrec_def p_def l_def)
  have start: "thenM (if offset = 0 then retM () else idx_seek offset ''_db_readidx: lseek error'')
      (thenM (updM (\<lambda>db. db\<lparr>idxoff := int (idxpos db)\<rparr>)) g) db = g db1" for g :: "int dbm"
  proof (cases "offset = 0")
    case True
    then have "db\<lparr>idxpos := length a\<rparr> = db" using assms(3) by (metis db.surjective db.update_convs(3))
    then have "db1 = db\<lparr>idxoff := int (length a)\<rparr>" by (simp only: db1_def)
    then show ?thesis using True assms(3) by (simp add: dbm_simps)
  next
    case False
    then show ?thesis using assms(3) by (simp add: dbm_simps sys_defs db1_def)
  qed
  have buf: "butlast (body r) @ [NUL] = r_key r @ [SEP] @ dec (r_off r) @ [SEP] @ dec (r_len r) @ [NUL]"
    "last (body r) = NEWLINE"
    by (simp_all add: body_def butlast_append)
  show ?thesis
    unfolding db_readidx_def start
    by (simp add: db1_def dbm_simps sys_defs contents len num PTR_SZ_def IDXLEN_SZ_def Let_def buf(2)
        thenM_ok [OF db_splitidx_spec [OF _ assms(2)]] buf(1) [simplified] after_read_def
        length_rrec [OF assms(2)])
qed

lemma db_readptr_spec:
  assumes "idxfile db = a @ ptr7 v @ c" and "int v \<le> PTR_MAX"
  shows "db_readptr (int (length a)) db = Some (Inr (int v, db\<lparr>idxpos := length a + 7\<rparr>))"
  using length_ptr7 [OF assms(2)] atol_ptr7 [of v]
  by (simp add: db_readptr_def dbm_simps sys_defs assms(1) PTR_SZ_def)

lemma db_readdat_spec:
  assumes "datfile db = a @ d @ [NEWLINE] @ c" and "datoff db = int (length a)"
    and "datlen db = int (length d) + 1" and "NUL \<notin> set d"
  shows "db_readdat db = Some (Inr (d, db\<lparr>datpos := length a + length d + 1, datbuf := d @ [NUL]\<rparr>))"
  using cstr_append_NUL [OF assms(4)]
  by (simp add: db_readdat_def dbm_simps sys_defs assms(1-3) nat_add_distrib butlast_append)

section \<open>Writing\<close>

lemma db_writeptr_spec:
  assumes "idxfile db = a @ p @ c" and "length p = 7" and "int v \<le> PTR_MAX"
  shows "db_writeptr (int (length a)) (int v) db =
    Some (Inr ((), db\<lparr>idxfile := a @ ptr7 v @ c, idxpos := length a + 7\<rparr>))"
  using length_ptr7 [OF assms(3)] splice_middle [of p "ptr7 v" a c] assms
  by (simp add: db_writeptr_def dbm_simps sys_defs flip: ptr7_def)

text \<open>The record \<^verbatim>\<open>_db_writeidx\<close> writes.\<close>

definition new_rec :: "db \<Rightarrow> string \<Rightarrow> nat \<Rightarrow> arec" where
  "new_rec db key ptr = \<lparr>r_ptr = ptr, r_key = key, r_off = nat (datoff db), r_len = nat (datlen db)\<rparr>"

lemma db_writeidx_over_spec:
  assumes "idxfile db = a @ x @ c" and "r = new_rec db key ptr" and "rec_ok r"
    and "length x = length (rrec r)"
  shows "db_writeidx key (int (length a)) False (int ptr) db =
    Some (Inr ((), db\<lparr>idxfile := a @ rrec r @ c, idxpos := length a + length (rrec r),
      ptrval := int ptr, idxbuf := body r, idxoff := int (length a)\<rparr>))"
  using splice_middle [of x "rrec r" a c] assms
  by (simp add: db_writeidx_def dbm_simps sys_defs rec_ok_def new_rec_def
      rrec_def body_def ptr7_def)

lemma db_writeidx_end_spec:
  assumes "r = new_rec db key ptr" and "rec_ok r" and "\<forall>l \<in> set (locks db). lk_len l \<noteq> 0"
  shows "db_writeidx key off True (int ptr) db =
    Some (Inr ((), db\<lparr>idxfile := idxfile db @ rrec r, idxpos := length (idxfile db) + length (rrec r),
      ptrval := int ptr, idxbuf := body r, idxoff := int (length (idxfile db))\<rparr>))"
  using splice_end [of "idxfile db" "rrec r"] assms
  by (simp add: db_writeidx_def dbm_simps sys_defs rec_ok_def new_rec_def
      rrec_def body_def ptr7_def)

lemma db_writedat_over_spec:
  assumes "datfile db = a @ x @ c" and "length x = length d + 1"
  shows "db_writedat d (int (length a)) False db =
    Some (Inr ((), db\<lparr>datfile := a @ (d @ [NEWLINE]) @ c, datpos := length a + length d + 1,
      datoff := int (length a), datlen := int (length d) + 1\<rparr>))"
  using splice_middle [of x "d @ [NEWLINE]" a c] assms
  by (simp add: db_writedat_def dbm_simps sys_defs)

lemma db_writedat_end_spec:
  assumes "\<forall>l \<in> set (locks db). lk_len l \<noteq> 0"
  shows "db_writedat d off True db =
    Some (Inr ((), db\<lparr>datfile := datfile db @ d @ [NEWLINE], datpos := length (datfile db) + length d + 1,
      datoff := int (length (datfile db)), datlen := int (length d) + 1\<rparr>))"
  using splice_end [of "datfile db" "d @ [NEWLINE]"] assms
  by (simp add: db_writedat_def dbm_simps sys_defs)

section \<open>The index file as pointers and records\<close>

definition recs_len :: "arec list \<Rightarrow> nat" where
  "recs_len rs = length (concat (map rrec rs))"

lemma recs_len_simps [simp]:
  "recs_len [] = 0" "recs_len (r # rs) = length (rrec r) + recs_len rs"
  "recs_len (rs @ rs') = recs_len rs + recs_len rs'"
  by (simp_all add: recs_len_def)

text \<open>The records by their offsets; the first is at \<open>b\<close>.\<close>

fun recs_at :: "nat \<Rightarrow> arec list \<Rightarrow> nat \<Rightarrow> arec option" where
  "recs_at b [] = (\<lambda>_. None)"
| "recs_at b (r # rs) = (recs_at (b + length (rrec r)) rs)(b \<mapsto> r)"

lemma rrec_nonempty [simp]: "rrec r \<noteq> []" "0 < length (rrec r)"
  by (simp_all add: rrec_def body_def)

lemma recs_at_ge: "recs_at b rs off = Some r \<Longrightarrow> b \<le> off \<and> off < b + recs_len rs"
  by (induction rs arbitrary: b) (fastforce split: if_splits)+

lemma recs_at_split:
  "recs_at b rs off = Some r \<Longrightarrow> \<exists>as bs. rs = as @ r # bs \<and> off = b + recs_len as"
proof (induction rs arbitrary: b)
  case (Cons x rs)
  show ?case
  proof (cases "off = b")
    case True
    then show ?thesis using Cons.prems by (intro exI [of _ "[]"] exI [of _ rs]) simp
  next
    case False
    then obtain as bs where "rs = as @ r # bs" "off = b + length (rrec x) + recs_len as"
      using Cons by fastforce
    then show ?thesis by (intro exI [of _ "x # as"] exI [of _ bs]) simp
  qed
qed simp

lemma recs_at_fresh: "recs_at b rs (b + recs_len rs) = None"
  using recs_at_ge [of b rs "b + recs_len rs"] by (cases "recs_at b rs (b + recs_len rs)") auto

lemma recs_at_snoc: "recs_at b (rs @ [r]) = (recs_at b rs)(b + recs_len rs \<mapsto> r)"
proof (induction rs arbitrary: b)
  case (Cons x rs)
  then show ?case by (auto simp: fun_upd_twist add.assoc)
qed simp

lemma recs_at_update:
  assumes "length (rrec r') = length (rrec r)"
  shows "recs_at b (as @ r' # bs) = (recs_at b (as @ r # bs))(b + recs_len as \<mapsto> r')"
  using assms by (induction as arbitrary: b) (auto simp: fun_upd_twist add.assoc)

definition ptrs :: "nat list \<Rightarrow> string" where
  "ptrs ps = concat (map ptr7 ps)"

text \<open>The 138 pointers at the start of the file: the first is the head of the free list, the others
  are the hash table.\<close>

definition render :: "nat list \<Rightarrow> arec list \<Rightarrow> string" where
  "render ps rs = ptrs ps @ [NEWLINE] @ concat (map rrec rs)"

definition REC_OFF :: nat where "REC_OFF = 967"

text \<open>The layout, with everything in its bounds.\<close>

definition irep :: "db \<Rightarrow> nat list \<Rightarrow> arec list \<Rightarrow> bool" where
  "irep db ps rs \<longleftrightarrow> idxfile db = render ps rs \<and> length ps = NHASH_DEF + 1 \<and>
     (\<forall>p \<in> set ps. int p \<le> PTR_MAX) \<and> (\<forall>r \<in> set rs. rec_ok r)"

lemma length_ptrs: "\<forall>p \<in> set ps. int p \<le> PTR_MAX \<Longrightarrow> length (ptrs ps) = 7 * length ps"
  by (induction ps) (auto simp: ptrs_def length_ptr7)

lemma ptrs_split:
  "i < length ps \<Longrightarrow> ptrs ps = ptrs (take i ps) @ ptr7 (ps ! i) @ ptrs (drop (Suc i) ps)"
  by (subst id_take_nth_drop [of i ps]) (simp_all add: ptrs_def)

lemma ptrs_update:
  "i < length ps \<Longrightarrow> ptrs (ps[i := v]) = ptrs (take i ps) @ ptr7 v @ ptrs (drop (Suc i) ps)"
  by (simp add: ptrs_def upd_conv_take_nth_drop)

lemma irep_header: "irep db ps rs \<Longrightarrow> length (ptrs ps @ [NEWLINE]) = REC_OFF"
  using length_ptrs [of ps] by (simp add: irep_def REC_OFF_def NHASH_DEF_def)

lemma irep_length: "irep db ps rs \<Longrightarrow> length (idxfile db) = REC_OFF + recs_len rs"
  using irep_header [of db ps rs] by (simp add: irep_def render_def recs_len_def)

lemma irep_cong: "irep db ps rs \<Longrightarrow> idxfile db' = idxfile db \<Longrightarrow> irep db' ps rs"
  by (simp add: irep_def)

text \<open>The file around the \<open>i\<close>-th pointer, and around the record at an offset.\<close>

lemma irep_ptr:
  assumes "irep db ps rs" and "i < length ps"
  obtains a c where "idxfile db = a @ ptr7 (ps ! i) @ c" and "length a = 7 * i"
    and "\<And>v. render (ps[i := v]) rs = a @ ptr7 v @ c"
proof (rule that)
  show "idxfile db = ptrs (take i ps) @ ptr7 (ps ! i) @ (ptrs (drop (Suc i) ps) @ [NEWLINE] @ concat (map rrec rs))"
    using assms ptrs_split [of i ps] by (simp add: irep_def render_def)
  show "length (ptrs (take i ps)) = 7 * i"
    using assms by (subst length_ptrs) (auto simp: irep_def dest: in_set_takeD)
  show "render (ps[i := v]) rs = ptrs (take i ps) @ ptr7 v @
      (ptrs (drop (Suc i) ps) @ [NEWLINE] @ concat (map rrec rs))" for v
    using assms(2) ptrs_update [of i ps] by (simp add: render_def)
qed

lemma irep_rec:
  assumes "irep db ps rs" and "recs_at REC_OFF rs off = Some r"
  obtains a as bs where "idxfile db = a @ rrec r @ concat (map rrec bs)" and "length a = off"
    and "rs = as @ r # bs" and "off = REC_OFF + recs_len as"
    and "\<And>r'. render ps (as @ r' # bs) = a @ rrec r' @ concat (map rrec bs)" and "rec_ok r"
proof -
  obtain as bs where rs: "rs = as @ r # bs" "off = REC_OFF + recs_len as"
    using recs_at_split [OF assms(2)] by blast
  show thesis
    using that [of "ptrs ps @ [NEWLINE] @ concat (map rrec as)" bs as] rs assms(1) irep_header [OF assms(1)]
    by (simp add: irep_def render_def recs_len_def)
qed

section \<open>The functions on such a file\<close>

lemma readptr_irep:
  assumes "irep db ps rs" and "i < length ps"
  shows "db_readptr (int (7 * i)) db = Some (Inr (int (ps ! i), db\<lparr>idxpos := 7 * i + 7\<rparr>))"
proof -
  obtain a c where "idxfile db = a @ ptr7 (ps ! i) @ c" and "length a = 7 * i"
    by (rule irep_ptr [OF assms])
  moreover have "int (ps ! i) \<le> PTR_MAX" using assms by (auto simp: irep_def)
  ultimately show ?thesis using db_readptr_spec by metis
qed

lemma readidx_irep:
  assumes "irep db ps rs" and "recs_at REC_OFF rs off = Some r"
  shows "db_readidx (int off) db = Some (Inr (int (r_ptr r), after_read off r db))"
proof -
  obtain a c where "idxfile db = a @ rrec r @ c" "length a = off" "rec_ok r"
    using irep_rec [OF assms] by metis
  moreover have "off \<noteq> 0" using recs_at_ge [OF assms(2)] by (simp add: REC_OFF_def)
  ultimately show ?thesis using db_readidx_spec by fastforce
qed

lemma writeptr_irep:
  assumes "irep db ps rs" and "i < length ps" and "int v \<le> PTR_MAX"
    and "db' = db\<lparr>idxfile := render (ps[i := v]) rs, idxpos := 7 * i + 7\<rparr>"
  shows "db_writeptr (int (7 * i)) (int v) db = Some (Inr ((), db')) \<and> irep db' (ps[i := v]) rs"
proof -
  obtain a c where f: "idxfile db = a @ ptr7 (ps ! i) @ c" "length a = 7 * i"
    "render (ps[i := v]) rs = a @ ptr7 v @ c"
    using irep_ptr [OF assms(1,2)] by metis
  have "int (ps ! i) \<le> PTR_MAX" using assms by (auto simp: irep_def)
  then have "db_writeptr (int (7 * i)) (int v) db = Some (Inr ((), db'))"
    using db_writeptr_spec [OF f(1) length_ptr7 assms(3)] f(2,3) assms(4) by simp
  moreover have "irep db' (ps[i := v]) rs"
    using assms by (auto simp: irep_def dest!: set_update_subset_insert [THEN subsetD])
  ultimately show ?thesis by blast
qed

lemma rec_ok_ptr: "rec_ok r \<Longrightarrow> int v \<le> PTR_MAX \<Longrightarrow> rec_ok (r\<lparr>r_ptr := v\<rparr>)"
  by (simp add: rec_ok_def body_def)

lemma writeptr_rec_irep:
  assumes "irep db ps rs" and "recs_at REC_OFF rs off = Some r" and "int v \<le> PTR_MAX"
  obtains rs' where "db_writeptr (int off) (int v) db =
      Some (Inr ((), db\<lparr>idxfile := render ps rs', idxpos := off + 7\<rparr>))"
    and "irep (db\<lparr>idxfile := render ps rs', idxpos := off + 7\<rparr>) ps rs'"
    and "recs_at REC_OFF rs' = (recs_at REC_OFF rs)(off \<mapsto> r\<lparr>r_ptr := v\<rparr>)" and "recs_len rs' = recs_len rs"
proof -
  obtain a as bs where f: "idxfile db = a @ rrec r @ concat (map rrec bs)" "length a = off"
      "rs = as @ r # bs" "off = REC_OFF + recs_len as" "rec_ok r"
    and ren: "render ps (as @ r' # bs) = a @ rrec r' @ concat (map rrec bs)" for r'
    using irep_rec [OF assms(1,2)] by metis
  let ?r = "r\<lparr>r_ptr := v\<rparr>" and ?t = "pad IDXLEN_SZ (dec (length (body r))) @ body r @ concat (map rrec bs)"
  have "idxfile db = a @ ptr7 (r_ptr r) @ ?t" using f(1) by (simp add: rrec_def)
  moreover have "length (ptr7 (r_ptr r)) = 7" using f(5) by (simp add: rec_ok_def length_ptr7)
  moreover have "a @ ptr7 v @ ?t = render ps (as @ ?r # bs)" unfolding ren by (simp add: rrec_def body_def)
  ultimately have "db_writeptr (int off) (int v) db =
      Some (Inr ((), db\<lparr>idxfile := render ps (as @ ?r # bs), idxpos := off + 7\<rparr>))"
    using db_writeptr_spec [of db a _ ?t v] assms(3) f(2) by simp
  moreover have "irep (db\<lparr>idxfile := render ps (as @ ?r # bs), idxpos := off + 7\<rparr>) ps (as @ ?r # bs)"
    using assms(1,3) f(3) rec_ok_ptr [OF f(5)] by (auto simp: irep_def)
  moreover have len: "length (rrec ?r) = length (rrec r)"
    using length_rrec [OF f(5)] length_rrec [OF rec_ok_ptr [OF f(5) assms(3)]] by (simp add: body_def)
  then have "recs_at REC_OFF (as @ ?r # bs) = (recs_at REC_OFF rs)(off \<mapsto> ?r)"
    using recs_at_update [of ?r r REC_OFF as bs] f(3,4) by (metis (no_types))
  moreover have "recs_len (as @ ?r # bs) = recs_len rs" using f(3) len by simp
  ultimately show thesis by (intro that)
qed

lemma writeidx_irep:
  assumes "irep db ps rs" and "recs_at REC_OFF rs off = Some r" and "r' = new_rec db key ptr"
    and "rec_ok r'" and "length (body r') = length (body r)"
  obtains rs' where "db_writeidx key (int off) False (int ptr) db =
      Some (Inr ((), db\<lparr>idxfile := render ps rs', idxpos := off + length (rrec r'),
        ptrval := int ptr, idxbuf := body r', idxoff := int off\<rparr>))"
    and "irep (db\<lparr>idxfile := render ps rs'\<rparr>) ps rs'"
    and "recs_at REC_OFF rs' = (recs_at REC_OFF rs)(off \<mapsto> r')" and "recs_len rs' = recs_len rs"
proof -
  obtain a as bs where f: "idxfile db = a @ rrec r @ concat (map rrec bs)" "length a = off"
      "rs = as @ r # bs" "off = REC_OFF + recs_len as" "rec_ok r"
    and ren: "render ps (as @ r' # bs) = a @ rrec r' @ concat (map rrec bs)" for r'
    using irep_rec [OF assms(1,2)] by metis
  have len: "length (rrec r') = length (rrec r)"
    using length_rrec [OF f(5)] length_rrec [OF assms(4)] assms(5) by simp
  have "db_writeidx key (int off) False (int ptr) db =
      Some (Inr ((), db\<lparr>idxfile := render ps (as @ r' # bs), idxpos := off + length (rrec r'),
        ptrval := int ptr, idxbuf := body r', idxoff := int off\<rparr>))"
    using db_writeidx_over_spec [OF f(1) assms(3,4) len [symmetric]] f(2) ren by simp
  moreover have "irep (db\<lparr>idxfile := render ps (as @ r' # bs)\<rparr>) ps (as @ r' # bs)"
    using assms(1,4) f(3) by (auto simp: irep_def)
  moreover have "recs_at REC_OFF (as @ r' # bs) = (recs_at REC_OFF rs)(off \<mapsto> r')"
    using recs_at_update [OF len] f(3,4) by simp
  moreover have "recs_len (as @ r' # bs) = recs_len rs" using f(3) len by simp
  ultimately show thesis by (rule that)
qed

lemma writeidx_end_irep:
  assumes "irep db ps rs" and "r' = new_rec db key ptr" and "rec_ok r'"
    and "\<forall>l \<in> set (locks db). lk_len l \<noteq> 0" and "off' = REC_OFF + recs_len rs"
    and "db' = db\<lparr>idxfile := render ps (rs @ [r']), idxpos := off' + length (rrec r'),
        ptrval := int ptr, idxbuf := body r', idxoff := int off'\<rparr>"
  shows "db_writeidx key off True (int ptr) db = Some (Inr ((), db')) \<and> irep db' ps (rs @ [r']) \<and>
    recs_at REC_OFF (rs @ [r']) = (recs_at REC_OFF rs)(off' \<mapsto> r')"
  using db_writeidx_end_spec [OF assms(2-4), of off] irep_length [OF assms(1)] assms
  by (auto simp: irep_def render_def recs_at_snoc)

end
