(* ===== verification/Db_Chains.thy ===== *)
theory Db_Chains
  imports Db_Layout
begin

text \<open>
  The chains of the index file. A state is described by the 138 pointers \<open>ps\<close>, the records \<open>m\<close> by their
  offsets, and the chains \<open>ch\<close>: \<open>ch 0\<close> is the free list and \<open>ch (h + 1)\<close> the chain of hash value \<open>h\<close>.
  Unlinking a record and linking it in at the front keep the invariant of the chains; the map
  that the database stands for changes accordingly.
\<close>

section \<open>Chains\<close>

fun rchain :: "(nat \<Rightarrow> arec option) \<Rightarrow> nat \<Rightarrow> nat list \<Rightarrow> bool" where
  "rchain m p [] \<longleftrightarrow> p = 0"
| "rchain m p (x # xs) \<longleftrightarrow> p = x \<and> x \<noteq> 0 \<and> (case m x of None \<Rightarrow> False | Some r \<Rightarrow> rchain m (r_ptr r) xs)"

lemma rchain_upd [simp]: "x \<notin> set xs \<Longrightarrow> rchain (m(x \<mapsto> r)) p xs = rchain m p xs"
  by (induction xs arbitrary: p) (auto split: option.splits)

lemma rchain_dom: "rchain m p xs \<Longrightarrow> x \<in> set xs \<Longrightarrow> m x \<noteq> None \<and> x \<noteq> 0"
  by (induction xs arbitrary: p) (auto split: option.splits)

lemma rchain_tail: "rchain m p (as @ x # bs) \<Longrightarrow> m x = Some r \<Longrightarrow> rchain m (r_ptr r) bs"
  by (induction as arbitrary: p) (auto split: option.splits)

lemma rchain_skip:
  assumes "rchain m p (as @ y # x # bs)" and "m y = Some s" and "m x = Some r"
    and "distinct (as @ y # x # bs)"
  shows "rchain (m(y \<mapsto> s\<lparr>r_ptr := r_ptr r\<rparr>)) p (as @ y # bs)"
  using assms
proof (induction as arbitrary: p)
  case Nil
  then show ?case by (simp del: fun_upd_apply add: fun_upd_same)
next
  case (Cons a as)
  then show ?case by (auto split: option.splits)
qed

definition blank :: "string \<Rightarrow> bool" where
  "blank k \<longleftrightarrow> (\<forall>c \<in> set k. c = SPACE)"

definition key_of :: "(nat \<Rightarrow> arec option) \<Rightarrow> nat \<Rightarrow> string" where
  "key_of m x = r_key (the (m x))"

text \<open>Which keys belong on which chain.\<close>

definition key_fits :: "nat \<Rightarrow> string \<Rightarrow> bool" where
  "key_fits i k \<longleftrightarrow> (if i = 0 then blank k else \<not> blank k \<and> i = Suc (db_hash NHASH_DEF k))"

text \<open>The invariant; the records in \<open>E\<close> are on no chain.\<close>

definition ch_ok :: "nat list \<Rightarrow> (nat \<Rightarrow> arec option) \<Rightarrow> (nat \<Rightarrow> nat list) \<Rightarrow> nat set \<Rightarrow> bool" where
  "ch_ok ps m ch E \<longleftrightarrow>
     (\<forall>i < length ps. rchain m (ps ! i) (ch i) \<and> distinct (ch i) \<and>
        (\<forall>x \<in> set (ch i). key_fits i (key_of m x)) \<and> (i \<noteq> 0 \<longrightarrow> distinct (map (key_of m) (ch i)))) \<and>
     (\<forall>i < length ps. \<forall>j < length ps. \<forall>x \<in> set (ch i). x \<in> set (ch j) \<longrightarrow> i = j) \<and>
     (\<forall>i < length ps. \<forall>x \<in> set (ch i). x \<notin> E) \<and> E \<subseteq> dom m \<and>
     (\<forall>x \<in> dom m. x \<notin> E \<longrightarrow> (\<exists>i < length ps. x \<in> set (ch i)))"

lemma ch_okD:
  assumes "ch_ok ps m ch E" and "i < length ps"
  shows "rchain m (ps ! i) (ch i)" and "distinct (ch i)"
    and "\<And>x. x \<in> set (ch i) \<Longrightarrow> key_fits i (key_of m x)"
    and "i \<noteq> 0 \<Longrightarrow> distinct (map (key_of m) (ch i))"
    and "\<And>j x. j < length ps \<Longrightarrow> x \<in> set (ch i) \<Longrightarrow> x \<in> set (ch j) \<Longrightarrow> i = j"
    and "\<And>x. x \<in> set (ch i) \<Longrightarrow> x \<notin> E"
  using assms unfolding ch_ok_def by blast+

lemma ch_ok_cover:
  assumes "ch_ok ps m ch E" and "x \<in> dom m" and "x \<notin> E"
  shows "\<exists>i < length ps. x \<in> set (ch i)"
proof -
  have "\<forall>x \<in> dom m. x \<notin> E \<longrightarrow> (\<exists>i < length ps. x \<in> set (ch i))"
    using assms(1) by (simp add: ch_ok_def)
  then show ?thesis using assms(2,3) by metis
qed

lemma ch_okI:
  assumes "\<And>i. i < length ps \<Longrightarrow> rchain m (ps ! i) (ch i)"
    and "\<And>i. i < length ps \<Longrightarrow> distinct (ch i)"
    and "\<And>i x. i < length ps \<Longrightarrow> x \<in> set (ch i) \<Longrightarrow> key_fits i (key_of m x)"
    and "\<And>i. i < length ps \<Longrightarrow> i \<noteq> 0 \<Longrightarrow> distinct (map (key_of m) (ch i))"
    and "\<And>i j x. i < length ps \<Longrightarrow> j < length ps \<Longrightarrow> x \<in> set (ch i) \<Longrightarrow> x \<in> set (ch j) \<Longrightarrow> i = j"
    and "\<And>i x. i < length ps \<Longrightarrow> x \<in> set (ch i) \<Longrightarrow> x \<notin> E" and "E \<subseteq> dom m"
    and "\<And>x. x \<in> dom m \<Longrightarrow> x \<notin> E \<Longrightarrow> \<exists>i < length ps. x \<in> set (ch i)"
  shows "ch_ok ps m ch E"
  unfolding ch_ok_def using assms by blast

text \<open>The pointer to the record behind the prefix \<open>as\<close> of a chain is set to \<open>v\<close>.\<close>

definition set_ps :: "nat list \<Rightarrow> nat \<Rightarrow> nat list \<Rightarrow> nat \<Rightarrow> nat list" where
  "set_ps ps i as v = (if as = [] then ps[i := v] else ps)"

definition set_m :: "(nat \<Rightarrow> arec option) \<Rightarrow> nat list \<Rightarrow> nat \<Rightarrow> nat \<Rightarrow> arec option" where
  "set_m m as v = (if as = [] then m else m(last as \<mapsto> (the (m (last as)))\<lparr>r_ptr := v\<rparr>))"

lemma set_m_key [simp]: "key_of (set_m m as v) = key_of m"
  by (rule ext) (simp add: set_m_def key_of_def)

lemma dom_set_m: "as = [] \<or> m (last as) \<noteq> None \<Longrightarrow> dom (set_m m as v) = dom m"
  by (auto simp: set_m_def)

lemma length_set_ps [simp]: "length (set_ps ps i as v) = length ps"
  by (simp add: set_ps_def)

lemma rchain_set_m: "as = [] \<or> last as \<notin> set xs \<Longrightarrow> rchain (set_m m as v) p xs = rchain m p xs"
  by (auto simp: set_m_def)

lemma rchain_unlink:
  assumes "rchain m (ps ! i) (as @ x # bs)" and "m x = Some r" and "distinct (as @ x # bs)"
    and "i < length ps"
  shows "rchain (set_m m as (r_ptr r)) (set_ps ps i as (r_ptr r) ! i) (as @ bs)"
proof (cases as rule: rev_cases)
  case Nil
  then show ?thesis using assms by (simp add: set_m_def set_ps_def)
next
  case (snoc as' y)
  then obtain s where "m y = Some s" using rchain_dom [OF assms(1), of y] by auto
  then show ?thesis
    using rchain_skip [of m "ps ! i" as' y x bs s r] assms snoc by (simp add: set_m_def set_ps_def)
qed

lemma unlink_ok:
  assumes "ch_ok ps m ch E" and "i < length ps" and "ch i = as @ x # bs" and "m x = Some r"
  shows "ch_ok (set_ps ps i as (r_ptr r)) (set_m m as (r_ptr r)) (ch(i := as @ bs)) (insert x E)"
proof -
  note c = ch_okD [OF assms(1)]
  let ?m = "set_m m as (r_ptr r)" and ?ps = "set_ps ps i as (r_ptr r)"
  have last: "as = [] \<or> last as \<in> set (ch i)" unfolding assms(3) by (cases as rule: rev_cases) auto
  have dm: "dom ?m = dom m"
    using last rchain_dom [OF c(1) [OF assms(2)]] by (intro dom_set_m) auto
  have "rchain ?m (?ps ! i) (as @ bs)"
    using c(1,2) [OF assms(2)] assms(2-4) by (intro rchain_unlink) auto
  moreover have "rchain ?m (?ps ! j) (ch j)" if "j < length ps" "j \<noteq> i" for j
  proof -
    have "as = [] \<or> last as \<notin> set (ch j)" using last c(5) [OF assms(2)] that by blast
    then show ?thesis using c(1) [OF that(1)] that by (simp add: rchain_set_m set_ps_def)
  qed
  moreover have "distinct (as @ x # bs)" "x \<in> dom m"
    using c(2) [OF assms(2)] assms(3,4) by auto
  moreover have "distinct (map (key_of m) (as @ bs))" if "i \<noteq> 0"
    using c(4) [OF assms(2) that] assms(3) by auto
  moreover have "x \<notin> set (ch j)" if "j < length ps" "j \<noteq> i" for j
    using c(5) [OF assms(2) that(1), of x] assms(3) that by auto
  moreover have "\<exists>j < length ps. y \<in> set ((ch(i := as @ bs)) j)" if y: "y \<in> dom m" "y \<notin> insert x E" for y
  proof -
    obtain j where "j < length ps" "y \<in> set (ch j)" using ch_ok_cover [OF assms(1) y(1)] y(2) by auto
    moreover have "y \<in> set ((ch(i := as @ bs)) j)"
      using \<open>y \<in> set (ch j)\<close> assms(3) y(2) by (cases "j = i") simp_all
    ultimately show ?thesis by blast
  qed
  moreover have "E \<subseteq> dom m" using assms(1) by (simp add: ch_ok_def)
  ultimately show ?thesis
    using c assms(2,3) dm
    apply (intro ch_okI)
    subgoal by simp
    subgoal by simp
    subgoal for j y using c(3) [of j y] c(3) [of i y] by (auto split: if_splits)
    subgoal by simp
    subgoal for j k y using c(5) [of j k y] c(5) [of i k y] c(5) [of j i y] by (auto split: if_splits)
    subgoal for j y using c(6) [of j y] c(6) [of i y] by (auto split: if_splits)
    by simp_all
qed

text \<open>Linking in a record that is on no chain, at the front.\<close>

lemma link_ok:
  assumes "ch_ok ps m ch E" and "i < length ps" and "\<forall>j < length ps. x \<notin> set (ch j)" and "x \<noteq> 0"
    and "r_ptr r = ps ! i" and "key_fits i (r_key r)"
    and "i \<noteq> 0 \<Longrightarrow> r_key r \<notin> key_of m ` set (ch i)"
  shows "ch_ok (ps[i := x]) (m(x \<mapsto> r)) (ch(i := x # ch i)) (E - {x})"
proof -
  note c = ch_okD [OF assms(1)]
  have key: "key_of (m(x \<mapsto> r)) y = (if y = x then r_key r else key_of m y)" for y
    by (simp add: key_of_def)
  have maps: "map (key_of (m(x \<mapsto> r))) (ch j) = map (key_of m) (ch j)" if "j < length ps" for j
    using assms(3) that by (auto simp: key)
  show ?thesis
  proof (intro ch_okI)
    fix j assume j: "j < length (ps[i := x])"
    show "rchain (m(x \<mapsto> r)) (ps[i := x] ! j) ((ch(i := x # ch i)) j)"
      using c(1) [of j] c(1) [of i] assms(2-5) j by (cases "j = i") simp_all
    show "distinct ((ch(i := x # ch i)) j)" using c(2) [of j] assms(2,3) j by auto
    show "distinct (map (key_of (m(x \<mapsto> r))) ((ch(i := x # ch i)) j))" if "j \<noteq> 0"
      using c(4) [of j] assms(2,3,7) j that by (cases "j = i") (auto simp: key maps)
    fix y assume y: "y \<in> set ((ch(i := x # ch i)) j)"
    show "key_fits j (key_of (m(x \<mapsto> r)) y)"
      using c(3) [of j y] assms(3,6) j y by (auto simp: key split: if_splits)
    show "y \<notin> E - {x}" using c(6) [of j y] j y by (auto split: if_splits)
    fix k assume "k < length (ps[i := x])" "y \<in> set ((ch(i := x # ch i)) k)"
    then show "j = k" using c(5) [of j k y] assms(2,3) j y by (auto split: if_splits)
  next
    show "E - {x} \<subseteq> dom (m(x \<mapsto> r))" using assms(1) by (auto simp: ch_ok_def)
  next
    fix y assume "y \<in> dom (m(x \<mapsto> r))" "y \<notin> E - {x}"
    then have "y = x \<or> (\<exists>j < length ps. y \<in> set (ch j))"
      using ch_ok_cover [OF assms(1), of y] by auto
    then show "\<exists>j < length (ps[i := x]). y \<in> set ((ch(i := x # ch i)) j)"
      using assms(2) by auto
  qed
qed

end
