(* ===== verification/Db_Data.thy ===== *)
theory Db_Data
  imports Db_Chains
begin

text \<open>
  The data file. Every index record names a region of it that ends with a newline; the regions do not
  overlap. The contents of a database are the pairs of a key that is not blank and the text of
  its region.
\<close>

section \<open>Regions\<close>

definition data_at :: "string \<Rightarrow> arec \<Rightarrow> string" where
  "data_at D r = take (r_len r - 1) (drop (r_off r) D)"

definition region_ok :: "string \<Rightarrow> arec \<Rightarrow> bool" where
  "region_ok D r \<longleftrightarrow> (\<exists>a d c. D = a @ d @ NEWLINE # c \<and> r_off r = length a \<and> r_len r = length d + 1 \<and>
     NUL \<notin> set d)"

definition apart :: "arec \<Rightarrow> arec \<Rightarrow> bool" where
  "apart r s \<longleftrightarrow> r_off r + r_len r \<le> r_off s \<or> r_off s + r_len s \<le> r_off r"

definition dat_ok :: "string \<Rightarrow> (nat \<Rightarrow> arec option) \<Rightarrow> bool" where
  "dat_ok D m \<longleftrightarrow> (\<forall>x r. m x = Some r \<longrightarrow> region_ok D r) \<and>
     (\<forall>x y r s. m x = Some r \<longrightarrow> m y = Some s \<longrightarrow> x \<noteq> y \<longrightarrow> apart r s)"

lemma region_okI:
  "D = a @ d @ NEWLINE # c \<Longrightarrow> r_off r = length a \<Longrightarrow> r_len r = length d + 1 \<Longrightarrow> NUL \<notin> set d \<Longrightarrow>
    region_ok D r"
  unfolding region_ok_def by blast

lemma region_okE:
  assumes "region_ok D r"
  obtains a d c where "D = a @ d @ NEWLINE # c" "r_off r = length a" "r_len r = length d + 1"
    "NUL \<notin> set d" "data_at D r = d"
  using assms unfolding region_ok_def data_at_def by force

lemma apart_sym: "apart r s \<Longrightarrow> apart s r"
  by (auto simp: apart_def)

lemma dat_okD:
  assumes "dat_ok D m" and "m x = Some r"
  shows "region_ok D r" and "\<And>y s. m y = Some s \<Longrightarrow> x \<noteq> y \<Longrightarrow> apart r s"
  using assms unfolding dat_ok_def by blast+

lemma dat_okI:
  "(\<And>x r. m x = Some r \<Longrightarrow> region_ok D r) \<Longrightarrow>
   (\<And>x y r s. m x = Some r \<Longrightarrow> m y = Some s \<Longrightarrow> x \<noteq> y \<Longrightarrow> apart r s) \<Longrightarrow> dat_ok D m"
  unfolding dat_ok_def by blast

text \<open>Only the offsets and the lengths of the records matter.\<close>

definition span :: "arec \<Rightarrow> nat \<times> nat" where
  "span r = (r_off r, r_len r)"

lemma span_cong:
  "span r = span r' \<Longrightarrow> data_at D r = data_at D r'" "span r = span r' \<Longrightarrow> region_ok D r = region_ok D r'"
  "span r = span r' \<Longrightarrow> apart r s = apart r' s"
  by (simp_all add: span_def data_at_def region_ok_def apart_def)

lemma span_ptr [simp]: "span (r\<lparr>r_ptr := v\<rparr>) = span r"
  by (simp add: span_def)

lemma dat_ok_upd:
  assumes "dat_ok D m" and "m x = Some r" and "span r' = span r"
  shows "dat_ok D (m(x \<mapsto> r'))"
proof (rule dat_okI)
  fix y s assume "(m(x \<mapsto> r')) y = Some s"
  then show "region_ok D s"
    using dat_okD(1) [OF assms(1)] assms(2) span_cong(2) [OF assms(3)] by (cases "y = x") auto
next
  fix y z s t assume "(m(x \<mapsto> r')) y = Some s" "(m(x \<mapsto> r')) z = Some t" "y \<noteq> z"
  then show "apart s t"
    using dat_okD(2) [OF assms(1)] assms(2) span_cong(3) [OF assms(3)]
    by (cases "y = x"; cases "z = x") (auto dest: apart_sym intro: apart_sym)
qed

section \<open>Writing a region\<close>

lemma data_at_other:
  assumes "apart r s" and "length a = r_off r" and "length x = r_len r" and "length y = r_len r"
  shows "take (r_len s) (drop (r_off s) (a @ y @ c)) = take (r_len s) (drop (r_off s) (a @ x @ c))"
proof (cases "r_off r + r_len r \<le> r_off s")
  case True
  then show ?thesis using assms(2-4) by simp
next
  case False
  then have "r_off s + r_len s \<le> length a" using assms(1,2) by (simp add: apart_def)
  then show ?thesis by simp
qed

lemma region_take:
  "region_ok D r \<longleftrightarrow> 0 < r_len r \<and> r_off r + r_len r \<le> length D \<and>
     (let t = take (r_len r) (drop (r_off r) D) in last t = NEWLINE \<and> NUL \<notin> set (butlast t))"
proof
  assume "region_ok D r"
  then obtain a d c where "D = a @ d @ NEWLINE # c" "r_off r = length a" "r_len r = length d + 1"
    "NUL \<notin> set d" by (auto simp: region_ok_def)
  then show "0 < r_len r \<and> r_off r + r_len r \<le> length D \<and>
     (let t = take (r_len r) (drop (r_off r) D) in last t = NEWLINE \<and> NUL \<notin> set (butlast t))"
    by (simp add: butlast_append)
next
  let ?t = "take (r_len r) (drop (r_off r) D)"
  assume A: "0 < r_len r \<and> r_off r + r_len r \<le> length D \<and>
     (let t = take (r_len r) (drop (r_off r) D) in last t = NEWLINE \<and> NUL \<notin> set (butlast t))"
  then have "?t \<noteq> []" by auto
  then have t: "?t = butlast ?t @ [NEWLINE]" using A by (metis append_butlast_last_id)
  have "D = take (r_off r) D @ ?t @ drop (r_len r) (drop (r_off r) D)" by (metis append_take_drop_id)
  then have "D = take (r_off r) D @ butlast ?t @ NEWLINE # drop (r_len r) (drop (r_off r) D)"
    by (subst (asm) t) simp
  then show "region_ok D r" by (rule region_okI) (use A in \<open>auto simp: Let_def min_def\<close>)
qed

lemma data_at_take: "data_at D r = butlast (take (r_len r) (drop (r_off r) D))" if "region_ok D r"
  using that by (auto simp: data_at_def butlast_take region_ok_def)

lemma write_region:
  assumes "dat_ok D m" and "m x = Some r" and "D = a @ e @ c" and "length a = r_off r"
    and "length e = r_len r" and "length d + 1 = r_len r" and "NUL \<notin> set d"
    and "D' = a @ (d @ [NEWLINE]) @ c"
  shows "dat_ok D' m" and "data_at D' r = d"
    and "\<And>y s. m y = Some s \<Longrightarrow> y \<noteq> x \<Longrightarrow> data_at D' s = data_at D s"
proof -
  have other: "take (r_len s) (drop (r_off s) D') = take (r_len s) (drop (r_off s) D)"
    if "m y = Some s" "y \<noteq> x" for y s
    unfolding assms(3,8)
    by (rule data_at_other [OF dat_okD(2) [OF assms(1,2) that(1)] assms(4,5)])
      (use that(2) assms(6) in simp_all)
  have here: "region_ok D' r" "data_at D' r = d"
    using assms(4,6,7,8) region_okI [of D' a d c r] by (simp_all add: data_at_def flip: assms(4,6))
  have len: "length D' = length D" using assms(3,5,6,8) by simp
  have there: "region_ok D' s" if "m y = Some s" "y \<noteq> x" for y s
    using dat_okD(1) [OF assms(1) that(1)] other [OF that] len unfolding region_take by simp
  show "dat_ok D' m"
  proof (rule dat_okI)
    show "region_ok D' s" if "m y = Some s" for y s
      using here(1) there [OF that] assms(2) that by (cases "y = x") auto
  qed (rule dat_okD(2) [OF assms(1)])
  show "data_at D' r = d" by (rule here)
  show "data_at D' s = data_at D s" if "m y = Some s" "y \<noteq> x" for y s
    using other [OF that] there [OF that] dat_okD(1) [OF assms(1) that(1)] by (simp add: data_at_take)
qed

lemma append_region:
  assumes "dat_ok D m" and "m x = None" and "r_off r = length D" and "r_len r = length d + 1"
    and "NUL \<notin> set d" and "D' = D @ d @ [NEWLINE]"
  shows "dat_ok D' (m(x \<mapsto> r))" and "data_at D' r = d"
    and "\<And>y s. m y = Some s \<Longrightarrow> data_at D' s = data_at D s"
proof -
  have here: "region_ok D' r" "data_at D' r = d"
    using assms(3-6) region_okI [of D' D d "[]" r] by (simp_all add: data_at_def)
  have bound: "r_off s + r_len s \<le> length D" if "m y = Some s" for y s
    using dat_okD(1) [OF assms(1) that] by (simp add: region_take)
  have other: "take (r_len s) (drop (r_off s) D') = take (r_len s) (drop (r_off s) D)"
    if "m y = Some s" for y s
    using bound [OF that] by (simp add: assms(6))
  have there: "region_ok D' s" if "m y = Some s" for y s
    using dat_okD(1) [OF assms(1) that] other [OF that] assms(6) unfolding region_take by simp
  have new: "apart r s" if "m y = Some s" for y s
    using bound [OF that] assms(3) by (simp add: apart_def)
  show "dat_ok D' (m(x \<mapsto> r))"
  proof (rule dat_okI)
    fix y s assume "(m(x \<mapsto> r)) y = Some s"
    then show "region_ok D' s" using here(1) there by (cases "y = x") auto
  next
    fix y z s t assume "(m(x \<mapsto> r)) y = Some s" "(m(x \<mapsto> r)) z = Some t" "y \<noteq> z"
    then show "apart s t"
      using new dat_okD(2) [OF assms(1)] by (cases "y = x"; cases "z = x") (auto intro: apart_sym)
  qed
  show "data_at D' r = d" by (rule here)
  show "data_at D' s = data_at D s" if "m y = Some s" for y s
    using other [OF that] there [OF that] dat_okD(1) [OF assms(1) that] by (simp add: data_at_take)
qed

section \<open>The contents\<close>

definition kd :: "string \<Rightarrow> (nat \<Rightarrow> arec option) \<Rightarrow> nat \<Rightarrow> (string \<times> string) option" where
  "kd D m x = map_option (\<lambda>r. (r_key r, data_at D r)) (m x)"

definition represents :: "string \<Rightarrow> (nat \<Rightarrow> arec option) \<Rightarrow> (string \<Rightarrow> string option) \<Rightarrow> bool" where
  "represents D m M \<longleftrightarrow> (\<forall>k d. M k = Some d \<longleftrightarrow> \<not> blank k \<and> (\<exists>x. kd D m x = Some (k, d)))"

lemma representsD:
  "represents D m M \<Longrightarrow> kd D m x = Some (k, d) \<Longrightarrow> \<not> blank k \<Longrightarrow> M k = Some d"
  by (auto simp: represents_def)

text \<open>One record changes: its key was \<open>k\<close> or blank, or it is new; its key becomes \<open>k\<close> or blank.\<close>

lemma represents_upd:
  assumes "represents D m M" and "\<And>y. y \<noteq> x \<Longrightarrow> kd D' m' y = kd D m y" and "kd D' m' x = Some (k', d')"
    and "k' = k \<or> blank k'" and "\<And>y d. kd D m y = Some (k, d) \<Longrightarrow> y = x"
    and "\<And>l d. kd D m x = Some (l, d) \<Longrightarrow> l = k \<or> blank l" and "\<not> blank k"
  shows "represents D' m' (M(k := if k' = k then Some d' else None))"
  unfolding represents_def
proof (intro allI)
  fix l d
  show "(M(k := if k' = k then Some d' else None)) l = Some d \<longleftrightarrow> \<not> blank l \<and> (\<exists>y. kd D' m' y = Some (l, d))"
  proof (cases "l = k")
    case True
    have "(\<exists>y. kd D' m' y = Some (k, d)) \<longleftrightarrow> kd D' m' x = Some (k, d)"
      using assms(2,5) by metis
    then show ?thesis using True assms(3,7) by auto
  next
    case False
    then have "\<not> blank l \<Longrightarrow> kd D' m' x \<noteq> Some (l, d) \<and> kd D m x \<noteq> Some (l, d)"
      using assms(3,4,6) by auto
    then have "\<not> blank l \<Longrightarrow> (\<exists>y. kd D' m' y = Some (l, d)) \<longleftrightarrow> (\<exists>y. kd D m y = Some (l, d))"
      using assms(2) by metis
    then show ?thesis using False assms(1) by (auto simp: represents_def)
  qed
qed

text \<open>The pointers of the records do not matter.\<close>

definition info :: "(nat \<Rightarrow> arec option) \<Rightarrow> nat \<Rightarrow> (string \<times> nat \<times> nat) option" where
  "info m x = map_option (\<lambda>r. (r_key r, span r)) (m x)"

lemma info_set_m: "as = [] \<or> m (last as) \<noteq> None \<Longrightarrow> info (set_m m as v) = info m"
  by (rule ext) (auto simp: info_def set_m_def)

lemma info_SomeD: "info m = info m' \<Longrightarrow> m x = Some r \<Longrightarrow> \<exists>r'. m' x = Some r' \<and> r_key r' = r_key r \<and> span r' = span r"
  by (drule fun_cong [of _ _ x], cases "m' x") (auto simp: info_def)

lemma kd_info: "info m = info m' \<Longrightarrow> kd D m = kd D m'"
proof (rule ext)
  fix x assume "info m = info m'"
  then have "info m x = info m' x" by simp
  then show "kd D m x = kd D m' x"
    by (cases "m x"; cases "m' x") (auto simp: info_def kd_def dest: span_cong(1))
qed

lemma dat_ok_info:
  assumes "info m' = info m" and "dat_ok D m"
  shows "dat_ok D m'"
proof (rule dat_okI)
  fix x r assume x: "m' x = Some r"
  then obtain r0 where r0: "m x = Some r0" "span r0 = span r" using info_SomeD [OF assms(1)] by blast
  show "region_ok D r" using dat_okD(1) [OF assms(2) r0(1)] span_cong(2) [OF r0(2)] by simp
  fix y s assume "m' y = Some s" "x \<noteq> y"
  then obtain s0 where s0: "m y = Some s0" "span s0 = span s" using info_SomeD [OF assms(1)] by blast
  have "apart r0 s0" using dat_okD(2) [OF assms(2) r0(1) s0(1)] \<open>x \<noteq> y\<close> by simp
  then show "apart r s" using span_cong(3) [OF r0(2)] span_cong(3) [OF s0(2)] apart_sym by blast
qed

lemma ch_ok_unique:
  assumes "ch_ok ps m ch {}" and "m x = Some r" and "m y = Some s" and "r_key r = r_key s" and "\<not> blank (r_key r)"
  shows "x = y"
proof -
  obtain i where i: "i < length ps" "x \<in> set (ch i)" using ch_ok_cover [OF assms(1), of x] assms(2) by auto
  obtain j where j: "j < length ps" "y \<in> set (ch j)" using ch_ok_cover [OF assms(1), of y] assms(3) by auto
  have k: "key_of m x = r_key r" "key_of m y = r_key r" using assms(2-4) by (simp_all add: key_of_def)
  then have "i = j" "i \<noteq> 0"
    using ch_okD(3) [OF assms(1) i] ch_okD(3) [OF assms(1) j] assms(5) by (auto simp: key_fits_def split: if_splits)
  then have "inj_on (key_of m) (set (ch i))"
    using ch_okD(4) [OF assms(1) i(1)] by (simp add: distinct_map)
  then show ?thesis using i(2) j(2) k \<open>i = j\<close> by (metis inj_onD)
qed

end
