(* ===== verification/Db_Search.thy ===== *)
theory Db_Search
  imports Db_Data
begin

text \<open>
  The searches along the chains: they end, and they find the record with the key, or the first free
  record of the right size, if there is one. What they change is only the part of the
  structure that caches the current record.
\<close>

section \<open>What a search may change\<close>

definition core :: "db \<Rightarrow> db" where
  "core db = db\<lparr>idxpos := 0, datpos := 0, idxbuf := [], datbuf := [], idxoff := 0, idxlen := 0,
     datoff := 0, datlen := 0, ptrval := 0, ptroff := 0\<rparr>"

lemma core_upd [simp]:
  "core (db\<lparr>idxpos := p\<rparr>) = core db" "core (db\<lparr>datpos := p\<rparr>) = core db"
  "core (db\<lparr>idxbuf := s\<rparr>) = core db" "core (db\<lparr>datbuf := s\<rparr>) = core db"
  "core (db\<lparr>idxoff := n\<rparr>) = core db" "core (db\<lparr>idxlen := n\<rparr>) = core db"
  "core (db\<lparr>datoff := n\<rparr>) = core db" "core (db\<lparr>datlen := n\<rparr>) = core db"
  "core (db\<lparr>ptrval := n\<rparr>) = core db" "core (db\<lparr>ptroff := n\<rparr>) = core db"
  by (simp_all add: core_def)

lemma core_after_read [simp]: "core (after_read x r db) = core db"
  by (simp add: after_read_def)

lemma core_eqD:
  assumes "core db' = core db"
  shows "idxfile db' = idxfile db" "datfile db' = datfile db" "chainoff db' = chainoff db"
    "hashoff db' = hashoff db" "nhash db' = nhash db" "locks db' = locks db"
proof -
  have *: "idxfile (core d) = idxfile d" "datfile (core d) = datfile d" "chainoff (core d) = chainoff d"
    "hashoff (core d) = hashoff d" "nhash (core d) = nhash d" "locks (core d) = locks d" for d
    by (simp_all add: core_def)
  show "idxfile db' = idxfile db" "datfile db' = datfile db" "chainoff db' = chainoff db"
    "hashoff db' = hashoff db" "nhash db' = nhash db" "locks db' = locks db"
    by (metis * assms)+
qed

lemma irep_core: "irep db ps rs \<Longrightarrow> core db' = core db \<Longrightarrow> irep db' ps rs"
  using irep_cong core_eqD(1) by blast

lemma after_read_sel [simp]:
  "idxfile (after_read x r db) = idxfile db" "datfile (after_read x r db) = datfile db"
  "chainoff (after_read x r db) = chainoff db" "locks (after_read x r db) = locks db"
  "hashoff (after_read x r db) = hashoff db" "nhash (after_read x r db) = nhash db"
  "idxoff (after_read x r db) = int x" "datoff (after_read x r db) = int (r_off r)"
  "datlen (after_read x r db) = int (r_len r)" "ptrval (after_read x r db) = int (r_ptr r)"
  "ptroff (after_read x r db) = ptroff db" "idxbuf (after_read x r db) = split_buf r"
  by (simp_all add: after_read_def)

lemma irep_rec_ok: "irep db ps rs \<Longrightarrow> recs_at REC_OFF rs x = Some r \<Longrightarrow> rec_ok r"
  by (metis irep_rec)

section \<open>The loops\<close>

lemma find_loop_none:
  assumes "irep db ps rs" and "rchain (recs_at REC_OFF rs) p xs"
    and "k \<notin> key_of (recs_at REC_OFF rs) ` set xs"
  shows "\<exists>db'. find_loop k (int p) db = Some (Inr (0, db')) \<and> core db' = core db"
  using assms
proof (induction xs arbitrary: p db)
  case Nil
  then show ?case by (subst find_loop.simps) simp
next
  case (Cons x xs)
  then obtain r where r: "recs_at REC_OFF rs x = Some r" "p = x" "x \<noteq> 0"
    "rchain (recs_at REC_OFF rs) (r_ptr r) xs" by (auto split: option.splits)
  let ?db = "(after_read x r db)\<lparr>ptroff := int x\<rparr>"
  have "irep ?db ps rs" using Cons.prems(1) by (rule irep_core) simp
  then obtain db' where "find_loop k (int (r_ptr r)) ?db = Some (Inr (0, db'))" "core db' = core ?db"
    using Cons.IH r(4) Cons.prems(3) by (metis image_insert insertCI list.set(2))
  moreover have "cstr (split_buf r) \<noteq> k"
    using Cons.prems(3) r(1) cstr_split_buf [OF irep_rec_ok [OF Cons.prems(1) r(1)]]
    by (auto simp: key_of_def)
  ultimately show ?case
    using r readidx_irep [OF Cons.prems(1) r(1)] by (subst find_loop.simps) simp
qed

definition pred_off :: "int \<Rightarrow> nat list \<Rightarrow> int" where
  "pred_off first as = (if as = [] then first else int (last as))"

lemma find_loop_found:
  assumes "irep db ps rs" and "rchain (recs_at REC_OFF rs) p (as @ x # bs)"
    and "k \<notin> key_of (recs_at REC_OFF rs) ` set as" and "recs_at REC_OFF rs x = Some r" and "r_key r = k"
  shows "\<exists>db'. find_loop k (int p) db =
      Some (Inr (int x, after_read x r (db'\<lparr>ptroff := pred_off (ptroff db) as\<rparr>))) \<and> core db' = core db"
  using assms
proof (induction as arbitrary: p db)
  case Nil
  have "cstr (split_buf r) = k"
    using cstr_split_buf [OF irep_rec_ok [OF Nil.prems(1,4)]] Nil.prems(5) by simp
  moreover have "db\<lparr>ptroff := ptroff db\<rparr> = db" by simp
  ultimately show ?case
    using Nil.prems readidx_irep [OF Nil.prems(1,4)]
    by (subst find_loop.simps) (auto simp: pred_off_def intro!: exI [of _ db])
next
  case (Cons y as)
  then obtain s where s: "recs_at REC_OFF rs y = Some s" "p = y" "y \<noteq> 0"
    "rchain (recs_at REC_OFF rs) (r_ptr s) (as @ x # bs)" by (auto split: option.splits)
  let ?db = "(after_read y s db)\<lparr>ptroff := int y\<rparr>"
  have "irep ?db ps rs" using Cons.prems(1) by (rule irep_core) simp
  then obtain db' where "find_loop k (int (r_ptr s)) ?db =
      Some (Inr (int x, after_read x r (db'\<lparr>ptroff := pred_off (int y) as\<rparr>)))" "core db' = core ?db"
    using Cons.IH [OF _ s(4) _ Cons.prems(4,5), of ?db] Cons.prems(3) by auto
  moreover have "cstr (split_buf s) \<noteq> k"
    using Cons.prems(3) s(1) cstr_split_buf [OF irep_rec_ok [OF Cons.prems(1) s(1)]]
    by (auto simp: key_of_def)
  ultimately show ?case
    using s readidx_irep [OF Cons.prems(1) s(1)] by (subst find_loop.simps) (auto simp: pred_off_def)
qed

definition fits :: "nat \<Rightarrow> int \<Rightarrow> (nat \<Rightarrow> arec option) \<Rightarrow> nat \<Rightarrow> bool" where
  "fits keylen dlen m x \<longleftrightarrow> length (key_of m x) = keylen \<and> int (r_len (the (m x))) = dlen"

lemma free_loop_none:
  assumes "irep db ps rs" and "rchain (recs_at REC_OFF rs) p xs"
    and "\<forall>x \<in> set xs. \<not> fits kl dl (recs_at REC_OFF rs) x"
  shows "\<exists>db' save'. free_loop kl dl (int p) save db = Some (Inr ((0, save'), db')) \<and> core db' = core db"
  using assms
proof (induction xs arbitrary: p db save)
  case Nil
  then show ?case by (subst free_loop.simps) simp
next
  case (Cons x xs)
  then obtain r where r: "recs_at REC_OFF rs x = Some r" "p = x" "x \<noteq> 0"
    "rchain (recs_at REC_OFF rs) (r_ptr r) xs" by (auto split: option.splits)
  have "irep (after_read x r db) ps rs" using Cons.prems(1) by (rule irep_core) simp
  then obtain db' save' where "free_loop kl dl (int (r_ptr r)) (int x) (after_read x r db) =
      Some (Inr ((0, save'), db'))" "core db' = core (after_read x r db)"
    using Cons.IH r(4) Cons.prems(3) by (metis insertCI list.set(2))
  moreover have "\<not> (length (cstr (split_buf r)) = kl \<and> int (r_len r) = dl)"
    using Cons.prems(3) r(1) cstr_split_buf [OF irep_rec_ok [OF Cons.prems(1) r(1)]]
    by (simp add: fits_def key_of_def)
  ultimately show ?case
    using r readidx_irep [OF Cons.prems(1) r(1)] by (subst free_loop.simps) auto
qed

lemma free_loop_found:
  assumes "irep db ps rs" and "rchain (recs_at REC_OFF rs) p (as @ x # bs)"
    and "\<forall>y \<in> set as. \<not> fits kl dl (recs_at REC_OFF rs) y" and "recs_at REC_OFF rs x = Some r"
    and "fits kl dl (recs_at REC_OFF rs) x"
  shows "\<exists>db'. free_loop kl dl (int p) save db =
      Some (Inr ((int x, pred_off save as), after_read x r db')) \<and> core db' = core db"
  using assms
proof (induction as arbitrary: p db save)
  case Nil
  have "length (cstr (split_buf r)) = kl \<and> int (r_len r) = dl"
    using cstr_split_buf [OF irep_rec_ok [OF Nil.prems(1,4)]] Nil.prems(4,5) by (simp add: fits_def key_of_def)
  then show ?case
    using Nil.prems readidx_irep [OF Nil.prems(1,4)]
    by (subst free_loop.simps) (auto simp: pred_off_def intro!: exI [of _ db])
next
  case (Cons y as)
  then obtain s where s: "recs_at REC_OFF rs y = Some s" "p = y" "y \<noteq> 0"
    "rchain (recs_at REC_OFF rs) (r_ptr s) (as @ x # bs)" by (auto split: option.splits)
  have "irep (after_read y s db) ps rs" using Cons.prems(1) by (rule irep_core) simp
  then obtain db' where "free_loop kl dl (int (r_ptr s)) (int y) (after_read y s db) =
      Some (Inr ((int x, pred_off (int y) as), after_read x r db'))" "core db' = core (after_read y s db)"
    using Cons.IH [OF _ s(4) _ Cons.prems(4,5), of "after_read y s db" "int y"] Cons.prems(3) by auto
  moreover have "\<not> (length (cstr (split_buf s)) = kl \<and> int (r_len s) = dl)"
    using Cons.prems(3) s(1) cstr_split_buf [OF irep_rec_ok [OF Cons.prems(1) s(1)]]
    by (simp add: fits_def key_of_def)
  ultimately show ?case
    using s readidx_irep [OF Cons.prems(1) s(1)] by (subst free_loop.simps) (auto simp: pred_off_def)
qed

end
