(* ===== verification/Db_Ops.thy ===== *)
theory Db_Ops
  imports Db_Search
begin

text \<open>
  The functions of the database library on a database that is in order: what they return, what
  they leave in the two files, and that they give up every lock they take.
\<close>

section \<open>A database in order\<close>

text \<open>The parts of the structure besides the files and the cached record.\<close>

definition meta :: "db \<Rightarrow> db" where
  "meta db = (core db)\<lparr>idxfile := [], datfile := []\<rparr>"

lemma meta_upd [simp]:
  "meta (db\<lparr>idxpos := p\<rparr>) = meta db" "meta (db\<lparr>datpos := p\<rparr>) = meta db"
  "meta (db\<lparr>idxbuf := s\<rparr>) = meta db" "meta (db\<lparr>datbuf := s\<rparr>) = meta db"
  "meta (db\<lparr>idxoff := n\<rparr>) = meta db" "meta (db\<lparr>idxlen := n\<rparr>) = meta db"
  "meta (db\<lparr>datoff := n\<rparr>) = meta db" "meta (db\<lparr>datlen := n\<rparr>) = meta db"
  "meta (db\<lparr>ptrval := n\<rparr>) = meta db" "meta (db\<lparr>ptroff := n\<rparr>) = meta db"
  "meta (db\<lparr>idxfile := s\<rparr>) = meta db" "meta (db\<lparr>datfile := s\<rparr>) = meta db"
  "meta (after_read x r db) = meta db"
  by (simp_all add: meta_def) (simp_all add: core_def)

lemma meta_core: "core db' = core db \<Longrightarrow> meta db' = meta db"
  by (simp add: meta_def)

lemma meta_eqD:
  assumes "meta db' = meta db"
  shows "chainoff db' = chainoff db" "hashoff db' = hashoff db" "nhash db' = nhash db" "locks db' = locks db"
proof -
  have *: "chainoff (meta d) = chainoff d" "hashoff (meta d) = hashoff d" "nhash (meta d) = nhash d"
    "locks (meta d) = locks d" for d by (simp_all add: meta_def core_def)
  show "chainoff db' = chainoff db" "hashoff db' = hashoff db" "nhash db' = nhash db" "locks db' = locks db"
    by (metis * assms)+
qed

lemma meta_locks: "meta db' = meta (db\<lparr>locks := l\<rparr>) \<Longrightarrow> meta (db'\<lparr>locks := locks db\<rparr>) = meta db"
  by (cases db; cases db') (simp add: meta_def core_def)

text \<open>The two files hold the records \<open>rs\<close>, on the chains \<open>ch\<close>, the records in \<open>E\<close> on none, and stand for \<open>M\<close>.\<close>

definition good :: "db \<Rightarrow> nat list \<Rightarrow> arec list \<Rightarrow> (nat \<Rightarrow> nat list) \<Rightarrow> nat set \<Rightarrow> (string \<Rightarrow> string option) \<Rightarrow> bool" where
  "good db ps rs ch E M \<longleftrightarrow> irep db ps rs \<and> ch_ok ps (recs_at REC_OFF rs) ch E \<and>
     dat_ok (datfile db) (recs_at REC_OFF rs) \<and> represents (datfile db) (recs_at REC_OFF rs) M"

lemma goodD:
  assumes "good db ps rs ch E M"
  shows "irep db ps rs" "ch_ok ps (recs_at REC_OFF rs) ch E" "dat_ok (datfile db) (recs_at REC_OFF rs)"
    "represents (datfile db) (recs_at REC_OFF rs) M" "length ps = NHASH_DEF + 1"
  using assms by (simp_all add: good_def irep_def)

lemma good_core: "good db ps rs ch E M \<Longrightarrow> core db' = core db \<Longrightarrow> good db' ps rs ch E M"
  using irep_core core_eqD(2) unfolding good_def by metis

definition hash_ix :: "string \<Rightarrow> nat" where
  "hash_ix k = Suc (db_hash NHASH_DEF k)"

lemma hash_ix: "hash_ix k \<noteq> 0" "hash_ix k < NHASH_DEF + 1"
  by (simp_all add: hash_ix_def db_hash_def NHASH_DEF_def)

lemma rchain_bound:
  assumes "irep db ps rs" and "rchain (recs_at REC_OFF rs) p xs" and "int p \<le> PTR_MAX" and "x \<in> set xs"
  shows "int x \<le> PTR_MAX"
  using assms(2-4)
proof (induction xs arbitrary: p)
  case (Cons y ys)
  then obtain r where r: "recs_at REC_OFF rs y = Some r" "p = y" "rchain (recs_at REC_OFF rs) (r_ptr r) ys"
    by (auto split: option.splits)
  have "int (r_ptr r) \<le> PTR_MAX" using irep_rec_ok [OF assms(1) r(1)] by (simp add: rec_ok_def)
  then show ?case using Cons r by auto
qed simp

text \<open>Whether a key is in the database is decided by its hash chain.\<close>

lemma good_present:
  assumes "good db ps rs ch {} M" and "x \<in> set (ch (hash_ix k))" and "recs_at REC_OFF rs x = Some r" and "r_key r = k"
  shows "M k = Some (data_at (datfile db) r)" and "\<not> blank k"
proof -
  have "key_fits (hash_ix k) k"
    using ch_okD(3) [OF goodD(2) [OF assms(1)] _ assms(2)] hash_ix [of k] goodD(5) [OF assms(1)] assms(3,4)
    by (simp add: key_of_def)
  then show nb: "\<not> blank k" by (simp add: key_fits_def hash_ix split: if_splits)
  show "M k = Some (data_at (datfile db) r)"
    by (rule representsD [OF goodD(4) [OF assms(1)] _ nb, of x]) (use assms(3,4) in \<open>simp add: kd_def\<close>)
qed

lemma good_absent:
  assumes "good db ps rs ch {} M" and "k \<notin> key_of (recs_at REC_OFF rs) ` set (ch (hash_ix k))"
  shows "M k = None" and "\<And>x r. recs_at REC_OFF rs x = Some r \<Longrightarrow> \<not> blank k \<Longrightarrow> r_key r \<noteq> k"
proof -
  show *: "r_key r \<noteq> k" if x: "recs_at REC_OFF rs x = Some r" "\<not> blank k" for x r
  proof
    assume k: "r_key r = k"
    obtain i where i: "i < length ps" "x \<in> set (ch i)"
      using ch_ok_cover [OF goodD(2) [OF assms(1)], of x] x by auto
    then have "key_fits i k" using ch_okD(3) [OF goodD(2) [OF assms(1)] i] x k by (simp add: key_of_def)
    then have "i = hash_ix k" using x(2) by (simp add: key_fits_def hash_ix_def split: if_splits)
    then show False using assms(2) i(2) x(1) k by (force simp: key_of_def)
  qed
  have "M k \<noteq> Some d" for d
  proof
    assume "M k = Some d"
    then obtain x where "\<not> blank k" "kd (datfile db) (recs_at REC_OFF rs) x = Some (k, d)"
      using goodD(4) [OF assms(1)] by (auto simp: represents_def)
    then show False using * by (auto simp: kd_def)
  qed
  then show "M k = None" by (cases "M k") auto
qed

section \<open>Finding a record\<close>

definition locked :: "string \<Rightarrow> bool \<Rightarrow> db \<Rightarrow> db" where
  "locked k w db = db\<lparr>chainoff := int (7 * hash_ix k),
     locks := Lk True (int (7 * hash_ix k)) 1 w # locks db\<rparr>"

lemma find_and_lock_start:
  assumes "irep db ps rs" and "nhash db = NHASH_DEF" and "hashoff db = HASH_OFF"
  shows "db_find_and_lock k w db =
    bindM (find_loop k (int (ps ! hash_ix k))) (\<lambda>found. retM (if found = 0 then -1 else 0))
      ((locked k w db)\<lparr>ptroff := int (7 * hash_ix k), idxpos := 7 * hash_ix k + 7\<rparr>)"
proof -
  let ?db = "(locked k w db)\<lparr>ptroff := int (7 * hash_ix k)\<rparr>"
  have "irep ?db ps rs" by (rule irep_cong [OF assms(1)]) (simp add: locked_def)
  then have "db_readptr (int (7 * hash_ix k)) ?db =
      Some (Inr (int (ps ! hash_ix k), ?db\<lparr>idxpos := 7 * hash_ix k + 7\<rparr>))"
    using hash_ix [of k] assms(1) by (intro readptr_irep) (auto simp: irep_def)
  moreover have "int (db_hash (nhash db) k * PTR_SZ) + hashoff db = int (7 * hash_ix k)"
    by (simp add: assms hash_ix_def PTR_SZ_def HASH_OFF_def)
  moreover have swap: "(d\<lparr>ptroff := p, locks := l\<rparr>) = d\<lparr>locks := l, ptroff := p\<rparr>" for d :: db and p l
    by simp
  ultimately show ?thesis
    unfolding db_find_and_lock_def
    by (simp add: dbm_simps lockM_def locked_def bindM_ok swap)
qed

lemma find_and_lock_none:
  assumes "good db ps rs ch {} M" and "nhash db = NHASH_DEF" and "hashoff db = HASH_OFF"
    and "k \<notin> key_of (recs_at REC_OFF rs) ` set (ch (hash_ix k))"
  shows "\<exists>db'. db_find_and_lock k w db = Some (Inr (-1, db')) \<and> core db' = core (locked k w db)"
proof -
  let ?db = "(locked k w db)\<lparr>ptroff := int (7 * hash_ix k), idxpos := 7 * hash_ix k + 7\<rparr>"
  have i: "irep ?db ps rs" by (rule irep_cong [OF goodD(1) [OF assms(1)]]) (simp add: locked_def)
  have "rchain (recs_at REC_OFF rs) (ps ! hash_ix k) (ch (hash_ix k))"
    using ch_okD(1) [OF goodD(2) [OF assms(1)]] hash_ix(2) [of k] goodD(5) [OF assms(1)] by simp
  then obtain db' where "find_loop k (int (ps ! hash_ix k)) ?db = Some (Inr (0, db'))" "core db' = core ?db"
    using find_loop_none [OF i _ assms(4)] by blast
  then show ?thesis
    using find_and_lock_start [OF goodD(1) [OF assms(1)] assms(2,3), of k w] by (simp add: bindM_ok dbm_simps)
qed

lemma find_and_lock_found:
  assumes "good db ps rs ch {} M" and "nhash db = NHASH_DEF" and "hashoff db = HASH_OFF"
    and "ch (hash_ix k) = as @ x # bs" and "recs_at REC_OFF rs x = Some r" and "r_key r = k"
  shows "\<exists>db'. db_find_and_lock k w db =
      Some (Inr (0, after_read x r (db'\<lparr>ptroff := pred_off (int (7 * hash_ix k)) as\<rparr>))) \<and>
    core db' = core (locked k w db)"
proof -
  let ?db = "(locked k w db)\<lparr>ptroff := int (7 * hash_ix k), idxpos := 7 * hash_ix k + 7\<rparr>"
  have i: "irep ?db ps rs" by (rule irep_cong [OF goodD(1) [OF assms(1)]]) (simp add: locked_def)
  have ix: "hash_ix k < length ps" using hash_ix(2) [of k] goodD(5) [OF assms(1)] by simp
  note c = ch_okD [OF goodD(2) [OF assms(1)] ix]
  have "rchain (recs_at REC_OFF rs) (ps ! hash_ix k) (as @ x # bs)" using c(1) assms(4) by simp
  moreover have "k \<notin> key_of (recs_at REC_OFF rs) ` set as"
    using c(4) [OF hash_ix(1)] assms(4-6) by (auto simp: key_of_def)
  moreover have "x \<noteq> 0" using rchain_dom [OF c(1), of x] assms(4) by simp
  ultimately show ?thesis
    using find_loop_found [OF i _ _ assms(5,6), of "ps ! hash_ix k" as bs]
      find_and_lock_start [OF goodD(1) [OF assms(1)] assms(2,3), of k w]
    by (auto simp: bindM_ok dbm_simps)
qed

section \<open>Deleting\<close>

lemma writeptr_pred:
  assumes "irep db ps rs" and "i < length ps" and "as = [] \<or> recs_at REC_OFF rs (last as) \<noteq> None"
    and "int v \<le> PTR_MAX"
  shows "\<exists>rs' db'. db_writeptr (pred_off (int (7 * i)) as) (int v) db = Some (Inr ((), db')) \<and>
    irep db' (set_ps ps i as v) rs' \<and> recs_at REC_OFF rs' = set_m (recs_at REC_OFF rs) as v \<and>
    recs_len rs' = recs_len rs \<and> db' = db\<lparr>idxfile := idxfile db', idxpos := idxpos db'\<rparr>"
proof (cases "as = []")
  case True
  then show ?thesis
    using writeptr_irep [OF assms(1,2,4) refl] by (auto simp: pred_off_def set_ps_def set_m_def)
next
  case False
  then obtain r where r: "recs_at REC_OFF rs (last as) = Some r" using assms(3) by auto
  obtain rs' where "db_writeptr (int (last as)) (int v) db =
      Some (Inr ((), db\<lparr>idxfile := render ps rs', idxpos := last as + 7\<rparr>))"
    "irep (db\<lparr>idxfile := render ps rs', idxpos := last as + 7\<rparr>) ps rs'"
    "recs_at REC_OFF rs' = (recs_at REC_OFF rs)(last as \<mapsto> r\<lparr>r_ptr := v\<rparr>)" "recs_len rs' = recs_len rs"
    by (rule writeptr_rec_irep [OF assms(1) r assms(4)])
  then show ?thesis using False r by (force simp: pred_off_def set_ps_def set_m_def)
qed

text \<open>The deleted record.\<close>

definition blank_rec :: "arec \<Rightarrow> nat \<Rightarrow> arec" where
  "blank_rec r p = r\<lparr>r_ptr := p, r_key := replicate (length (r_key r)) SPACE\<rparr>"

lemma blank_rec_facts:
  shows "r_ptr (blank_rec r p) = p" "blank (r_key (blank_rec r p))" "span (blank_rec r p) = span r"
    "length (body (blank_rec r p)) = length (body r)"
    "rec_ok r \<Longrightarrow> int p \<le> PTR_MAX \<Longrightarrow> rec_ok (blank_rec r p)"
  by (auto simp: blank_rec_def blank_def span_def body_def rec_ok_def char_defs SEP_def)

lemma NUL_SPACE [simp]: "NUL \<noteq> SPACE"
  by (simp add: char_defs)

text \<open>The part of \<^verbatim>\<open>_db_dodelete\<close> up to the update of the chain pointers.\<close>

lemma dodelete_start:
  assumes "irep db ps rs" and "recs_at REC_OFF rs x = Some r" and "dat_ok (datfile db) (recs_at REC_OFF rs)"
    and "0 < length ps"
  obtains a e c rs1 db1 where
    "db_dodelete (after_read x r db) =
       thenM (db_writeptr FREE_OFF (int x)) (bindM (getM ptroff) (\<lambda>poff.
         thenM (db_writeptr poff (int (r_ptr r))) (un_lock True FREE_OFF 1))) db1"
    and "datfile db = a @ e @ c" and "length a = r_off r" and "length e = r_len r"
    and "datfile db1 = a @ (replicate (r_len r - 1) SPACE @ [NEWLINE]) @ c"
    and "irep db1 ps rs1" and "recs_len rs1 = recs_len rs" and "recs_at REC_OFF rs1 = (recs_at REC_OFF rs)(x \<mapsto> blank_rec r (ps ! 0))"
    and "meta db1 = meta (db\<lparr>locks := Lk True FREE_OFF 1 True # locks db\<rparr>)" and "ptroff db1 = ptroff db"
proof -
  have ok: "rec_ok r" by (rule irep_rec_ok [OF assms(1,2)])
  obtain a d c where D: "datfile db = a @ d @ NEWLINE # c" "r_off r = length a" "r_len r = length d + 1"
    using dat_okD(1) [OF assms(3,2)] by (auto elim: region_okE)
  define bl where "bl = replicate (r_len r - 1) SPACE"
  define bk where "bk = replicate (length (r_key r)) SPACE"
  have cb: "cstr (bl @ [NUL]) = bl" unfolding bl_def by (rule cstr_append_NUL) (simp add: NUL_SPACE)
  have "split_buf r = r_key r @ NUL # dec (r_off r) @ [NUL] @ dec (r_len r) @ [NUL]" by (simp add: split_buf_def)
  then have ck: "cstr (bk @ drop (length (r_key r)) (split_buf r)) = bk"
    using cstr_append_NUL [of bk] by (simp add: bk_def NUL_SPACE)
  define d3 where "d3 = (after_read x r db)\<lparr>datbuf := bl @ [NUL],
    idxbuf := bk @ drop (length (r_key r)) (split_buf r), locks := Lk True FREE_OFF 1 True # locks db\<rparr>"
  define d4 where "d4 = d3\<lparr>datfile := a @ (bl @ [NEWLINE]) @ c, datpos := length a + length bl + 1,
      datoff := int (length a), datlen := int (length bl) + 1\<rparr>"
  have w: "db_writedat bl (int (r_off r)) False d3 = Some (Inr ((), d4))"
    using db_writedat_over_spec [of d3 a "d @ [NEWLINE]" c bl] D by (simp add: d3_def d4_def bl_def)
  have i4: "irep d4 ps rs" by (rule irep_cong [OF assms(1)]) (simp add: d3_def d4_def)
  define d5 where "d5 = d4\<lparr>idxpos := 7\<rparr>"
  have r5: "db_readptr FREE_OFF d4 = Some (Inr (int (ps ! 0), d5))"
    using readptr_irep [OF i4 assms(4)] by (simp add: FREE_OFF_def d5_def)
  have i5: "irep d5 ps rs" by (rule irep_cong [OF i4]) (simp add: d5_def)
  have b: "blank_rec r (ps ! 0) = new_rec d5 bk (ps ! 0)"
    using D by (simp add: blank_rec_def new_rec_def d5_def d4_def bk_def bl_def)
  have "int (ps ! 0) \<le> PTR_MAX" using assms(1,4) by (auto simp: irep_def)
  then obtain rs1 where rs1: "db_writeidx bk (int x) False (int (ps ! 0)) d5 =
      Some (Inr ((), d5\<lparr>idxfile := render ps rs1, idxpos := x + length (rrec (blank_rec r (ps ! 0))),
        ptrval := int (ps ! 0), idxbuf := body (blank_rec r (ps ! 0)), idxoff := int x\<rparr>))"
    "irep (d5\<lparr>idxfile := render ps rs1\<rparr>) ps rs1"
    "recs_at REC_OFF rs1 = (recs_at REC_OFF rs)(x \<mapsto> blank_rec r (ps ! 0))" "recs_len rs1 = recs_len rs"
    using writeidx_irep [OF i5 assms(2) b] blank_rec_facts(4,5) ok by metis
  define d6 where "d6 = d5\<lparr>idxfile := render ps rs1, idxpos := x + length (rrec (blank_rec r (ps ! 0))),
        ptrval := int (ps ! 0), idxbuf := body (blank_rec r (ps ! 0)), idxoff := int x\<rparr>"
  have sel: "cstr (datbuf d3) = bl" "datoff d3 = int (r_off r)" "ptrval d5 = int (r_ptr r)"
    "cstr (idxbuf d5) = bk" "idxoff d5 = int x" "idxoff d6 = int x"
    by (simp_all add: d3_def d4_def d5_def d6_def cb ck)
  have start: "thenM (updM (\<lambda>db. db\<lparr>datbuf := replicate (nat (datlen db) - 1) SPACE @ [NUL]\<rparr>))
     (thenM (updM (\<lambda>db. db\<lparr>idxbuf := replicate (length (cstr (idxbuf db))) SPACE @
                            drop (length (cstr (idxbuf db))) (idxbuf db)\<rparr>))
     (thenM (lockM (Lk True FREE_OFF 1 True)) f)) (after_read x r db) = f d3" for f :: "unit dbm"
    by (simp add: dbm_simps lockM_def d3_def bl_def bk_def cstr_split_buf [OF ok])
  have "db_dodelete (after_read x r db) =
       thenM (db_writeptr FREE_OFF (int x)) (bindM (getM ptroff) (\<lambda>poff.
         thenM (db_writeptr poff (int (r_ptr r))) (un_lock True FREE_OFF 1))) d6"
    unfolding db_dodelete_def start
    by (simp only: dbm_simps sel prod.case thenM_ok bindM_ok w r5 rs1(1) [folded d6_def])
  moreover have "datfile db = a @ (d @ [NEWLINE]) @ c" "length a = r_off r" "length (d @ [NEWLINE]) = r_len r"
    using D by simp_all
  moreover have "datfile d6 = a @ (replicate (r_len r - 1) SPACE @ [NEWLINE]) @ c"
    by (simp add: d6_def d5_def d4_def bl_def)
  moreover have "irep d6 ps rs1" by (rule irep_cong [OF rs1(2)]) (simp add: d6_def)
  moreover have "meta d6 = meta (db\<lparr>locks := Lk True FREE_OFF 1 True # locks db\<rparr>)" "ptroff d6 = ptroff db"
    by (simp_all add: d6_def d5_def d4_def d3_def after_read_def meta_def core_def)
  ultimately show thesis using rs1(3,4) by (intro that)
qed

lemma dodelete_ok:
  assumes "good db ps rs ch {} M" and "i = hash_ix k" and "ch i = as @ x # bs" and "recs_at REC_OFF rs x = Some r"
    and "r_key r = k" and "ptroff db = pred_off (int (7 * i)) as" and "locks db = [Lk True (int (7 * i)) 1 True]"
  obtains ps' rs' ch' db' where "db_dodelete (after_read x r db) = Some (Inr ((), db'))"
    and "good db' ps' rs' ch' {} (M(k := None))" and "meta db' = meta db" and "recs_len rs' = recs_len rs"
    and "length (datfile db') = length (datfile db)"
proof -
  let ?m = "recs_at REC_OFF rs"
  note g = goodD [OF assms(1)]
  have ix: "i < length ps" "i \<noteq> 0" "0 < length ps" using hash_ix [of k] g(5) assms(2) by auto
  note c = ch_okD [OF g(2) ix(1)]
  have nb: "\<not> blank k" using good_present(2) [OF assms(1), of x k r] assms(2-5) by simp
  have last: "as = [] \<or> last as \<noteq> x \<and> ?m (last as) \<noteq> None"
    using c(2) rchain_dom [OF c(1), of "last as"] assms(3) by (cases as rule: rev_cases) auto
  have bounds: "int x \<le> PTR_MAX" "int (r_ptr r) \<le> PTR_MAX" "x \<noteq> 0"
    using rchain_bound [OF g(1) c(1), of x] rchain_dom [OF c(1), of x] assms(3) g(1) ix(1)
      irep_rec_ok [OF g(1) assms(4)] by (auto simp: irep_def rec_ok_def)
  obtain a e z rs1 db1 where d: "db_dodelete (after_read x r db) =
       thenM (db_writeptr FREE_OFF (int x)) (bindM (getM ptroff) (\<lambda>poff.
         thenM (db_writeptr poff (int (r_ptr r))) (un_lock True FREE_OFF 1))) db1"
    "datfile db = a @ e @ z" "length a = r_off r" "length e = r_len r"
    "datfile db1 = a @ (replicate (r_len r - 1) SPACE @ [NEWLINE]) @ z"
    "irep db1 ps rs1" "recs_len rs1 = recs_len rs" "recs_at REC_OFF rs1 = ?m(x \<mapsto> blank_rec r (ps ! 0))"
    "meta db1 = meta (db\<lparr>locks := Lk True FREE_OFF 1 True # locks db\<rparr>)" "ptroff db1 = ptroff db"
    by (rule dodelete_start [OF g(1) assms(4) g(3) ix(3)])
  define db2 where "db2 = db1\<lparr>idxfile := render (ps[0 := x]) rs1, idxpos := 7 * 0 + 7\<rparr>"
  have w2: "db_writeptr FREE_OFF (int x) db1 = Some (Inr ((), db2))" "irep db2 (ps[0 := x]) rs1"
    using writeptr_irep [OF d(6) ix(3) bounds(1) db2_def] by (auto simp: FREE_OFF_def)
  have "as = [] \<or> recs_at REC_OFF rs1 (last as) \<noteq> None" using last d(8) by auto
  then obtain rs3 db3 where w3: "db_writeptr (pred_off (int (7 * i)) as) (int (r_ptr r)) db2 = Some (Inr ((), db3))"
    "irep db3 (set_ps (ps[0 := x]) i as (r_ptr r)) rs3"
    "recs_at REC_OFF rs3 = set_m (recs_at REC_OFF rs1) as (r_ptr r)" "recs_len rs3 = recs_len rs1"
    "db3 = db2\<lparr>idxfile := idxfile db3, idxpos := idxpos db3\<rparr>"
    using writeptr_pred [OF w2(2), of i as "r_ptr r"] ix bounds(2) by auto
  define db4 where "db4 = db3\<lparr>locks := locks db\<rparr>"
  have meta3: "meta db3 = meta db1" and dat3: "datfile db3 = datfile db1"
    by (subst w3(5), simp add: db2_def)+
  have "locks db3 = Lk True FREE_OFF 1 True # locks db"
    using meta_eqD(4) [OF meta3] meta_eqD(4) [OF d(9)] by simp
  then have "un_lock True FREE_OFF 1 db3 = Some (Inr ((), db4))"
    using assms(7) ix(2) by (simp add: un_lock_def updM_def db4_def FREE_OFF_def)
  moreover have "ptroff db2 = pred_off (int (7 * i)) as" using d(10) assms(6) by (simp add: db2_def)
  ultimately have run: "db_dodelete (after_read x r db) = Some (Inr ((), db4))"
    unfolding d(1) by (simp only: dbm_simps thenM_ok w2(1) w3(1))
  define ps' m' where "ps' = (set_ps ps i as (r_ptr r))[0 := x]" and
    "m' = (set_m ?m as (r_ptr r))(x \<mapsto> blank_rec r (ps ! 0))"
  have m': "recs_at REC_OFF rs3 = m'"
    using last unfolding w3(3) d(8) m'_def set_m_def by (auto simp: fun_upd_twist)
  have ps': "set_ps (ps[0 := x]) i as (r_ptr r) = ps'"
    using ix(2) by (simp add: ps'_def set_ps_def list_update_swap)
  have "ch_ok (set_ps ps i as (r_ptr r)) (set_m ?m as (r_ptr r)) (ch(i := as @ bs)) {x}"
    by (rule unlink_ok [OF g(2) ix(1) assms(3,4)])
  then have chain: "ch_ok ps' m' ((ch(i := as @ bs))(0 := x # (ch(i := as @ bs)) 0)) ({x} - {x})"
    unfolding ps'_def m'_def
  proof (rule link_ok)
    show "r_ptr (blank_rec r (ps ! 0)) = set_ps ps i as (r_ptr r) ! 0"
      using ix(2) by (simp add: blank_rec_facts set_ps_def)
    show "key_fits 0 (r_key (blank_rec r (ps ! 0)))" by (simp add: key_fits_def blank_rec_facts)
    show "\<forall>j < length (set_ps ps i as (r_ptr r)). x \<notin> set ((ch(i := as @ bs)) j)"
      using c(5) [of _ x] c(2) assms(3) by auto
  qed (use ix(3) bounds(3) in simp_all)
  note reg = write_region [OF g(3) assms(4) d(2-4), of "replicate (r_len r - 1) SPACE" "datfile db4"]
  have D: "datfile db4 = a @ (replicate (r_len r - 1) SPACE @ [NEWLINE]) @ z"
    using dat3 d(5) by (simp add: db4_def)
  have "0 < r_len r" using irep_rec_ok [OF g(1) assms(4)] by (simp add: rec_ok_def)
  then have wr: "dat_ok (datfile db4) ?m" "\<And>y s. ?m y = Some s \<Longrightarrow> y \<noteq> x \<Longrightarrow> data_at (datfile db4) s = data_at (datfile db) s"
    using reg D by auto
  have info: "info (set_m ?m as (r_ptr r)) = info ?m" by (rule info_set_m) (use last in blast)
  obtain r0 where r0: "set_m ?m as (r_ptr r) x = Some r0" "span r0 = span r"
    using info_SomeD [OF info [symmetric] assms(4)] by auto
  have "dat_ok (datfile db4) m'"
    unfolding m'_def
    by (rule dat_ok_upd [OF dat_ok_info [OF info wr(1)] r0(1)]) (simp add: blank_rec_facts r0(2))
  moreover have "represents (datfile db4) m' (M(k := if r_key (blank_rec r (ps ! 0)) = k then Some (data_at (datfile db4) (blank_rec r (ps ! 0))) else None))"
  proof (rule represents_upd [OF g(4)])
    show "kd (datfile db4) m' y = kd (datfile db) ?m y" if "y \<noteq> x" for y
    proof -
      have "kd (datfile db4) m' y = kd (datfile db4) (set_m ?m as (r_ptr r)) y"
        using that by (simp add: kd_def m'_def)
      also have "\<dots> = kd (datfile db4) ?m y" using kd_info [OF info] by simp
      finally show ?thesis using wr(2) that by (cases "?m y") (auto simp: kd_def)
    qed
    show "kd (datfile db4) m' x = Some (r_key (blank_rec r (ps ! 0)), data_at (datfile db4) (blank_rec r (ps ! 0)))"
      by (simp add: kd_def m'_def)
    show "y = x" if "kd (datfile db) ?m y = Some (k, d)" for y d
      using that ch_ok_unique [OF g(2) assms(4), of y] assms(5) nb by (auto simp: kd_def)
  qed (use nb assms(4,5) blank_rec_facts(2) in \<open>auto simp: kd_def\<close>)
  then have "represents (datfile db4) m' (M(k := None))"
    using nb blank_rec_facts(2) [of r "ps ! 0"] by (auto split: if_splits)
  ultimately have "good db4 ps' rs3 ((ch(i := as @ bs))(0 := x # (ch(i := as @ bs)) 0)) {} (M(k := None))"
    using w3(2) m' ps' chain by (simp add: good_def irep_def db4_def)
  moreover have "meta db4 = meta db"
    unfolding db4_def by (rule meta_locks) (use meta3 d(9) in simp)
  moreover have "length (datfile db4) = length (datfile db)"
    using D d(2-4) \<open>0 < r_len r\<close> by simp
  moreover have "recs_len rs3 = recs_len rs" using w3(4) d(7) by simp
  ultimately show thesis using run that by blast
qed

end
