(* ===== verification/Db_Store.thy ===== *)
theory Db_Store
  imports Db_Ops
begin

text \<open>
  Storing: appending a record to both files, taking a record from the free list, and overwriting it.
\<close>

definition key_ok :: "string \<Rightarrow> bool" where
  "key_ok k \<longleftrightarrow> NUL \<notin> set k \<and> SEP \<notin> set k \<and> \<not> blank k \<and> length k \<le> 1000"

definition data_ok :: "string \<Rightarrow> bool" where
  "data_ok d \<longleftrightarrow> NUL \<notin> set d \<and> d \<noteq> [] \<and> length d < 1024"

definition DAT_MAX :: nat where "DAT_MAX = 10 ^ 16"

lemma new_rec_ok:
  assumes "key_ok k" and "data_ok d" and "int p \<le> PTR_MAX" and "o' < DAT_MAX"
    and "r = \<lparr>r_ptr = p, r_key = k, r_off = o', r_len = length d + 1\<rparr>"
  shows "rec_ok r" and "length (rrec r) \<le> 1035"
proof -
  have "length (dec o') \<le> 16" "length (dec (length d + 1)) \<le> 4"
    using assms(2,4) by (simp_all add: length_dec data_ok_def DAT_MAX_def)
  moreover have "0 < length (dec o')" "0 < length (dec (length d + 1))" by simp_all
  moreover have "length (body r) = length k + length (dec o') + length (dec (length d + 1)) + 3"
    by (simp add: assms(5) body_def)
  moreover have "0 < length k" "length k \<le> 1000" using assms(1) by (auto simp: key_ok_def blank_def)
  ultimately have "6 \<le> length (body r) \<and> length (body r) \<le> 1024" by linarith
  then show ok: "rec_ok r"
    using assms by (simp add: rec_ok_def key_ok_def data_ok_def IDXLEN_MIN_def IDXLEN_MAX_def DATLEN_MAX_def)
  show "length (rrec r) \<le> 1035"
    using length_rrec [OF ok] \<open>6 \<le> length (body r) \<and> length (body r) \<le> 1024\<close> by simp
qed

lemma key_fits_hash: "key_ok k \<Longrightarrow> key_fits (hash_ix k) k"
  by (simp add: key_fits_def hash_ix_def key_ok_def)

text \<open>What \<^verbatim>\<open>db_store\<close> does to add a record at the end of the files.\<close>

definition append_new :: "string \<Rightarrow> string \<Rightarrow> int \<Rightarrow> int \<Rightarrow> unit dbm" where
  "append_new key data coff ptr =
     thenM (db_writedat data 0 True)
     (thenM (db_writeidx key 0 True ptr)
     (bindM (getM idxoff) (\<lambda>ioff. db_writeptr coff ioff)))"

lemma append_new_ok:
  assumes "good db ps rs ch {} M" and "i = hash_ix k" and "M k = None" and "key_ok k" and "data_ok d"
    and "\<forall>l \<in> set (locks db). lk_len l \<noteq> 0" and "int (length (idxfile db)) \<le> PTR_MAX"
    and "length (datfile db) < DAT_MAX"
  obtains ps' rs' ch' db' where "append_new k d (int (7 * i)) (int (ps ! i)) db = Some (Inr ((), db'))"
    and "good db' ps' rs' ch' {} (M(k \<mapsto> d))" and "meta db' = meta db"
    and "recs_len rs' \<le> recs_len rs + 1035" and "length (datfile db') = length (datfile db) + length d + 1"
proof -
  let ?m = "recs_at REC_OFF rs"
  note g = goodD [OF assms(1)]
  have ix: "i < length ps" "i \<noteq> 0" using hash_ix [of k] g(5) assms(2) by auto
  define d1 where "d1 = db\<lparr>datfile := datfile db @ d @ [NEWLINE], datpos := length (datfile db) + length d + 1,
      datoff := int (length (datfile db)), datlen := int (length d) + 1\<rparr>"
  have w1: "db_writedat d 0 True db = Some (Inr ((), d1))"
    unfolding d1_def by (rule db_writedat_end_spec [OF assms(6)])
  have i1: "irep d1 ps rs" by (rule irep_cong [OF g(1)]) (simp add: d1_def)
  define r where "r = new_rec d1 k (ps ! i)"
  have r: "r = \<lparr>r_ptr = ps ! i, r_key = k, r_off = length (datfile db), r_len = length d + 1\<rparr>"
    by (simp add: r_def new_rec_def d1_def)
  have "int (ps ! i) \<le> PTR_MAX" using g(1) ix by (auto simp: irep_def)
  note ok = new_rec_ok [OF assms(4,5) this assms(8) r]
  define x where "x = REC_OFF + recs_len rs"
  define d2 where "d2 = d1\<lparr>idxfile := render ps (rs @ [r]), idxpos := x + length (rrec r),
        ptrval := int (ps ! i), idxbuf := body r, idxoff := int x\<rparr>"
  have w2: "db_writeidx k 0 True (int (ps ! i)) d1 = Some (Inr ((), d2))" "irep d2 ps (rs @ [r])"
    "recs_at REC_OFF (rs @ [r]) = ?m(x \<mapsto> r)"
    using writeidx_end_irep [OF i1 r_def ok(1) _ x_def d2_def] assms(6) by (auto simp: d1_def)
  have xb: "int x \<le> PTR_MAX" using assms(7) irep_length [OF g(1)] by (simp add: x_def)
  define d3 where "d3 = d2\<lparr>idxfile := render (ps[i := x]) (rs @ [r]), idxpos := 7 * i + 7\<rparr>"
  have w3: "db_writeptr (int (7 * i)) (int x) d2 = Some (Inr ((), d3))" "irep d3 (ps[i := x]) (rs @ [r])"
    using writeptr_irep [OF w2(2) ix(1) xb d3_def] by auto
  have ioff: "idxoff d2 = int x" by (simp add: d2_def)
  have run: "append_new k d (int (7 * i)) (int (ps ! i)) db = Some (Inr ((), d3))"
    unfolding append_new_def by (simp only: dbm_simps thenM_ok w1 w2(1) ioff w3(1))
  have D: "datfile d3 = datfile db @ d @ [NEWLINE]" by (simp add: d3_def d2_def d1_def)
  have fresh: "?m x = None" unfolding x_def by (rule recs_at_fresh)
  have absent: "k \<notin> key_of ?m ` set (ch i)"
  proof
    assume "k \<in> key_of ?m ` set (ch i)"
    then obtain y where y: "y \<in> set (ch i)" "key_of ?m y = k" by auto
    then obtain s where "?m y = Some s" using rchain_dom [OF ch_okD(1) [OF g(2) ix(1)] y(1)] by auto
    then show False using good_present(1) [OF assms(1), of y k s] y assms(2,3) by (simp add: key_of_def)
  qed
  have "ch_ok (ps[i := x]) (?m(x \<mapsto> r)) (ch(i := x # ch i)) ({} - {x})"
  proof (rule link_ok [OF g(2) ix(1)])
    show "\<forall>j < length ps. x \<notin> set (ch j)"
      using rchain_dom [OF ch_okD(1) [OF g(2)], of _ x] fresh by blast
    show "x \<noteq> 0" by (simp add: x_def REC_OFF_def)
  qed (use r key_fits_hash assms(2,4) absent in simp_all)
  moreover have reg: "dat_ok (datfile d3) (?m(x \<mapsto> r))" "data_at (datfile d3) r = d"
    "\<And>y s. ?m y = Some s \<Longrightarrow> data_at (datfile d3) s = data_at (datfile db) s"
    using append_region [OF g(3) fresh _ _ _ D, of r] r assms(5) by (auto simp: data_ok_def)
  moreover have "represents (datfile d3) (?m(x \<mapsto> r)) (M(k := if r_key r = k then Some d else None))"
  proof (rule represents_upd [OF g(4)])
    show "kd (datfile d3) (?m(x \<mapsto> r)) y = kd (datfile db) ?m y" if "y \<noteq> x" for y
      using that reg(3) by (cases "?m y") (auto simp: kd_def)
    show "y = x" if "kd (datfile db) ?m y = Some (k, e)" for y e
      using that good_absent(2) [OF assms(1)] absent assms(2,4) by (auto simp: kd_def key_ok_def)
  qed (use reg(2) r fresh assms(4) in \<open>auto simp: kd_def key_ok_def\<close>)
  ultimately have "good d3 (ps[i := x]) (rs @ [r]) (ch(i := x # ch i)) {} (M(k \<mapsto> d))"
    using w3(2) w2(3) r by (simp add: good_def)
  moreover have "meta d3 = meta db" by (simp add: d3_def d2_def d1_def)
  ultimately show thesis using run that ok(2) D by fastforce
qed

section \<open>The free list\<close>

lemma FREE_OFF_nat: "FREE_OFF = int (7 * 0)"
  by (simp add: FREE_OFF_def)

lemma findfree_none:
  assumes "good db ps rs ch {} M" and "\<forall>l \<in> set (locks db). lk_off l \<noteq> FREE_OFF"
    and "\<forall>x \<in> set (ch 0). \<not> fits kl dl (recs_at REC_OFF rs) x"
  shows "\<exists>db'. db_findfree kl dl db = Some (Inr (-1, db')) \<and> core db' = core db"
proof -
  note g = goodD [OF assms(1)]
  have ix: "0 < length ps" using g(5) by simp
  define d1 where "d1 = db\<lparr>locks := Lk True FREE_OFF 1 True # locks db\<rparr>"
  have i1: "irep d1 ps rs" by (rule irep_cong [OF g(1)]) (simp add: d1_def)
  have r1: "db_readptr FREE_OFF d1 = Some (Inr (int (ps ! 0), d1\<lparr>idxpos := 7\<rparr>))"
    using readptr_irep [OF i1 ix] by (simp add: FREE_OFF_def)
  have "irep (d1\<lparr>idxpos := 7\<rparr>) ps rs" by (rule irep_cong [OF i1]) simp
  then obtain db' save where f: "free_loop kl dl (int (ps ! 0)) FREE_OFF (d1\<lparr>idxpos := 7\<rparr>) =
      Some (Inr ((0, save), db'))" "core db' = core (d1\<lparr>idxpos := 7\<rparr>)"
    using free_loop_none ch_okD(1) [OF g(2) ix] assms(3) by blast
  have "locks db' = Lk True FREE_OFF 1 True # locks db" using core_eqD(6) [OF f(2)] by (simp add: d1_def)
  then have un: "un_lock True FREE_OFF 1 db' = Some (Inr ((), db'\<lparr>locks := locks db\<rparr>))"
    using assms(2) by (auto simp: un_lock_def updM_def filter_id_conv)
  have "core (db'\<lparr>locks := locks db\<rparr>) = core db"
    using f(2) by (cases db; cases db') (simp add: d1_def core_def)
  moreover have "db_findfree kl dl db = Some (Inr (-1, db'\<lparr>locks := locks db\<rparr>))"
    unfolding db_findfree_def
    by (simp add: dbm_simps lockM_def d1_def [symmetric] bindM_ok r1 f(1) thenM_ok un)
  ultimately show ?thesis by blast
qed

lemma findfree_found:
  assumes "good db ps rs ch {} M" and "\<forall>l \<in> set (locks db). lk_off l \<noteq> FREE_OFF"
    and "ch 0 = as @ x # bs" and "\<forall>y \<in> set as. \<not> fits kl dl (recs_at REC_OFF rs) y"
    and "fits kl dl (recs_at REC_OFF rs) x" and "recs_at REC_OFF rs x = Some r"
  obtains rs' db' where "db_findfree kl dl db = Some (Inr (0, db'))"
    and "good db' (set_ps ps 0 as (r_ptr r)) rs' (ch(0 := as @ bs)) {x} M" and "meta db' = meta db"
    and "recs_at REC_OFF rs' x = Some r" and "recs_at REC_OFF rs' = set_m (recs_at REC_OFF rs) as (r_ptr r)"
    and "idxoff db' = int x" and "datoff db' = int (r_off r)" and "recs_len rs' = recs_len rs"
    and "datfile db' = datfile db"
proof -
  let ?m = "recs_at REC_OFF rs"
  note g = goodD [OF assms(1)]
  have ix: "0 < length ps" using g(5) by simp
  note c = ch_okD [OF g(2) ix]
  have last: "as = [] \<or> last as \<noteq> x \<and> ?m (last as) \<noteq> None"
    using c(2) rchain_dom [OF c(1), of "last as"] assms(3) by (cases as rule: rev_cases) auto
  have x: "x \<noteq> 0" "int (r_ptr r) \<le> PTR_MAX"
    using rchain_dom [OF c(1), of x] assms(3) irep_rec_ok [OF g(1) assms(6)] by (auto simp: rec_ok_def)
  define d1 where "d1 = db\<lparr>locks := Lk True FREE_OFF 1 True # locks db\<rparr>"
  have i1: "irep d1 ps rs" by (rule irep_cong [OF g(1)]) (simp add: d1_def)
  have r1: "db_readptr FREE_OFF d1 = Some (Inr (int (ps ! 0), d1\<lparr>idxpos := 7\<rparr>))"
    using readptr_irep [OF i1 ix] by (simp add: FREE_OFF_def)
  have "irep (d1\<lparr>idxpos := 7\<rparr>) ps rs" by (rule irep_cong [OF i1]) simp
  then obtain d2 where f: "free_loop kl dl (int (ps ! 0)) FREE_OFF (d1\<lparr>idxpos := 7\<rparr>) =
      Some (Inr ((int x, pred_off FREE_OFF as), after_read x r d2))" "core d2 = core (d1\<lparr>idxpos := 7\<rparr>)"
    using free_loop_found c(1) assms(3-6) by metis
  have i2: "irep (after_read x r d2) ps rs" by (rule irep_core [OF i1]) (simp add: f(2))
  obtain rs3 d3 where w3: "db_writeptr (pred_off (int (7 * 0)) as) (int (r_ptr r)) (after_read x r d2) = Some (Inr ((), d3))"
    "irep d3 (set_ps ps 0 as (r_ptr r)) rs3" "recs_at REC_OFF rs3 = set_m ?m as (r_ptr r)"
    "recs_len rs3 = recs_len rs" "d3 = (after_read x r d2)\<lparr>idxfile := idxfile d3, idxpos := idxpos d3\<rparr>"
    using writeptr_pred [OF i2 ix _ x(2), of as] last by auto
  have d3: "meta d3 = meta d1" "datfile d3 = datfile db" "idxoff d3 = int x" "datoff d3 = int (r_off r)"
    using meta_core [OF f(2)] core_eqD(2) [OF f(2)] by (subst w3(5), simp add: d1_def)+
  define d4 where "d4 = d3\<lparr>locks := locks db\<rparr>"
  have "locks d3 = Lk True FREE_OFF 1 True # locks db" using meta_eqD(4) [OF d3(1)] by (simp add: d1_def)
  then have un: "un_lock True FREE_OFF 1 d3 = Some (Inr ((), d4))"
    using assms(2) by (auto simp: un_lock_def updM_def filter_id_conv d4_def)
  have run: "db_findfree kl dl db = Some (Inr (0, d4))"
    using x(1) w3(1) [folded FREE_OFF_nat] unfolding db_findfree_def
    by (simp add: dbm_simps lockM_def d1_def [symmetric] bindM_ok r1 f(1) thenM_ok un)
  have info: "info (set_m ?m as (r_ptr r)) = info ?m" by (rule info_set_m) (use last in blast)
  have "good d4 (set_ps ps 0 as (r_ptr r)) rs3 (ch(0 := as @ bs)) {x} M"
    using w3(2,3) unlink_ok [OF g(2) ix assms(3,6)] dat_ok_info [OF info g(3)] kd_info [OF info] g(4) d3(2)
    by (simp add: good_def d4_def irep_def represents_def)
  moreover have "meta d4 = meta db" unfolding d4_def by (rule meta_locks) (use d3(1) in \<open>simp add: d1_def\<close>)
  moreover have "recs_at REC_OFF rs3 x = Some r" using w3(3) last assms(6) by (auto simp: set_m_def)
  ultimately show thesis using run that w3(3,4) d3 by (simp add: d4_def)
qed

definition reuse_rec :: "string \<Rightarrow> string \<Rightarrow> int \<Rightarrow> int \<Rightarrow> unit dbm" where
  "reuse_rec key data coff ptr =
     bindM (getM datoff) (\<lambda>doff.
     thenM (db_writedat data doff False)
     (bindM (getM idxoff) (\<lambda>ioff.
      thenM (db_writeidx key ioff False ptr)
      (bindM (getM idxoff) (\<lambda>ioff'. db_writeptr coff ioff')))))"

lemma reuse_rec_ok:
  assumes "good db ps rs ch {x} M" and "i = hash_ix k" and "key_ok k" and "data_ok d"
    and "recs_at REC_OFF rs x = Some r" and "length (r_key r) = length k" and "blank (r_key r)"
    and "r_len r = length d + 1" and "\<And>y s. recs_at REC_OFF rs y = Some s \<Longrightarrow> r_key s \<noteq> k"
    and "idxoff db = int x" and "datoff db = int (r_off r)" and "int x \<le> PTR_MAX" and "x \<noteq> 0"
  obtains ps' rs' ch' db' where "reuse_rec k d (int (7 * i)) (int (ps ! i)) db = Some (Inr ((), db'))"
    and "good db' ps' rs' ch' {} (M(k \<mapsto> d))" and "meta db' = meta db"
    and "recs_len rs' = recs_len rs" and "length (datfile db') = length (datfile db)"
proof -
  let ?m = "recs_at REC_OFF rs"
  note g = goodD [OF assms(1)]
  have ix: "i < length ps" "i \<noteq> 0" using hash_ix [of k] g(5) assms(2) by auto
  obtain a e c where D: "datfile db = a @ e @ NEWLINE # c" "r_off r = length a" "r_len r = length e + 1"
    using dat_okD(1) [OF g(3) assms(5)] by (auto elim: region_okE)
  define d1 where "d1 = db\<lparr>datfile := a @ (d @ [NEWLINE]) @ c, datpos := length a + length d + 1,
      datoff := int (length a), datlen := int (length d) + 1\<rparr>"
  have w1: "db_writedat d (int (r_off r)) False db = Some (Inr ((), d1))"
    using db_writedat_over_spec [of db a "e @ [NEWLINE]" c d] D assms(8) by (simp add: d1_def)
  have i1: "irep d1 ps rs" by (rule irep_cong [OF g(1)]) (simp add: d1_def)
  define r' where "r' = new_rec d1 k (ps ! i)"
  have r': "r' = \<lparr>r_ptr = ps ! i, r_key = k, r_off = r_off r, r_len = r_len r\<rparr>"
    by (simp add: r'_def new_rec_def d1_def D(2) assms(8))
  have body: "length (body r') = length (body r)" by (simp add: r' body_def assms(6))
  have ok: "rec_ok r'"
    using irep_rec_ok [OF g(1) assms(5)] g(1) ix(1) assms(3,6) body
    unfolding rec_ok_def by (auto simp: r' irep_def key_ok_def)
  obtain rs2 where rs2: "db_writeidx k (int x) False (int (ps ! i)) d1 =
      Some (Inr ((), d1\<lparr>idxfile := render ps rs2, idxpos := x + length (rrec r'),
        ptrval := int (ps ! i), idxbuf := body r', idxoff := int x\<rparr>))"
    "irep (d1\<lparr>idxfile := render ps rs2\<rparr>) ps rs2" "recs_at REC_OFF rs2 = ?m(x \<mapsto> r')" "recs_len rs2 = recs_len rs"
    using writeidx_irep [OF i1 assms(5) r'_def ok body] by metis
  define d2 where "d2 = d1\<lparr>idxfile := render ps rs2, idxpos := x + length (rrec r'),
        ptrval := int (ps ! i), idxbuf := body r', idxoff := int x\<rparr>"
  have i2: "irep d2 ps rs2" by (rule irep_cong [OF rs2(2)]) (simp add: d2_def)
  define d3 where "d3 = d2\<lparr>idxfile := render (ps[i := x]) rs2, idxpos := 7 * i + 7\<rparr>"
  have w3: "db_writeptr (int (7 * i)) (int x) d2 = Some (Inr ((), d3))" "irep d3 (ps[i := x]) rs2"
    using writeptr_irep [OF i2 ix(1) assms(12) d3_def] by auto
  have sel: "idxoff d1 = int x" "idxoff d2 = int x" by (simp_all add: d1_def d2_def assms(10))
  have run: "reuse_rec k d (int (7 * i)) (int (ps ! i)) db = Some (Inr ((), d3))"
    unfolding reuse_rec_def
    by (simp only: dbm_simps assms(11) thenM_ok w1 rs2(1) [folded d2_def] sel w3(1))
  have D3: "datfile d3 = a @ (d @ [NEWLINE]) @ c" by (simp add: d3_def d2_def d1_def)
  have "ch_ok (ps[i := x]) (?m(x \<mapsto> r')) (ch(i := x # ch i)) ({x} - {x})"
  proof (rule link_ok [OF g(2) ix(1)])
    show "\<forall>j < length ps. x \<notin> set (ch j)" using ch_okD(6) [OF g(2)] by blast
    show "r_key r' \<notin> key_of ?m ` set (ch i)"
    proof
      assume "r_key r' \<in> key_of ?m ` set (ch i)"
      then obtain y where "y \<in> set (ch i)" "key_of ?m y = k" by (auto simp: r')
      then show False using assms(9) rchain_dom [OF ch_okD(1) [OF g(2) ix(1)], of y] by (auto simp: key_of_def)
    qed
  qed (use r' key_fits_hash assms(2,3,13) in simp_all)
  moreover have D': "datfile db = a @ (e @ [NEWLINE]) @ c" "length a = r_off r" "length (e @ [NEWLINE]) = r_len r"
    using D by simp_all
  note wr = write_region [OF g(3) assms(5) D' _ _ D3]
  have reg: "dat_ok (datfile d3) ?m" "data_at (datfile d3) r = d"
    "\<And>y s. ?m y = Some s \<Longrightarrow> y \<noteq> x \<Longrightarrow> data_at (datfile d3) s = data_at (datfile db) s"
    using wr assms(4,8) by (auto simp: data_ok_def)
  have sp: "span r' = span r" by (simp add: r' span_def)
  moreover have "dat_ok (datfile d3) (?m(x \<mapsto> r'))" by (rule dat_ok_upd [OF reg(1) assms(5) sp])
  moreover have "represents (datfile d3) (?m(x \<mapsto> r')) (M(k := if r_key r' = k then Some d else None))"
  proof (rule represents_upd [OF g(4)])
    show "kd (datfile d3) (?m(x \<mapsto> r')) y = kd (datfile db) ?m y" if "y \<noteq> x" for y
      using that reg(3) by (cases "?m y") (auto simp: kd_def)
    show "kd (datfile d3) (?m(x \<mapsto> r')) x = Some (r_key r', d)"
      using reg(2) span_cong(1) [OF sp] by (simp add: kd_def)
    show "y = x" if "kd (datfile db) ?m y = Some (k, e)" for y e
      using that assms(9) by (auto simp: kd_def)
  qed (use r' assms(3,5,7) in \<open>auto simp: kd_def key_ok_def\<close>)
  ultimately have "good d3 (ps[i := x]) rs2 (ch(i := x # ch i)) {} (M(k \<mapsto> d))"
    using w3(2) rs2(3) r' by (simp add: good_def)
  moreover have "meta d3 = meta db" by (simp add: d3_def d2_def d1_def)
  moreover have "length (datfile d3) = length (datfile db)" using D3 D assms(8) by simp
  ultimately show thesis using run that rs2(4) by blast
qed

end
