(* ===== verification/Kv_Spec.thy ===== *)
theory Kv_Spec
  imports Prelude
begin

text \<open>
  What the users of a database of keyed strings rely on: every call returns what the same call on a
  finite map returns. A sequence of calls is then a run of the map.
\<close>

datatype kop = Fetch string | Delete string | Store string string int

datatype kres = Fetched "string option" | Deleted int | Stored "int \<times> int option"

type_synonym 's call = "'s \<Rightarrow> (string + kres \<times> 's) option"

fun do_op :: "(string \<Rightarrow> 's \<Rightarrow> (string + string option \<times> 's) option) \<Rightarrow> (string \<Rightarrow> 's \<Rightarrow> (string + int \<times> 's) option) \<Rightarrow>
    (string \<Rightarrow> string \<Rightarrow> int \<Rightarrow> 's \<Rightarrow> (string + (int \<times> int option) \<times> 's) option) \<Rightarrow> kop \<Rightarrow> 's call" where
  "do_op ft dl st (Fetch k) s = map_option (map_sum id (map_prod Fetched id)) (ft k s)"
| "do_op ft dl st (Delete k) s = map_option (map_sum id (map_prod Deleted id)) (dl k s)"
| "do_op ft dl st (Store k d flag) s = map_option (map_sum id (map_prod Stored id)) (st k d flag s)"

fun run_ops :: "(kop \<Rightarrow> 's call) \<Rightarrow> kop list \<Rightarrow> 's \<Rightarrow> (string + kres list \<times> 's) option" where
  "run_ops f [] s = Some (Inr ([], s))"
| "run_ops f (c # cs) s = (case f c s of
     None \<Rightarrow> None
   | Some (Inl e) \<Rightarrow> Some (Inl e)
   | Some (Inr (r, s')) \<Rightarrow> (case run_ops f cs s' of
       None \<Rightarrow> None
     | Some (Inl e) \<Rightarrow> Some (Inl e)
     | Some (Inr (rs, s'')) \<Rightarrow> Some (Inr (r # rs, s''))))"

fun stores :: "kop list \<Rightarrow> nat" where
  "stores [] = 0"
| "stores (Store _ _ _ # cs) = Suc (stores cs)"
| "stores (_ # cs) = stores cs"

text \<open>The same on a map; \<open>spec\<close> is the contract of a store.\<close>

fun map_op :: "((string \<Rightarrow> string option) \<Rightarrow> string \<Rightarrow> string \<Rightarrow> int \<Rightarrow> (int \<times> int option) \<times> (string \<Rightarrow> string option)) \<Rightarrow>
    kop \<Rightarrow> (string \<Rightarrow> string option) \<Rightarrow> kres \<times> (string \<Rightarrow> string option)" where
  "map_op spec (Fetch k) M = (Fetched (M k), M)"
| "map_op spec (Delete k) M = (Deleted (if M k = None then -1 else 0), M(k := None))"
| "map_op spec (Store k d flag) M = (Stored (fst (spec M k d flag)), snd (spec M k d flag))"

fun map_ops :: "(kop \<Rightarrow> (string \<Rightarrow> string option) \<Rightarrow> kres \<times> (string \<Rightarrow> string option)) \<Rightarrow> kop list \<Rightarrow>
    (string \<Rightarrow> string option) \<Rightarrow> kres list \<times> (string \<Rightarrow> string option)" where
  "map_ops f [] M = ([], M)"
| "map_ops f (c # cs) M = (fst (f c M) # fst (map_ops f cs (snd (f c M))), snd (map_ops f cs (snd (f c M))))"

locale kv_store =
  fixes rep :: "'s \<Rightarrow> (string \<Rightarrow> string option) \<Rightarrow> nat \<Rightarrow> bool"
    and ft :: "string \<Rightarrow> 's \<Rightarrow> (string + string option \<times> 's) option"
    and dl :: "string \<Rightarrow> 's \<Rightarrow> (string + int \<times> 's) option"
    and st :: "string \<Rightarrow> string \<Rightarrow> int \<Rightarrow> 's \<Rightarrow> (string + (int \<times> int option) \<times> 's) option"
    and spec :: "(string \<Rightarrow> string option) \<Rightarrow> string \<Rightarrow> string \<Rightarrow> int \<Rightarrow> (int \<times> int option) \<times> (string \<Rightarrow> string option)"
    and okay :: "kop \<Rightarrow> bool"
  assumes fetch_law: "rep s M n \<Longrightarrow> okay (Fetch k) \<Longrightarrow> \<exists>s'. ft k s = Some (Inr (M k, s')) \<and> rep s' M n"
    and delete_law: "rep s M n \<Longrightarrow> okay (Delete k) \<Longrightarrow>
      \<exists>s'. dl k s = Some (Inr (if M k = None then -1 else 0, s')) \<and> rep s' (M(k := None)) n"
    and store_law: "rep s M (Suc n) \<Longrightarrow> okay (Store k d flag) \<Longrightarrow>
      \<exists>s'. st k d flag s = Some (Inr (fst (spec M k d flag), s')) \<and> rep s' (snd (spec M k d flag)) n"
begin

lemma op_refines:
  assumes "rep s M (stores [c] + n)" and "okay c"
  shows "\<exists>s'. do_op ft dl st c s = Some (Inr (fst (map_op spec c M), s')) \<and> rep s' (snd (map_op spec c M)) n"
proof (cases c)
  case (Fetch k)
  then show ?thesis using fetch_law [of s M n k] assms by auto
next
  case (Delete k)
  then show ?thesis using delete_law [of s M n k] assms by auto
next
  case (Store k d flag)
  then show ?thesis using store_law [of s M n k d flag] assms by auto
qed

lemma run_refines:
  assumes "rep s M (stores cs + n)" and "\<forall>c \<in> set cs. okay c"
  shows "\<exists>s'. run_ops (do_op ft dl st) cs s = Some (Inr (fst (map_ops (map_op spec) cs M), s')) \<and>
    rep s' (snd (map_ops (map_op spec) cs M)) n"
  using assms
proof (induction cs arbitrary: s M)
  case Nil
  then show ?case by simp
next
  case (Cons c cs)
  have "stores (c # cs) + n = stores [c] + (stores cs + n)" by (cases c) simp_all
  then obtain s1 where s1: "do_op ft dl st c s = Some (Inr (fst (map_op spec c M), s1))"
    "rep s1 (snd (map_op spec c M)) (stores cs + n)"
    using op_refines [of s M c "stores cs + n"] Cons.prems by (auto simp: add.assoc)
  then obtain s2 where "run_ops (do_op ft dl st) cs s1 =
      Some (Inr (fst (map_ops (map_op spec) cs (snd (map_op spec c M))), s2))"
    "rep s2 (snd (map_ops (map_op spec) cs (snd (map_op spec c M)))) n"
    using Cons.IH [OF s1(2)] Cons.prems(2) by auto
  then show ?case using s1(1) by simp
qed

end

end
