(* ===== verification/Db.thy ===== *)
theory Db
  imports Db_Store Kv_Spec
begin

text \<open>
  The database library as a finite map from keys to data: what \<^verbatim>\<open>db_fetch\<close>, \<^verbatim>\<open>db_delete\<close> and
  \<^verbatim>\<open>db_store\<close> return and how they change the map.
\<close>

section \<open>The database as a map\<close>

text \<open>The number \<open>n\<close> is a number of calls of \<^verbatim>\<open>db_store\<close> for which there is room: the offsets of all
  records must fit into the seven characters of a chain pointer.\<close>

definition db_rep :: "db \<Rightarrow> (string \<Rightarrow> string option) \<Rightarrow> nat \<Rightarrow> bool" where
  "db_rep db M n \<longleftrightarrow> nhash db = NHASH_DEF \<and> hashoff db = HASH_OFF \<and> locks db = [] \<and>
     (\<exists>ps rs ch. good db ps rs ch {} M) \<and> int (length (idxfile db) + 1035 * n) \<le> PTR_MAX \<and>
     length (datfile db) + 1024 * n < DAT_MAX"

lemma good_cong:
  "good db ps rs ch E M \<Longrightarrow> idxfile db' = idxfile db \<Longrightarrow> datfile db' = datfile db \<Longrightarrow> good db' ps rs ch E M"
  unfolding good_def using irep_cong by metis

lemma good_length: "good db ps rs ch E M \<Longrightarrow> length (idxfile db) = REC_OFF + recs_len rs"
  using goodD(1) irep_length by metis

lemma good_cases:
  assumes "good db ps rs ch {} M"
  obtains (absent) "M k = None" "k \<notin> key_of (recs_at REC_OFF rs) ` set (ch (hash_ix k))"
  | (present) as x bs r where "ch (hash_ix k) = as @ x # bs" "recs_at REC_OFF rs x = Some r" "r_key r = k"
      "M k = Some (data_at (datfile db) r)" "\<not> blank k"
proof (cases "k \<in> key_of (recs_at REC_OFF rs) ` set (ch (hash_ix k))")
  case True
  then obtain x where x: "x \<in> set (ch (hash_ix k))" "key_of (recs_at REC_OFF rs) x = k" by auto
  have "hash_ix k < length ps" using hash_ix(2) [of k] goodD(5) [OF assms] by simp
  then obtain r where r: "recs_at REC_OFF rs x = Some r"
    using rchain_dom [OF ch_okD(1) [OF goodD(2) [OF assms]] x(1)] by auto
  obtain as bs where "ch (hash_ix k) = as @ x # bs" using x(1) by (meson split_list)
  then show thesis using present good_present [OF assms x(1) r] r x(2) by (auto simp: key_of_def)
next
  case False
  then show thesis using absent good_absent(1) [OF assms False] by blast
qed

text \<open>Every function ends with the release of the lock on the hash chain.\<close>

definition release :: "'a \<Rightarrow> 'a dbm" where
  "release rc = bindM (getM chainoff) (\<lambda>off. thenM (un_lock True off 1) (retM rc))"

lemma release_ok:
  "locks db = [Lk True (chainoff db) 1 w] \<Longrightarrow> release rc db = Some (Inr (rc, db\<lparr>locks := []\<rparr>))"
  by (simp add: release_def dbm_simps un_lock_def)

lemma locked_sel [simp]:
  "nhash (locked k w db) = nhash db" "hashoff (locked k w db) = hashoff db"
  "chainoff (locked k w db) = int (7 * hash_ix k)"
  "locks (locked k w db) = Lk True (int (7 * hash_ix k)) 1 w # locks db"
  "idxfile (locked k w db) = idxfile db" "datfile (locked k w db) = datfile db"
  by (simp_all add: locked_def)

text \<open>What holds between the search for the key and the release: the chain of \<open>k\<close> is locked.\<close>

definition busy :: "string \<Rightarrow> bool \<Rightarrow> db \<Rightarrow> bool" where
  "busy k w db \<longleftrightarrow> nhash db = NHASH_DEF \<and> hashoff db = HASH_OFF \<and> chainoff db = int (7 * hash_ix k) \<and>
     locks db = [Lk True (int (7 * hash_ix k)) 1 w]"

lemma busy_core: "core db' = core (locked k w db) \<Longrightarrow> db_rep db M n \<Longrightarrow> busy k w db'"
  using core_eqD [of db' "locked k w db"] by (simp add: busy_def db_rep_def)

lemma busy_meta: "meta db' = meta db \<Longrightarrow> busy k w db \<Longrightarrow> busy k w db'"
  using meta_eqD [of db' db] by (simp add: busy_def)

lemma good_locked: "good db ps rs ch {} M \<Longrightarrow> core db' = core (locked k w db) \<Longrightarrow> good db' ps rs ch {} M"
  using good_cong [of db ps rs ch "{}" M db'] core_eqD(1,2) [of db' "locked k w db"] by simp

lemma finish:
  assumes "busy k w db" and "good db ps rs ch {} M" and "int (length (idxfile db) + 1035 * n) \<le> PTR_MAX"
    and "length (datfile db) + 1024 * n < DAT_MAX"
  shows "release rc db = Some (Inr (rc, db\<lparr>locks := []\<rparr>)) \<and> db_rep (db\<lparr>locks := []\<rparr>) M n"
proof -
  have "good (db\<lparr>locks := []\<rparr>) ps rs ch {} M" by (rule good_cong [OF assms(2)]) simp_all
  then show ?thesis using assms release_ok [of db w rc] by (auto simp: busy_def db_rep_def)
qed

section \<open>Fetching and deleting\<close>

lemma db_fetch_alt: "db_fetch key =
     bindM (db_find_and_lock key False) (\<lambda>rc.
     bindM (if rc < 0 then thenM (updM (\<lambda>db. db\<lparr>cnt_fetcherr := cnt_fetcherr db + 1\<rparr>)) (retM None)
            else bindM db_readdat (\<lambda>s.
              thenM (updM (\<lambda>db. db\<lparr>cnt_fetchok := cnt_fetchok db + 1\<rparr>)) (retM (Some s)))) release)"
  by (simp add: db_fetch_def release_def [abs_def])

lemma fetch_ok:
  assumes "db_rep db M n"
  shows "\<exists>db'. db_fetch k db = Some (Inr (M k, db')) \<and> db_rep db' M n"
proof -
  obtain ps rs ch where g: "good db ps rs ch {} M" using assms by (auto simp: db_rep_def)
  have h: "nhash db = NHASH_DEF" "hashoff db = HASH_OFF" using assms by (auto simp: db_rep_def)
  show ?thesis
  proof (rule good_cases [OF g, of k])
    assume a: "M k = None" "k \<notin> key_of (recs_at REC_OFF rs) ` set (ch (hash_ix k))"
    obtain db1 where f: "db_find_and_lock k False db = Some (Inr (-1, db1))" "core db1 = core (locked k False db)"
      using find_and_lock_none [OF g h a(2)] by blast
    let ?db2 = "db1\<lparr>cnt_fetcherr := cnt_fetcherr db1 + 1\<rparr>"
    have "good ?db2 ps rs ch {} M" by (rule good_cong [OF good_locked [OF g f(2)]]) simp_all
    moreover have "busy k False ?db2" using busy_core [OF f(2) assms] by (simp add: busy_def)
    ultimately have "release None ?db2 = Some (Inr (None, ?db2\<lparr>locks := []\<rparr>)) \<and> db_rep (?db2\<lparr>locks := []\<rparr>) M n"
      using core_eqD(1,2) [OF f(2)] assms by (intro finish) (auto simp: db_rep_def)
    then show ?thesis
      using a(1) unfolding db_fetch_alt by (auto simp: bindM_ok f(1) dbm_simps)
  next
    fix as x bs r
    assume p: "ch (hash_ix k) = as @ x # bs" "recs_at REC_OFF rs x = Some r" "r_key r = k"
      "M k = Some (data_at (datfile db) r)"
    obtain db0 where f: "db_find_and_lock k False db =
        Some (Inr (0, after_read x r (db0\<lparr>ptroff := pred_off (int (7 * hash_ix k)) as\<rparr>)))"
      "core db0 = core (locked k False db)"
      using find_and_lock_found [OF g h p(1-3)] by blast
    define db1 where "db1 = after_read x r (db0\<lparr>ptroff := pred_off (int (7 * hash_ix k)) as\<rparr>)"
    have c1: "core db1 = core (locked k False db)" by (simp add: db1_def f(2))
    have D1: "datfile db1 = datfile db" using core_eqD(2) [OF c1] by simp
    obtain a d c where D: "datfile db = a @ d @ NEWLINE # c" "r_off r = length a" "r_len r = length d + 1"
      "NUL \<notin> set d" "data_at (datfile db) r = d"
      by (rule region_okE [OF dat_okD(1) [OF goodD(3) [OF g] p(2)]])
    have rd: "db_readdat db1 = Some (Inr (d, db1\<lparr>datpos := length a + length d + 1, datbuf := d @ [NUL]\<rparr>))"
      using D D1 by (intro db_readdat_spec [of _ _ _ c]) (auto simp: db1_def)
    let ?db2 = "(db1\<lparr>datpos := length a + length d + 1, datbuf := d @ [NUL]\<rparr>)\<lparr>cnt_fetchok := cnt_fetchok db1 + 1\<rparr>"
    have "good ?db2 ps rs ch {} M" by (rule good_cong [OF good_locked [OF g c1]]) simp_all
    moreover have "busy k False ?db2" using busy_core [OF c1 assms] by (simp add: busy_def)
    ultimately have "release (Some d) ?db2 = Some (Inr (Some d, ?db2\<lparr>locks := []\<rparr>)) \<and> db_rep (?db2\<lparr>locks := []\<rparr>) M n"
      using core_eqD(1,2) [OF c1] assms by (intro finish) (auto simp: db_rep_def)
    then show ?thesis
      using p(4) D(5) unfolding db_fetch_alt by (auto simp: bindM_ok f(1) [folded db1_def] dbm_simps rd)
  qed
qed

lemma db_delete_alt: "db_delete key =
     bindM (db_find_and_lock key True) (\<lambda>found.
     bindM (if found = 0
            then thenM db_dodelete (thenM (updM (\<lambda>db. db\<lparr>cnt_delok := cnt_delok db + 1\<rparr>)) (retM 0))
            else thenM (updM (\<lambda>db. db\<lparr>cnt_delerr := cnt_delerr db + 1\<rparr>)) (retM (-1))) release)"
  by (simp add: db_delete_def release_def [abs_def])

lemma delete_ok:
  assumes "db_rep db M n"
  shows "\<exists>db'. db_delete k db = Some (Inr (if M k = None then -1 else 0, db')) \<and> db_rep db' (M(k := None)) n"
proof -
  obtain ps rs ch where g: "good db ps rs ch {} M" using assms by (auto simp: db_rep_def)
  have h: "nhash db = NHASH_DEF" "hashoff db = HASH_OFF" using assms by (auto simp: db_rep_def)
  show ?thesis
  proof (rule good_cases [OF g, of k])
    assume a: "M k = None" "k \<notin> key_of (recs_at REC_OFF rs) ` set (ch (hash_ix k))"
    obtain db1 where f: "db_find_and_lock k True db = Some (Inr (-1, db1))" "core db1 = core (locked k True db)"
      using find_and_lock_none [OF g h a(2)] by blast
    let ?db2 = "db1\<lparr>cnt_delerr := cnt_delerr db1 + 1\<rparr>"
    have "good ?db2 ps rs ch {} M" by (rule good_cong [OF good_locked [OF g f(2)]]) simp_all
    moreover have "busy k True ?db2" using busy_core [OF f(2) assms] by (simp add: busy_def)
    ultimately have "release (-1 :: int) ?db2 = Some (Inr (-1, ?db2\<lparr>locks := []\<rparr>)) \<and> db_rep (?db2\<lparr>locks := []\<rparr>) M n"
      using core_eqD(1,2) [OF f(2)] assms by (intro finish) (auto simp: db_rep_def)
    moreover have "M(k := None) = M" using a(1) by auto
    ultimately show ?thesis
      using a(1) unfolding db_delete_alt by (auto simp: bindM_ok f(1) dbm_simps)
  next
    fix as x bs r
    assume p: "ch (hash_ix k) = as @ x # bs" "recs_at REC_OFF rs x = Some r" "r_key r = k"
      "M k = Some (data_at (datfile db) r)"
    obtain db0 where f: "db_find_and_lock k True db =
        Some (Inr (0, after_read x r (db0\<lparr>ptroff := pred_off (int (7 * hash_ix k)) as\<rparr>)))"
      "core db0 = core (locked k True db)"
      using find_and_lock_found [OF g h p(1-3)] by blast
    define db1 where "db1 = db0\<lparr>ptroff := pred_off (int (7 * hash_ix k)) as\<rparr>"
    have c1: "core db1 = core (locked k True db)" by (simp add: db1_def f(2))
    have b1: "busy k True db1" by (rule busy_core [OF c1 assms])
    obtain ps' rs' ch' db2 where d: "db_dodelete (after_read x r db1) = Some (Inr ((), db2))"
      "good db2 ps' rs' ch' {} (M(k := None))" "meta db2 = meta db1" "recs_len rs' = recs_len rs"
      "length (datfile db2) = length (datfile db1)"
      by (rule dodelete_ok [OF good_locked [OF g c1] refl p(1-3)]) (use b1 in \<open>auto simp: db1_def busy_def\<close>)
    let ?db3 = "db2\<lparr>cnt_delok := cnt_delok db2 + 1\<rparr>"
    have "good ?db3 ps' rs' ch' {} (M(k := None))" by (rule good_cong [OF d(2)]) simp_all
    moreover have "busy k True ?db3" using busy_meta [OF d(3) b1] by (simp add: busy_def)
    moreover have "length (idxfile ?db3) = length (idxfile db)" "length (datfile ?db3) = length (datfile db)"
      using good_length [OF d(2)] good_length [OF g] d(4,5) core_eqD(2) [OF c1] by simp_all
    ultimately have "release (0 :: int) ?db3 = Some (Inr (0, ?db3\<lparr>locks := []\<rparr>)) \<and> db_rep (?db3\<lparr>locks := []\<rparr>) (M(k := None)) n"
      using assms by (intro finish) (auto simp: db_rep_def)
    then show ?thesis
      using p(4) unfolding db_delete_alt by (auto simp: bindM_ok f(1) [folded db1_def] dbm_simps thenM_ok d(1))
  qed
qed

section \<open>Storing\<close>

lemma store_new_alt: "store_new key data db =
     bindM (getM chainoff) (\<lambda>coff.
     bindM (db_readptr coff) (\<lambda>ptr.
     bindM (db_findfree (length key) (int (length data) + 1)) (\<lambda>rc.
     if rc < 0 then
       thenM (append_new key data coff ptr) (updM (\<lambda>db. db\<lparr>cnt_stor1 := cnt_stor1 db + 1\<rparr>))
     else
       thenM (reuse_rec key data coff ptr) (updM (\<lambda>db. db\<lparr>cnt_stor2 := cnt_stor2 db + 1\<rparr>))))) db"
  unfolding store_new_def append_new_def reuse_rec_def bindM_def
  by (simp add: monad_defs split: option.split sum.split prod.split)

text \<open>What is left to do after the chain of \<open>k\<close> was searched: the map becomes \<open>M(k \<mapsto> d)\<close> and the
  files grow by at most one record each.\<close>

definition stored :: "string \<Rightarrow> string \<Rightarrow> (string \<Rightarrow> string option) \<Rightarrow> db \<Rightarrow> db \<Rightarrow> bool" where
  "stored k d M db db' \<longleftrightarrow> (\<exists>ps rs ch. good db' ps rs ch {} (M(k \<mapsto> d))) \<and> busy k True db' \<and>
     length (idxfile db') \<le> length (idxfile db) + 1035 \<and> length (datfile db') \<le> length (datfile db) + 1024"

lemma stored_cong:
  assumes "stored k d M db db'" and "idxfile db'' = idxfile db'" and "datfile db'' = datfile db'"
    and "busy k True db''"
  shows "stored k d M db db''"
  using assms good_cong unfolding stored_def by metis

lemma readptr_busy:
  assumes "busy k True db" and "good db ps rs ch {} M"
  shows "db_readptr (chainoff db) db =
    Some (Inr (int (ps ! hash_ix k), db\<lparr>idxpos := 7 * hash_ix k + 7\<rparr>))"
  using readptr_irep [OF goodD(1) [OF assms(2)], of "hash_ix k"] hash_ix(2) [of k] goodD(5) [OF assms(2)] assms(1)
  by (simp add: busy_def)

lemma append_stored:
  assumes "busy k True db" and "good db ps rs ch {} M" and "M k = None" and "key_ok k" and "data_ok d"
    and "int (length (idxfile db)) \<le> PTR_MAX" and "length (datfile db) < DAT_MAX"
  shows "\<exists>db'. append_new k d (chainoff db) (int (ps ! hash_ix k)) db = Some (Inr ((), db')) \<and> stored k d M db db'"
proof -
  have "\<forall>l \<in> set (locks db). lk_len l \<noteq> 0" using assms(1) by (simp add: busy_def)
  then obtain ps' rs' ch' db' where a: "append_new k d (int (7 * hash_ix k)) (int (ps ! hash_ix k)) db = Some (Inr ((), db'))"
    "good db' ps' rs' ch' {} (M(k \<mapsto> d))" "meta db' = meta db"
    "recs_len rs' \<le> recs_len rs + 1035" "length (datfile db') = length (datfile db) + length d + 1"
    using append_new_ok [OF assms(2) refl assms(3-5) _ assms(6,7)] by metis
  have "stored k d M db db'"
    unfolding stored_def
    using a(2,4,5) good_length [OF a(2)] good_length [OF assms(2)] busy_meta [OF a(3) assms(1)] assms(5)
    by (auto simp: data_ok_def)
  then show ?thesis using a(1) assms(1) by (auto simp: busy_def)
qed

lemma store_new_ok:
  assumes "busy k True db" and "good db ps rs ch {} M" and "M k = None" and "key_ok k" and "data_ok d"
    and "int (length (idxfile db)) \<le> PTR_MAX" and "length (datfile db) < DAT_MAX"
  shows "\<exists>db'. store_new k d db = Some (Inr ((), db')) \<and> stored k d M db db'"
proof -
  define i where "i = hash_ix k"
  define db1 where "db1 = db\<lparr>idxpos := 7 * i + 7\<rparr>"
  have i: "i \<noteq> 0" "i < length ps" "0 < length ps" using hash_ix [of k] goodD(5) [OF assms(2)] by (auto simp: i_def)
  have coff: "chainoff db = int (7 * i)" using assms(1) by (simp add: busy_def i_def)
  have rp: "db_readptr (int (7 * i)) db = Some (Inr (int (ps ! i), db1))"
    using readptr_busy [OF assms(1,2)] coff by (simp add: db1_def i_def)
  have b1: "busy k True db1" using assms(1) by (simp add: busy_def db1_def)
  have g1: "good db1 ps rs ch {} M" by (rule good_cong [OF assms(2)]) (simp_all add: db1_def)
  have free: "\<forall>l \<in> set (locks db1). lk_off l \<noteq> FREE_OFF" using b1 i(1) by (simp add: busy_def FREE_OFF_def i_def)
  let ?fits = "fits (length k) (int (length d) + 1) (recs_at REC_OFF rs)"
  show ?thesis
  proof (cases "\<exists>x \<in> set (ch 0). ?fits x")
    case False
    then obtain db2 where f: "db_findfree (length k) (int (length d) + 1) db1 = Some (Inr (-1, db2))" "core db2 = core db1"
      using findfree_none [OF g1 free] by blast
    have g2: "good db2 ps rs ch {} M" by (rule good_core [OF g1 f(2)])
    have b2: "busy k True db2" using busy_meta [OF meta_core [OF f(2)] b1] .
    have F: "idxfile db2 = idxfile db" "datfile db2 = datfile db" using core_eqD(1,2) [OF f(2)] by (simp_all add: db1_def)
    obtain db3 where a: "append_new k d (chainoff db2) (int (ps ! i)) db2 = Some (Inr ((), db3))" "stored k d M db2 db3"
      using append_stored [OF b2 g2 assms(3-5)] assms(6,7) F by (auto simp: i_def)
    have "chainoff db2 = int (7 * i)" using b2 by (simp add: busy_def i_def)
    then have "store_new k d db = Some (Inr ((), db3\<lparr>cnt_stor1 := cnt_stor1 db3 + 1\<rparr>))"
      using a(1) unfolding store_new_alt by (simp add: dbm_simps coff bindM_ok thenM_ok rp [simplified] f(1))
    moreover have "stored k d M db2 (db3\<lparr>cnt_stor1 := cnt_stor1 db3 + 1\<rparr>)"
      by (rule stored_cong [OF a(2)]) (use a(2) in \<open>simp_all add: stored_def busy_def\<close>)
    ultimately show ?thesis using F by (auto simp: stored_def)
  next
    case True
    then obtain as x bs where x: "ch 0 = as @ x # bs" "?fits x" "\<forall>y \<in> set as. \<not> ?fits y"
      using split_list_first_prop [of "ch 0" ?fits] by auto
    note c = ch_okD [OF goodD(2) [OF g1] i(3)]
    obtain r where r: "recs_at REC_OFF rs x = Some r" using rchain_dom [OF c(1), of x] x(1) by auto
    have rk: "length (r_key r) = length k" "blank (r_key r)" "r_len r = length d + 1"
      using x(2) c(3) [of x] x(1) r by (auto simp: fits_def key_of_def key_fits_def)
    have xb: "int x \<le> PTR_MAX" "x \<noteq> 0"
      using rchain_bound [OF goodD(1) [OF g1] c(1), of x] rchain_dom [OF c(1), of x] x(1) goodD(1) [OF g1] i(3)
      by (auto simp: irep_def)
    obtain rs2 db2 where f: "db_findfree (length k) (int (length d) + 1) db1 = Some (Inr (0, db2))"
      "good db2 (set_ps ps 0 as (r_ptr r)) rs2 (ch(0 := as @ bs)) {x} M" "meta db2 = meta db1"
      "recs_at REC_OFF rs2 x = Some r" "recs_at REC_OFF rs2 = set_m (recs_at REC_OFF rs) as (r_ptr r)"
      "idxoff db2 = int x" "datoff db2 = int (r_off r)" "recs_len rs2 = recs_len rs" "datfile db2 = datfile db1"
      by (rule findfree_found [OF g1 free x(1,3,2) r])
    have "r_key s \<noteq> k" if y: "recs_at REC_OFF rs2 y = Some s" for y s
    proof
      assume "r_key s = k"
      then have "kd (datfile db2) (recs_at REC_OFF rs2) y = Some (k, data_at (datfile db2) s)"
        using y by (simp add: kd_def)
      then show False
        using representsD [OF goodD(4) [OF f(2)]] assms(3,4) by (fastforce simp: key_ok_def)
    qed
    then obtain ps3 rs3 ch3 db3 where a: "reuse_rec k d (int (7 * i)) (int (set_ps ps 0 as (r_ptr r) ! i)) db2 = Some (Inr ((), db3))"
      "good db3 ps3 rs3 ch3 {} (M(k \<mapsto> d))" "meta db3 = meta db2" "recs_len rs3 = recs_len rs2"
      "length (datfile db3) = length (datfile db2)"
      using reuse_rec_ok [OF f(2) i_def assms(4,5) f(4) rk _ f(6,7) xb] by metis
    have "store_new k d db = Some (Inr ((), db3\<lparr>cnt_stor2 := cnt_stor2 db3 + 1\<rparr>))"
      using a(1) i unfolding store_new_alt by (simp add: dbm_simps coff bindM_ok thenM_ok rp [simplified] f(1) set_ps_def split: if_splits)
    moreover have b3: "busy k True db3" using busy_meta [OF a(3)] busy_meta [OF f(3) b1] by blast
    have "stored k d M db db3"
      unfolding stored_def
      using a(2,4,5) b3 good_length [OF a(2)] good_length [OF assms(2)] f(8,9) by (auto simp: db1_def)
    then have "stored k d M db (db3\<lparr>cnt_stor2 := cnt_stor2 db3 + 1\<rparr>)"
      by (rule stored_cong) (use b3 in \<open>simp_all add: busy_def\<close>)
    ultimately show ?thesis by blast
  qed
qed

lemma store_replace_alt: "store_replace key data db =
     bindM (getM datlen) (\<lambda>olen.
     if int (length data) + 1 \<noteq> olen then
       thenM db_dodelete
       (bindM (getM chainoff) (\<lambda>coff.
        bindM (db_readptr coff) (\<lambda>ptr.
        thenM (append_new key data coff ptr) (updM (\<lambda>db. db\<lparr>cnt_stor3 := cnt_stor3 db + 1\<rparr>)))))
     else
       bindM (getM datoff) (\<lambda>doff.
       thenM (db_writedat data doff False)
       (updM (\<lambda>db. db\<lparr>cnt_stor4 := cnt_stor4 db + 1\<rparr>)))) db"
  unfolding store_replace_def append_new_def bindM_def
  by (simp add: monad_defs split: option.split sum.split prod.split)

lemma overwrite_stored:
  assumes "busy k True db" and "good db ps rs ch {} M" and "recs_at REC_OFF rs x = Some r" and "r_key r = k"
    and "\<not> blank k" and "data_ok d" and "r_len r = length d + 1"
  shows "\<exists>db'. db_writedat d (int (r_off r)) False (after_read x r db) = Some (Inr ((), db')) \<and> stored k d M db db'"
proof -
  note g = goodD [OF assms(2)]
  obtain a e c where D: "datfile db = a @ e @ NEWLINE # c" "r_off r = length a" "r_len r = length e + 1"
    using dat_okD(1) [OF g(3) assms(3)] by (auto elim: region_okE)
  define d1 where "d1 = (after_read x r db)\<lparr>datfile := a @ (d @ [NEWLINE]) @ c, datpos := length a + length d + 1,
      datoff := int (length a), datlen := int (length d) + 1\<rparr>"
  have w1: "db_writedat d (int (r_off r)) False (after_read x r db) = Some (Inr ((), d1))"
    using db_writedat_over_spec [of "after_read x r db" a "e @ [NEWLINE]" c d] D assms(7) by (simp add: d1_def)
  have i1: "irep d1 ps rs" by (rule irep_cong [OF g(1)]) (simp add: d1_def)
  have D1: "datfile d1 = a @ (d @ [NEWLINE]) @ c" by (simp add: d1_def)
  have D': "datfile db = a @ (e @ [NEWLINE]) @ c" "length a = r_off r" "length (e @ [NEWLINE]) = r_len r"
    using D by simp_all
  note wr = write_region [OF g(3) assms(3) D' _ _ D1]
  have reg: "dat_ok (datfile d1) (recs_at REC_OFF rs)" "data_at (datfile d1) r = d"
    "\<And>y s. recs_at REC_OFF rs y = Some s \<Longrightarrow> y \<noteq> x \<Longrightarrow> data_at (datfile d1) s = data_at (datfile db) s"
    using wr assms(6,7) by (auto simp: data_ok_def)
  have "represents (datfile d1) (recs_at REC_OFF rs) (M(k := if r_key r = k then Some d else None))"
  proof (rule represents_upd [OF g(4)])
    show "kd (datfile d1) (recs_at REC_OFF rs) y = kd (datfile db) (recs_at REC_OFF rs) y" if "y \<noteq> x" for y
      using that reg(3) by (cases "recs_at REC_OFF rs y") (auto simp: kd_def)
    show "y = x" if "kd (datfile db) (recs_at REC_OFF rs) y = Some (k, e)" for y e
      using that ch_ok_unique [OF g(2) assms(3), of y] assms(4,5) by (auto simp: kd_def)
  qed (use reg(2) assms(3-5) in \<open>auto simp: kd_def\<close>)
  then have "good d1 ps rs ch {} (M(k \<mapsto> d))" using assms(4) i1 g(2) reg(1) by (simp add: good_def)
  moreover have "busy k True d1" by (rule busy_meta [OF _ assms(1)]) (simp add: d1_def)
  ultimately have "stored k d M db d1"
    using D D1 assms(7) by (auto simp: stored_def d1_def)
  then show ?thesis using w1 by blast
qed

lemma store_replace_ok:
  assumes "busy k True db" and "good db ps rs ch {} M" and "ch (hash_ix k) = as @ x # bs"
    and "recs_at REC_OFF rs x = Some r" and "r_key r = k" and "ptroff db = pred_off (int (7 * hash_ix k)) as"
    and "key_ok k" and "data_ok d" and "int (length (idxfile db)) \<le> PTR_MAX" and "length (datfile db) < DAT_MAX"
  shows "\<exists>db'. store_replace k d (after_read x r db) = Some (Inr ((), db')) \<and> stored k d M db db'"
proof (cases "int (length d) + 1 = int (r_len r)")
  case True
  obtain d1 where d1: "db_writedat d (int (r_off r)) False (after_read x r db) = Some (Inr ((), d1))" "stored k d M db d1"
    using overwrite_stored [OF assms(1,2,4,5) _ assms(8)] assms(7) True by (auto simp: key_ok_def)
  then have "store_replace k d (after_read x r db) = Some (Inr ((), d1\<lparr>cnt_stor4 := cnt_stor4 d1 + 1\<rparr>))"
    using True unfolding store_replace_alt by (simp add: dbm_simps thenM_ok)
  moreover have "stored k d M db (d1\<lparr>cnt_stor4 := cnt_stor4 d1 + 1\<rparr>)"
    by (rule stored_cong [OF d1(2)]) (use d1(2) in \<open>simp_all add: stored_def busy_def\<close>)
  ultimately show ?thesis by blast
next
  case False
  obtain ps' rs' ch' db2 where d: "db_dodelete (after_read x r db) = Some (Inr ((), db2))"
    "good db2 ps' rs' ch' {} (M(k := None))" "meta db2 = meta db" "recs_len rs' = recs_len rs"
    "length (datfile db2) = length (datfile db)"
    by (rule dodelete_ok [OF assms(2) refl assms(3-6)]) (use assms(1) in \<open>auto simp: busy_def\<close>)
  let ?db3 = "db2\<lparr>idxpos := 7 * hash_ix k + 7\<rparr>"
  have b2: "busy k True db2" by (rule busy_meta [OF d(3) assms(1)])
  then have b3: "busy k True ?db3" by (simp add: busy_def)
  have g3: "good ?db3 ps' rs' ch' {} (M(k := None))" by (rule good_cong [OF d(2)]) simp_all
  have len: "length (idxfile db2) = length (idxfile db)"
    using good_length [OF d(2)] good_length [OF assms(2)] d(4) by simp
  obtain db4 where a: "append_new k d (chainoff ?db3) (int (ps' ! hash_ix k)) ?db3 = Some (Inr ((), db4))"
    "stored k d (M(k := None)) ?db3 db4"
    using append_stored [OF b3 g3 _ assms(7,8)] assms(9,10) len d(5) by auto
  have "store_replace k d (after_read x r db) = Some (Inr ((), db4\<lparr>cnt_stor3 := cnt_stor3 db4 + 1\<rparr>))"
    using False a(1) unfolding store_replace_alt
    by (simp add: dbm_simps thenM_ok bindM_ok d(1) readptr_busy [OF b2 d(2)])
  moreover have "stored k d M db db4" using a(2) len d(5) by (simp add: stored_def)
  then have "stored k d M db (db4\<lparr>cnt_stor3 := cnt_stor3 db4 + 1\<rparr>)"
    by (rule stored_cong) (use a(2) in \<open>simp_all add: stored_def busy_def\<close>)
  ultimately show ?thesis by blast
qed

text \<open>The contract of \<^verbatim>\<open>db_store\<close>: return code, error number, and the map afterwards.\<close>

definition store_spec :: "(string \<Rightarrow> string option) \<Rightarrow> string \<Rightarrow> string \<Rightarrow> int \<Rightarrow>
    (int \<times> int option) \<times> (string \<Rightarrow> string option)" where
  "store_spec M k d flag =
     (if flag = DB_INSERT \<and> M k \<noteq> None then ((1, None), M)
      else if flag = DB_REPLACE \<and> M k = None then ((-1, Some ENOENT), M)
      else ((0, None), M(k \<mapsto> d)))"

lemma db_store_alt: "flag = DB_INSERT \<or> flag = DB_REPLACE \<or> flag = DB_STORE \<Longrightarrow> data_ok data \<Longrightarrow>
   db_store key data flag db =
        bindM (db_find_and_lock key True) (\<lambda>found.
         bindM (if found < 0 then
                  (if flag = DB_REPLACE
                   then thenM (updM (\<lambda>db. db\<lparr>cnt_storerr := cnt_storerr db + 1\<rparr>)) (retM (-1, Some ENOENT))
                   else thenM (store_new key data) (retM (0, None)))
                else
                  (if flag = DB_INSERT
                   then thenM (updM (\<lambda>db. db\<lparr>cnt_storerr := cnt_storerr db + 1\<rparr>)) (retM (1, None))
                   else thenM (store_replace key data) (retM (0, None)))) release) db"
  by (cases data) (auto simp: db_store_def release_def [abs_def] dbm_simps data_ok_def DATLEN_MIN_def DATLEN_MAX_def)

lemma store_finish:
  assumes "db_rep db M (Suc n)" and "stored k d M db' db''" and "idxfile db' = idxfile db" and "datfile db' = datfile db"
  shows "release rc db'' = Some (Inr (rc, db''\<lparr>locks := []\<rparr>)) \<and> db_rep (db''\<lparr>locks := []\<rparr>) (M(k \<mapsto> d)) n"
proof -
  obtain ps rs ch where g: "good db'' ps rs ch {} (M(k \<mapsto> d))" "busy k True db''"
    using assms(2) by (auto simp: stored_def)
  show ?thesis by (rule finish [OF g(2,1)]) (use assms in \<open>auto simp: stored_def db_rep_def\<close>)
qed

lemma store_ok:
  assumes "db_rep db M (Suc n)" and "key_ok k" and "data_ok d"
    and "flag = DB_INSERT \<or> flag = DB_REPLACE \<or> flag = DB_STORE"
  shows "\<exists>db'. db_store k d flag db = Some (Inr (fst (store_spec M k d flag), db')) \<and>
    db_rep db' (snd (store_spec M k d flag)) n"
proof -
  obtain ps rs ch where g: "good db ps rs ch {} M" using assms(1) by (auto simp: db_rep_def)
  have h: "nhash db = NHASH_DEF" "hashoff db = HASH_OFF" and rep: "db_rep db M n"
    and room: "int (length (idxfile db)) \<le> PTR_MAX" "length (datfile db) < DAT_MAX"
    using assms(1) by (auto simp: db_rep_def)
  have flags: "DB_INSERT \<noteq> DB_REPLACE" "DB_REPLACE \<noteq> DB_STORE" "DB_INSERT \<noteq> DB_STORE"
    by (simp_all add: DB_INSERT_def DB_REPLACE_def DB_STORE_def)
  have err: "release rc (d1\<lparr>cnt_storerr := v\<rparr>) = Some (Inr (rc, d1\<lparr>cnt_storerr := v, locks := []\<rparr>)) \<and>
      db_rep (d1\<lparr>cnt_storerr := v, locks := []\<rparr>) M n" if "core d1 = core (locked k True db)" for rc :: "int \<times> int option" and d1 v
  proof -
    have "good (d1\<lparr>cnt_storerr := v\<rparr>) ps rs ch {} M" by (rule good_cong [OF good_locked [OF g that]]) simp_all
    moreover have "busy k True (d1\<lparr>cnt_storerr := v\<rparr>)" using busy_core [OF that rep] by (simp add: busy_def)
    ultimately show ?thesis
      using core_eqD(1,2) [OF that] rep finish [of k True "d1\<lparr>cnt_storerr := v\<rparr>" ps rs ch M n rc] by (simp add: db_rep_def)
  qed
  show ?thesis
  proof (rule good_cases [OF g, of k])
    assume a: "M k = None" "k \<notin> key_of (recs_at REC_OFF rs) ` set (ch (hash_ix k))"
    obtain db1 where f: "db_find_and_lock k True db = Some (Inr (-1, db1))" "core db1 = core (locked k True db)"
      using find_and_lock_none [OF g h a(2)] by blast
    have F: "idxfile db1 = idxfile db" "datfile db1 = datfile db" using core_eqD(1,2) [OF f(2)] by simp_all
    obtain db2 where s: "store_new k d db1 = Some (Inr ((), db2))" "stored k d M db1 db2"
      using store_new_ok [OF busy_core [OF f(2) rep] good_locked [OF g f(2)] a(1) assms(2,3)] room F by auto
    show ?thesis
      using a(1) err [OF f(2)] store_finish [OF assms(1) s(2) F, of "(0, None) :: int \<times> int option"] flags assms(4) s(1)
      unfolding db_store_alt [OF assms(4,3)] store_spec_def
      by (auto simp: bindM_ok thenM_ok f(1) dbm_simps)
  next
    fix as x bs r
    assume p: "ch (hash_ix k) = as @ x # bs" "recs_at REC_OFF rs x = Some r" "r_key r = k"
      "M k = Some (data_at (datfile db) r)"
    obtain db0 where f: "db_find_and_lock k True db =
        Some (Inr (0, after_read x r (db0\<lparr>ptroff := pred_off (int (7 * hash_ix k)) as\<rparr>)))"
      "core db0 = core (locked k True db)"
      using find_and_lock_found [OF g h p(1-3)] by blast
    define db1 where "db1 = db0\<lparr>ptroff := pred_off (int (7 * hash_ix k)) as\<rparr>"
    have c1: "core db1 = core (locked k True db)" "core (after_read x r db1) = core (locked k True db)"
      by (simp_all add: db1_def f(2))
    have F: "idxfile db1 = idxfile db" "datfile db1 = datfile db" using core_eqD(1,2) [OF c1(1)] by simp_all
    obtain db2 where s: "store_replace k d (after_read x r db1) = Some (Inr ((), db2))" "stored k d M db1 db2"
      using store_replace_ok [OF busy_core [OF c1(1) rep] good_locked [OF g c1(1)] p(1-3) _ assms(2,3)] room F
      by (auto simp: db1_def)
    show ?thesis
      using p(4) err [OF c1(2)] store_finish [OF assms(1) s(2) F, of "(0, None) :: int \<times> int option"] flags assms(4) s(1)
      unfolding db_store_alt [OF assms(4,3)] store_spec_def
      by (auto simp: bindM_ok thenM_ok f(1) [folded db1_def] dbm_simps)
  qed
qed

section \<open>Sequences of calls\<close>

definition call_ok :: "kop \<Rightarrow> bool" where
  "call_ok c = (case c of
     Store k d flag \<Rightarrow> key_ok k \<and> data_ok d \<and> (flag = DB_INSERT \<or> flag = DB_REPLACE \<or> flag = DB_STORE)
   | _ \<Rightarrow> True)"

interpretation apue_db: kv_store db_rep db_fetch db_delete db_store store_spec call_ok
proof unfold_locales
  show "\<exists>s'. db_fetch k s = Some (Inr (M k, s')) \<and> db_rep s' M n" if "db_rep s M n" for s M n k
    using that by (rule fetch_ok)
  show "\<exists>s'. db_delete k s = Some (Inr (if M k = None then -1 else 0, s')) \<and> db_rep s' (M(k := None)) n"
    if "db_rep s M n" for s M n k
    using that by (rule delete_ok)
  show "\<exists>s'. db_store k d flag s = Some (Inr (fst (store_spec M k d flag), s')) \<and>
      db_rep s' (snd (store_spec M k d flag)) n"
    if "db_rep s M (Suc n)" "call_ok (Store k d flag)" for s M n k d flag
    using that by (intro store_ok) (auto simp: call_ok_def)
qed

section \<open>Opening a database\<close>

text \<open>A new database, as \<^verbatim>\<open>db_open\<close> leaves it.\<close>

definition fresh_db :: db where
  "fresh_db = (db_alloc (render (replicate (NHASH_DEF + 1) 0) []) [])\<lparr>nhash := NHASH_DEF, hashoff := HASH_OFF,
     idxpos := REC_OFF, idxoff := int REC_OFF\<rparr>"

lemma good_fresh: "good fresh_db (replicate (NHASH_DEF + 1) 0) [] (\<lambda>_. []) {} (\<lambda>_. None)"
  by (auto simp: good_def fresh_db_def db_alloc_def irep_def PTR_MAX_def dat_ok_def represents_def kd_def
      simp del: replicate_Suc intro!: ch_okI)

lemma rep_fresh: "n \<le> 9000 \<Longrightarrow> db_rep fresh_db (\<lambda>_. None) n"
  using good_fresh good_length [OF good_fresh]
  by (auto simp: db_rep_def PTR_MAX_def DAT_MAX_def REC_OFF_def) (auto simp: fresh_db_def db_alloc_def)

lemma open_fresh: "db_open True (Some []) (Some []) = Some (Inr (Some fresh_db))"
proof -
  have "concat (replicate (NHASH_DEF + 1) (pad PTR_SZ (dec 0))) @ [NEWLINE] = render (replicate (NHASH_DEF + 1) 0) []"
    by (simp add: render_def ptrs_def ptr7_def map_replicate)
  then show ?thesis
    by (simp add: db_open_def dbm_simps sys_defs db_rewind_def Let_def db_alloc_def fresh_db_def splice_def
        NHASH_DEF_def PTR_SZ_def REC_OFF_def)
qed

text \<open>Opening the files of a database again.\<close>

lemma open_again:
  assumes "db_rep db M n"
  shows "\<exists>db'. db_open False (Some (idxfile db)) (Some (datfile db)) = Some (Inr (Some db')) \<and> db_rep db' M n"
proof -
  obtain ps rs ch where g: "good db ps rs ch {} M" using assms by (auto simp: db_rep_def)
  define db' where "db' = (db_alloc (idxfile db) (datfile db))\<lparr>nhash := NHASH_DEF, hashoff := HASH_OFF,
     idxpos := REC_OFF, idxoff := int REC_OFF\<rparr>"
  have "db_open False (Some (idxfile db)) (Some (datfile db)) = Some (Inr (Some db'))"
    by (simp add: db_open_def dbm_simps sys_defs db_rewind_def Let_def db_alloc_def db'_def
        NHASH_DEF_def PTR_SZ_def REC_OFF_def)
  moreover have "good db' ps rs ch {} M" by (rule good_cong [OF g]) (simp_all add: db'_def db_alloc_def)
  then have "db_rep db' M n" using assms by (auto simp: db_rep_def db'_def db_alloc_def)
  ultimately show ?thesis by blast
qed

end
