(* ===== verification/Db_Walk.thy ===== *)
theory Db_Walk
  imports Db
begin

text \<open>
  Walking through a database with \<^verbatim>\<open>db_rewind\<close> and \<^verbatim>\<open>db_nextrec\<close>: the index file is read from the first
  record to the last, and the records with a blank key are skipped. The properties of the database
  library follow.
\<close>

section \<open>The records in the order of the file\<close>

definition live :: "arec \<Rightarrow> bool" where
  "live r \<longleftrightarrow> \<not> blank (r_key r)"

lemma map_eqI:
  assumes "\<And>k v. f k = Some v \<longleftrightarrow> g k = Some v"
  shows "f = g"
proof (rule ext)
  fix k
  show "f k = g k" using assms [of k "the (f k)"] assms [of k "the (g k)"] by (cases "f k"; cases "g k") auto
qed

lemma recs_at_append: "recs_at b (as @ r # bs) (b + recs_len as) = Some r"
proof (induction as arbitrary: b)
  case (Cons a as)
  show ?case using Cons [of "b + length (rrec a)"] by (simp add: add.assoc)
qed simp

lemma recs_at_in: "recs_at b rs x = Some r \<Longrightarrow> r \<in> set rs"
  using recs_at_split by fastforce

lemma distinct_live:
  assumes "\<And>x y r s. recs_at b rs x = Some r \<Longrightarrow> recs_at b rs y = Some s \<Longrightarrow> live r \<Longrightarrow> r_key r = r_key s \<Longrightarrow> x = y"
  shows "distinct (map r_key (filter live rs))"
  using assms
proof (induction rs arbitrary: b)
  case (Cons r rs)
  let ?b = "b + length (rrec r)"
  have old: "recs_at b (r # rs) x = Some s" if "recs_at ?b rs x = Some s" for x s
    using recs_at_ge [OF that] that by (auto simp: rrec_def body_def)
  have "distinct (map r_key (filter live rs))"
    by (rule Cons.IH [of ?b]) (use Cons.prems old in blast)
  moreover have "r_key s \<noteq> r_key r" if "s \<in> set rs" "live r" for s
  proof
    assume k: "r_key s = r_key r"
    obtain as bs where "rs = as @ s # bs" using \<open>s \<in> set rs\<close> by (meson split_list)
    then have s: "recs_at ?b rs (?b + recs_len as) = Some s" by (simp add: recs_at_append)
    have "recs_at b (r # rs) b = Some r" by simp
    then have "b = ?b + recs_len as" using Cons.prems [OF _ old [OF s]] k \<open>live r\<close> by simp
    then show False using rrec_nonempty(2) [of r] by linarith
  qed
  ultimately show ?case by (auto simp del: rrec_nonempty) (metis)
qed simp

lemma good_walk:
  assumes "good db ps rs ch {} M"
  shows "distinct (map r_key (filter live rs))"
    and "map_of (map (\<lambda>r. (r_key r, data_at (datfile db) r)) (filter live rs)) = M"
proof -
  let ?kvs = "map (\<lambda>r. (r_key r, data_at (datfile db) r)) (filter live rs)"
  show d: "distinct (map r_key (filter live rs))"
    by (rule distinct_live [of REC_OFF]) (use ch_ok_unique [OF goodD(2) [OF assms]] in \<open>auto simp: live_def\<close>)
  then have "distinct (map fst ?kvs)" by (simp add: comp_def)
  then have "map_of ?kvs k = Some v \<longleftrightarrow> (k, v) \<in> set ?kvs" for k v by (rule map_of_eq_Some_iff)
  moreover have "(k, v) \<in> set ?kvs \<longleftrightarrow> M k = Some v" for k v
  proof
    assume "(k, v) \<in> set ?kvs"
    then obtain r where r: "r \<in> set rs" "live r" "r_key r = k" "data_at (datfile db) r = v" by auto
    obtain as bs where "rs = as @ r # bs" using r(1) by (meson split_list)
    then have "recs_at REC_OFF rs (REC_OFF + recs_len as) = Some r" by (simp add: recs_at_append)
    then have "kd (datfile db) (recs_at REC_OFF rs) (REC_OFF + recs_len as) = Some (k, v)"
      using r(3,4) by (simp add: kd_def)
    from representsD [OF goodD(4) [OF assms] this] show "M k = Some v"
      using r(2,3) by (simp add: live_def)
  next
    assume "M k = Some v"
    then obtain x where "\<not> blank k" "kd (datfile db) (recs_at REC_OFF rs) x = Some (k, v)"
      using goodD(4) [OF assms] by (auto simp: represents_def)
    then obtain r where "recs_at REC_OFF rs x = Some r" "r_key r = k" "data_at (datfile db) r = v" "\<not> blank k"
      by (auto simp: kd_def)
    then show "(k, v) \<in> set ?kvs" using recs_at_in by (auto simp: live_def)
  qed
  ultimately have "map_of ?kvs k = Some v \<longleftrightarrow> M k = Some v" for k v by simp
  then show "map_of ?kvs = M" by (rule map_eqI)
qed

section \<open>\<^verbatim>\<open>db_nextrec\<close>\<close>

text \<open>The file is positioned behind the records \<open>as\<close>.\<close>

definition at_recs :: "db \<Rightarrow> nat list \<Rightarrow> arec list \<Rightarrow> arec list \<Rightarrow> bool" where
  "at_recs db ps as bs \<longleftrightarrow> irep db ps (as @ bs) \<and> idxpos db = REC_OFF + recs_len as"

lemma readidx_next:
  assumes "at_recs db ps as (r # bs)"
  shows "db_readidx 0 db = Some (Inr (int (r_ptr r), after_read (REC_OFF + recs_len as) r db))"
    and "at_recs (after_read (REC_OFF + recs_len as) r db) ps (as @ [r]) bs"
    and "cstr (split_buf r) = r_key r"
proof -
  have i: "irep db ps (as @ r # bs)" and p: "idxpos db = REC_OFF + recs_len as"
    using assms by (simp_all add: at_recs_def)
  have r: "recs_at REC_OFF (as @ r # bs) (REC_OFF + recs_len as) = Some r" by (rule recs_at_append)
  obtain a c where f: "idxfile db = a @ rrec r @ c" "length a = REC_OFF + recs_len as" "rec_ok r"
    using irep_rec [OF i r] by metis
  show "db_readidx 0 db = Some (Inr (int (r_ptr r), after_read (REC_OFF + recs_len as) r db))"
    using db_readidx_spec [OF f(1,3), of 0] f(2) p by simp
  show "at_recs (after_read (REC_OFF + recs_len as) r db) ps (as @ [r]) bs"
    using i by (auto simp: at_recs_def after_read_def irep_def)
  show "cstr (split_buf r) = r_key r" by (rule cstr_split_buf [OF f(3)])
qed

lemma readidx_eof:
  assumes "at_recs db ps as []"
  shows "db_readidx 0 db = Some (Inr (-1, db\<lparr>idxoff := int (idxpos db)\<rparr>))"
proof -
  have "drop (idxpos db) (idxfile db) = []"
    using assms irep_length [of db ps as] by (simp add: at_recs_def)
  then show ?thesis by (simp add: db_readidx_def dbm_simps sys_defs PTR_SZ_def)
qed

lemma nextrec_loop_spec:
  assumes "at_recs db ps as bs"
  shows "(filter live bs = [] \<and> (\<exists>db'. nextrec_loop db = Some (Inr (False, db')) \<and> core db' = core db)) \<or>
    (\<exists>bs1 r bs2 db'. bs = bs1 @ r # bs2 \<and> filter live bs1 = [] \<and> live r \<and>
       nextrec_loop db = Some (Inr (True, after_read (REC_OFF + recs_len (as @ bs1)) r db')) \<and> core db' = core db \<and>
       at_recs (after_read (REC_OFF + recs_len (as @ bs1)) r db') ps (as @ bs1 @ [r]) bs2)"
  using assms
proof (induction bs arbitrary: as db)
  case Nil
  then show ?case using readidx_eof [OF Nil] by (subst nextrec_loop.simps) simp
next
  case (Cons r bs)
  note n = readidx_next [OF Cons.prems]
  let ?db = "after_read (REC_OFF + recs_len as) r db"
  show ?case
  proof (cases "live r")
    case True
    have "nextrec_loop db = Some (Inr (True, ?db))"
      using True n(1,3) by (subst nextrec_loop.simps) (auto simp: live_def blank_def)
    then show ?thesis
      using True n(2) by (intro disjI2 exI [of _ "[]"] exI [of _ r] exI [of _ bs] exI [of _ db]) simp
  next
    case False
    have e: "nextrec_loop db = nextrec_loop ?db"
      using False n(1,3) by (subst nextrec_loop.simps) (auto simp: live_def blank_def)
    show ?thesis
    proof (cases "filter live bs = []")
      case True
      then show ?thesis using Cons.IH [OF n(2)] e False by (auto dest: filter_eq_ConsD)
    next
      case no: False
      obtain bs1 s bs2 db' where i: "bs = bs1 @ s # bs2" "filter live bs1 = []" "live s"
        "nextrec_loop ?db = Some (Inr (True, after_read (REC_OFF + recs_len ((as @ [r]) @ bs1)) s db'))" "core db' = core ?db"
        "at_recs (after_read (REC_OFF + recs_len ((as @ [r]) @ bs1)) s db') ps ((as @ [r]) @ bs1 @ [s]) bs2"
        using Cons.IH [OF n(2)] no by metis
      show ?thesis
        using i e False
        by (intro disjI2 exI [of _ "r # bs1"] exI [of _ s] exI [of _ bs2] exI [of _ db']) (simp add: add.assoc)
    qed
  qed
qed

lemma nextrec_spec:
  assumes "at_recs db ps as bs" and "locks db = []" and "dat_ok (datfile db) (recs_at REC_OFF (as @ bs))"
  shows "(filter live bs = [] \<and> (\<exists>db'. db_nextrec db = Some (Inr (None, db')) \<and> meta db' = meta db \<and>
       idxfile db' = idxfile db \<and> datfile db' = datfile db)) \<or>
    (\<exists>r bs2 as' db'. as @ bs = as' @ bs2 \<and> filter live bs = r # filter live bs2 \<and> length bs2 < length bs \<and>
       db_nextrec db = Some (Inr (Some (r_key r, data_at (datfile db) r), db')) \<and> at_recs db' ps as' bs2 \<and>
       meta db' = meta (db\<lparr>cnt_nextrec := cnt_nextrec db + 1\<rparr>) \<and> idxfile db' = idxfile db \<and> datfile db' = datfile db)"
proof -
  define d1 where "d1 = db\<lparr>locks := [Lk True FREE_OFF 1 False]\<rparr>"
  have a1: "at_recs d1 ps as bs" using assms(1) by (simp add: at_recs_def d1_def irep_def)
  have lock: "thenM (lockM (Lk True FREE_OFF 1 False)) f db = f d1" for f :: "(string \<times> string) option dbm"
    by (simp add: dbm_simps lockM_def d1_def assms(2))
  show ?thesis
  proof (cases "filter live bs = []")
    case True
    then obtain d2 where d2: "nextrec_loop d1 = Some (Inr (False, d2))" "core d2 = core d1"
      using nextrec_loop_spec [OF a1] by auto
    have l: "locks d2 = [Lk True FREE_OFF 1 False]" using core_eqD(6) [OF d2(2)] by (simp add: d1_def)
    have "db_nextrec db = Some (Inr (None, d2\<lparr>locks := []\<rparr>))"
      unfolding db_nextrec_def lock by (simp add: bindM_ok [of nextrec_loop d1 False d2, OF d2(1)] dbm_simps un_lock_def l)
    moreover have "meta (d2\<lparr>locks := locks db\<rparr>) = meta db"
      by (rule meta_locks) (use meta_core [OF d2(2)] in \<open>simp add: d1_def\<close>)
    ultimately show ?thesis using True core_eqD(1,2) [OF d2(2)] assms(2) by (simp add: d1_def)
  next
    case False
    then obtain bs1 r bs2 d2 where n: "bs = bs1 @ r # bs2" "filter live bs1 = []" "live r"
      "nextrec_loop d1 = Some (Inr (True, after_read (REC_OFF + recs_len (as @ bs1)) r d2))" "core d2 = core d1"
      "at_recs (after_read (REC_OFF + recs_len (as @ bs1)) r d2) ps (as @ bs1 @ [r]) bs2"
      using nextrec_loop_spec [OF a1] by auto
    define d3 where "d3 = after_read (REC_OFF + recs_len (as @ bs1)) r d2"
    have c3: "core d3 = core d1" by (simp add: d3_def n(5))
    have "recs_at REC_OFF (as @ bs) (REC_OFF + recs_len (as @ bs1)) = Some r"
      using recs_at_append [of REC_OFF "as @ bs1" r bs2] n(1) by simp
    note reg = dat_okD(1) [OF assms(3) this]
    obtain a d c where D: "datfile db = a @ d @ NEWLINE # c" "r_off r = length a" "r_len r = length d + 1"
      "NUL \<notin> set d" "data_at (datfile db) r = d" by (rule region_okE [OF reg])
    have D3: "datfile d3 = datfile db" "idxfile d3 = idxfile db" "locks d3 = [Lk True FREE_OFF 1 False]"
      using core_eqD [OF c3] by (simp_all add: d1_def)
    define d4 where "d4 = d3\<lparr>datpos := length a + length d + 1, datbuf := d @ [NUL]\<rparr>"
    have rd: "db_readdat d3 = Some (Inr (d, d4))"
      unfolding d4_def using D D3 by (intro db_readdat_spec [of _ _ _ c]) (auto simp: d3_def)
    have ir: "irep db ps (as @ bs)" using assms(1) by (simp add: at_recs_def)
    have "rec_ok r" using ir n(1) by (simp add: irep_def)
    then have key: "cstr (idxbuf d3) = r_key r" by (simp add: d3_def cstr_split_buf)
    define d5 where "d5 = d4\<lparr>cnt_nextrec := cnt_nextrec d4 + 1, locks := []\<rparr>"
    have run: "db_nextrec db = Some (Inr (Some (r_key r, d), d5))"
      unfolding db_nextrec_def lock
      by (simp add: bindM_ok [of nextrec_loop d1 True d3, OF n(4) [folded d3_def]] bindM_ok dbm_simps un_lock_def rd key d5_def)
        (simp add: d4_def D3(3))
    have "at_recs d5 ps (as @ bs1 @ [r]) bs2"
      using n(6) by (simp add: at_recs_def d5_def d4_def d3_def irep_def)
    moreover have "meta d5 = meta (db\<lparr>cnt_nextrec := cnt_nextrec db + 1\<rparr>)"
    proof -
      have "core d3 = core (db\<lparr>locks := [Lk True FREE_OFF 1 False]\<rparr>)" using c3 by (simp add: d1_def)
      then show ?thesis
        using assms(2) unfolding d5_def d4_def by (cases db; cases d3) (simp add: meta_def core_def)
    qed
    ultimately show ?thesis
      using run n(1-3) D(5) D3(1,2) by (intro disjI2 exI [of _ r] exI [of _ bs2] exI [of _ "as @ bs1 @ [r]"] exI [of _ d5])
        (simp add: d5_def d4_def)
  qed
qed

text \<open>The loop of a user of the library: \<^verbatim>\<open>db_nextrec\<close> until it returns a null pointer.\<close>

partial_function (option) db_walk :: "db \<Rightarrow> (string + (string \<times> string) list \<times> db) option" where
  "db_walk db = (case db_nextrec db of
     None \<Rightarrow> None
   | Some (Inl e) \<Rightarrow> Some (Inl e)
   | Some (Inr (None, db1)) \<Rightarrow> Some (Inr ([], db1))
   | Some (Inr (Some kv, db1)) \<Rightarrow> Option.bind (db_walk db1) (\<lambda>res. case res of
       Inl e \<Rightarrow> Some (Inl e)
     | Inr (kvs, db2) \<Rightarrow> Some (Inr (kv # kvs, db2))))"

declare db_walk.simps [code]

lemma walk_spec:
  assumes "at_recs db ps as bs" and "locks db = []" and "dat_ok (datfile db) (recs_at REC_OFF (as @ bs))"
  shows "\<exists>db'. db_walk db = Some (Inr (map (\<lambda>r. (r_key r, data_at (datfile db) r)) (filter live bs), db')) \<and>
    locks db' = [] \<and> nhash db' = nhash db \<and> hashoff db' = hashoff db \<and> idxfile db' = idxfile db \<and> datfile db' = datfile db"
  using assms
proof (induction "length bs" arbitrary: db as bs rule: less_induct)
  case less
  show ?case
  proof (cases "filter live bs = []")
    case True
    then obtain db' where d: "db_nextrec db = Some (Inr (None, db'))" "meta db' = meta db" "idxfile db' = idxfile db"
      "datfile db' = datfile db" using nextrec_spec [OF less.prems] by auto
    then show ?thesis
      using True meta_eqD [OF d(2)] less.prems(2) by (subst db_walk.simps) simp
  next
    case False
    then obtain r bs2 as' db1 where n: "as @ bs = as' @ bs2" "filter live bs = r # filter live bs2" "length bs2 < length bs"
      "db_nextrec db = Some (Inr (Some (r_key r, data_at (datfile db) r), db1))" "at_recs db1 ps as' bs2"
      "meta db1 = meta (db\<lparr>cnt_nextrec := cnt_nextrec db + 1\<rparr>)" "idxfile db1 = idxfile db" "datfile db1 = datfile db"
      using nextrec_spec [OF less.prems] by metis
    have l: "locks db1 = []" "nhash db1 = nhash db" "hashoff db1 = hashoff db"
      using meta_eqD [OF n(6)] less.prems(2) by simp_all
    obtain db2 where "db_walk db1 = Some (Inr (map (\<lambda>r. (r_key r, data_at (datfile db) r)) (filter live bs2), db2))"
      "locks db2 = []" "nhash db2 = nhash db" "hashoff db2 = hashoff db" "idxfile db2 = idxfile db" "datfile db2 = datfile db"
      using less.hyps [OF n(3,5) l(1)] less.prems(3) n(1,7,8) l by auto
    then show ?thesis using n(2,4) by (subst db_walk.simps) simp
  qed
qed

lemma rewind_walk:
  assumes "db_rep db M n"
  shows "\<exists>kvs db'. thenM db_rewind db_walk db = Some (Inr (kvs, db')) \<and> distinct (map fst kvs) \<and> map_of kvs = M \<and>
    db_rep db' M n"
proof -
  obtain ps rs ch where g: "good db ps rs ch {} M" using assms by (auto simp: db_rep_def)
  define db1 where "db1 = db\<lparr>idxpos := REC_OFF, idxoff := int REC_OFF\<rparr>"
  have h: "nhash db = NHASH_DEF" "locks db = []" using assms by (auto simp: db_rep_def)
  then have rew: "db_rewind db = Some (Inr ((), db1))"
    by (simp add: db_rewind_def dbm_simps sys_defs NHASH_DEF_def PTR_SZ_def REC_OFF_def db1_def)
  have "at_recs db1 ps [] rs" using goodD(1) [OF g] by (simp add: at_recs_def db1_def irep_def)
  then obtain db2 where w: "db_walk db1 = Some (Inr (map (\<lambda>r. (r_key r, data_at (datfile db) r)) (filter live rs), db2))"
    "locks db2 = []" "nhash db2 = nhash db" "hashoff db2 = hashoff db" "idxfile db2 = idxfile db" "datfile db2 = datfile db"
    using walk_spec [of db1 ps "[]" rs] goodD(3) [OF g] h(2) by (auto simp: db1_def)
  have "good db2 ps rs ch {} M" by (rule good_cong [OF g w(5,6)])
  then have "db_rep db2 M n" using assms w by (auto simp: db_rep_def)
  then show ?thesis using w(1) rew good_walk [OF g] by (auto simp: thenM_ok comp_def)
qed

section \<open>Properties of the library\<close>

lemma small_ok: "key_ok ''a''" "data_ok ''x''" "data_ok ''y''" "data_ok ''yz''"
  by (simp_all add: key_ok_def data_ok_def blank_def NUL_def SEP_def SPACE_def)

lemma one_record: "\<exists>db. db_rep db [''a'' \<mapsto> ''x''] 10"
proof -
  have "store_spec (\<lambda>_. None) ''a'' ''x'' DB_INSERT = ((0, None), [''a'' \<mapsto> ''x''])"
    by (simp add: store_spec_def DB_INSERT_def DB_REPLACE_def)
  then show ?thesis using store_ok [OF rep_fresh [of "Suc 10"] small_ok(1,2), of DB_INSERT] by auto
qed

text \<open>\<^verbatim>\<open>db_fetch\<close> always ends, without a dump, and returns the data of the key, or a null pointer if the
  key is not in the database; the contents stay as they are and no lock is left.\<close>

theorem db_fetch_correct:
  assumes "db_rep db M n"
  shows "\<exists>db'. db_fetch k db = Some (Inr (M k, db')) \<and> db_rep db' M n"
  by (rule fetch_ok [OF assms])

theorem db_fetch_correct_witness:
  "\<exists>db db'. db_rep db [''a'' \<mapsto> ''x''] 10 \<and> db_fetch ''a'' db = Some (Inr (Some ''x'', db'))"
proof -
  obtain db where "db_rep db [''a'' \<mapsto> ''x''] 10" using one_record by blast
  then show ?thesis using db_fetch_correct [of db "[''a'' \<mapsto> ''x'']" 10 "''a''"] by auto
qed

text \<open>\<^verbatim>\<open>db_delete\<close> always ends, without a dump: it removes the key and returns 0, or returns -1 if the key
  is not there; no other key is touched and no lock is left.\<close>

theorem db_delete_correct:
  assumes "db_rep db M n"
  shows "\<exists>db'. db_delete k db = Some (Inr (if M k = None then -1 else 0, db')) \<and> db_rep db' (M(k := None)) n"
  by (rule delete_ok [OF assms])

theorem db_delete_correct_witness:
  "\<exists>db db'. db_rep db [''a'' \<mapsto> ''x''] 10 \<and> db_delete ''a'' db = Some (Inr (0, db')) \<and> db_rep db' (\<lambda>_. None) 10"
proof -
  obtain db where "db_rep db [''a'' \<mapsto> ''x''] 10" using one_record by blast
  moreover have "[''a'' \<mapsto> ''x''](''a'' := None) = (\<lambda>_. None)" by auto
  ultimately show ?thesis using db_delete_correct [of db "[''a'' \<mapsto> ''x'']" 10 "''a''"] by auto
qed

text \<open>C18. \<^verbatim>\<open>db_store\<close> with a key and data that fit, and room in the files, keeps to the contract of its flag:
  an insertion of a key that is there returns 1, a replacement of a key that is not there returns -1
  with \<^verbatim>\<open>ENOENT\<close>, and otherwise the data becomes the data of the key, whether the record is appended, put into
  a deleted record of the same size, overwritten, or deleted and appended.\<close>

theorem db_store_correct:
  assumes "db_rep db M (Suc n)" and "key_ok k" and "data_ok d"
    and "flag = DB_INSERT \<or> flag = DB_REPLACE \<or> flag = DB_STORE"
  shows "\<exists>db'. db_store k d flag db = Some (Inr (fst (store_spec M k d flag), db')) \<and>
    db_rep db' (snd (store_spec M k d flag)) n"
  by (rule store_ok [OF assms])

theorem db_store_correct_witness:
  "\<exists>db db'. db_rep db [''a'' \<mapsto> ''x''] 10 \<and> db_store ''a'' ''yz'' DB_REPLACE db = Some (Inr ((0, None), db')) \<and>
    db_rep db' [''a'' \<mapsto> ''yz''] 9"
proof -
  obtain db where "db_rep db [''a'' \<mapsto> ''x''] 10" using one_record by blast
  moreover have "store_spec [''a'' \<mapsto> ''x''] ''a'' ''yz'' DB_REPLACE = ((0, None), [''a'' \<mapsto> ''yz''])"
    by (simp add: store_spec_def DB_INSERT_def DB_REPLACE_def)
  ultimately show ?thesis
    using db_store_correct [of db "[''a'' \<mapsto> ''x'']" 9 "''a''" "''yz''" DB_REPLACE] small_ok by auto
qed

text \<open>C1. A database that \<^verbatim>\<open>db_open\<close> has created behaves as a map: any sequence of calls, with at most
  9000 stores among them, returns what the calls return on a map that is empty at first.\<close>

theorem db_behaves_as_map:
  assumes "\<forall>c \<in> set cs. call_ok c" and "stores cs \<le> 9000"
  shows "\<exists>db db'. db_open True (Some []) (Some []) = Some (Inr (Some db)) \<and>
    run_ops (do_op db_fetch db_delete db_store) cs db =
      Some (Inr (fst (map_ops (map_op store_spec) cs (\<lambda>_. None)), db'))"
proof -
  have "db_rep fresh_db (\<lambda>_. None) (stores cs + 0)" using rep_fresh assms(2) by simp
  then show ?thesis using apue_db.run_refines [OF _ assms(1)] open_fresh by blast
qed

theorem db_behaves_as_map_witness:
  "\<exists>db db'. db_open True (Some []) (Some []) = Some (Inr (Some db)) \<and>
    run_ops (do_op db_fetch db_delete db_store)
      [Store ''a'' ''x'' DB_INSERT, Store ''a'' ''y'' DB_INSERT, Delete ''a'', Fetch ''a''] db =
      Some (Inr ([Stored (0, None), Stored (1, None), Deleted 0, Fetched None], db'))"
  using db_behaves_as_map [of "[Store ''a'' ''x'' DB_INSERT, Store ''a'' ''y'' DB_INSERT, Delete ''a'', Fetch ''a'']"]
  by (simp add: call_ok_def store_spec_def small_ok DB_INSERT_def DB_REPLACE_def DB_STORE_def)

text \<open>C19. The files keep the contents: when they are opened again, the database is the same map.\<close>

theorem db_reopen:
  assumes "db_rep db M n"
  shows "\<exists>db'. db_open False (Some (idxfile db)) (Some (datfile db)) = Some (Inr (Some db')) \<and> db_rep db' M n"
  by (rule open_again [OF assms])

theorem db_reopen_witness:
  "\<exists>db db'. db_rep db [''a'' \<mapsto> ''x''] 10 \<and>
    db_open False (Some (idxfile db)) (Some (datfile db)) = Some (Inr (Some db')) \<and> db_rep db' [''a'' \<mapsto> ''x''] 10"
proof -
  obtain db where "db_rep db [''a'' \<mapsto> ''x''] 10" using one_record by blast
  then show ?thesis using db_reopen [of db "[''a'' \<mapsto> ''x'']" 10] by blast
qed

text \<open>C20. After \<^verbatim>\<open>db_rewind\<close>, repeated calls of \<^verbatim>\<open>db_nextrec\<close> end, and they return every key of the database
  exactly once, with its data.\<close>

theorem db_walk_complete:
  assumes "db_rep db M n"
  shows "\<exists>kvs db'. thenM db_rewind db_walk db = Some (Inr (kvs, db')) \<and> distinct (map fst kvs) \<and>
    map_of kvs = M \<and> db_rep db' M n"
  by (rule rewind_walk [OF assms])

theorem db_walk_complete_witness:
  "\<exists>db kvs db'. db_rep db [''a'' \<mapsto> ''x''] 10 \<and> thenM db_rewind db_walk db = Some (Inr (kvs, db')) \<and>
    map_of kvs = [''a'' \<mapsto> ''x'']"
proof -
  obtain db where "db_rep db [''a'' \<mapsto> ''x''] 10" using one_record by blast
  then show ?thesis using db_walk_complete [of db "[''a'' \<mapsto> ''x'']" 10] by blast
qed

end
