(* ===== verification/Inet4.thy ===== *)
theory Inet4
  imports Cstring "HOL-Library.Word"
begin

text \<open>
  IPv4 addresses as text: \<^verbatim>\<open>inet_pton4\<close> and \<^verbatim>\<open>inet_ntop4\<close> of \<^verbatim>\<open>unpv13e/libfree\<close>, and the older
  \<^verbatim>\<open>inet_aton\<close>. Strings are given without their terminator, addresses as lists of bytes.
\<close>

unbundle bit_operations_syntax

section \<open>The functions\<close>

definition DOT :: char where "DOT = CHR ''.''"

text \<open>The loop of \<^verbatim>\<open>inet_pton4\<close>. The array \<open>tmp\<close> is given up to the byte that \<^verbatim>\<open>tp\<close> points to.\<close>

fun pton4_loop :: "string \<Rightarrow> bool \<Rightarrow> nat \<Rightarrow> 8 word list \<Rightarrow> 8 word list option" where
  "pton4_loop [] saw_digit octets tmp = (if octets < 4 then None else Some tmp)"
| "pton4_loop (ch # src) saw_digit octets tmp =
     (if isdigit ch then
        (let new = unat (last tmp) * 10 + digit_val ch in
         if new > 255 then None
         else if \<not> saw_digit then
           (if octets + 1 > 4 then None else pton4_loop src True (octets + 1) (butlast tmp @ [of_nat new]))
         else pton4_loop src saw_digit octets (butlast tmp @ [of_nat new]))
      else if ch = DOT \<and> saw_digit then
        (if octets = 4 then None else pton4_loop src False octets (tmp @ [0]))
      else None)"

definition inet_pton4 :: "string \<Rightarrow> 8 word list option" where
  "inet_pton4 src = pton4_loop src False 0 [0]"

definition fmt4 :: "8 word list \<Rightarrow> string" where
  "fmt4 src = dec (unat (src ! 0)) @ [DOT] @ dec (unat (src ! 1)) @ [DOT] @ dec (unat (src ! 2)) @ [DOT] @
     dec (unat (src ! 3))"

text \<open>\<open>None\<close> is the null pointer with \<^verbatim>\<open>ENOSPC\<close>; otherwise the string that is copied to the destination.\<close>

definition inet_ntop4 :: "8 word list \<Rightarrow> nat \<Rightarrow> string option" where
  "inet_ntop4 src size' = (let tmp = fmt4 src in if length tmp > size' then None else Some tmp)"

text \<open>\<^verbatim>\<open>inet_aton\<close> with 64 bit numbers; the result is the address in host order. The terminator of the string
  goes through the loop as well.\<close>

fun aton_loop :: "string \<Rightarrow> nat \<Rightarrow> 64 word \<Rightarrow> 64 word \<Rightarrow> (nat \<times> 64 word) option" where
  "aton_loop [] dots acc addr =
     (if acc > 255 then None else Some (dots, push_bit 8 addr OR acc))"
| "aton_loop (cc # cp) dots acc addr =
     (if isdigit cc then aton_loop cp dots (acc * 10 + of_nat (digit_val cc)) addr
      else if cc = DOT then
        (if dots + 1 > 3 then None
         else if acc > 255 then None
         else aton_loop cp (dots + 1) 0 (push_bit 8 addr OR acc))
      else None)"

definition inet_aton :: "string \<Rightarrow> 64 word option" where
  "inet_aton cp = (case aton_loop cp 0 0 0 of
     None \<Rightarrow> None
   | Some (dots, addr) \<Rightarrow> Some (if dots < 3 then push_bit (8 * (3 - dots)) addr else addr))"

section \<open>Dotted quads\<close>

text \<open>The reference: the string is split at the dots.\<close>

fun split :: "char \<Rightarrow> string \<Rightarrow> string list" where
  "split c [] = [[]]"
| "split c (x # xs) = (if x = c then [] # split c xs else (x # hd (split c xs)) # tl (split c xs))"

definition octet :: "string \<Rightarrow> bool" where
  "octet t \<longleftrightarrow> t \<noteq> [] \<and> (\<forall>c \<in> set t. isdigit c) \<and> digits_val t \<le> 255"

definition dotted_quad :: "string \<Rightarrow> 8 word list option" where
  "dotted_quad s = (let ts = split DOT s in
     if length ts = 4 \<and> (\<forall>t \<in> set ts. octet t) then Some (map (\<lambda>t. of_nat (digits_val t)) ts) else None)"

lemma split_nonempty [simp]: "split c s \<noteq> []"
  by (cases s) auto

lemma split_length: "0 < length (split c s)"
  by simp

lemma split_hd_tl [simp]: "hd (split c s) # tl (split c s) = split c s"
  by simp

lemma split_append: "c \<notin> set t \<Longrightarrow> split c (t @ c # s) = t # split c s" "c \<notin> set t \<Longrightarrow> split c t = [t]"
  by (induction t) auto

lemma digits_val_mono: "digits_val t \<le> digits_val (t @ u)"
  by (induction u rule: rev_induct) (auto simp: digits_val_snoc simp flip: append_assoc)

lemma not_octet: "digits_val t > 255 \<Longrightarrow> \<not> octet (t @ u)"
  using digits_val_mono [of t u] by (simp add: octet_def)

lemma isdigit_not_DOT: "isdigit c \<Longrightarrow> c \<noteq> DOT"
  by (auto simp: isdigit_def DOT_def)

text \<open>The loop has copied \<open>ys\<close> and read \<open>t\<close> of the current number.\<close>

lemma pton4_loop_ref:
  assumes "\<forall>c \<in> set t. isdigit c" and "digits_val t \<le> 255" and "length ys \<le> 3"
  shows "pton4_loop s (t \<noteq> []) (length ys + (if t = [] then 0 else 1)) (ys @ [of_nat (digits_val t)]) =
    (let ts = (t @ hd (split DOT s)) # tl (split DOT s) in
     if length ys + length ts = 4 \<and> (\<forall>t \<in> set ts. octet t)
     then Some (ys @ map (\<lambda>t. of_nat (digits_val t)) ts) else None)"
  using assms
proof (induction s arbitrary: t ys)
  case Nil
  then show ?case by (auto simp: octet_def)
next
  case (Cons c s)
  consider (digit) "isdigit c" | (dot) "c = DOT" "\<not> isdigit c" | (other) "c \<noteq> DOT" "\<not> isdigit c" by blast
  then show ?case
  proof cases
    case digit
    have c: "c \<noteq> DOT" by (rule isdigit_not_DOT [OF digit])
    have new: "unat (of_nat (digits_val t) :: 8 word) * 10 + digit_val c = digits_val (t @ [c])"
      using Cons.prems(2) by (simp add: unat_of_nat digits_val_snoc)
    show ?thesis
    proof (cases "digits_val (t @ [c]) > 255")
      case True
      then show ?thesis using digit new c not_octet [OF True, of "hd (split DOT s)"] by (simp add: Let_def)
    next
      case False
      have "pton4_loop (c # s) (t \<noteq> []) (length ys + (if t = [] then 0 else 1)) (ys @ [of_nat (digits_val t)]) =
          pton4_loop s True (length ys + 1) (ys @ [of_nat (digits_val (t @ [c]))])"
        using digit new False Cons.prems(3) by (auto simp: Let_def)
      moreover have "\<dots> = (let ts = ((t @ [c]) @ hd (split DOT s)) # tl (split DOT s) in
          if length ys + length ts = 4 \<and> (\<forall>t \<in> set ts. octet t)
          then Some (ys @ map (\<lambda>t. of_nat (digits_val t)) ts) else None)"
        using Cons.IH [of "t @ [c]" ys] Cons.prems digit False by simp
      ultimately show ?thesis using c by simp
    qed
  next
    case dot
    show ?thesis
    proof (cases "t = []")
      case True
      then show ?thesis using dot by (simp add: octet_def Let_def)
    next
      case t: False
      have o: "octet t" using Cons.prems t by (simp add: octet_def)
      show ?thesis
      proof (cases "length ys = 3")
        case True
        have "length (split DOT s) \<noteq> 0" by simp
        then show ?thesis using dot t True by (simp add: Let_def)
      next
        case False
        have "pton4_loop (c # s) (t \<noteq> []) (length ys + (if t = [] then 0 else 1)) (ys @ [of_nat (digits_val t)]) =
            pton4_loop s False (length (ys @ [of_nat (digits_val t)])) ((ys @ [of_nat (digits_val t)]) @ [of_nat (digits_val [])])"
          using dot t False by (simp add: digits_val_def)
        moreover have "\<dots> = (let ts = split DOT s in if length (ys @ [of_nat (digits_val t)]) + length ts = 4 \<and> (\<forall>t \<in> set ts. octet t)
          then Some ((ys @ [of_nat (digits_val t)]) @ map (\<lambda>t. of_nat (digits_val t)) ts) else None)"
          using Cons.IH [of "[]" "ys @ [of_nat (digits_val t)]"] Cons.prems(3) False
          by (simp add: digits_val_def Let_def)
        ultimately show ?thesis using dot o by (simp add: Let_def)
      qed
    qed
  next
    case other
    then have "\<not> octet (t @ hd (split DOT (c # s)))" by (simp add: octet_def)
    then show ?thesis using other by (simp add: Let_def)
  qed
qed

lemma inet_pton4_ref: "inet_pton4 s = dotted_quad s"
  using pton4_loop_ref [of "[]" "[]" s] by (simp add: inet_pton4_def dotted_quad_def digits_val_def Let_def)

lemma unat8: "unat (b :: 8 word) < 256"
proof -
  have "unat b < 2 ^ LENGTH(8)" by (rule unsigned_less)
  then show ?thesis by simp
qed

lemma dec_no_DOT: "DOT \<notin> set (dec n)"
  using dec_digits isdigit_not_DOT by blast

lemma octet_dec: "octet (dec (unat (b :: 8 word)))"
  using unat8 [of b] by (auto simp: octet_def dest: dec_digits)

lemma split_fmt4: "split DOT (fmt4 src) = map (\<lambda>i. dec (unat (src ! i))) [0, 1, 2, 3]"
  by (simp add: fmt4_def split_append dec_no_DOT)

lemma pton4_fmt4: "length src = 4 \<Longrightarrow> inet_pton4 (fmt4 src) = Some src"
proof -
  assume "length src = 4"
  then have "src = [src ! 0, src ! 1, src ! 2, src ! 3]" by (auto simp: numeral_eq_Suc length_Suc_conv)
  then show ?thesis
    by (subst (2) \<open>src = _\<close>) (simp add: inet_pton4_ref dotted_quad_def split_fmt4 octet_dec)
qed

lemma length_fmt4: "7 \<le> length (fmt4 src)" "length (fmt4 src) \<le> 15"
proof -
  have "1 \<le> length (dec (unat b)) \<and> length (dec (unat b)) \<le> 3" for b :: "8 word"
    using length_dec [of 3 "unat b"] unat8 [of b] by (auto simp: Suc_le_eq)
  from this [of "src ! 0"] this [of "src ! 1"] this [of "src ! 2"] this [of "src ! 3"]
  show "7 \<le> length (fmt4 src)" "length (fmt4 src) \<le> 15"
    unfolding fmt4_def length_append list.size by linarith+
qed

section \<open>The older function\<close>

lemma split_cases:
  "split c s = t # ts \<Longrightarrow> c \<notin> set t \<and> (if ts = [] then s = t else \<exists>s'. s = t @ c # s' \<and> split c s' = ts)"
proof (induction s arbitrary: t)
  case (Cons x s)
  show ?case
  proof (cases "x = c")
    case True
    then show ?thesis using Cons.prems by auto
  next
    case False
    then have t: "t = x # hd (split c s)" "ts = tl (split c s)" using Cons.prems by auto
    then have "split c s = hd (split c s) # ts" by simp
    then show ?thesis using Cons.IH [of "hd (split c s)"] False t(1) by (auto split: if_splits)
  qed
qed auto

lemma aton_digits:
  "\<forall>c \<in> set t. isdigit c \<Longrightarrow> aton_loop (t @ s) d (of_nat n) addr =
    aton_loop s d (of_nat (foldl (\<lambda>n c. 10 * n + digit_val c) n t)) addr"
proof (induction t arbitrary: n)
  case (Cons c t)
  have "(of_nat n * 10 + of_nat (digit_val c) :: 64 word) = of_nat (10 * n + digit_val c)" by simp
  then show ?case using Cons by (simp del: of_nat_add of_nat_mult)
qed simp

lemma small_acc: "v \<le> 255 \<Longrightarrow> \<not> (of_nat v :: 64 word) > 255"
proof -
  assume "v \<le> 255"
  then have "unat (of_nat v :: 64 word) \<le> unat (255 :: 64 word)" by (simp add: unat_of_nat)
  then show ?thesis unfolding not_less word_le_nat_alt .
qed

lemma aton_tokens:
  assumes "split DOT s = ts" and "\<forall>t \<in> set ts. octet t" and "d + length ts = 4"
  shows "aton_loop s d 0 addr = Some (3, foldl (\<lambda>a t. push_bit 8 a OR of_nat (digits_val t)) addr ts)"
  using assms
proof (induction ts arbitrary: s d addr)
  case (Cons t ts)
  have t: "\<forall>c \<in> set t. isdigit c" "digits_val t \<le> 255" using Cons.prems(2) by (auto simp: octet_def)
  note sp = split_cases [OF Cons.prems(1)]
  have read: "aton_loop (t @ u) d 0 addr = aton_loop u d (of_nat (digits_val t)) addr" for u
    using aton_digits [OF t(1), of u d 0 addr] by (simp add: digits_val_def)
  show ?case
  proof (cases "ts = []")
    case True
    then show ?thesis using sp read [of "[]"] small_acc [OF t(2)] Cons.prems(3) by simp
  next
    case False
    then obtain s' where s': "s = t @ DOT # s'" "split DOT s' = ts" using sp by auto
    have "0 < length ts" using False by blast
    then have "\<not> d + 1 > 3" using Cons.prems(3) unfolding list.size by linarith
    moreover have "\<not> isdigit DOT" by (simp add: isdigit_def DOT_def)
    ultimately show ?thesis
      using read [of "DOT # s'"] small_acc [OF t(2)] s' Cons by simp
  qed
qed simp

text \<open>The four bytes of an address as a number, the first one on top.\<close>

definition addr_of :: "8 word list \<Rightarrow> 64 word" where
  "addr_of bs = foldl (\<lambda>a b. push_bit 8 a OR ucast b) 0 bs"

lemma ucast_octet: "v \<le> 255 \<Longrightarrow> (ucast (of_nat v :: 8 word) :: 64 word) = of_nat v"
  by (rule word_unat_eq_iff [THEN iffD2]) (simp add: unsigned_ucast_eq unsigned_of_nat take_bit_nat_eq_self)

lemma aton_agrees:
  assumes "inet_pton4 s = Some bs"
  shows "inet_aton s = Some (addr_of bs)"
proof -
  let ?ts = "split DOT s"
  have ts: "length ?ts = 4" "\<forall>t \<in> set ?ts. octet t" "bs = map (\<lambda>t. of_nat (digits_val t)) ?ts"
    using assms by (auto simp: inet_pton4_ref dotted_quad_def Let_def split: if_splits)
  have "foldl (\<lambda>a t. push_bit 8 a OR of_nat (digits_val t)) a ts =
      foldl (\<lambda>a b. push_bit 8 a OR ucast b) a (map (\<lambda>t. of_nat (digits_val t) :: 8 word) ts)"
    if "\<forall>t \<in> set ts. octet t" for a :: "64 word" and ts
    using that by (induction ts arbitrary: a) (auto simp: octet_def ucast_octet)
  then have "addr_of bs = foldl (\<lambda>a t. push_bit 8 a OR of_nat (digits_val t)) 0 ?ts"
    using ts(2,3) by (simp add: addr_of_def)
  then show ?thesis using aton_tokens [OF refl ts(2), of 0 0] ts(1) by (simp add: inet_aton_def)
qed

section \<open>Properties\<close>

text \<open>\<^verbatim>\<open>inet_pton4\<close> accepts exactly the dotted quads: four numbers, of at least one digit and at most 255
  each, separated by dots; and it returns their values.\<close>

theorem inet_pton4_exact: "inet_pton4 s = dotted_quad s"
  by (rule inet_pton4_ref)

text \<open>An IPv4 address printed by \<^verbatim>\<open>inet_ntop4\<close> is read back as the same bytes by \<^verbatim>\<open>inet_pton4\<close> and as
  the same number by \<^verbatim>\<open>inet_aton\<close>; sixteen bytes of room are always enough.\<close>

theorem inet4_roundtrip:
  assumes "length src = 4" and "15 \<le> size'"
  shows "\<exists>s. inet_ntop4 src size' = Some s \<and> inet_pton4 s = Some src \<and> inet_aton s = Some (addr_of src)"
  using pton4_fmt4 [OF assms(1)] aton_agrees length_fmt4(2) [of src] assms(2) by (simp add: inet_ntop4_def)

theorem inet4_roundtrip_witness:
  "\<exists>s. inet_ntop4 [127, 0, 0, 1] 16 = Some s \<and> inet_pton4 s = Some [127, 0, 0, 1] \<and>
    inet_aton s = Some (addr_of [127, 0, 0, 1])"
  using inet4_roundtrip [of "[127, 0, 0, 1]" 16] by simp

end
