(* ===== verification/Inet6.thy ===== *)
theory Inet6
  imports Inet4
begin

text \<open>
  IPv6 addresses as text: \<^verbatim>\<open>inet_pton6\<close> and \<^verbatim>\<open>inet_ntop6\<close> of \<^verbatim>\<open>unpv13e/libfree\<close>, and the two functions
  \<^verbatim>\<open>inet_pton\<close> and \<^verbatim>\<open>inet_ntop\<close> that choose by the address family.
\<close>

section \<open>Reading\<close>

definition COLON :: char where "COLON = CHR '':''"

definition IN6ADDRSZ :: nat where "IN6ADDRSZ = 16"
definition INADDRSZ :: nat where "INADDRSZ = 4"
definition INT16SZ :: nat where "INT16SZ = 2"

text \<open>The position of a character in \<^verbatim>\<open>xdigits_l\<close> or \<^verbatim>\<open>xdigits_u\<close>.\<close>

definition xdigit :: "char \<Rightarrow> nat option" where
  "xdigit ch = (case strchr ch ''0123456789abcdef'' of
     Some n \<Rightarrow> Some n
   | None \<Rightarrow> strchr ch ''0123456789ABCDEF'')"

record p6 =
  tmp :: "8 word list"
  tp :: nat
  colonp :: "nat option"
  saw_xdigit :: bool
  val :: nat

text \<open>Storing the two bytes of \<^verbatim>\<open>val\<close> at \<^verbatim>\<open>tp\<close>.\<close>

definition put_val :: "p6 \<Rightarrow> p6" where
  "put_val st = st\<lparr>tmp := (tmp st)[tp st := of_nat (drop_bit 8 (val st) mod 256), tp st + 1 := of_nat (val st mod 256)],
     tp := tp st + 2, saw_xdigit := False, val := 0\<rparr>"

fun pton6_loop :: "string \<Rightarrow> string \<Rightarrow> p6 \<Rightarrow> p6 option" where
  "pton6_loop [] curtok st = Some st"
| "pton6_loop (ch # src) curtok st =
     (case xdigit ch of
        Some d \<Rightarrow>
          (let v = push_bit 4 (val st) OR d in
           if v > 0xffff then None else pton6_loop src curtok (st\<lparr>val := v, saw_xdigit := True\<rparr>))
      | None \<Rightarrow>
          if ch = COLON then
            (if \<not> saw_xdigit st then
               (if colonp st \<noteq> None then None else pton6_loop src src (st\<lparr>colonp := Some (tp st)\<rparr>))
             else if tp st + INT16SZ > IN6ADDRSZ then None
             else pton6_loop src src (put_val st))
          else if ch = DOT \<and> tp st + INADDRSZ \<le> IN6ADDRSZ then
            (case inet_pton4 curtok of
               Some bs \<Rightarrow> Some (st\<lparr>tmp := take (tp st) (tmp st) @ bs @ drop (tp st + INADDRSZ) (tmp st),
                                 tp := tp st + INADDRSZ, saw_xdigit := False\<rparr>)
             | None \<Rightarrow> None)
          else None)"

text \<open>The shift by hand of the \<open>n\<close> bytes from \<open>c\<close> on to the end of the array.\<close>

definition shift6 :: "nat \<Rightarrow> nat \<Rightarrow> 8 word list \<Rightarrow> 8 word list" where
  "shift6 c n t = foldl (\<lambda>t i. t[IN6ADDRSZ - i := t ! (c + n - i), c + n - i := 0]) t [1..<Suc n]"

definition pton6_end :: "p6 \<Rightarrow> 8 word list option" where
  "pton6_end st0 =
     (if saw_xdigit st0 \<and> tp st0 + INT16SZ > IN6ADDRSZ then None
      else
        (let st = (if saw_xdigit st0 then put_val st0 else st0) in
         case colonp st of
           Some c \<Rightarrow> Some (shift6 c (tp st - c) (tmp st))
         | None \<Rightarrow> if tp st \<noteq> IN6ADDRSZ then None else Some (tmp st)))"

definition p6_init :: p6 where
  "p6_init = \<lparr>tmp = replicate IN6ADDRSZ 0, tp = 0, colonp = None, saw_xdigit = False, val = 0\<rparr>"

definition inet_pton6 :: "string \<Rightarrow> 8 word list option" where
  "inet_pton6 src =
     (if src \<noteq> [] \<and> hd src = COLON \<and> (tl src = [] \<or> hd (tl src) \<noteq> COLON) then None
      else
        (let src1 = (if src \<noteq> [] \<and> hd src = COLON then tl src else src) in
         Option.bind (pton6_loop src1 src1 p6_init) pton6_end))"

section \<open>Writing\<close>

fun hex :: "nat \<Rightarrow> string" where
  "hex n = (if n < 16 then [] else hex (n div 16)) @ [''0123456789abcdef'' ! (n mod 16)]"

declare hex.simps [simp del]

definition words6 :: "8 word list \<Rightarrow> nat list" where
  "words6 src = foldl (\<lambda>ws i. ws[i div 2 := ws ! (i div 2) OR push_bit ((1 - i mod 2) * 8) (unat (src ! i))])
     (replicate 8 0) [0..<IN6ADDRSZ]"

text \<open>The runs of zeros, base and length; \<open>None\<close> is a base of -1.\<close>

definition better :: "(nat \<times> nat) option \<Rightarrow> (nat \<times> nat) option \<Rightarrow> (nat \<times> nat) option" where
  "better best cur = (case cur of
     None \<Rightarrow> best
   | Some (_, len) \<Rightarrow> (case best of None \<Rightarrow> cur | Some (_, blen) \<Rightarrow> if len > blen then cur else best))"

definition run_step :: "nat list \<Rightarrow> (nat \<times> nat) option \<times> (nat \<times> nat) option \<Rightarrow> nat \<Rightarrow>
    (nat \<times> nat) option \<times> (nat \<times> nat) option" where
  "run_step ws bc i = (case bc of (best, cur) \<Rightarrow>
     if ws ! i = 0 then (best, (case cur of None \<Rightarrow> Some (i, 1) | Some (b, l) \<Rightarrow> Some (b, l + 1)))
     else (better best cur, None))"

definition best_run :: "nat list \<Rightarrow> (nat \<times> nat) option" where
  "best_run ws =
     (let (best, cur) = foldl (run_step ws) (None, None) [0..<8]; best1 = better best cur
      in (case best1 of Some (b, l) \<Rightarrow> if l < 2 then None else best1 | None \<Rightarrow> None))"

definition in_run :: "(nat \<times> nat) option \<Rightarrow> nat \<Rightarrow> bool" where
  "in_run best i = (case best of None \<Rightarrow> False | Some (b, l) \<Rightarrow> b \<le> i \<and> i < b + l)"

definition SIZEOF_TMP :: nat where "SIZEOF_TMP = 46"

definition mapped :: "(nat \<times> nat) option \<Rightarrow> nat list \<Rightarrow> bool" where
  "mapped best ws = (case best of None \<Rightarrow> False
     | Some (b, l) \<Rightarrow> b = 0 \<and> (l = 6 \<or> l = 5 \<and> ws ! 5 = 0xffff))"

fun ntop6_loop :: "8 word list \<Rightarrow> nat list \<Rightarrow> (nat \<times> nat) option \<Rightarrow> nat list \<Rightarrow> string \<Rightarrow> string option" where
  "ntop6_loop src ws best [] out = Some out"
| "ntop6_loop src ws best (i # is) out =
     (if in_run best i
      then ntop6_loop src ws best is (if map_option fst best = Some i then out @ [COLON] else out)
      else
        (let out1 = (if i \<noteq> 0 then out @ [COLON] else out) in
         if i = 6 \<and> mapped best ws then
           (case inet_ntop4 (drop 12 src) (SIZEOF_TMP - length out1) of
              None \<Rightarrow> None
            | Some s \<Rightarrow> Some (out1 @ s))
         else ntop6_loop src ws best is (out1 @ hex (ws ! i))))"

definition inet_ntop6 :: "8 word list \<Rightarrow> nat \<Rightarrow> string option" where
  "inet_ntop6 src size' =
     (let ws = words6 src; best = best_run ws in
      case ntop6_loop src ws best [0..<8] [] of
        None \<Rightarrow> None
      | Some out \<Rightarrow>
          (let out1 = (case best of
              Some (b, l) \<Rightarrow> if b + l = 8 then out @ [COLON] else out
            | None \<Rightarrow> out)
           in if length out1 + 1 > size' then None else Some out1))"

section \<open>The choice by address family\<close>

definition AF_INET :: int where "AF_INET = 2"
definition AF_INET6 :: int where "AF_INET6 = 10"

text \<open>The return code, and the bytes stored at the destination.\<close>

definition inet_pton :: "int \<Rightarrow> string \<Rightarrow> int \<times> 8 word list option" where
  "inet_pton af src =
     (let res = (\<lambda>r. (case r of None \<Rightarrow> 0 | Some _ \<Rightarrow> 1, r)) in
      if af = AF_INET then res (inet_pton4 src)
      else if af = AF_INET6 then res (inet_pton6 src)
      else (-1, None))"

definition inet_ntop :: "int \<Rightarrow> 8 word list \<Rightarrow> nat \<Rightarrow> string option" where
  "inet_ntop af src size' =
     (if af = AF_INET then inet_ntop4 src size'
      else if af = AF_INET6 then inet_ntop6 src size'
      else None)"

section \<open>Hexadecimal numbers\<close>

lemma xdigit_hex: "k < 16 \<Longrightarrow> xdigit (''0123456789abcdef'' ! k) = Some k"
  by (simp add: less_eq_Suc_le numeral_eq_Suc le_Suc_eq)
    (elim disjE; simp add: xdigit_def strchr_def NUL_def)

lemma isdigit_xdigit: "isdigit c \<Longrightarrow> xdigit c \<noteq> None"
proof -
  assume c: "isdigit c"
  define k where "k = (of_char c :: nat) - 48"
  have k: "k < 10" "of_char c = 48 + k" using c by (auto simp: k_def isdigit_def)
  have "k = 0 \<or> k = 1 \<or> k = 2 \<or> k = 3 \<or> k = 4 \<or> k = 5 \<or> k = 6 \<or> k = 7 \<or> k = 8 \<or> k = 9"
    using k(1) by presburger
  then have "of_char (''0123456789abcdef'' ! k) = 48 + k" by (elim disjE) simp_all
  then have "c = ''0123456789abcdef'' ! k" using k(2) by (metis of_char_eq_iff)
  then show ?thesis using xdigit_hex [of k] k(1) by simp
qed

lemma xdigit_sep [simp]: "xdigit COLON = None" "xdigit DOT = None"
  by (simp_all add: xdigit_def strchr_def NUL_def COLON_def DOT_def)

lemma xdigit_bound: "xdigit c = Some d \<Longrightarrow> d < 16"
  by (auto simp: xdigit_def strchr_def Let_def split: option.splits if_splits)

lemma small_bit: "d < 16 \<Longrightarrow> 4 \<le> n \<Longrightarrow> \<not> bit (d :: nat) n"
proof -
  assume "d < 16" "4 \<le> n"
  have "(2 :: nat) ^ 4 \<le> 2 ^ n" by (rule power_increasing) (use \<open>4 \<le> n\<close> in simp_all)
  then have "d div 2 ^ n = 0" using \<open>d < 16\<close> by simp
  then show ?thesis by (simp add: bit_iff_odd)
qed

lemma hex_or: "d < 16 \<Longrightarrow> push_bit 4 v OR d = 16 * v + (d :: nat)"
proof -
  assume "d < 16"
  then have "push_bit 4 v + d = push_bit 4 v OR d"
    by (intro disjunctive_add) (auto simp: bit_push_bit_iff dest: small_bit [of d])
  then show ?thesis by (simp add: push_bit_eq_mult)
qed

definition hexval :: "nat \<Rightarrow> string \<Rightarrow> nat" where
  "hexval v t = foldl (\<lambda>v c. 16 * v + the (xdigit c)) v t"

lemma hexval_bound: "\<forall>c \<in> set t. xdigit c \<noteq> None \<Longrightarrow> v < 16 ^ k \<Longrightarrow> hexval v t < 16 ^ (k + length t)"
proof (induction t arbitrary: v k)
  case (Cons c t)
  then obtain d where d: "xdigit c = Some d" "d < 16" using xdigit_bound by auto
  have "16 * v + d < 16 ^ Suc k" using Cons.prems(2) d(2) by simp
  then show ?case using Cons.IH [of "16 * v + d" "Suc k"] Cons.prems(1) d by (simp add: hexval_def)
qed (simp add: hexval_def)

lemma hex_xdigits: "c \<in> set (hex n) \<Longrightarrow> xdigit c \<noteq> None"
  by (induction n rule: hex.induct) (subst (asm) (2) hex.simps, auto split: if_splits simp: xdigit_hex)

lemma hex_nonempty [simp]: "hex n \<noteq> []"
  by (subst hex.simps) simp

lemma hexval_hex: "hexval 0 (hex n) = n"
proof (induction n rule: hex.induct)
  case (1 n)
  show ?case
  proof (cases "n < 16")
    case True
    then show ?thesis by (subst hex.simps) (simp add: hexval_def xdigit_hex)
  next
    case False
    then show ?thesis using 1 by (subst hex.simps) (simp add: hexval_def xdigit_hex)
  qed
qed

lemma length_hex: "n < 16 ^ Suc k \<Longrightarrow> length (hex n) \<le> Suc k"
proof (induction k arbitrary: n)
  case 0
  then show ?case by (subst hex.simps) simp
next
  case (Suc k)
  then have "length (hex (n div 16)) \<le> Suc k" by (simp add: less_mult_imp_div_less mult.commute)
  then show ?case by (subst hex.simps) simp
qed

lemma loop_digits:
  assumes "\<forall>c \<in> set t. xdigit c \<noteq> None" and "val st < 16 ^ k" and "k + length t \<le> 4"
  shows "pton6_loop (t @ s) ct st = pton6_loop s ct (st\<lparr>val := hexval (val st) t, saw_xdigit := saw_xdigit st \<or> t \<noteq> []\<rparr>)"
  using assms
proof (induction t arbitrary: st k)
  case Nil
  then show ?case by (simp add: hexval_def)
next
  case (Cons c t)
  then obtain d where d: "xdigit c = Some d" "d < 16" using xdigit_bound by auto
  have v: "16 * val st + d < 16 ^ Suc k" using Cons.prems(2) d(2) by simp
  have "(16 :: nat) ^ Suc k \<le> 16 ^ 4" by (rule power_increasing) (use Cons.prems(3) in simp_all)
  then have "\<not> 16 * val st + d > 0xffff" using v by simp
  then show ?case
    using Cons.IH [of "st\<lparr>val := 16 * val st + d, saw_xdigit := True\<rparr>" "Suc k"] Cons.prems v d
    by (simp add: hex_or hexval_def)
qed

section \<open>Reading groups\<close>

definition bytes :: "nat list \<Rightarrow> 8 word list" where
  "bytes ws = concat (map (\<lambda>w. [of_nat (w div 256), of_nat (w mod 256)]) ws)"

lemma bytes_simps [simp]:
  "bytes [] = []" "bytes (w # ws) = of_nat (w div 256) # of_nat (w mod 256) # bytes ws"
  "bytes (ws @ vs) = bytes ws @ bytes vs"
  by (simp_all add: bytes_def)

lemma length_bytes [simp]: "length (bytes ws) = 2 * length ws"
  by (induction ws) simp_all

text \<open>The state when \<open>out\<close> has been stored and a new group begins.\<close>

definition st_at :: "8 word list \<Rightarrow> nat option \<Rightarrow> p6" where
  "st_at out cp = \<lparr>tmp = out @ replicate (16 - length out) 0, tp = length out, colonp = cp, saw_xdigit = False, val = 0\<rparr>"

lemma put_val_st:
  assumes "length out + 2 \<le> 16" and "w < 65536"
  shows "put_val ((st_at out cp)\<lparr>val := w, saw_xdigit := True\<rparr>) = st_at (out @ bytes [w]) cp"
proof -
  obtain j where j: "16 - length out = Suc (Suc j)" using assms(1) by (metis add_2_eq_Suc le_Suc_ex le_diff_conv2 add.commute add_leD1)
  have "w div 256 mod 256 = w div 256" using assms(2) by (simp add: less_mult_imp_div_less)
  moreover have "16 - (length out + 2) = j" using j by simp
  ultimately show ?thesis
    using j by (simp add: put_val_def st_at_def drop_bit_eq_div list_update_append)
qed

lemma digits_group:
  assumes "w < 65536"
  shows "pton6_loop (hex w @ s) ct (st_at out cp) = pton6_loop s ct ((st_at out cp)\<lparr>val := w, saw_xdigit := True\<rparr>)"
  using loop_digits [of "hex w" "st_at out cp" 0 s ct] length_hex [of w 3] hex_xdigits [of _ w] hexval_hex [of w] assms
  by (simp add: st_at_def)

definition groups :: "nat list \<Rightarrow> string" where
  "groups ws = concat (map (\<lambda>w. hex w @ [COLON]) ws)"

lemma loop_groups:
  "\<forall>w \<in> set ws. w < 65536 \<Longrightarrow> length out + 2 * length ws \<le> 16 \<Longrightarrow>
    pton6_loop (groups ws @ s) ct (st_at out cp) =
    pton6_loop s (if ws = [] then ct else s) (st_at (out @ bytes ws) cp)"
proof (induction ws arbitrary: out ct)
  case (Cons w ws)
  then have w: "w < 65536" "length out + 2 \<le> 16" by simp_all
  have "pton6_loop (groups (w # ws) @ s) ct (st_at out cp) = pton6_loop (groups ws @ s) (groups ws @ s) (st_at (out @ bytes [w]) cp)"
    using digits_group [OF w(1), of "COLON # groups ws @ s" ct out cp] put_val_st [OF w(2,1)] w(2)
    by (simp add: groups_def INT16SZ_def IN6ADDRSZ_def st_at_def)
  then show ?case using Cons.IH [of "out @ bytes [w]" "groups ws @ s"] Cons.prems by (simp add: groups_def)
qed (simp add: groups_def)

text \<open>The groups up to the end of the string.\<close>

definition joined :: "nat list \<Rightarrow> string" where
  "joined ws = (if ws = [] then [] else groups (butlast ws) @ hex (last ws))"

definition parse6 :: "string \<Rightarrow> string \<Rightarrow> p6 \<Rightarrow> 8 word list option" where
  "parse6 s ct st = Option.bind (pton6_loop s ct st) pton6_end"

lemma parse_joined:
  assumes "\<forall>w \<in> set ws. w < 65536" and "length out + 2 * length ws \<le> 16"
  shows "parse6 (joined ws) ct (st_at out cp) = pton6_end (st_at (out @ bytes ws) cp)"
proof (cases ws rule: rev_cases)
  case Nil
  then show ?thesis by (simp add: parse6_def joined_def)
next
  case (snoc vs w)
  let ?out = "out @ bytes vs"
  have w: "w < 65536" "length ?out + 2 \<le> 16" using assms snoc by simp_all
  have "pton6_loop (joined ws) ct (st_at out cp) =
      pton6_loop (hex w) (if vs = [] then ct else hex w) (st_at ?out cp)"
    using loop_groups [of vs out "hex w" ct cp] assms snoc by (simp add: joined_def)
  also have "\<dots> = Some ((st_at ?out cp)\<lparr>val := w, saw_xdigit := True\<rparr>)"
    using digits_group [OF w(1), of "[]"] by simp
  finally have "parse6 (joined ws) ct (st_at out cp) = pton6_end ((st_at ?out cp)\<lparr>val := w, saw_xdigit := True\<rparr>)"
    by (simp add: parse6_def)
  also have "\<dots> = pton6_end (st_at (?out @ bytes [w]) cp)"
    using put_val_st [OF w(2,1), of cp] w(2)
    by (simp add: pton6_end_def Let_def INT16SZ_def IN6ADDRSZ_def) (simp add: st_at_def)
  finally show ?thesis using snoc by simp
qed

section \<open>The shift\<close>

lemma shift6_nth:
  assumes "length t = 16" and "c + n \<le> 16" and "m \<le> n"
    and "\<And>p. c + n \<le> p \<Longrightarrow> p < 16 \<Longrightarrow> t ! p = 0"
    and "u = foldl (\<lambda>t i. t[IN6ADDRSZ - i := t ! (c + n - i), c + n - i := 0]) t [1..<Suc m]"
  shows "length u = 16 \<and> (\<forall>p < 16. u ! p =
    (if 16 - m \<le> p then (if c + n = 16 then 0 else t ! (p - (16 - (c + n))))
     else if c + n - m \<le> p then 0 else t ! p))"
  using assms(3,5)
proof (induction m arbitrary: u)
  case 0
  then show ?case using assms(1,2,4) by auto
next
  case (Suc m)
  define v where "v = foldl (\<lambda>t i. t[IN6ADDRSZ - i := t ! (c + n - i), c + n - i := 0]) t [1..<Suc m]"
  have v: "length v = 16" "\<forall>p < 16. v ! p =
    (if 16 - m \<le> p then (if c + n = 16 then 0 else t ! (p - (16 - (c + n))))
     else if c + n - m \<le> p then 0 else t ! p)"
    using Suc.IH [OF _ v_def] Suc.prems(1) by auto
  define q r where "q = c + n - Suc m" and "r = 16 - Suc m"
  have u: "u = v[r := v ! q, q := 0]"
    using Suc.prems(2) by (simp add: v_def IN6ADDRSZ_def q_def r_def)
  have qr: "q \<le> r" "r < 16" "q + Suc m = c + n" "r + Suc m = 16"
    using assms(2) Suc.prems(1) by (auto simp: q_def r_def)
  have vq: "v ! q = t ! q" using v(2) [rule_format, of q] qr by (auto simp: q_def)
  have up: "u ! p = (if p = q then 0 else if p = r then t ! q else v ! p)" if "p < 16" for p
    using that v(1) vq by (auto simp: u nth_list_update)
  show ?case
  proof (intro conjI allI impI)
    show "length u = 16" by (simp add: u v(1))
    fix p :: nat assume p: "p < 16"
    consider "p = q" | "p = r" "p \<noteq> q" | "p \<noteq> q" "p \<noteq> r" by blast
    then show "u ! p = (if 16 - Suc m \<le> p then (if c + n = 16 then 0 else t ! (p - (16 - (c + n))))
       else if c + n - Suc m \<le> p then 0 else t ! p)"
    proof cases
      case 1
      then show ?thesis using up [OF p] qr by (auto simp flip: q_def r_def)
    next
      case 2
      then have "c + n \<noteq> 16" "r - (16 - (c + n)) = q" using qr by auto
      moreover have "16 - Suc m \<le> p" using 2(1) by (simp only: r_def)
      ultimately show ?thesis using up [OF p] 2 by simp
    next
      case 3
      have "16 - m \<le> p \<longleftrightarrow> r \<le> p" "c + n - m \<le> p \<longleftrightarrow> q \<le> p" using 3 qr by arith+
      then show ?thesis
        unfolding q_def [symmetric] r_def [symmetric] using up [OF p] 3 v(2) p by simp
    qed
  qed
qed

lemma shift6_gap:
  assumes "length out < 16" and "c \<le> length out"
  shows "shift6 c (length out - c) (out @ replicate (16 - length out) 0) =
    take c out @ replicate (16 - length out) 0 @ drop c out"
proof -
  let ?t = "out @ replicate (16 - length out) (0 :: 8 word)" and ?n = "length out - c"
  have *: "length (shift6 c ?n ?t) = 16 \<and> (\<forall>p < 16. shift6 c ?n ?t ! p =
    (if 16 - ?n \<le> p then (if c + ?n = 16 then 0 else ?t ! (p - (16 - (c + ?n))))
     else if c + ?n - ?n \<le> p then 0 else ?t ! p))"
    by (rule shift6_nth [of ?t c ?n ?n]) (use assms in \<open>auto simp: shift6_def nth_append\<close>)
  show ?thesis
    by (rule nth_equalityI) (use * assms in \<open>auto simp: nth_append\<close>)
qed

lemma shift6_full:
  assumes "length out = 16" and "c \<le> 16"
  shows "shift6 c (16 - c) out = take c out @ replicate (16 - c) 0"
proof -
  have *: "length (shift6 c (16 - c) out) = 16 \<and> (\<forall>p < 16. shift6 c (16 - c) out ! p =
    (if 16 - (16 - c) \<le> p then (if c + (16 - c) = 16 then 0 else out ! (p - (16 - (c + (16 - c)))))
     else if c + (16 - c) - (16 - c) \<le> p then 0 else out ! p))"
    by (rule shift6_nth [of out c "16 - c" "16 - c"]) (use assms in \<open>auto simp: shift6_def\<close>)
  show ?thesis
    by (rule nth_equalityI) (use * assms in \<open>auto simp: nth_append\<close>)
qed

lemma end_gap:
  "length out < 16 \<Longrightarrow> c \<le> length out \<Longrightarrow> pton6_end (st_at out (Some c)) =
    Some (take c out @ replicate (16 - length out) 0 @ drop c out)"
  by (simp add: pton6_end_def st_at_def shift6_gap)

lemma end_full:
  "length out = 16 \<Longrightarrow> c \<le> 16 \<Longrightarrow> pton6_end (st_at out (Some c)) = Some (take c out @ replicate (16 - c) 0)"
  "length out = 16 \<Longrightarrow> pton6_end (st_at out None) = Some out"
  by (simp_all add: pton6_end_def st_at_def shift6_full IN6ADDRSZ_def)

text \<open>Two lists of groups around a double colon.\<close>

definition text6 :: "nat list \<Rightarrow> string \<Rightarrow> string" where
  "text6 p rest = (if p = [] then [COLON] else groups p) @ COLON # rest"

lemma groups_hd: "ws \<noteq> [] \<Longrightarrow> groups ws \<noteq> [] \<and> hd (groups ws) \<noteq> COLON"
proof -
  assume "ws \<noteq> []"
  then obtain w vs where ws: "ws = w # vs" by (cases ws) auto
  obtain c t where h: "hex w = c # t" by (cases "hex w") auto
  then have "xdigit c \<noteq> None" using hex_xdigits [of c w] by simp
  then have "c \<noteq> COLON" by auto
  then show ?thesis using ws h by (simp add: groups_def)
qed

lemma hex_hd: "hd (hex w) \<noteq> COLON"
proof -
  obtain c t where h: "hex w = c # t" by (cases "hex w") auto
  then have "xdigit c \<noteq> None" using hex_xdigits [of c w] by simp
  then show ?thesis using h by auto
qed

lemma pton6_text6:
  assumes "\<forall>w \<in> set p. w < 65536" and "2 * length p \<le> 16"
  shows "inet_pton6 (text6 p rest) = parse6 rest rest (st_at (bytes p) (Some (2 * length p)))"
proof -
  have init: "p6_init = st_at [] None" by (simp add: p6_init_def st_at_def IN6ADDRSZ_def)
  have colon: "pton6_loop (COLON # rest) ct (st_at out None) = pton6_loop rest rest (st_at out (Some (length out)))" for ct out
    by (simp add: st_at_def)
  show ?thesis
  proof (cases "p = []")
    case True
    then show ?thesis
      using colon [of "COLON # rest" "[]"] by (simp add: inet_pton6_def text6_def parse6_def init)
  next
    case False
    then show ?thesis
      using groups_hd [OF False] loop_groups [OF assms(1), of "[]" "COLON # rest" "groups p @ COLON # rest" None]
        assms(2) colon [of "COLON # rest" "bytes p"]
      by (simp add: inet_pton6_def text6_def parse6_def init)
  qed
qed

section \<open>Runs of zeros\<close>

definition zeros :: "nat list \<Rightarrow> nat \<Rightarrow> nat \<times> nat \<Rightarrow> bool" where
  "zeros ws n run \<longleftrightarrow> (case run of (b, l) \<Rightarrow> b + l \<le> n \<and> (\<forall>i. b \<le> i \<and> i < b + l \<longrightarrow> ws ! i = 0))"

lemma zeros_mono: "zeros ws n r \<Longrightarrow> n \<le> n' \<Longrightarrow> zeros ws n' r"
  by (auto simp: zeros_def)

lemma run_fold:
  assumes "(best, cur) = foldl (run_step ws) (None, None) [0..<n]"
  shows "(\<forall>r. best = Some r \<longrightarrow> zeros ws n r) \<and> (\<forall>b l. cur = Some (b, l) \<longrightarrow> zeros ws n (b, l) \<and> b + l = n)"
  using assms
proof (induction n arbitrary: best cur)
  case (Suc n)
  obtain best0 cur0 where f: "(best0, cur0) = foldl (run_step ws) (None, None) [0..<n]" by (metis surj_pair)
  note IH = Suc.IH [OF f]
  have bc: "(best, cur) = run_step ws (best0, cur0) n" using Suc.prems f by simp
  have z: "zeros ws (Suc n) r" if "best0 = Some r" for r using IH that zeros_mono [of ws n r "Suc n"] by auto
  show ?case
  proof (cases "ws ! n = 0")
    case True
    then show ?thesis using bc IH z
      by (auto simp: run_step_def zeros_def less_Suc_eq split: option.splits)
  next
    case False
    have "zeros ws (Suc n) r" if "cur0 = Some r" for r
      using IH that zeros_mono [of ws n r "Suc n"] by (cases r) auto
    then show ?thesis using bc False z
      by (auto simp: run_step_def better_def split: option.splits if_splits)
  qed
qed simp

lemma best_run_zeros:
  assumes "best_run ws = Some (b, l)"
  shows "2 \<le> l" "b + l \<le> 8" "\<And>i. b \<le> i \<Longrightarrow> i < b + l \<Longrightarrow> ws ! i = 0"
proof -
  obtain best cur where f: "(best, cur) = foldl (run_step ws) (None, None) [0..<8]" by (metis surj_pair)
  then have "better best cur = Some (b, l)" "2 \<le> l"
    using assms by (auto simp: best_run_def Let_def simp flip: f split: option.splits if_splits)
  moreover have "zeros ws 8 (b, l)"
    using \<open>better best cur = Some (b, l)\<close> run_fold [OF f]
    by (auto simp: better_def split: option.splits if_splits)
  ultimately show "2 \<le> l" "b + l \<le> 8" "\<And>i. b \<le> i \<Longrightarrow> i < b + l \<Longrightarrow> ws ! i = 0"
    by (auto simp: zeros_def)
qed

section \<open>The words of an address\<close>

lemma byte_or: "push_bit 8 a OR unat b = 256 * a + unat b" for a :: nat and b :: "8 word"
proof -
  have "\<not> bit (unat b) n" if "8 \<le> n" for n
  proof -
    have "(2 :: nat) ^ 8 \<le> 2 ^ n" by (rule power_increasing) (use that in simp_all)
    then have "unat b div 2 ^ n = 0" using unat8 [of b] by simp
    then show ?thesis by (simp add: bit_iff_odd)
  qed
  then have "push_bit 8 a + unat b = push_bit 8 a OR unat b"
    by (intro disjunctive_add) (auto simp: bit_push_bit_iff)
  then show ?thesis by (simp add: push_bit_eq_mult)
qed

lemma length16: "length src = 16 \<Longrightarrow> \<exists>a b c d e f g h i j k l m n p q. src = [a, b, c, d, e, f, g, h, i, j, k, l, m, n, p, q]"
  by (auto simp: numeral_eq_Suc length_Suc_conv)

lemma words6_eq:
  assumes "length src = 16"
  shows "words6 src = map (\<lambda>i. 256 * unat (src ! (2 * i)) + unat (src ! (2 * i + 1))) [0..<8]"
proof -
  obtain a b c d e f g h i j k l m n p q where "src = [a, b, c, d, e, f, g, h, i, j, k, l, m, n, p, q]"
    using length16 [OF assms] by blast
  moreover have "replicate 8 0 = [0, 0, 0, 0, 0, 0, 0, 0 :: nat]" by (simp add: numeral_eq_Suc)
  ultimately show ?thesis
    by (simp add: words6_def IN6ADDRSZ_def upt_rec byte_or)
qed

lemma words6_facts:
  assumes "length src = 16"
  shows "length (words6 src) = 8" "\<forall>w \<in> set (words6 src). w < 65536" "bytes (words6 src) = src"
proof -
  have w: "256 * unat a + unat b < 65536" "(of_nat ((256 * unat a + unat b) div 256) :: 8 word) = a"
    "(of_nat ((256 * unat a + unat b) mod 256) :: 8 word) = b" for a b :: "8 word"
    using unat8 [of a] unat8 [of b] by simp_all
  show "length (words6 src) = 8" by (simp add: words6_eq [OF assms])
  show "\<forall>w \<in> set (words6 src). w < 65536" using w(1) by (auto simp: words6_eq [OF assms])
  obtain a b c d e f g h i j k l m n p q where "src = [a, b, c, d, e, f, g, h, i, j, k, l, m, n, p, q]"
    using length16 [OF assms] by blast
  then show "bytes (words6 src) = src"
    unfolding words6_eq [OF assms] by (simp add: upt_rec unat8)
qed

section \<open>Formatting\<close>

definition tail6 :: "(nat \<times> nat) option \<Rightarrow> string \<Rightarrow> string" where
  "tail6 best out = (case best of Some (b, l) \<Rightarrow> if b + l = 8 then out @ [COLON] else out | None \<Rightarrow> out)"

lemma length8: "length ws = 8 \<Longrightarrow> \<exists>a b c d e f g h. ws = [a, b, c, d, e, f, g, h]"
  by (auto simp: numeral_eq_Suc length_Suc_conv)

lemma upt8: "[0..<8] = [0, 1, 2, 3, 4, 5, 6, 7 :: nat]"
  by (simp add: upt_rec)

lemma format_none:
  assumes "length ws = 8"
  shows "ntop6_loop src ws None [0..<8] [] = Some (joined ws)"
proof -
  obtain a b c d e f g h where "ws = [a, b, c, d, e, f, g, h]" using length8 [OF assms] by blast
  then show ?thesis by (simp add: upt8 in_run_def mapped_def joined_def groups_def)
qed

definition colon_groups :: "nat list \<Rightarrow> string" where
  "colon_groups ws = concat (map (\<lambda>w. COLON # hex w) ws)"

lemma joined_Cons: "joined (w # ws) = hex w @ colon_groups ws"
proof (induction ws arbitrary: w)
  case (Cons v ws)
  then show ?case using Cons [of v] by (simp add: joined_def groups_def colon_groups_def)
qed (simp add: joined_def groups_def colon_groups_def)

lemma colon_joined: "q \<noteq> [] \<Longrightarrow> colon_groups q = COLON # joined q"
  by (cases q) (simp_all add: joined_Cons colon_groups_def)

lemma joined_groups: "p \<noteq> [] \<Longrightarrow> joined p @ [COLON] = groups p"
  by (cases p rule: rev_cases) (simp_all add: joined_def groups_def)

lemma loop_outside:
  assumes "\<And>k. k \<in> set is \<Longrightarrow> \<not> in_run best k \<and> k \<noteq> 0" and "\<not> mapped best ws"
  shows "ntop6_loop src ws best (is @ js) out = ntop6_loop src ws best js (out @ colon_groups (map ((!) ws) is))"
  using assms(1)
proof (induction "is" arbitrary: out)
  case (Cons k "is")
  then have "\<not> in_run best k" "k \<noteq> 0" by simp_all
  then show ?case using Cons assms(2) by (simp add: colon_groups_def)
qed (simp add: colon_groups_def)

lemma loop_inside:
  assumes "\<And>k. k \<in> set is \<Longrightarrow> in_run best k \<and> map_option fst best \<noteq> Some k"
  shows "ntop6_loop src ws best (is @ js) out = ntop6_loop src ws best js out"
  using assms by (induction "is") auto

lemma upt_split:
  assumes "b + l \<le> 8" and "0 < l"
  shows "[0..<8] = [0..<b] @ b # [Suc b..<b + l] @ [b + l..<8 :: nat]"
proof -
  have "[0..<b + (8 - b)] = [0..<b] @ [b..<b + (8 - b)]" by (rule upt_add_eq_append) simp
  moreover have "[b..<8] = b # [Suc b..<8]" using assms by (intro upt_conv_Cons) simp
  moreover have "[Suc b..<(b + l) + (8 - (b + l))] = [Suc b..<b + l] @ [b + l..<(b + l) + (8 - (b + l))]"
    by (rule upt_add_eq_append) (use assms in simp)
  ultimately show ?thesis using assms by simp
qed

lemma drop_nth: "length ws = 8 \<Longrightarrow> map ((!) ws) [i..<8] = drop i ws"
  by (metis drop_map drop_upt map_nth plus_nat.add_0)

lemma take_nth: "length ws = 8 \<Longrightarrow> b \<le> 8 \<Longrightarrow> map ((!) ws) [0..<b] = take b ws"
  by (metis map_nth take_map take_upt plus_nat.add_0)

lemma format_run:
  assumes "length ws = 8" and "2 \<le> l" and "b + l \<le> 8" and "\<not> mapped (Some (b, l)) ws"
  shows "map_option (tail6 (Some (b, l))) (ntop6_loop src ws (Some (b, l)) [0..<8] []) =
    Some (text6 (take b ws) (joined (drop (b + l) ws)))"
proof -
  let ?best = "Some (b, l)" and ?p = "take b ws" and ?q = "drop (b + l) ws"
  define out where "out = (if b = 0 then [] else joined ?p)"
  have pre: "ntop6_loop src ws ?best ([0..<b] @ js) [] = ntop6_loop src ws ?best js out" for js
  proof (cases b)
    case 0
    then show ?thesis by (simp add: out_def)
  next
    case (Suc b')
    have p: "?p = ws ! 0 # map ((!) ws) [1..<b]"
      using take_nth [OF assms(1), of b] assms(3) Suc by (metis add_leD1 list.simps(9) One_nat_def upt_conv_Cons zero_less_Suc)
    have "ntop6_loop src ws ?best ([0..<b] @ js) [] = ntop6_loop src ws ?best ([1..<b] @ js) (hex (ws ! 0))"
      using Suc assms(4) by (simp add: upt_conv_Cons in_run_def del: upt_Suc)
    also have "\<dots> = ntop6_loop src ws ?best js (hex (ws ! 0) @ colon_groups (map ((!) ws) [1..<b]))"
      by (rule loop_outside) (use assms(4) in \<open>auto simp: in_run_def\<close>)
    also have "hex (ws ! 0) @ colon_groups (map ((!) ws) [1..<b]) = out"
      using Suc unfolding out_def p joined_Cons by simp
    finally show ?thesis .
  qed
  have "ntop6_loop src ws ?best [0..<8] [] = ntop6_loop src ws ?best ([Suc b..<b + l] @ [b + l..<8]) (out @ [COLON])"
    unfolding upt_split [OF assms(3) less_le_trans [OF zero_less_numeral assms(2)]] pre using assms(2) by (simp add: in_run_def)
  also have "\<dots> = ntop6_loop src ws ?best [b + l..<8] (out @ [COLON])"
    by (rule loop_inside) (auto simp: in_run_def)
  also have "\<dots> = ntop6_loop src ws ?best ([b + l..<8] @ []) (out @ [COLON])" by simp
  also have "\<dots> = Some (out @ [COLON] @ colon_groups ?q)"
    using loop_outside [of "[b + l..<8]" ?best ws src "[]" "out @ [COLON]"] assms(2,4) drop_nth [OF assms(1), of "b + l"]
    by (simp add: in_run_def)
  finally have loop: "ntop6_loop src ws ?best [0..<8] [] = Some (out @ [COLON] @ colon_groups ?q)" .
  have "tail6 ?best (out @ [COLON] @ colon_groups ?q) = out @ [COLON] @ COLON # joined ?q"
  proof (cases "b + l = 8")
    case True
    then show ?thesis using assms(1) by (simp add: tail6_def colon_groups_def joined_def)
  next
    case False
    then have "?q \<noteq> []" using assms(1,3) by simp
    then show ?thesis using False colon_joined by (simp add: tail6_def)
  qed
  moreover have "out @ [COLON] = (if ?p = [] then [COLON] else groups ?p)"
    using assms(1) joined_groups [of ?p] by (auto simp: out_def)
  ultimately show ?thesis using loop by (auto simp: text6_def)
qed

lemma mapped_cases:
  assumes "mapped best ws"
  obtains "best = Some (0, 6)" | "best = Some (0, 5)" "ws ! 5 = 0xffff"
  using assms by (auto simp: mapped_def split: option.splits)

lemma hex_small: "w < 65536 \<Longrightarrow> length (hex w) \<le> 4"
  using length_hex [of w 3] by simp

lemma format_mapped:
  assumes "length ws = 8" and "mapped best ws" and "length src = 16"
  obtains vs where "ntop6_loop src ws best [0..<8] [] = Some (text6 [] (groups vs @ fmt4 (drop 12 src)))"
    and "best = Some (0, 6) \<and> vs = [] \<or> best = Some (0, 5) \<and> vs = [0xffff] \<and> ws ! 5 = 0xffff"
proof -
  obtain w0 w1 w2 w3 w4 w5 w6 w7 where ws: "ws = [w0, w1, w2, w3, w4, w5, w6, w7]" using length8 [OF assms(1)] by blast
  have fmt: "length (fmt4 (drop 12 src)) \<le> 15" by (rule length_fmt4)
  show thesis
    using assms(2)
  proof (cases rule: mapped_cases)
    case 1
    then show thesis
      using that [of "[]"] fmt unfolding ws
      by (simp add: upt8 in_run_def mapped_def inet_ntop4_def SIZEOF_TMP_def text6_def groups_def Let_def)
  next
    case 2
    moreover have "length (hex 65535) \<le> 4" by (rule hex_small) simp
    ultimately show thesis
      using that [of "[0xffff]"] fmt unfolding ws
      by (simp add: upt8 in_run_def mapped_def inet_ntop4_def SIZEOF_TMP_def text6_def groups_def Let_def)
  qed
qed

section \<open>Reading what was written\<close>

lemma pton6_end_val: "\<not> saw_xdigit st \<Longrightarrow> pton6_end (st\<lparr>val := v\<rparr>) = pton6_end st"
  by (simp add: pton6_end_def Let_def split: option.split)

lemma loop_fmt4:
  assumes "length bs = 4" and "length out + 4 \<le> 16"
  shows "\<exists>v. pton6_loop (fmt4 bs) (fmt4 bs) (st_at out cp) = Some ((st_at (out @ bs) cp)\<lparr>val := v\<rparr>)"
proof -
  define d where "d = dec (unat (bs ! 0))"
  obtain rest where r: "fmt4 bs = d @ DOT # rest" by (simp add: fmt4_def d_def)
  have d: "\<forall>c \<in> set d. xdigit c \<noteq> None" using dec_digits isdigit_xdigit unfolding d_def by blast
  have "length d \<le> 3" unfolding d_def using length_dec [of 3 "unat (bs ! 0)"] unat8 [of "bs ! 0"] by simp
  then have read: "pton6_loop (fmt4 bs) (fmt4 bs) (st_at out cp) =
      pton6_loop (DOT # rest) (fmt4 bs) ((st_at out cp)\<lparr>val := hexval 0 d, saw_xdigit := True\<rparr>)"
    using loop_digits [OF d, of "st_at out cp" 0 "DOT # rest" "fmt4 bs"] by (simp add: r st_at_def d_def)
  have "DOT \<noteq> COLON" by (simp add: DOT_def COLON_def)
  moreover have "12 - length out = 16 - (length out + 4)" by simp
  ultimately show ?thesis
    using pton4_fmt4 [OF assms(1)] assms unfolding read
    by (simp add: st_at_def INADDRSZ_def IN6ADDRSZ_def)
qed

lemma bytes_zero: "bytes (replicate l 0) = replicate (2 * l) 0"
  by (induction l) simp_all

lemma zero_run:
  assumes "length ws = 8" and "b + l \<le> 8" and "\<And>i. b \<le> i \<Longrightarrow> i < b + l \<Longrightarrow> ws ! i = 0"
  shows "ws = take b ws @ replicate l 0 @ drop (b + l) ws"
proof -
  have "take l (drop b ws) = replicate l 0" by (rule nth_equalityI) (use assms in auto)
  then show ?thesis by (metis append_take_drop_id drop_drop add.commute)
qed

lemma length_groups: "\<forall>w \<in> set ws. w < 65536 \<Longrightarrow> length (groups ws) \<le> 5 * length ws"
proof (induction ws)
  case (Cons w ws)
  then show ?case using hex_small [of w] by (simp add: groups_def)
qed (simp add: groups_def)

lemma length_joined: "\<forall>w \<in> set ws. w < 65536 \<Longrightarrow> length (joined ws) \<le> 5 * length ws"
proof (cases ws rule: rev_cases)
  case (snoc vs w)
  assume "\<forall>w \<in> set ws. w < 65536"
  then show ?thesis using snoc length_groups [of vs] hex_small [of w] by (simp add: joined_def)
qed (simp add: joined_def)

text \<open>The text of an address, its length, and what it is read as.\<close>

lemma format6:
  assumes "length src = 16"
  shows "\<exists>out. map_option (tail6 (best_run (words6 src))) (ntop6_loop src (words6 src) (best_run (words6 src)) [0..<8] []) = Some out \<and>
    length out < 46 \<and> inet_pton6 out = Some src"
proof -
  define ws where "ws = words6 src"
  note w = words6_facts [OF assms, folded ws_def]
  show ?thesis
  proof (cases "best_run ws")
    case None
    have "joined ws \<noteq> [] \<and> hd (joined ws) \<noteq> COLON"
      using w(1) by (cases ws) (simp_all add: joined_Cons hex_hd)
    then have "inet_pton6 (joined ws) = parse6 (joined ws) (joined ws) (st_at [] None)"
      by (simp add: inet_pton6_def parse6_def p6_init_def st_at_def IN6ADDRSZ_def Let_def)
    then have "inet_pton6 (joined ws) = Some src"
      using parse_joined [OF w(2), of "[]"] w(1,3) end_full(2) [of src] assms by simp
    then show ?thesis
      using None format_none [OF w(1)] length_joined [OF w(2)] w(1) by (auto simp: tail6_def simp flip: ws_def)
  next
    case (Some bl)
    obtain b l where bl: "best_run ws = Some (b, l)" using Some by (cases bl) auto
    note z = best_run_zeros [OF bl]
    note zr = zero_run [OF w(1) z(2,3)]
    show ?thesis
    proof (cases "mapped (Some (b, l)) ws")
      case False
      let ?p = "take b ws" and ?q = "drop (b + l) ws" and ?t = "text6 (take b ws) (joined (drop (b + l) ws))"
      have small: "\<forall>w \<in> set ?p. w < 65536" "\<forall>w \<in> set ?q. w < 65536"
        using w(2) by (auto dest: in_set_takeD in_set_dropD)
      have lp: "length ?p = b" "length ?q = 8 - (b + l)" using w(1) z by simp_all
      have "inet_pton6 ?t = pton6_end (st_at (bytes ?p @ bytes ?q) (Some (2 * b)))"
        using pton6_text6 [OF small(1)] parse_joined [OF small(2), of "bytes ?p"] lp z by simp
      also have "\<dots> = Some (bytes ?p @ replicate (2 * l) 0 @ bytes ?q)"
        using end_gap [of "bytes ?p @ bytes ?q" "2 * b"] lp z by (simp add: algebra_simps)
      also have "bytes ?p @ replicate (2 * l) 0 @ bytes ?q = src"
        using arg_cong [OF zr, of bytes] w(3) by (simp add: bytes_zero)
      finally have "inet_pton6 ?t = Some src" .
      moreover have "length (if ?p = [] then [COLON] else groups ?p) \<le> 5 * b + 1"
        using length_groups [OF small(1)] lp(1) by auto
      moreover have "length (joined ?q) \<le> 5 * (8 - (b + l))"
        using length_joined [OF small(2)] lp(2) by simp
      ultimately have "inet_pton6 ?t = Some src" "length ?t < 46"
        using z(1,2) unfolding text6_def length_append list.size by linarith+
      then show ?thesis
        unfolding ws_def [symmetric] bl using format_run [OF w(1) z(1,2) False, of src] by blast
    next
      case True
      obtain vs where f: "ntop6_loop src ws (Some (b, l)) [0..<8] [] = Some (text6 [] (groups vs @ fmt4 (drop 12 src)))"
        "Some (b, l) = Some (0, 6) \<and> vs = [] \<or> Some (b, l) = Some (0, 5) \<and> vs = [0xffff] \<and> ws ! 5 = 0xffff"
        by (rule format_mapped [OF w(1) True assms])
      let ?t = "text6 [] (groups vs @ fmt4 (drop 12 src))"
      have b: "b = 0" "l \<le> 6" "length vs = 6 - l" "5 \<le> l" "\<forall>w \<in> set vs. w < 65536" using f(2) by auto
      have dr: "drop 12 src = bytes (drop 6 ws)"
      proof -
        have e: "src = bytes (take 6 ws) @ bytes (drop 6 ws)"
          using w(3) bytes_simps(3) [of "take 6 ws" "drop 6 ws"] by simp
        have "length (bytes (take 6 ws)) = 12" using w(1) by simp
        then show ?thesis by (subst e) simp
      qed
      have l4: "length (drop 12 src) = 4" using assms by simp
      obtain v where v: "pton6_loop (fmt4 (drop 12 src)) (fmt4 (drop 12 src)) (st_at (bytes vs) (Some 0)) =
          Some ((st_at (bytes vs @ drop 12 src) (Some 0))\<lparr>val := v\<rparr>)"
        using loop_fmt4 [OF l4, of "bytes vs" "Some 0"] b by auto
      have ev: "pton6_end ((st_at (bytes vs @ drop 12 src) (Some 0))\<lparr>val := v\<rparr>) = pton6_end (st_at (bytes vs @ drop 12 src) (Some 0))"
        by (rule pton6_end_val) (simp add: st_at_def)
      have "inet_pton6 ?t = pton6_end (st_at (bytes vs @ drop 12 src) (Some 0))"
        using pton6_text6 [of "[]" "groups vs @ fmt4 (drop 12 src)"] v b ev
          loop_groups [OF b(5), of "[]" "fmt4 (drop 12 src)" "groups vs @ fmt4 (drop 12 src)" "Some 0"]
        by (cases "vs = []") (simp_all add: parse6_def groups_def)
      also have "\<dots> = Some (replicate (2 * l) 0 @ bytes vs @ drop 12 src)"
        using end_gap [of "bytes vs @ drop 12 src" 0] l4 b by (simp add: algebra_simps)
      also have "replicate (2 * l) 0 @ bytes vs @ drop 12 src = src"
      proof -
        have "drop l ws = vs @ drop 6 ws"
        proof (cases "l = 6")
          case True
          then show ?thesis using f(2) by simp
        next
          case False
          then have "l = 5" "vs = [ws ! 5]" using f(2) by auto
          moreover have "drop 5 ws = ws ! 5 # drop 6 ws" using w(1) by (simp add: Cons_nth_drop_Suc [symmetric])
          ultimately show ?thesis by simp
        qed
        then show ?thesis
          using arg_cong [OF zr, of bytes] w(3) b(1) dr by (simp add: bytes_zero)
      qed
      finally have "inet_pton6 ?t = Some src" .
      moreover have "length ?t < 46"
        using length_groups [OF b(5)] length_fmt4(2) [of "drop 12 src"] b by (simp add: text6_def)
      ultimately show ?thesis using f(1) bl b by (simp add: tail6_def flip: ws_def)
    qed
  qed
qed

lemma inet_ntop6_cases:
  assumes "length src = 16"
  shows "\<exists>out. inet_ntop6 src size' = (if length out + 1 > size' then None else Some out) \<and> length out < 46 \<and>
    inet_pton6 out = Some src"
proof -
  obtain out where o: "map_option (tail6 (best_run (words6 src))) (ntop6_loop src (words6 src) (best_run (words6 src)) [0..<8] []) = Some out"
    "length out < 46" "inet_pton6 out = Some src" using format6 [OF assms] by blast
  then obtain z where z: "ntop6_loop src (words6 src) (best_run (words6 src)) [0..<8] [] = Some z"
    "tail6 (best_run (words6 src)) z = out" by auto
  then have "inet_ntop6 src size' = (if length out + 1 > size' then None else Some out)"
    unfolding inet_ntop6_def Let_def z(1) tail6_def [symmetric] by (simp add: z(2))
  then show ?thesis using o by blast
qed

section \<open>The state of the parser\<close>

definition p6_ok :: "p6 \<Rightarrow> bool" where
  "p6_ok st \<longleftrightarrow> length (tmp st) = 16 \<and> tp st \<le> 16 \<and> (\<forall>c. colonp st = Some c \<longrightarrow> c \<le> tp st)"

lemma pton4_length: "inet_pton4 s = Some bs \<Longrightarrow> length bs = 4"
  by (auto simp: inet_pton4_ref dotted_quad_def Let_def split: if_splits)

lemma put_val_ok: "p6_ok st \<Longrightarrow> \<not> tp st + INT16SZ > IN6ADDRSZ \<Longrightarrow> p6_ok (put_val st)"
  by (auto simp: p6_ok_def put_val_def INT16SZ_def IN6ADDRSZ_def)

lemma loop_ok: "pton6_loop s ct st = Some st' \<Longrightarrow> p6_ok st \<Longrightarrow> p6_ok st'"
proof (induction s ct st rule: pton6_loop.induct)
  case (2 ch src curtok st)
  show ?case
  proof (cases "xdigit ch")
    case (Some d)
    then show ?thesis using 2 by (auto simp: p6_ok_def Let_def split: if_splits)
  next
    case None
    show ?thesis
    proof (cases "ch = COLON")
      case True
      show ?thesis
      proof (cases "saw_xdigit st")
        case True
        then show ?thesis using None \<open>ch = COLON\<close> 2 put_val_ok [of st] by (auto split: if_splits)
      next
        case False
        then show ?thesis using None \<open>ch = COLON\<close> 2 by (auto simp: p6_ok_def split: if_splits)
      qed
    next
      case False
      then show ?thesis
        using None 2(4,5) by (auto simp: p6_ok_def INADDRSZ_def IN6ADDRSZ_def pton4_length split: if_splits option.splits)
    qed
  qed
qed auto

lemma shift6_length: "length (shift6 c n t) = length t"
proof -
  have "length (foldl (\<lambda>t i. t[IN6ADDRSZ - i := t ! (c + n - i), c + n - i := 0]) t is) = length t" for "is"
    by (induction "is" arbitrary: t) simp_all
  then show ?thesis by (simp only: shift6_def)
qed

lemma pton6_length:
  assumes "inet_pton6 s = Some bs"
  shows "length bs = 16"
proof -
  obtain s' ct st where st: "pton6_loop s' ct p6_init = Some st" "pton6_end st = Some bs"
    using assms by (auto simp: inet_pton6_def Let_def split: if_splits bind_splits)
  have "p6_ok st" by (rule loop_ok [OF st(1)]) (simp add: p6_init_def p6_ok_def IN6ADDRSZ_def)
  then show ?thesis
    using st(2) put_val_ok [of st]
    by (auto simp: pton6_end_def Let_def p6_ok_def shift6_length split: if_splits option.splits)
qed

section \<open>Properties\<close>

text \<open>C6. An IPv6 address that \<^verbatim>\<open>inet_ntop6\<close> prints, whichever run of zeros it abbreviates and with or without
  an IPv4 address at the end, is read back by \<^verbatim>\<open>inet_pton6\<close> as the same sixteen bytes.\<close>

theorem inet6_roundtrip:
  assumes "length src = 16" and "46 \<le> size'"
  shows "\<exists>s. inet_ntop6 src size' = Some s \<and> inet_pton6 s = Some src"
  using inet_ntop6_cases [OF assms(1), of size'] assms(2) by auto

theorem inet6_roundtrip_witness:
  "\<exists>s. inet_ntop6 [0x20, 1, 0xd, 0xb8, 0, 0, 0, 0, 0, 0, 0, 0, 0, 0, 0, 1] 46 = Some s \<and>
    inet_pton6 s = Some [0x20, 1, 0xd, 0xb8, 0, 0, 0, 0, 0, 0, 0, 0, 0, 0, 0, 1]"
  using inet6_roundtrip [of "[0x20, 1, 0xd, 0xb8, 0, 0, 0, 0, 0, 0, 0, 0, 0, 0, 0, 1]" 46] by simp

text \<open>C37. What \<^verbatim>\<open>inet_ntop6\<close> writes, with the terminator, fits both into its own array \<^verbatim>\<open>tmp\<close> and into the room at
  the destination; it fails only when the room is smaller than that of \<^verbatim>\<open>tmp\<close>. The same test in
  \<^verbatim>\<open>inet_ntop4\<close> forgets the terminator: seven bytes are accepted for a text that takes eight.\<close>

lemma ntop4_ones: "inet_ntop4 [1, 1, 1, 1] 7 = Some ''1.1.1.1''"
  by code_simp

theorem inet_ntop_bounds:
  assumes "length src = 16"
  shows "(case inet_ntop6 src size' of
      Some s \<Rightarrow> length s + 1 \<le> size' \<and> length s + 1 \<le> SIZEOF_TMP
    | None \<Rightarrow> size' < SIZEOF_TMP) \<and>
    inet_ntop4 [1, 1, 1, 1] 7 = Some ''1.1.1.1''"
  using inet_ntop6_cases [OF assms, of size'] ntop4_ones by (auto simp: SIZEOF_TMP_def split: option.splits if_splits)

theorem inet_ntop_bounds_witness:
  "length (replicate 16 (0 :: 8 word)) = 16 \<and> (case inet_ntop6 (replicate 16 0) 3 of
      Some s \<Rightarrow> length s + 1 \<le> 3 \<and> length s + 1 \<le> SIZEOF_TMP
    | None \<Rightarrow> 3 < SIZEOF_TMP)"
  using inet_ntop_bounds [of "replicate 16 0" 3] by simp

text \<open>\<^verbatim>\<open>inet_pton6\<close> on a full address with a double colon inside: the comment says that the double colon is
  ignored, but everything behind it is set to zero. And eight groups are accepted with a
  colon behind the last one.\<close>

theorem inet_pton6_full_address:
  assumes "p \<noteq> []" and "q \<noteq> []" and "length p + length q = 8" and "\<forall>w \<in> set (p @ q). w < 65536"
  shows "inet_pton6 (groups p @ COLON # joined q) = Some (bytes p @ replicate (2 * length q) 0) \<and>
    inet_pton6 (groups (p @ q)) = Some (bytes (p @ q))"
proof (rule conjI)
  have small: "\<forall>w \<in> set p. w < 65536" "\<forall>w \<in> set q. w < 65536" using assms(4) by auto
  have "inet_pton6 (text6 p (joined q)) = pton6_end (st_at (bytes p @ bytes q) (Some (2 * length p)))"
    using pton6_text6 [OF small(1)] parse_joined [OF small(2), of "bytes p"] assms(3) by simp
  also have "\<dots> = Some (bytes p @ replicate (2 * length q) 0)"
    using end_full(1) [of "bytes p @ bytes q" "2 * length p"] assms(3) by (simp add: algebra_simps)
  finally show "inet_pton6 (groups p @ COLON # joined q) = Some (bytes p @ replicate (2 * length q) 0)"
    using assms(1) by (simp add: text6_def)
  have "pton6_loop (groups (p @ q)) (groups (p @ q)) (st_at [] None) = Some (st_at (bytes (p @ q)) None)"
    using loop_groups [OF assms(4), of "[]" "[]" "groups (p @ q)" None] assms(3) by simp
  then show "inet_pton6 (groups (p @ q)) = Some (bytes (p @ q))"
    using groups_hd [of "p @ q"] assms(1,3) end_full(2) [of "bytes (p @ q)"]
    by (simp add: inet_pton6_def p6_init_def st_at_def IN6ADDRSZ_def Let_def)
qed

theorem inet_pton6_full_address_witness:
  "inet_pton6 (groups [1, 2, 3, 4] @ COLON # joined [5, 6, 7, 8]) = Some [0, 1, 0, 2, 0, 3, 0, 4, 0, 0, 0, 0, 0, 0, 0, 0]"
proof -
  have "replicate 8 0 = [0, 0, 0, 0, 0, 0, 0, 0 :: 8 word]" by (simp add: eval_nat_numeral)
  then show ?thesis using inet_pton6_full_address [of "[1, 2, 3, 4]" "[5, 6, 7, 8]"] by simp
qed

text \<open>\<^verbatim>\<open>inet_pton\<close> stores an address exactly when it returns 1, and then four bytes for IPv4 and sixteen for
  IPv6; it returns -1 exactly for another address family.\<close>

theorem inet_pton_result:
  "case inet_pton af s of (rc, r) \<Rightarrow>
     (rc = 1 \<longleftrightarrow> r \<noteq> None) \<and> (rc = -1 \<longleftrightarrow> af \<noteq> AF_INET \<and> af \<noteq> AF_INET6) \<and> rc \<in> {-1, 0, 1} \<and>
     (case r of None \<Rightarrow> True | Some bs \<Rightarrow> length bs = (if af = AF_INET then 4 else 16))"
  by (auto simp: inet_pton_def Let_def AF_INET_def AF_INET6_def dest: pton4_length pton6_length split: option.splits)

end
