(* ===== verification/Cksum.thy ===== *)
theory Cksum
  imports Prelude
begin

text \<open>
  The Internet checksum, \<^verbatim>\<open>unpv13e/libfree/in_cksum.c\<close>. The data are given as bytes; a 16 bit word is read from
  memory in the order of the machine, the low byte first.
\<close>

unbundle bit_operations_syntax

section \<open>The function\<close>

definition le16 :: "8 word \<Rightarrow> 8 word \<Rightarrow> 32 word" where
  "le16 a b = ucast a + push_bit 8 (ucast b)"

text \<open>The loop over the words and the odd byte at the end.\<close>

fun cksum_loop :: "8 word list \<Rightarrow> 32 word \<Rightarrow> 32 word" where
  "cksum_loop (a # b # w) s = cksum_loop w (s + le16 a b)"
| "cksum_loop [a] s = s + ucast a"
| "cksum_loop [] s = s"

definition in_cksum :: "8 word list \<Rightarrow> 16 word" where
  "in_cksum addr =
     (let sum0 = cksum_loop addr 0;
          sum1 = drop_bit 16 sum0 + (sum0 AND 0xffff);
          sum2 = sum1 + drop_bit 16 sum1
      in ucast (NOT sum2))"

section \<open>The sum as a number\<close>

fun nsum :: "8 word list \<Rightarrow> nat" where
  "nsum (a # b # w) = unat a + 256 * unat b + nsum w"
| "nsum [a] = unat a"
| "nsum [] = 0"

lemma byte_bound: "unat (b :: 8 word) \<le> 255"
proof -
  have "unat b < 2 ^ LENGTH(8)" by (rule unsigned_less)
  then show ?thesis by simp
qed

lemma unat_le16: "unat (le16 a b) = unat a + 256 * unat b"
proof -
  have b: "unat (ucast b :: 32 word) = unat b" "unat (ucast a :: 32 word) = unat a"
    by (simp_all add: unsigned_ucast_eq take_bit_nat_eq_self order_le_less_trans [OF byte_bound])
  have p: "unat (push_bit 8 (ucast b) :: 32 word) = 256 * unat b"
    unfolding push_bit_eq_mult using byte_bound [of b] b(1) by (subst unat_word_ariths) simp
  show ?thesis
    unfolding le16_def using byte_bound [of a] byte_bound [of b] b(2) p
    by (subst unat_word_ariths) simp
qed

lemma nsum_bound: "2 * nsum bs \<le> 65535 * (length bs + 1)"
proof (induction bs rule: nsum.induct)
  case (1 a b w)
  then show ?case using byte_bound [of a] byte_bound [of b] by simp
next
  case (2 a)
  then show ?case using byte_bound [of a] by simp
qed simp

lemma unat_loop: "unat s + nsum bs < 2 ^ 32 \<Longrightarrow> unat (cksum_loop bs s) = unat s + nsum bs"
proof (induction bs s rule: cksum_loop.induct)
  case (1 a b w s)
  have "unat (s + le16 a b) = unat s + (unat a + 256 * unat b)"
    using 1(2) unat_le16 [of a b] by (subst unat_word_ariths) simp
  then show ?case using 1 by simp
next
  case (2 a s)
  have "unat (ucast a :: 32 word) = unat a"
    by (simp add: unsigned_ucast_eq take_bit_nat_eq_self order_le_less_trans [OF byte_bound])
  then show ?case using 2 by (simp add: unat_word_ariths)
qed simp

text \<open>Folding the carries back in.\<close>

definition fold16 :: "nat \<Rightarrow> nat" where
  "fold16 S = (let t = S div 65536 + S mod 65536 in (t + t div 65536) mod 65536)"

lemma fold16_range: "S < 2 ^ 32 \<Longrightarrow> fold16 S \<le> 65535" "S < 2 ^ 32 \<Longrightarrow> fold16 S = 0 \<longleftrightarrow> S = 0"
  "S < 2 ^ 32 \<Longrightarrow> fold16 S mod 65535 = S mod 65535"
proof -
  assume S: "S < 2 ^ 32"
  define q r t where "q = S div 65536" and "r = S mod 65536" and "t = q + r"
  have qr: "S = 65536 * q + r" "r < 65536" "q < 65536"
    using S by (simp_all add: q_def r_def less_mult_imp_div_less)
  have f: "fold16 S = (if t < 65536 then t else t - 65535)"
  proof (cases "t < 65536")
    case True
    then show ?thesis by (simp add: fold16_def Let_def t_def q_def r_def)
  next
    case False
    have "t < 131071" using qr(2,3) by (simp add: t_def)
    then have "t div 65536 = 1" using False by simp
    then have "(t + t div 65536) mod 65536 = t - 65535" using False \<open>t < 131071\<close> by (simp add: mod_if)
    then show ?thesis using False by (simp add: fold16_def Let_def t_def q_def r_def)
  qed
  have "t < 131071" using qr(2,3) by (simp add: t_def)
  then show "fold16 S \<le> 65535" unfolding f by (split if_split) arith
  show "fold16 S = 0 \<longleftrightarrow> S = 0" using f qr(1) by (auto simp: t_def)
  have "S mod 65535 = t mod 65535"
  proof -
    have "S = 65535 * q + t" using qr(1) by (simp add: t_def)
    then show ?thesis by simp
  qed
  then show "fold16 S mod 65535 = S mod 65535" using f by (simp add: le_mod_geq)
qed

lemma unat_in_cksum:
  assumes "nsum bs < 2 ^ 32"
  shows "unat (in_cksum bs) = 65535 - fold16 (nsum bs)"
proof -
  define S where "S = cksum_loop bs 0"
  have S: "unat S = nsum bs" using unat_loop [of 0 bs] assms by (simp add: S_def)
  define s1 where "s1 = drop_bit 16 S + (S AND 0xffff)"
  have hi: "unat (drop_bit 16 w) = unat w div 65536" for w :: "32 word"
    by (simp only: unat_drop_bit_eq) (simp add: drop_bit_eq_div)
  have lo: "unat (S AND 0xffff) = nsum bs mod 65536"
  proof -
    have "unat (S AND 0xffff) = unat S AND mask 16" by (simp add: unsigned_and_eq mask_eq_exp_minus_1)
    also have "\<dots> = take_bit 16 (unat S)" by (rule take_bit_eq_mask [symmetric])
    also have "\<dots> = nsum bs mod 65536" by (simp add: take_bit_eq_mod S)
    finally show ?thesis .
  qed
  have q: "nsum bs div 65536 < 65536" using assms by (simp add: less_mult_imp_div_less)
  have s1: "unat s1 = nsum bs div 65536 + nsum bs mod 65536"
    unfolding s1_def using hi [of S] lo S q by (subst unat_word_ariths) simp
  define s2 where "s2 = s1 + drop_bit 16 s1"
  have "unat s1 < 131072" using s1 q by (simp add: add_less_le_mono)
  then have s2: "unat s2 = unat s1 + unat s1 div 65536"
    unfolding s2_def using hi [of s1] by (subst unat_word_ariths) simp
  define x :: "16 word" where "x = ucast s2"
  have x: "unat x = unat s2 mod 65536" by (simp add: x_def unsigned_ucast_eq take_bit_eq_mod)
  have "ucast (NOT s2) = NOT x" unfolding x_def by (rule bit_word_eqI) (simp add: bit_ucast_iff bit_not_iff)
  also have "NOT x = -1 - x" by (simp add: not_eq_complement)
  also have "unat (-1 - x) = unat (-1 :: 16 word) - unat x" by (rule unat_sub) simp
  also have "unat (-1 :: 16 word) = 65535" by (simp add: unsigned_minus_1_eq_mask mask_eq_exp_minus_1)
  finally have "unat (in_cksum bs) = 65535 - unat x"
    by (simp add: in_cksum_def Let_def flip: S_def s1_def s2_def)
  then show ?thesis using x s2 s1 by (simp add: fold16_def Let_def)
qed

lemma nsum_append: "even (length bs) \<Longrightarrow> nsum (bs @ cs) = nsum bs + nsum cs"
  by (induction bs rule: nsum.induct) auto

section \<open>Properties\<close>

text \<open>C39. A receiver that computes the checksum over a packet of even length and its checksum gets 0, whatever
  the data are; no carry is lost in 32 bits for packets of up to 131068 bytes.\<close>

theorem in_cksum_verifies:
  assumes "even (length bs)" and "length bs \<le> 131068"
  shows "in_cksum (bs @ [ucast (in_cksum bs), ucast (drop_bit 8 (in_cksum bs))]) = 0"
proof -
  define c where "c = in_cksum bs"
  have lt: "nsum xs < 2 ^ 32" if "length xs \<le> 131070" for xs
    using nsum_bound [of xs] that by simp
  have c: "unat c = 65535 - fold16 (nsum bs)" using unat_in_cksum [OF lt] assms(2) by (simp add: c_def)
  have cb: "unat c < 65536" using c by simp
  have "unat (ucast c :: 8 word) = unat c mod 256" by (simp add: unsigned_ucast_eq take_bit_eq_mod)
  moreover have "unat (drop_bit 8 c) = unat c div 256"
    by (simp only: unat_drop_bit_eq) (simp add: drop_bit_eq_div)
  then have "unat (ucast (drop_bit 8 c) :: 8 word) = unat c div 256"
    using cb by (simp add: unsigned_ucast_eq take_bit_eq_mod less_mult_imp_div_less)
  ultimately have n: "nsum (bs @ [ucast c, ucast (drop_bit 8 c)]) = nsum bs + unat c"
    using nsum_append [OF assms(1)] by simp
  let ?T = "nsum bs + unat c"
  note f = fold16_range [OF lt, of bs]
  have T: "?T < 2 ^ 32" using lt [of "bs @ [ucast c, ucast (drop_bit 8 c)]"] n assms(2) by simp
  have "?T mod 65535 = (nsum bs mod 65535 + unat c) mod 65535" by (simp add: mod_simps)
  also have "\<dots> = (fold16 (nsum bs) + unat c) mod 65535" using f(3) assms(2) by (simp add: mod_simps) (metis mod_add_left_eq)
  also have "\<dots> = 0" using c f(1) assms(2) by simp
  finally have "fold16 ?T mod 65535 = 0" using fold16_range(3) [OF T] by simp
  moreover have "?T \<noteq> 0" using c f(2) assms(2) by (cases "nsum bs = 0") auto
  then have "fold16 ?T \<noteq> 0" using fold16_range(2) [OF T] by simp
  ultimately have "fold16 ?T = 65535" using fold16_range(1) [OF T] by (auto elim!: dvdE simp: mod_eq_0_iff_dvd)
  then have "unat (in_cksum (bs @ [ucast c, ucast (drop_bit 8 c)])) = 0"
    using unat_in_cksum [of "bs @ [ucast c, ucast (drop_bit 8 c)]"] n T by simp
  then show ?thesis by (simp add: c_def unsigned_eq_0_iff)
qed

theorem in_cksum_verifies_witness:
  "even (length [1, 2, 3, 4 :: 8 word]) \<and>
    in_cksum ([1, 2, 3, 4] @ [ucast (in_cksum [1, 2, 3, 4]), ucast (drop_bit 8 (in_cksum [1, 2, 3, 4]))]) = 0"
  using in_cksum_verifies [of "[1, 2, 3, 4]"] by simp

end
