(* ===== verification/Mm_Heap.thy ===== *)
theory Mm_Heap
  imports Prelude
begin

text \<open>
  The allocator with implicit free lists of \<^verbatim>\<open>csapp/code/vm/malloc\<close>: \<^verbatim>\<open>memlib.c\<close>, which simulates the memory system,
  and \<^verbatim>\<open>mm.c\<close>. Memory is a function from addresses to bytes; a word is read and written as four bytes, the low byte
  first. Pointers are natural numbers, and 0 is the null pointer. Where the source has a \<^verbatim>\<open>size_t\<close>, an \<^verbatim>\<open>unsigned int\<close> or an
  \<^verbatim>\<open>int\<close> that may be too small, the wrap-around is written out.
\<close>

unbundle bit_operations_syntax

section \<open>The simulated memory system\<close>

type_synonym mem = "nat \<Rightarrow> 8 word"

record heap =
  memory :: mem
  mem_heap :: nat
  mem_brk :: nat
  mem_max_addr :: nat
  heap_listp :: nat

text \<open>\<^verbatim>\<open>mem_init\<close>: \<open>base\<close> is the address that \<^verbatim>\<open>Malloc\<close> returns and \<open>max_heap\<close> the size of the area.\<close>

definition mem_init :: "nat \<Rightarrow> nat \<Rightarrow> heap \<Rightarrow> heap" where
  "mem_init base max_heap h = h\<lparr>mem_heap := base, mem_brk := base, mem_max_addr := base + max_heap\<rparr>"

text \<open>\<^verbatim>\<open>mem_sbrk\<close>; \<open>None\<close> is the pointer -1.\<close>

definition mem_sbrk :: "int \<Rightarrow> heap \<Rightarrow> nat option \<times> heap" where
  "mem_sbrk incr h =
     (if incr < 0 \<or> int (mem_brk h) + incr > int (mem_max_addr h) then (None, h)
      else (Some (mem_brk h), h\<lparr>mem_brk := mem_brk h + nat incr\<rparr>))"

definition mem_reset_brk :: "heap \<Rightarrow> heap" where
  "mem_reset_brk h = h\<lparr>mem_brk := mem_heap h\<rparr>"

definition mem_heap_lo :: "heap \<Rightarrow> nat" where "mem_heap_lo h = mem_heap h"
definition mem_heap_hi :: "heap \<Rightarrow> nat" where "mem_heap_hi h = mem_brk h - 1"
definition mem_heapsize :: "heap \<Rightarrow> nat" where "mem_heapsize h = mem_brk h - mem_heap h"

section \<open>The macros\<close>

definition WSIZE :: nat where "WSIZE = 4"
definition DSIZE :: nat where "DSIZE = 8"
definition CHUNKSIZE :: nat where "CHUNKSIZE = 4096"

definition GET :: "mem \<Rightarrow> nat \<Rightarrow> 32 word" where
  "GET m p = ucast (m p) OR push_bit 8 (ucast (m (p + 1))) OR push_bit 16 (ucast (m (p + 2))) OR
     push_bit 24 (ucast (m (p + 3)))"

definition PUT :: "nat \<Rightarrow> 32 word \<Rightarrow> mem \<Rightarrow> mem" where
  "PUT p v m = m(p := ucast v, p + 1 := ucast (drop_bit 8 v), p + 2 := ucast (drop_bit 16 v), p + 3 := ucast (drop_bit 24 v))"

definition PACK :: "nat \<Rightarrow> bool \<Rightarrow> 32 word" where
  "PACK size' alloc = of_nat (size' OR (if alloc then 1 else 0))"

definition GET_SIZE :: "mem \<Rightarrow> nat \<Rightarrow> nat" where
  "GET_SIZE m p = unat (GET m p AND NOT 7)"

definition GET_ALLOC :: "mem \<Rightarrow> nat \<Rightarrow> bool" where
  "GET_ALLOC m p \<longleftrightarrow> GET m p AND 1 \<noteq> 0"

definition HDRP :: "nat \<Rightarrow> nat" where "HDRP bp = bp - WSIZE"
definition FTRP :: "mem \<Rightarrow> nat \<Rightarrow> nat" where "FTRP m bp = bp + GET_SIZE m (HDRP bp) - DSIZE"
definition NEXT_BLKP :: "mem \<Rightarrow> nat \<Rightarrow> nat" where "NEXT_BLKP m bp = bp + GET_SIZE m (bp - WSIZE)"
definition PREV_BLKP :: "mem \<Rightarrow> nat \<Rightarrow> nat" where "PREV_BLKP m bp = bp - GET_SIZE m (bp - DSIZE)"

text \<open>Both tags of the block at \<open>bp\<close>: the footer is found by the header just written.\<close>

definition put_tags :: "nat \<Rightarrow> nat \<Rightarrow> bool \<Rightarrow> mem \<Rightarrow> mem" where
  "put_tags bp size' alloc m =
     (let m1 = PUT (HDRP bp) (PACK size' alloc) m in PUT (FTRP m1 bp) (PACK size' alloc) m1)"

section \<open>The allocator\<close>

definition coalesce :: "nat \<Rightarrow> heap \<Rightarrow> nat \<times> heap" where
  "coalesce bp h =
     (let m = memory h;
          prev_alloc = GET_ALLOC m (FTRP m (PREV_BLKP m bp));
          next_alloc = GET_ALLOC m (HDRP (NEXT_BLKP m bp));
          size' = GET_SIZE m (HDRP bp)
      in
        if prev_alloc \<and> next_alloc then (bp, h)
        else if prev_alloc then
          (let size2 = size' + GET_SIZE m (HDRP (NEXT_BLKP m bp))
           in (bp, h\<lparr>memory := put_tags bp size2 False m\<rparr>))
        else if next_alloc then
          (let size2 = size' + GET_SIZE m (HDRP (PREV_BLKP m bp));
               m1 = PUT (FTRP m bp) (PACK size2 False) m;
               m2 = PUT (HDRP (PREV_BLKP m1 bp)) (PACK size2 False) m1
           in (PREV_BLKP m2 bp, h\<lparr>memory := m2\<rparr>))
        else
          (let size2 = size' + (GET_SIZE m (HDRP (PREV_BLKP m bp)) + GET_SIZE m (FTRP m (NEXT_BLKP m bp))) mod 2 ^ 32;
               m1 = PUT (HDRP (PREV_BLKP m bp)) (PACK size2 False) m;
               m2 = PUT (FTRP m1 (NEXT_BLKP m1 bp)) (PACK size2 False) m1
           in (PREV_BLKP m2 bp, h\<lparr>memory := m2\<rparr>)))"

text \<open>The argument of \<^verbatim>\<open>mem_sbrk\<close> is an \<^verbatim>\<open>int\<close>.\<close>

definition to_int :: "nat \<Rightarrow> int" where
  "to_int n = (let r = n mod 2 ^ 32 in if r < 2 ^ 31 then int r else int r - 2 ^ 32)"

definition extend_heap :: "nat \<Rightarrow> heap \<Rightarrow> nat option \<times> heap" where
  "extend_heap words h =
     (let size' = (if odd words then (words + 1) * WSIZE else words * WSIZE) in
      case mem_sbrk (to_int size') h of
        (None, h1) \<Rightarrow> (None, h1)
      | (Some bp, h1) \<Rightarrow>
          (let m1 = put_tags bp size' False (memory h1);
               m2 = PUT (HDRP (NEXT_BLKP m1 bp)) (PACK 0 True) m1;
               (bp', h2) = coalesce bp (h1\<lparr>memory := m2\<rparr>)
           in (Some bp', h2)))"

text \<open>The difference of two \<^verbatim>\<open>size_t\<close>.\<close>

definition sub64 :: "nat \<Rightarrow> nat \<Rightarrow> nat" where
  "sub64 a b = (a + 2 ^ 64 - b) mod 2 ^ 64"

definition place :: "nat \<Rightarrow> nat \<Rightarrow> heap \<Rightarrow> heap" where
  "place bp asize h =
     (let m = memory h; csize = GET_SIZE m (HDRP bp) in
      if sub64 csize asize \<ge> 2 * DSIZE then
        (let m1 = put_tags bp asize True m; bp1 = NEXT_BLKP m1 bp
         in h\<lparr>memory := put_tags bp1 (sub64 csize asize) False m1\<rparr>)
      else h\<lparr>memory := put_tags bp csize True m\<rparr>)"

text \<open>First fit: \<^verbatim>\<open>NEXT_FIT\<close> is not defined. The loop ends at a block of size 0.\<close>

partial_function (option) fit_loop :: "mem \<Rightarrow> nat \<Rightarrow> nat \<Rightarrow> nat option option" where
  "fit_loop m asize bp =
     (if GET_SIZE m (HDRP bp) > 0
      then (if \<not> GET_ALLOC m (HDRP bp) \<and> asize \<le> GET_SIZE m (HDRP bp) then Some (Some bp)
            else fit_loop m asize (NEXT_BLKP m bp))
      else Some None)"

declare fit_loop.simps [code]

definition find_fit :: "nat \<Rightarrow> heap \<Rightarrow> nat option option" where
  "find_fit asize h = fit_loop (memory h) asize (heap_listp h)"

definition mm_init :: "heap \<Rightarrow> int \<times> heap" where
  "mm_init h = (case mem_sbrk (int (4 * WSIZE)) h of
     (None, h1) \<Rightarrow> (-1, h1\<lparr>heap_listp := 2 ^ 64 - 1\<rparr>)
   | (Some p, h1) \<Rightarrow>
       (let m1 = PUT p 0 (memory h1);
            m2 = PUT (p + 1 * WSIZE) (PACK DSIZE True) m1;
            m3 = PUT (p + 2 * WSIZE) (PACK DSIZE True) m2;
            m4 = PUT (p + 3 * WSIZE) (PACK 0 True) m3
        in (case extend_heap (CHUNKSIZE div WSIZE) (h1\<lparr>memory := m4, heap_listp := p + 2 * WSIZE\<rparr>) of
              (None, h2) \<Rightarrow> (-1, h2)
            | (Some _, h2) \<Rightarrow> (0, h2))))"

text \<open>The block size for a request; sums of \<^verbatim>\<open>size_t\<close> wrap around.\<close>

definition adjust :: "nat \<Rightarrow> nat" where
  "adjust size' = (if size' \<le> DSIZE then 2 * DSIZE
     else DSIZE * (((size' + DSIZE + (DSIZE - 1)) mod 2 ^ 64) div DSIZE))"

text \<open>\<open>None\<close> is a search that does not end; \<open>Some (0, _)\<close> the null pointer.\<close>

definition mm_malloc :: "nat \<Rightarrow> heap \<Rightarrow> (nat \<times> heap) option" where
  "mm_malloc size' h0 =
     (let h = (if heap_listp h0 = 0 then snd (mm_init h0) else h0) in
      if size' = 0 then Some (0, h)
      else
        (let asize = adjust size' in
         case find_fit asize h of
           None \<Rightarrow> None
         | Some (Some bp) \<Rightarrow> Some (bp, place bp asize h)
         | Some None \<Rightarrow>
             (case extend_heap (max asize CHUNKSIZE div WSIZE) h of
                (None, h1) \<Rightarrow> Some (0, h1)
              | (Some bp, h1) \<Rightarrow> Some (bp, place bp asize h1))))"

definition mm_free :: "nat \<Rightarrow> heap \<Rightarrow> heap" where
  "mm_free bp h0 =
     (if bp = 0 then h0
      else
        (let size' = GET_SIZE (memory h0) (HDRP bp);
             h = (if heap_listp h0 = 0 then snd (mm_init h0) else h0)
         in snd (coalesce bp (h\<lparr>memory := put_tags bp size' False (memory h)\<rparr>))))"

text \<open>Copying \<open>n\<close> bytes.\<close>

definition memcpy :: "nat \<Rightarrow> nat \<Rightarrow> nat \<Rightarrow> mem \<Rightarrow> mem" where
  "memcpy dst src n m = (\<lambda>p. if dst \<le> p \<and> p < dst + n then m (src + (p - dst)) else m p)"

definition mm_realloc :: "nat \<Rightarrow> nat \<Rightarrow> heap \<Rightarrow> (nat \<times> heap) option" where
  "mm_realloc ptr size' h =
     (if size' = 0 then Some (0, mm_free ptr h)
      else if ptr = 0 then mm_malloc size' h
      else (case mm_malloc size' h of
          None \<Rightarrow> None
        | Some (newptr, h1) \<Rightarrow>
            if newptr = 0 then Some (0, h1)
            else
              (let oldsize = min size' (GET_SIZE (memory h1) (HDRP ptr));
                   h2 = h1\<lparr>memory := memcpy newptr ptr oldsize (memory h1)\<rparr>
               in Some (newptr, mm_free ptr h2))))"

section \<open>The check of the heap\<close>

text \<open>The messages printed.\<close>

definition checkblock :: "mem \<Rightarrow> nat \<Rightarrow> string list" where
  "checkblock m bp =
     (if bp mod 8 \<noteq> 0 then [''not doubleword aligned''] else []) @
     (if GET m (HDRP bp) \<noteq> GET m (FTRP m bp) then [''header does not match footer''] else [])"

partial_function (option) check_loop :: "mem \<Rightarrow> nat \<Rightarrow> string list \<Rightarrow> (nat \<times> string list) option" where
  "check_loop m bp msgs =
     (if GET_SIZE m (HDRP bp) > 0 then check_loop m (NEXT_BLKP m bp) (msgs @ checkblock m bp)
      else Some (bp, msgs))"

declare check_loop.simps [code]

definition checkheap :: "heap \<Rightarrow> string list option" where
  "checkheap h =
     (let m = memory h; p = heap_listp h;
          msgs = (if GET_SIZE m (HDRP p) \<noteq> DSIZE \<or> \<not> GET_ALLOC m (HDRP p) then [''Bad prologue header''] else []) @
                 checkblock m p
      in (case check_loop m p msgs of
            None \<Rightarrow> None
          | Some (bp, msgs') \<Rightarrow>
              Some (msgs' @ (if GET_SIZE m (HDRP bp) \<noteq> 0 \<or> \<not> GET_ALLOC m (HDRP bp) then [''Bad epilogue header''] else []))))"

end
