(* ===== verification/Mm.thy ===== *)
theory Mm
  imports Mm_Heap
begin

text \<open>
  The heap as a list of blocks. Every block has the same tag, its size and whether it is allocated, in its first and
  in its last word; the blocks follow each other without a gap from the prologue to the epilogue.
\<close>

section \<open>Words in memory\<close>

lemma GET_PUT_same [simp]: "GET (PUT p v m) p = v"
proof (rule bit_word_eqI)
  fix n assume n: "n < LENGTH(32)"
  consider "n < 8" | "8 \<le> n" "n < 16" | "16 \<le> n" "n < 24" | "24 \<le> n" "n < 32" using n by fastforce
  then show "bit (GET (PUT p v m) p) n = bit v n"
    by cases (auto simp: GET_def PUT_def bit_or_iff bit_push_bit_iff bit_ucast_iff bit_drop_bit_eq)
qed

lemma GET_cong: "(\<And>q. p \<le> q \<Longrightarrow> q < p + 4 \<Longrightarrow> m' q = m q) \<Longrightarrow> GET m' p = GET m p"
  by (simp add: GET_def)

lemma PUT_outside: "q < p \<or> p + 4 \<le> q \<Longrightarrow> PUT p v m q = m q"
  by (auto simp: PUT_def)

lemma GET_PUT_other: "q + 4 \<le> p \<or> p + 4 \<le> q \<Longrightarrow> GET (PUT p v m) q = GET m q"
  by (rule GET_cong) (auto intro: PUT_outside)

section \<open>Tags\<close>

lemma or_tag: "8 dvd s \<Longrightarrow> s OR (if a then 1 else 0) = s + (if a then 1 else 0)" for s :: nat
proof -
  assume "8 dvd s"
  then have "\<not> bit s 0" by (auto simp: bit_0 elim: dvdE)
  then have "s + 1 = s OR 1" by (intro disjunctive_add) (metis bit_1_iff)
  then show ?thesis by simp
qed

lemma and_not7: "unat (v AND NOT 7) = unat v div 8 * 8" for v :: "32 word"
proof -
  have "v AND NOT 7 = push_bit 3 (drop_bit 3 v)"
  proof (rule bit_word_eqI)
    fix n assume "n < LENGTH(32)"
    have "(7 :: 32 word) = mask 3" by (simp add: mask_eq_exp_minus_1)
    then have "bit (v AND NOT 7) n = bit (v AND NOT (mask 3)) n" by (simp only:)
    also have "\<dots> = bit (push_bit 3 (drop_bit 3 v)) n"
      using \<open>n < LENGTH(32)\<close>
      by (auto simp: bit_and_iff bit_not_iff bit_mask_iff bit_push_bit_iff bit_drop_bit_eq simp flip: bit_iff_odd)
    finally show "bit (v AND NOT 7) n = bit (push_bit 3 (drop_bit 3 v)) n" .
  qed
  moreover have "unat (drop_bit 3 v) = unat v div 8" by (simp only: unat_drop_bit_eq) (simp add: drop_bit_eq_div)
  moreover have "unat v div 8 * 8 < 2 ^ 32"
  proof -
    have "unat v < 2 ^ LENGTH(32)" by (rule unsigned_less)
    then show ?thesis using div_times_less_eq_dividend [of "unat v" 8] by (simp add: le_less_trans)
  qed
  ultimately show ?thesis by (simp add: push_bit_eq_mult unat_word_ariths)
qed

lemma pack_fields:
  assumes "8 dvd s" and "s < 2 ^ 32"
  shows "unat (PACK s a AND NOT 7) = s" and "PACK s a AND 1 \<noteq> 0 \<longleftrightarrow> a"
proof -
  let ?t = "if a then 1 else 0 :: nat"
  obtain k where k: "s = 8 * k" using assms(1) by (auto elim: dvdE)
  have lt: "s + ?t < 2 ^ 32"
  proof -
    have "s \<noteq> 4294967295" using k by presburger
    then show ?thesis using assms(2) by auto
  qed
  have u: "unat (PACK s a) = s + ?t"
    unfolding PACK_def or_tag [OF assms(1)] using lt by (simp only: unat_of_nat) simp
  show "unat (PACK s a AND NOT 7) = s" unfolding and_not7 u using k by simp
  have "PACK s a AND 1 \<noteq> 0 \<longleftrightarrow> odd (unat (PACK s a))"
    by (simp add: and_one_eq odd_iff_mod_2_eq_one [symmetric] bit_0 [symmetric] bit_unsigned_iff)
  also have "\<dots> \<longleftrightarrow> a" using u k by auto
  finally show "PACK s a AND 1 \<noteq> 0 \<longleftrightarrow> a" .
qed

lemma tag_fields:
  assumes "GET m p = PACK s a" and "8 dvd s" and "s < 2 ^ 32"
  shows "GET_SIZE m p = s" and "GET_ALLOC m p = a"
  unfolding GET_SIZE_def GET_ALLOC_def assms(1) by (rule pack_fields [OF assms(2,3)])+

section \<open>Blocks\<close>

type_synonym blocks = "(nat \<times> bool) list"

abbreviation total :: "blocks \<Rightarrow> nat" where
  "total bs \<equiv> sum_list (map fst bs)"

definition size_ok :: "nat \<Rightarrow> bool" where
  "size_ok s \<longleftrightarrow> 8 dvd s \<and> 8 \<le> s \<and> s < 2 ^ 32"

text \<open>The blocks \<open>bs\<close> lie one after the other in memory, the payload of the first at \<open>bp\<close>.\<close>

fun bseg :: "mem \<Rightarrow> nat \<Rightarrow> blocks \<Rightarrow> bool" where
  "bseg m bp [] \<longleftrightarrow> True"
| "bseg m bp ((s, a) # bs) \<longleftrightarrow>
     size_ok s \<and> GET m (bp - 4) = PACK s a \<and> GET m (bp + s - 8) = PACK s a \<and> bseg m (bp + s) bs"

text \<open>The allocated blocks: the address of the payload and the size of the block.\<close>

fun allocs :: "nat \<Rightarrow> blocks \<Rightarrow> (nat \<times> nat) set" where
  "allocs bp [] = {}"
| "allocs bp ((s, a) # bs) = (if a then {(bp, s)} else {}) \<union> allocs (bp + s) bs"

fun no_adjacent :: "blocks \<Rightarrow> bool" where
  "no_adjacent (x # y # bs) \<longleftrightarrow> (snd x \<or> snd y) \<and> no_adjacent (y # bs)"
| "no_adjacent _ \<longleftrightarrow> True"

definition same_outside :: "nat \<Rightarrow> nat \<Rightarrow> mem \<Rightarrow> mem \<Rightarrow> bool" where
  "same_outside lo hi m m' \<longleftrightarrow> (\<forall>q. q < lo \<or> hi \<le> q \<longrightarrow> m' q = m q)"

definition kept :: "(nat \<times> nat) set \<Rightarrow> mem \<Rightarrow> mem \<Rightarrow> bool" where
  "kept A m m' \<longleftrightarrow> (\<forall>(p, s) \<in> A. \<forall>q. p \<le> q + 4 \<and> q + 4 < p + s \<longrightarrow> m' q = m q)"

lemma bseg_append: "bseg m bp (xs @ ys) \<longleftrightarrow> bseg m bp xs \<and> bseg m (bp + total xs) ys"
  by (induction m bp xs rule: bseg.induct) (auto simp: add.assoc)

lemma allocs_append: "allocs bp (xs @ ys) = allocs bp xs \<union> allocs (bp + total xs) ys"
  by (induction bp xs rule: allocs.induct) (auto simp: add.assoc)

lemma no_adjacent_append:
  "no_adjacent (xs @ ys) \<longleftrightarrow>
     no_adjacent xs \<and> no_adjacent ys \<and> (xs = [] \<or> ys = [] \<or> snd (last xs) \<or> snd (hd ys))"
proof (induction xs)
  case (Cons x xs)
  then show ?case by (cases xs; cases ys) auto
qed simp

lemma bseg_frame:
  assumes "\<And>q. bp \<le> q + 4 \<Longrightarrow> q + 4 < bp + total bs \<Longrightarrow> m' q = m q" and "bseg m bp bs" and "4 \<le> bp"
  shows "bseg m' bp bs"
  using assms
proof (induction m bp bs rule: bseg.induct)
  case (2 m bp s a bs)
  then have s: "8 \<le> s" by (simp add: size_ok_def)
  have "GET m' (bp - 4) = GET m (bp - 4)" by (rule GET_cong, rule "2.prems"(1)) (use s 2 in auto)
  moreover have "GET m' (bp + s - 8) = GET m (bp + s - 8)"
    by (rule GET_cong, rule "2.prems"(1)) (use s in auto)
  moreover have "bseg m' (bp + s) bs" using 2 by auto
  ultimately show ?case using 2 by auto
qed simp

lemma allocs_bounds: "(p, s) \<in> allocs bp bs \<Longrightarrow> bp \<le> p \<and> p + s \<le> bp + total bs"
  by (induction bp bs rule: allocs.induct) (auto split: if_splits)

lemma allocs_size: "(p, s) \<in> allocs bp bs \<Longrightarrow> bseg m bp bs \<Longrightarrow> size_ok s"
  by (induction m bp bs rule: bseg.induct) (auto split: if_splits)

text \<open>Two different allocated blocks do not overlap.\<close>

lemma allocs_disjoint:
  assumes "(p, s) \<in> allocs bp bs" and "(q, t) \<in> allocs bp bs" and "(p, s) \<noteq> (q, t)"
  shows "p + s \<le> q \<or> q + t \<le> p"
  using assms
proof (induction bp bs rule: allocs.induct)
  case (2 bp u a bs)
  then show ?case using allocs_bounds [of p s "bp + u" bs] allocs_bounds [of q t "bp + u" bs]
    by (auto split: if_splits)
qed simp

lemma allocs_split:
  assumes "(p, s) \<in> allocs bp bs"
  obtains xs ys where "bs = xs @ (s, True) # ys" and "p = bp + total xs"
  using assms
proof (induction bp bs arbitrary: thesis rule: allocs.induct)
  case (2 bp u a bs)
  show ?case
  proof (cases "a \<and> (p, s) = (bp, u)")
    case True
    then show ?thesis using "2.prems"(1) [of "[]" bs] by simp
  next
    case False
    then have "(p, s) \<in> allocs (bp + u) bs" using "2.prems"(2) by (auto split: if_splits)
    from "2.IH" [OF _ this] obtain xs ys where "bs = xs @ (s, True) # ys" "p = bp + u + total xs" by blast
    then show ?thesis using "2.prems"(1) [of "(u, a) # xs" ys] by simp
  qed
qed simp

lemma kept_same_outside:
  assumes "same_outside lo hi m m'" and "\<And>p s. (p, s) \<in> A \<Longrightarrow> p + s \<le> lo + 4 \<or> hi + 4 \<le> p"
  shows "kept A m m'"
  using assms unfolding kept_def same_outside_def by fastforce

lemma kept_trans: "kept A m m' \<Longrightarrow> kept B m' m'' \<Longrightarrow> A \<subseteq> B \<Longrightarrow> kept A m m''"
  unfolding kept_def by fastforce

lemma kept_mono: "kept B m m' \<Longrightarrow> A \<subseteq> B \<Longrightarrow> kept A m m'"
  unfolding kept_def by blast

section \<open>Well-formed heaps\<close>

text \<open>
  The first block is the prologue, the blocks reach up to the break, and the word before the break is the epilogue,
  the header of an allocated block of size 0.
\<close>

definition heap_wf :: "heap \<Rightarrow> blocks \<Rightarrow> bool" where
  "heap_wf h bs \<longleftrightarrow>
     8 dvd heap_listp h \<and> 8 \<le> heap_listp h \<and> bs \<noteq> [] \<and> hd bs = (8, True) \<and>
     bseg (memory h) (heap_listp h) bs \<and> mem_brk h = heap_listp h + total bs \<and>
     GET (memory h) (mem_brk h - 4) = PACK 0 True \<and>
     mem_brk h \<le> mem_max_addr h \<and> mem_max_addr h \<le> heap_listp h + 2 ^ 31"

lemma tagged:
  assumes "size_ok s" and "4 \<le> bp"
    and "m' = PUT (bp - 4) (PACK s a) (PUT (bp + s - 8) (PACK s a) m) \<or>
         m' = PUT (bp + s - 8) (PACK s a) (PUT (bp - 4) (PACK s a) m)"
  shows "bseg m' bp [(s, a)]" and "same_outside (bp - 4) (bp + s - 4) m m'"
proof -
  have s: "8 \<le> s" using assms(1) by (simp add: size_ok_def)
  have "bp - 4 + 4 \<le> bp + s - 8" using s assms(2) by simp
  then show "bseg m' bp [(s, a)]" using assms(1,3) by (auto simp: GET_PUT_other)
  show "same_outside (bp - 4) (bp + s - 4) m m'"
    unfolding same_outside_def
  proof (intro allI impI)
    fix q assume "q < bp - 4 \<or> bp + s - 4 \<le> q"
    then have "q < bp - 4 \<or> bp - 4 + 4 \<le> q" "q < bp + s - 8 \<or> bp + s - 8 + 4 \<le> q" using s assms(2) by auto
    then show "m' q = m q" using assms(3) by (auto simp: PUT_outside)
  qed
qed

lemma put_tags_ok:
  assumes "size_ok s" and "4 \<le> bp"
  shows "bseg (put_tags bp s a m) bp [(s, a)]" and "same_outside (bp - 4) (bp + s - 4) m (put_tags bp s a m)"
proof -
  have "GET_SIZE (PUT (bp - 4) (PACK s a) m) (bp - 4) = s"
    using assms(1) by (intro tag_fields) (auto simp: size_ok_def)
  then have "put_tags bp s a m = PUT (bp + s - 8) (PACK s a) (PUT (bp - 4) (PACK s a) m)"
    by (simp add: put_tags_def FTRP_def HDRP_def WSIZE_def DSIZE_def)
  then show "bseg (put_tags bp s a m) bp [(s, a)]" and "same_outside (bp - 4) (bp + s - 4) m (put_tags bp s a m)"
    using tagged [OF assms] by blast+
qed

lemma wf_seg:
  assumes "heap_wf h (xs @ B @ ys)"
  shows "bseg (memory h) (heap_listp h + total xs) B" and "8 \<le> heap_listp h + total xs"
    and "heap_listp h + total xs + total B \<le> mem_brk h"
  using assms by (auto simp: heap_wf_def bseg_append)

lemma wf_total: "heap_wf h bs \<Longrightarrow> total bs \<le> 2 ^ 31"
  by (simp add: heap_wf_def)

lemma size_ok_fields:
  assumes "GET m p = PACK s a" and "size_ok s"
  shows "GET_SIZE m p = s" and "GET_ALLOC m p = a"
  using tag_fields [OF assms(1)] assms(2) by (auto simp: size_ok_def)

lemma wf_block:
  assumes "heap_wf h (xs @ (s, a) # ys)"
  shows "size_ok s" and "GET (memory h) (heap_listp h + total xs - 4) = PACK s a"
    and "GET (memory h) (heap_listp h + total xs + s - 8) = PACK s a"
  using wf_seg [of h xs "[(s, a)]" ys] assms by auto

lemma wf_prev:
  assumes "heap_wf h (xs @ (t, b) # ys)" and "bp = heap_listp h + total xs + t"
  shows "GET_SIZE (memory h) (bp - 8) = t" and "PREV_BLKP (memory h) bp = heap_listp h + total xs"
    and "FTRP (memory h) (PREV_BLKP (memory h) bp) = bp - 8" and "GET_ALLOC (memory h) (bp - 8) = b"
proof -
  note w = wf_block [OF assms(1)]
  show a: "GET_SIZE (memory h) (bp - 8) = t" "GET_ALLOC (memory h) (bp - 8) = b"
    using size_ok_fields [OF w(3,1)] assms(2) by auto
  then show p: "PREV_BLKP (memory h) bp = heap_listp h + total xs"
    using assms(2) by (simp add: PREV_BLKP_def DSIZE_def)
  show "FTRP (memory h) (PREV_BLKP (memory h) bp) = bp - 8"
    unfolding p using size_ok_fields [OF w(2,1)] assms(2) by (simp add: FTRP_def HDRP_def WSIZE_def DSIZE_def)
qed

definition next_tag :: "blocks \<Rightarrow> nat \<times> bool" where
  "next_tag ys = (case ys of [] \<Rightarrow> (0, True) | y # _ \<Rightarrow> y)"

lemma wf_next:
  assumes "heap_wf h (xs @ ys)" and "bp = heap_listp h + total xs"
  shows "GET_SIZE (memory h) (bp - 4) = fst (next_tag ys)" and "GET_ALLOC (memory h) (bp - 4) = snd (next_tag ys)"
proof -
  have "GET (memory h) (bp - 4) = PACK (fst (next_tag ys)) (snd (next_tag ys)) \<and>
    8 dvd fst (next_tag ys) \<and> fst (next_tag ys) < 2 ^ 32"
  proof (cases ys)
    case Nil
    then show ?thesis using assms by (auto simp: heap_wf_def next_tag_def)
  next
    case (Cons y zs)
    then have "heap_wf h (xs @ (fst y, snd y) # zs)" using assms(1) by simp
    from wf_block [OF this] show ?thesis using assms(2) Cons by (simp add: next_tag_def size_ok_def)
  qed
  then show "GET_SIZE (memory h) (bp - 4) = fst (next_tag ys)" "GET_ALLOC (memory h) (bp - 4) = snd (next_tag ys)"
    using tag_fields [of "memory h" "bp - 4"] by blast+
qed

text \<open>Rewriting some of the blocks.\<close>

lemma wf_replace:
  assumes wf: "heap_wf h (xs @ B @ ys)" and "xs \<noteq> []" and bp: "bp = heap_listp h + total xs"
    and same: "same_outside (bp - 4) (bp + total B - 4) (memory h) m'" and "bseg m' bp B'" and "total B' = total B"
  shows "heap_wf (h\<lparr>memory := m'\<rparr>) (xs @ B' @ ys)"
proof -
  note w = wf [unfolded heap_wf_def bseg_append]
  have m': "m' q = memory h q" if "q < bp - 4 \<or> bp + total B - 4 \<le> q" for q
    using same that unfolding same_outside_def by blast
  have 8: "8 \<le> bp" using w bp by simp
  have "bseg m' (heap_listp h) xs"
    by (rule bseg_frame [of _ _ _ "memory h"]) (use w bp in \<open>auto intro: m'\<close>)
  moreover have "bseg m' (bp + total B) ys"
    by (rule bseg_frame [of _ _ _ "memory h"]) (use w bp 8 in \<open>auto intro: m' simp: add.assoc\<close>)
  moreover have "GET m' (mem_brk h - 4) = GET (memory h) (mem_brk h - 4)"
    by (rule GET_cong, rule m') (use w bp 8 in auto)
  ultimately show ?thesis using w assms by (auto simp: heap_wf_def bseg_append add.assoc)
qed

lemma wf_replace_kept:
  assumes "heap_wf h (xs @ B @ ys)" and "bp = heap_listp h + total xs"
    and "same_outside (bp - 4) (bp + total B - 4) (memory h) m'"
  shows "kept (allocs (heap_listp h) xs \<union> allocs (bp + total B) ys) (memory h) m'"
  using assms(3)
proof (rule kept_same_outside)
  fix p s
  assume a: "(p, s) \<in> allocs (heap_listp h) xs \<union> allocs (bp + total B) ys"
  have "8 \<le> bp" using wf_seg(2) [OF assms(1)] assms(2) by simp
  then show "p + s \<le> bp - 4 + 4 \<or> bp + total B - 4 + 4 \<le> p"
    using a allocs_bounds [of p s "heap_listp h" xs] allocs_bounds [of p s "bp + total B" ys] assms(2) by auto
qed

section \<open>Coalescing\<close>

lemma allocs_free: "\<forall>b \<in> set B. \<not> snd b \<Longrightarrow> allocs bp B = {}"
  by (induction bp B rule: allocs.induct) auto

text \<open>Free blocks become one free block.\<close>

lemma merge:
  assumes "heap_wf h (xs @ B @ ys)" and "xs \<noteq> []" and "bp = heap_listp h + total xs" and "\<forall>b \<in> set B. \<not> snd b"
    and "bseg m' bp [(total B, False)]" and "same_outside (bp - 4) (bp + total B - 4) (memory h) m'"
  shows "heap_wf (h\<lparr>memory := m'\<rparr>) (xs @ (total B, False) # ys)"
    and "allocs (heap_listp h) (xs @ (total B, False) # ys) = allocs (heap_listp h) (xs @ B @ ys)"
    and "kept (allocs (heap_listp h) (xs @ B @ ys)) (memory h) m'"
proof -
  show "heap_wf (h\<lparr>memory := m'\<rparr>) (xs @ (total B, False) # ys)"
    using wf_replace [OF assms(1-3,6,5)] by simp
  show "allocs (heap_listp h) (xs @ (total B, False) # ys) = allocs (heap_listp h) (xs @ B @ ys)"
    by (simp add: allocs_append allocs_free [OF assms(4)] add.assoc)
  show "kept (allocs (heap_listp h) (xs @ B @ ys)) (memory h) m'"
    using wf_replace_kept [OF assms(1,3,6)] assms(3) by (simp add: allocs_append allocs_free [OF assms(4)] add.assoc)
qed

lemma size_ok_part:
  assumes "heap_wf h (xs @ B @ ys)" and "B \<noteq> []"
  shows "size_ok (total B)"
proof -
  have bseg: "bseg m bp bs \<Longrightarrow> 8 dvd total bs \<and> (bs \<noteq> [] \<longrightarrow> 8 \<le> total bs)" for m bp bs
    by (induction m bp bs rule: bseg.induct) (auto simp: size_ok_def)
  have "total B \<le> 2 ^ 31" using wf_total [OF assms(1)] by simp
  then show ?thesis using bseg [OF wf_seg(1) [OF assms(1)]] assms(2) by (simp add: size_ok_def)
qed

text \<open>What \<^verbatim>\<open>coalesce\<close> reads: the tags of the block and of its two neighbours.\<close>

lemma coalesce_reads:
  assumes wf: "heap_wf h (xs @ (t, b) # (s, False) # ys)" and bp: "bp = heap_listp h + total xs + t"
  shows "PREV_BLKP (memory h) bp = bp - t" and "GET_ALLOC (memory h) (FTRP (memory h) (PREV_BLKP (memory h) bp)) = b"
    and "GET_SIZE (memory h) (HDRP bp) = s" and "NEXT_BLKP (memory h) bp = bp + s" and "FTRP (memory h) bp = bp + s - 8"
    and "GET_SIZE (memory h) (HDRP (PREV_BLKP (memory h) bp)) = t"
    and "GET_ALLOC (memory h) (HDRP (NEXT_BLKP (memory h) bp)) = snd (next_tag ys)"
    and "GET_SIZE (memory h) (HDRP (NEXT_BLKP (memory h) bp)) = fst (next_tag ys)"
proof -
  note p = wf_prev [OF wf bp]
  show prev: "PREV_BLKP (memory h) bp = bp - t" using p(2) bp by simp
  show "GET_ALLOC (memory h) (FTRP (memory h) (PREV_BLKP (memory h) bp)) = b" using p(3,4) by simp
  have 1: "heap_wf h ((xs @ [(t, b)]) @ (s, False) # ys)" and 2: "heap_wf h ((xs @ [(t, b), (s, False)]) @ ys)"
    using wf by simp_all
  show s: "GET_SIZE (memory h) (HDRP bp) = s"
    using wf_next(1) [OF 1, of bp] bp by (simp add: next_tag_def HDRP_def WSIZE_def)
  then show n: "NEXT_BLKP (memory h) bp = bp + s" and "FTRP (memory h) bp = bp + s - 8"
    by (simp_all add: NEXT_BLKP_def FTRP_def HDRP_def WSIZE_def DSIZE_def)
  show "GET_SIZE (memory h) (HDRP (PREV_BLKP (memory h) bp)) = t"
    using wf_next(1) [OF wf, of "bp - t"] bp unfolding prev by (simp add: next_tag_def HDRP_def WSIZE_def)
  show "GET_ALLOC (memory h) (HDRP (NEXT_BLKP (memory h) bp)) = snd (next_tag ys)"
    and "GET_SIZE (memory h) (HDRP (NEXT_BLKP (memory h) bp)) = fst (next_tag ys)"
    using wf_next [OF 2, of "bp + s"] bp unfolding n by (simp_all add: HDRP_def WSIZE_def add.assoc)
qed

lemma GET_SIZE_PUT_other: "q + 4 \<le> p \<or> p + 4 \<le> q \<Longrightarrow> GET_SIZE (PUT p v m) q = GET_SIZE m q"
  by (simp add: GET_SIZE_def GET_PUT_other)

text \<open>The four cases of \<^verbatim>\<open>coalesce\<close>.\<close>

lemma coalesce_1:
  assumes "heap_wf h (xs @ (t, True) # (s, False) # ys)" and "bp = heap_listp h + total xs + t" and "snd (next_tag ys)"
  shows "coalesce bp h = (bp, h)"
  using coalesce_reads [OF assms(1,2)] assms(3) by (simp add: coalesce_def Let_def)

lemma coalesce_2:
  assumes "heap_wf h (xs @ (t, True) # (s, False) # (u, False) # ys)" and "bp = heap_listp h + total xs + t"
  shows "coalesce bp h = (bp, h\<lparr>memory := put_tags bp (s + u) False (memory h)\<rparr>)"
  using coalesce_reads [OF assms] by (simp add: coalesce_def Let_def next_tag_def)

lemma coalesce_3:
  assumes wf: "heap_wf h (xs @ (t, False) # (s, False) # ys)" and bp: "bp = heap_listp h + total xs + t"
    and "snd (next_tag ys)" and v: "v = PACK (s + t) False"
  shows "coalesce bp h = (bp - t, h\<lparr>memory := PUT (bp - t - 4) v (PUT (bp + s - 8) v (memory h))\<rparr>)"
proof -
  let ?m = "memory h"
  have w: "size_ok t" "size_ok s" using wf_block [OF wf] wf_block [of h "xs @ [(t, False)]"] wf by auto
  then have ge: "8 \<le> t" "8 \<le> s" "8 \<le> bp - t" using wf_seg(2) [of h xs "[]"] wf bp
    by (auto simp: size_ok_def)
  have t: "GET_SIZE ?m (bp - 8) = t" by (rule wf_prev [OF wf bp])
  have 1: "GET_SIZE (PUT (bp + s - 8) v ?m) (bp - 8) = t"
    using ge by (subst GET_SIZE_PUT_other) (auto simp: t)
  have 2: "GET_SIZE (PUT (bp - t - 4) v (PUT (bp + s - 8) v ?m)) (bp - 8) = t"
    by (subst GET_SIZE_PUT_other) (use ge 1 in auto)
  have "PREV_BLKP (PUT (bp + s - 8) v ?m) bp = bp - t"
    and "PREV_BLKP (PUT (bp - t - 4) v (PUT (bp + s - 8) v ?m)) bp = bp - t"
    using 1 2 by (simp_all add: PREV_BLKP_def DSIZE_def)
  then show ?thesis
    using coalesce_reads [OF wf bp] assms(3) unfolding v
    by (simp add: coalesce_def Let_def HDRP_def WSIZE_def)
qed

lemma coalesce_4:
  assumes wf: "heap_wf h (xs @ (t, False) # (s, False) # (u, False) # ys)" and bp: "bp = heap_listp h + total xs + t"
    and v: "v = PACK (t + s + u) False"
  shows "coalesce bp h = (bp - t, h\<lparr>memory := PUT (bp + s + u - 8) v (PUT (bp - t - 4) v (memory h))\<rparr>)"
proof -
  let ?m = "memory h"
  have wf3: "heap_wf h ((xs @ [(t, False), (s, False)]) @ (u, False) # ys)" using wf by simp
  have w: "size_ok t" "size_ok s" "size_ok u"
    using wf_block [OF wf] wf_block [of h "xs @ [(t, False)]"] wf_block [OF wf3] wf by auto
  then have ge: "8 \<le> t" "8 \<le> s" "8 \<le> u" "8 \<le> bp - t" using wf_seg(2) [of h xs "[]"] wf bp
    by (auto simp: size_ok_def)
  have tot: "t + u < 2 ^ 32" using wf_total [OF wf] by simp
  have t: "GET_SIZE ?m (bp - 8) = t" by (rule wf_prev [OF wf bp])
  have s: "GET_SIZE ?m (bp - 4) = s" and u: "GET_SIZE ?m (bp + s - 4) = u" and f: "GET_SIZE ?m (bp + s + u - 8) = u"
    using coalesce_reads(3) [OF wf bp] coalesce_reads(4,8) [OF wf bp] size_ok_fields(1) [OF wf_block(3,1) [OF wf3]] bp
    by (simp_all add: HDRP_def WSIZE_def next_tag_def add.assoc)
  let ?m1 = "PUT (bp - t - 4) v ?m"
  have 1: "GET_SIZE ?m1 (bp - 4) = s" "GET_SIZE ?m1 (bp + s - 4) = u" "GET_SIZE ?m1 (bp - 8) = t"
    unfolding atomize_conj using ge
    by (intro conjI; subst GET_SIZE_PUT_other) (auto simp: s u t)
  have 2: "GET_SIZE (PUT (bp + s + u - 8) v ?m1) (bp - 8) = t"
    by (subst GET_SIZE_PUT_other) (use ge 1(3) in auto)
  have "FTRP ?m1 (NEXT_BLKP ?m1 bp) = bp + s + u - 8" "FTRP ?m (NEXT_BLKP ?m bp) = bp + s + u - 8"
    using 1 s u by (simp_all add: FTRP_def NEXT_BLKP_def HDRP_def WSIZE_def DSIZE_def)
  moreover have "PREV_BLKP (PUT (bp + s + u - 8) v ?m1) bp = bp - t"
    using 2 by (simp add: PREV_BLKP_def DSIZE_def)
  moreover have "PACK (s + (t + u) mod 2 ^ 32) False = v" using tot v by (simp add: ac_simps)
  ultimately show ?thesis
    using coalesce_reads [OF wf bp] f
    by (simp add: coalesce_def Let_def next_tag_def) (simp add: HDRP_def WSIZE_def)
qed

definition coalesced :: "heap \<Rightarrow> blocks \<Rightarrow> nat \<Rightarrow> nat \<Rightarrow> heap \<Rightarrow> bool" where
  "coalesced h bs s p h' \<longleftrightarrow> (\<exists>m' xs s' ys.
     h' = h\<lparr>memory := m'\<rparr> \<and> xs \<noteq> [] \<and> p = heap_listp h + total xs \<and> s \<le> s' \<and>
     heap_wf h' (xs @ (s', False) # ys) \<and> no_adjacent (xs @ (s', False) # ys) \<and>
     allocs (heap_listp h) (xs @ (s', False) # ys) = allocs (heap_listp h) bs \<and>
     kept (allocs (heap_listp h) bs) (memory h) m')"

lemma coalescedI:
  assumes "heap_wf h (xs @ B @ ys)" and "xs \<noteq> []" and "bp = heap_listp h + total xs" and "\<forall>b \<in> set B. \<not> snd b"
    and "bseg m' bp [(total B, False)]" and "same_outside (bp - 4) (bp + total B - 4) (memory h) m'"
    and "s \<le> total B" and "no_adjacent xs" and "no_adjacent ys" and "snd (last xs)" and "ys = [] \<or> snd (hd ys)"
  shows "coalesced h (xs @ B @ ys) s bp (h\<lparr>memory := m'\<rparr>)"
  unfolding coalesced_def
proof (intro exI conjI)
  show "no_adjacent (xs @ (total B, False) # ys)"
    using assms(8-11) by (cases ys) (auto simp: no_adjacent_append)
qed (rule refl merge [OF assms(1-6)] assms(2,3,7))+

lemma coalesce_ok:
  assumes wf: "heap_wf h (xs @ (s, False) # ys)" and "xs \<noteq> []" and bp: "bp = heap_listp h + total xs"
    and adj: "no_adjacent xs" "no_adjacent ys"
  shows "\<exists>p h'. coalesce bp h = (p, h') \<and> coalesced h (xs @ (s, False) # ys) s p h'"
proof -
  obtain xs0 t b where xs: "xs = xs0 @ [(t, b)]" using assms(2) by (metis rev_exhaust surj_pair)
  have hd: "hd xs = (8, True)" using wf assms(2) by (cases xs) (auto simp: heap_wf_def)
  have xs0: "xs0 \<noteq> []" if "\<not> b" using hd xs that by auto
  have wf': "heap_wf h (xs0 @ (t, b) # (s, False) # ys)" and bp': "bp = heap_listp h + total xs0 + t"
    using wf bp xs by auto
  have ge: "4 \<le> heap_listp h + total xs0" using wf' by (simp add: heap_wf_def)
  have adj0: "no_adjacent xs0" "\<not> b \<Longrightarrow> snd (last xs0)" using adj(1) xs0 xs by (auto simp: no_adjacent_append)
  show ?thesis
  proof (cases "snd (next_tag ys)")
    case True
    then have hdys: "ys = [] \<or> snd (hd ys)" by (cases ys) (auto simp: next_tag_def)
    show ?thesis
    proof (cases b)
      case b: True
      have "coalesced h (xs @ [(s, False)] @ ys) s bp (h\<lparr>memory := memory h\<rparr>)"
        by (rule coalescedI) (use wf bp xs adj hdys b wf_seg(1) [of h xs "[(s, False)]" ys] in \<open>auto simp: same_outside_def\<close>)
      then show ?thesis using coalesce_1 [OF _ bp' True] wf' b by auto
    next
      case b: False
      let ?B = "[(t, False), (s, False)]" and ?bp = "bp - t"
      have ge': "4 \<le> ?bp" using ge bp' by simp
      let ?v = "PACK (s + t) False"
      let ?m = "PUT (bp - t - 4) ?v (PUT (bp + s - 8) ?v (memory h))"
      have ok: "size_ok (s + t)" using size_ok_part [of h xs0 ?B ys] wf' b by (simp add: add.commute)
      have "?m = PUT (?bp - 4) ?v (PUT (?bp + (s + t) - 8) ?v (memory h)) \<or>
        ?m = PUT (?bp + (s + t) - 8) ?v (PUT (?bp - 4) ?v (memory h))"
        using bp' by (simp add: ac_simps)
      note m = tagged [OF ok ge' this]
      have "coalesced h (xs0 @ ?B @ ys) s ?bp (h\<lparr>memory := ?m\<rparr>)"
        by (rule coalescedI) (use wf' bp' b m adj adj0 xs0 hdys in \<open>auto simp: add.commute\<close>)
      then show ?thesis using coalesce_3 [OF _ bp' True refl] wf' b xs by auto
    qed
  next
    case False
    then obtain u ys0 where ys: "ys = (u, False) # ys0" by (cases ys) (auto simp: next_tag_def)
    have adjy: "no_adjacent ys0" "ys0 = [] \<or> snd (hd ys0)" using adj(2) ys by (cases ys0; auto)+
    show ?thesis
    proof (cases b)
      case b: True
      let ?B = "[(s, False), (u, False)]" and ?m = "put_tags bp (s + u) False (memory h)"
      have ok: "size_ok (s + u)" using size_ok_part [of h xs ?B ys0] wf ys by simp
      note m = put_tags_ok [OF ok, where bp = bp and a = False and m = "memory h"]
      have "coalesced h (xs @ ?B @ ys0) s bp (h\<lparr>memory := ?m\<rparr>)"
        by (rule coalescedI) (use wf bp bp' ge b m adj adjy xs ys in auto)
      then show ?thesis using coalesce_2 [OF _ bp'] wf' b ys by auto
    next
      case b: False
      let ?B = "[(t, False), (s, False), (u, False)]" and ?bp = "bp - t"
      have ge': "4 \<le> ?bp" using ge bp' by simp
      let ?v = "PACK (t + s + u) False"
      let ?m = "PUT (bp + s + u - 8) ?v (PUT (bp - t - 4) ?v (memory h))"
      have ok: "size_ok (t + s + u)" using size_ok_part [of h xs0 ?B ys0] wf' b ys by (simp add: add.assoc)
      have "?m = PUT (?bp - 4) ?v (PUT (?bp + (t + s + u) - 8) ?v (memory h)) \<or>
        ?m = PUT (?bp + (t + s + u) - 8) ?v (PUT (?bp - 4) ?v (memory h))"
        using bp' by (simp add: ac_simps)
      note m = tagged [OF ok ge' this]
      have "coalesced h (xs0 @ ?B @ ys0) s ?bp (h\<lparr>memory := ?m\<rparr>)"
        by (rule coalescedI) (use wf' bp' b m adj adj0 xs0 adjy ys in \<open>auto simp: add.assoc\<close>)
      then show ?thesis using coalesce_4 [OF _ bp' refl] wf' b xs ys by auto
    qed
  qed
qed

end
