(* ===== verification/Mm_Alloc.thy ===== *)
theory Mm_Alloc
  imports Mm
begin

text \<open>
  The operations of the allocator on a heap that is a list of blocks: \<^verbatim>\<open>extend_heap\<close>, \<^verbatim>\<open>find_fit\<close>, \<^verbatim>\<open>place\<close>,
  \<^verbatim>\<open>mm_init\<close>, \<^verbatim>\<open>mm_malloc\<close>, \<^verbatim>\<open>mm_free\<close>, \<^verbatim>\<open>mm_realloc\<close> and the check of the heap.
\<close>

section \<open>Extending the heap\<close>

lemma to_int_small: "n < 2 ^ 31 \<Longrightarrow> to_int n = int n"
  by (simp add: to_int_def)

text \<open>The heap after the new block and the new epilogue are written.\<close>

lemma extend_wf:
  assumes wf: "heap_wf h bs" and s: "size_ok s" and room: "mem_brk h + s \<le> mem_max_addr h"
    and m1: "m1 = put_tags (mem_brk h) s False (memory h)"
    and m2: "m2 = PUT (mem_brk h + s - 4) (PACK 0 True) m1"
  shows "heap_wf (h\<lparr>mem_brk := mem_brk h + s, memory := m2\<rparr>) (bs @ [(s, False)])"
    and "same_outside (mem_brk h - 4) (mem_brk h + s) (memory h) m2"
proof -
  note w = wf [unfolded heap_wf_def]
  have ge: "8 \<le> mem_brk h" "8 \<le> s" using w s by (auto simp: size_ok_def)
  have t: "bseg m1 (mem_brk h) [(s, False)]" "same_outside (mem_brk h - 4) (mem_brk h + s - 4) (memory h) m1"
    unfolding m1 using put_tags_ok [OF s] ge by auto
  show same: "same_outside (mem_brk h - 4) (mem_brk h + s) (memory h) m2"
    unfolding same_outside_def
  proof (intro allI impI)
    fix q assume "q < mem_brk h - 4 \<or> mem_brk h + s \<le> q"
    then have "m2 q = m1 q" and "q < mem_brk h - 4 \<or> mem_brk h + s - 4 \<le> q"
      unfolding m2 using ge by (intro PUT_outside, auto)
    then show "m2 q = memory h q" using t(2) unfolding same_outside_def by metis
  qed
  have "bseg m2 (mem_brk h) [(s, False)]"
    by (rule bseg_frame [OF _ t(1)]) (use ge in \<open>auto simp: m2 PUT_outside\<close>)
  moreover have "bseg m2 (heap_listp h) bs"
    by (rule bseg_frame [of _ _ _ "memory h"]) (use same w in \<open>auto simp: same_outside_def\<close>)
  ultimately show "heap_wf (h\<lparr>mem_brk := mem_brk h + s, memory := m2\<rparr>) (bs @ [(s, False)])"
    using w room by (auto simp: heap_wf_def bseg_append m2 add.assoc)
qed

text \<open>A free block \<open>p\<close> of at least \<open>s\<close> bytes in a heap with the allocated blocks of \<open>bs\<close>, all kept.\<close>

definition has_free :: "heap \<Rightarrow> blocks \<Rightarrow> nat \<Rightarrow> nat \<Rightarrow> heap \<Rightarrow> bool" where
  "has_free h bs s p h' \<longleftrightarrow> (\<exists>xs s' ys.
     heap_listp h' = heap_listp h \<and> mem_max_addr h' = mem_max_addr h \<and> mem_heap h' = mem_heap h \<and>
     mem_brk h \<le> mem_brk h' \<and> xs \<noteq> [] \<and> p = heap_listp h + total xs \<and> s \<le> s' \<and>
     heap_wf h' (xs @ (s', False) # ys) \<and> no_adjacent (xs @ (s', False) # ys) \<and>
     allocs (heap_listp h) (xs @ (s', False) # ys) = allocs (heap_listp h) bs \<and>
     kept (allocs (heap_listp h) bs) (memory h) (memory h'))"

lemma extend_heap_ok:
  assumes wf: "heap_wf h bs" and adj: "no_adjacent bs"
    and s: "s = (if odd words then (words + 1) * 4 else words * 4)" and "0 < words" and lt: "s < 2 ^ 31"
  shows "mem_max_addr h < mem_brk h + s \<Longrightarrow> extend_heap words h = (None, h)"
    and "mem_brk h + s \<le> mem_max_addr h \<Longrightarrow> \<exists>p h'. extend_heap words h = (Some p, h') \<and> has_free h bs s p h'"
proof -
  have ok: "size_ok s" using s assms(4) lt by (auto simp: size_ok_def elim!: evenE oddE)
  have sz: "(if odd words then (words + 1) * WSIZE else words * WSIZE) = s" by (simp add: s WSIZE_def)
  have i: "to_int s = int s" using lt by (rule to_int_small)
  show "mem_max_addr h < mem_brk h + s \<Longrightarrow> extend_heap words h = (None, h)"
    unfolding extend_heap_def sz by (simp add: mem_sbrk_def i)
  assume room: "mem_brk h + s \<le> mem_max_addr h"
  let ?b = "mem_brk h" and ?h1 = "h\<lparr>mem_brk := mem_brk h + s\<rparr>"
  let ?m1 = "put_tags ?b s False (memory h)"
  let ?m2 = "PUT (?b + s - 4) (PACK 0 True) ?m1"
  let ?h2 = "h\<lparr>mem_brk := mem_brk h + s, memory := ?m2\<rparr>"
  have b: "?b = heap_listp h + total bs" "8 \<le> ?b" "bs \<noteq> []" using wf by (auto simp: heap_wf_def)
  note e = extend_wf [OF wf ok room refl refl]
  have "GET_SIZE ?m1 (?b - 4) = s"
    using put_tags_ok(1) [OF ok, of ?b False "memory h"] b ok by (auto intro: size_ok_fields)
  then have n: "HDRP (NEXT_BLKP ?m1 ?b) = ?b + s - 4" by (simp add: HDRP_def NEXT_BLKP_def WSIZE_def)
  obtain p h' where c: "coalesce ?b ?h2 = (p, h')" and co: "coalesced ?h2 (bs @ [(s, False)]) s p h'"
    using coalesce_ok [of ?h2 bs s "[]" ?b] e(1) b adj by auto
  have "extend_heap words h = (Some p, h')"
    unfolding extend_heap_def sz using room c by (simp add: mem_sbrk_def i n Let_def)
  moreover have "has_free h bs s p h'"
  proof -
    have k: "kept (allocs (heap_listp h) bs) (memory h) ?m2"
      by (rule kept_same_outside [OF e(2)]) (use allocs_bounds b in fastforce)
    obtain m' xs s' ys where h': "h' = ?h2\<lparr>memory := m'\<rparr>" and co': "xs \<noteq> []" "p = heap_listp h + total xs" "s \<le> s'"
      "heap_wf h' (xs @ (s', False) # ys)" "no_adjacent (xs @ (s', False) # ys)"
      "allocs (heap_listp h) (xs @ (s', False) # ys) = allocs (heap_listp h) bs"
      "kept (allocs (heap_listp h) bs) ?m2 m'"
      using co unfolding coalesced_def by (auto simp: allocs_append)
    show ?thesis
      unfolding has_free_def
      by (intro exI [of _ xs] exI [of _ s'] exI [of _ ys] conjI)
        (use co' kept_trans [OF k co'(7)] in \<open>simp_all add: h'\<close>)
  qed
  ultimately show "\<exists>p h'. extend_heap words h = (Some p, h') \<and> has_free h bs s p h'" by blast
qed

section \<open>First fit\<close>

lemma fit_loop_ok:
  assumes "heap_wf h (xs @ ys)" and "bp = heap_listp h + total xs"
  shows "fit_loop (memory h) asize bp = Some None \<and> (\<forall>(s, a) \<in> set ys. a \<or> s < asize) \<or>
    (\<exists>us s vs. ys = us @ (s, False) # vs \<and> asize \<le> s \<and> (\<forall>(s, a) \<in> set us. a \<or> s < asize) \<and>
       fit_loop (memory h) asize bp = Some (Some (bp + total us)))"
  using assms
proof (induction ys arbitrary: xs bp)
  case Nil
  then have "GET_SIZE (memory h) (HDRP bp) = 0" using wf_next(1) [OF Nil] by (simp add: next_tag_def HDRP_def WSIZE_def)
  then show ?case by (subst fit_loop.simps) simp
next
  case (Cons y ys)
  obtain s a where y: "y = (s, a)" by (cases y)
  have tag: "GET_SIZE (memory h) (HDRP bp) = s" "GET_ALLOC (memory h) (HDRP bp) = a"
    using wf_next [OF Cons.prems] by (simp_all add: next_tag_def HDRP_def WSIZE_def y)
  have nxt: "NEXT_BLKP (memory h) bp = bp + s" using tag by (simp add: NEXT_BLKP_def HDRP_def)
  have pos: "0 < s" using wf_block(1) [of h xs s a ys] Cons.prems y by (auto simp: size_ok_def)
  show ?case
  proof (cases "\<not> a \<and> asize \<le> s")
    case True
    then have "fit_loop (memory h) asize bp = Some (Some bp)" using pos tag by (subst fit_loop.simps) simp
    then show ?thesis using True y by (intro disjI2 exI [of _ "[]"]) auto
  next
    case False
    then have step: "fit_loop (memory h) asize bp = fit_loop (memory h) asize (bp + s)"
      using pos tag nxt by (subst fit_loop.simps) auto
    have wf: "heap_wf h ((xs @ [y]) @ ys)" and b: "bp + s = heap_listp h + total (xs @ [y])" using Cons.prems y by auto
    from Cons.IH [OF wf b] show ?thesis
    proof (elim disjE exE conjE)
      assume "fit_loop (memory h) asize (bp + s) = Some None" and "\<forall>(s, a) \<in> set ys. a \<or> s < asize"
      then show ?thesis using step y False by auto
    next
      fix us t vs
      assume us: "ys = us @ (t, False) # vs" "asize \<le> t" "\<forall>(s, a) \<in> set us. a \<or> s < asize"
        and fit: "fit_loop (memory h) asize (bp + s) = Some (Some (bp + s + total us))"
      have "y # ys = (y # us) @ (t, False) # vs" using us(1) by simp
      moreover have "\<forall>(s, a) \<in> set (y # us). a \<or> s < asize" using us(3) y False by auto
      moreover have "fit_loop (memory h) asize bp = Some (Some (bp + total (y # us)))"
        using step fit y by (simp add: add.assoc)
      ultimately show ?thesis using us(2) by blast
    qed
  qed
qed

section \<open>Placing a block\<close>

lemma sub64_ge: "b \<le> a \<Longrightarrow> a < 2 ^ 32 \<Longrightarrow> sub64 a b = a - b"
proof -
  assume a: "b \<le> a" "a < 2 ^ 32"
  then have "a + 2 ^ 64 - b = (a - b) + 2 ^ 64" by simp
  then have "sub64 a b = (a - b) mod 2 ^ 64" unfolding sub64_def by (simp only: mod_add_self2)
  then show ?thesis using a by simp
qed

lemma same_outside_trans:
  "same_outside lo hi m m1 \<Longrightarrow> same_outside lo' hi' m1 m2 \<Longrightarrow> lo \<le> lo' \<Longrightarrow> hi' \<le> hi \<Longrightarrow> same_outside lo hi m m2"
  unfolding same_outside_def by (metis le_trans less_le_trans)

definition placed :: "heap \<Rightarrow> blocks \<Rightarrow> nat \<Rightarrow> nat \<Rightarrow> heap \<Rightarrow> bool" where
  "placed h bs p n h' \<longleftrightarrow> (\<exists>bs' s.
     heap_listp h' = heap_listp h \<and> mem_max_addr h' = mem_max_addr h \<and> mem_heap h' = mem_heap h \<and>
     mem_brk h \<le> mem_brk h' \<and>
     heap_wf h' bs' \<and> no_adjacent bs' \<and> n \<le> s \<and>
     allocs (heap_listp h) bs' = insert (p, s) (allocs (heap_listp h) bs) \<and>
     (\<forall>(q, t) \<in> allocs (heap_listp h) bs. q + t \<le> p \<or> p + s \<le> q) \<and>
     kept (allocs (heap_listp h) bs) (memory h) (memory h'))"

lemma placedI:
  assumes "h' = h\<lparr>memory := m'\<rparr>"
    and wf: "heap_wf h (xs @ (s, False) # ys)" and bp: "bp = heap_listp h + total xs" and "xs \<noteq> []"
    and adj: "no_adjacent (xs @ (s, False) # ys)"
    and bseg: "bseg m' bp ((k, True) # B)" and "\<forall>b \<in> set B. \<not> snd b" and tot: "k + total B = s" and "length B \<le> 1"
    and "n \<le> k" and same: "same_outside (bp - 4) (bp + s - 4) (memory h) m'"
  shows "placed h (xs @ (s, False) # ys) bp n h'"
proof -
  have "heap_wf h (xs @ [(s, False)] @ ys)" using wf by simp
  note w = wf_replace [OF this assms(4) bp, of m' "(k, True) # B"] and kpt = wf_replace_kept [OF this bp, of m']
  have old: "allocs (heap_listp h) (xs @ (s, False) # ys) = allocs (heap_listp h) xs \<union> allocs (bp + s) ys"
    by (simp add: allocs_append bp)
  have new: "allocs (heap_listp h) (xs @ ((k, True) # B) @ ys) =
      insert (bp, k) (allocs (heap_listp h) xs \<union> allocs (bp + s) ys)"
    using tot by (auto simp: allocs_append bp allocs_free [OF assms(7)] add.assoc)
  have "no_adjacent (xs @ ((k, True) # B) @ ys)"
  proof (cases B)
    case Nil
    then show ?thesis using adj by (cases ys) (auto simp: no_adjacent_append)
  next
    case (Cons b B')
    then have "B' = []" using assms(9) by simp
    then show ?thesis using adj Cons by (cases ys) (auto simp: no_adjacent_append)
  qed
  moreover have "\<forall>(q, t) \<in> allocs (heap_listp h) xs \<union> allocs (bp + s) ys. q + t \<le> bp \<or> bp + k \<le> q"
    using allocs_bounds [of _ _ "heap_listp h" xs] allocs_bounds [of _ _ "bp + s" ys] bp tot by fastforce
  moreover have "heap_wf h' (xs @ ((k, True) # B) @ ys)"
    using w bseg same tot assms(1) by simp
  moreover have "kept (allocs (heap_listp h) xs \<union> allocs (bp + s) ys) (memory h) m'"
    using kpt same by simp
  ultimately show ?thesis
    unfolding placed_def old
    by (intro exI [of _ "xs @ ((k, True) # B) @ ys"] exI [of _ k] conjI) (simp_all only: new, simp_all add: assms)
qed

lemma place_ok:
  assumes wf: "heap_wf h (xs @ (s, False) # ys)" and bp: "bp = heap_listp h + total xs" and "xs \<noteq> []"
    and adj: "no_adjacent (xs @ (s, False) # ys)" and n: "size_ok n" "n \<le> s"
  shows "placed h (xs @ (s, False) # ys) bp n (place bp n h)"
proof -
  have s: "size_ok s" by (rule wf_block [OF wf])
  have ge: "4 \<le> bp" using wf bp by (simp add: heap_wf_def)
  have cs: "GET_SIZE (memory h) (HDRP bp) = s"
    using wf_next(1) [OF wf bp] by (simp add: next_tag_def HDRP_def WSIZE_def)
  have sub: "sub64 s n = s - n" using n s by (intro sub64_ge) (auto simp: size_ok_def)
  show ?thesis
  proof (cases "16 \<le> s - n")
    case True
    let ?m1 = "put_tags bp n True (memory h)"
    let ?m2 = "put_tags (bp + n) (s - n) False ?m1"
    have r: "size_ok (s - n)" using True s n by (auto simp: size_ok_def)
    note t1 = put_tags_ok [OF n(1) ge, where a = True and m = "memory h"]
    have ge2: "4 \<le> bp + n" using ge by simp
    note t2 = put_tags_ok [OF r ge2, where a = False and m = ?m1]
    have "bseg ?m2 bp [(n, True)]"
      by (rule bseg_frame [OF _ t1(1) ge]) (use t2(2) in \<open>auto simp: same_outside_def\<close>)
    then have "bseg ?m2 bp ((n, True) # [(s - n, False)])" using t2(1) by simp
    moreover have "same_outside (bp - 4) (bp + s - 4) (memory h) ?m2"
      by (rule same_outside_trans [of _ _ _ ?m1, OF _ t2(2)])
        (use put_tags_ok(2) [OF n(1) ge, of "memory h" True] n(2) in \<open>auto simp: same_outside_def\<close>)
    moreover have "NEXT_BLKP ?m1 bp = bp + n"
      using size_ok_fields(1) [of ?m1 "bp - 4" n True] t1(1) n by (simp add: NEXT_BLKP_def WSIZE_def)
    then have "place bp n h = h\<lparr>memory := ?m2\<rparr>"
      using True by (simp add: place_def cs sub DSIZE_def Let_def)
    ultimately show ?thesis
      using n(2) by (intro placedI [OF _ wf bp assms(3) adj, of _ ?m2 n "[(s - n, False)]"]) auto
  next
    case False
    let ?m1 = "put_tags bp s True (memory h)"
    have "place bp n h = h\<lparr>memory := ?m1\<rparr>"
      using False by (simp add: place_def cs sub DSIZE_def Let_def)
    then show ?thesis
      using n(2) put_tags_ok(1) [OF s ge, of True "memory h"] put_tags_ok(2) [OF s ge, of "memory h" True]
      by (intro placedI [OF _ wf bp assms(3) adj, of _ ?m1 s "[]"]) auto
  qed
qed

section \<open>Allocating\<close>

lemma adjust_ok:
  assumes "0 < n" and "n + 16 \<le> 2 ^ 31"
  shows "size_ok (adjust n)" and "n + 8 \<le> adjust n" and "adjust n < 2 ^ 31"
proof -
  have "adjust n = (if n \<le> 8 then 16 else 8 * ((n + 15) div 8))"
    using assms(2) by (simp add: adjust_def DSIZE_def add.commute)
  then have "8 dvd adjust n" "n + 8 \<le> adjust n" "adjust n < 2 ^ 31" using assms by (auto split: if_splits)
  then show "size_ok (adjust n)" and "n + 8 \<le> adjust n" and "adjust n < 2 ^ 31" by (auto simp: size_ok_def)
qed

lemma has_free_placed:
  assumes "has_free h bs s p h1" and "size_ok n" and "n \<le> s"
  shows "placed h bs p n (place p n h1)"
proof -
  obtain xs s' ys where f: "heap_listp h1 = heap_listp h" "mem_max_addr h1 = mem_max_addr h" "mem_heap h1 = mem_heap h"
    "mem_brk h \<le> mem_brk h1" "xs \<noteq> []" "p = heap_listp h + total xs" "s \<le> s'" "heap_wf h1 (xs @ (s', False) # ys)"
    "no_adjacent (xs @ (s', False) # ys)" "allocs (heap_listp h) (xs @ (s', False) # ys) = allocs (heap_listp h) bs"
    "kept (allocs (heap_listp h) bs) (memory h) (memory h1)"
    using assms(1) unfolding has_free_def by blast
  let ?h' = "place p n h1" and ?A = "allocs (heap_listp h) bs"
  have "placed h1 (xs @ (s', False) # ys) p n ?h'"
    using f assms by (intro place_ok) auto
  then obtain bs' k where g: "heap_listp ?h' = heap_listp h" "mem_max_addr ?h' = mem_max_addr h" "mem_heap ?h' = mem_heap h"
    "mem_brk h1 \<le> mem_brk ?h'" "heap_wf ?h' bs'" "no_adjacent bs'" "n \<le> k" "allocs (heap_listp h) bs' = insert (p, k) ?A"
    "\<forall>(q, t) \<in> ?A. q + t \<le> p \<or> p + k \<le> q" "kept ?A (memory h1) (memory ?h')"
    unfolding placed_def f(1-3,10) by blast
  have k: "kept ?A (memory h) (memory ?h')" by (rule kept_trans [OF f(11) g(10)]) simp
  have "mem_brk h \<le> mem_brk ?h'" using f(4) g(4) by simp
  then show ?thesis unfolding placed_def using g(1-3,5-9) k by blast
qed

lemma mm_malloc_ok:
  assumes wf: "heap_wf h bs" and adj: "no_adjacent bs" and n: "0 < n" "n + 16 \<le> 2 ^ 31"
  shows "mm_malloc n h = Some (0, h) \<and> (\<forall>(s, a) \<in> set bs. a \<or> s < adjust n) \<and>
      mem_max_addr h < mem_brk h + max (adjust n) CHUNKSIZE \<or>
    (\<exists>p h'. mm_malloc n h = Some (p, h') \<and> placed h bs p (adjust n) h')"
proof -
  note a = adjust_ok [OF n]
  have hl: "heap_listp h \<noteq> 0" and ne: "bs \<noteq> []" and hd: "hd bs = (8, True)" using wf by (auto simp: heap_wf_def)
  have wf0: "heap_wf h ([] @ bs)" using wf by simp
  have ff: "find_fit (adjust n) h = fit_loop (memory h) (adjust n) (heap_listp h)" by (simp add: find_fit_def)
  have "heap_listp h = heap_listp h + total []" by simp
  from fit_loop_ok [OF wf0 this, of "adjust n"] show ?thesis
  proof (elim disjE conjE exE)
    assume none: "fit_loop (memory h) (adjust n) (heap_listp h) = Some None" and small: "\<forall>(s, a) \<in> set bs. a \<or> s < adjust n"
    let ?w = "max (adjust n) CHUNKSIZE div WSIZE" and ?s = "max (adjust n) CHUNKSIZE"
    have "8 dvd ?s" using a(1) by (auto simp: size_ok_def CHUNKSIZE_def max_def)
    then have s: "?s = (if odd ?w then (?w + 1) * 4 else ?w * 4)" by (auto simp: WSIZE_def elim!: dvdE)
    have "0 < ?w" and lt: "?s < 2 ^ 31" using a(3) by (auto simp: CHUNKSIZE_def WSIZE_def max_def)
    note e = extend_heap_ok [OF wf adj s this]
    show ?thesis
    proof (cases "mem_brk h + ?s \<le> mem_max_addr h")
      case True
      then obtain p h1 where x: "extend_heap ?w h = (Some p, h1)" and f: "has_free h bs ?s p h1" using e(2) by blast
      have "mm_malloc n h = Some (p, place p (adjust n) h1)"
        using hl n none x by (simp add: mm_malloc_def ff Let_def)
      then show ?thesis using has_free_placed [OF f a(1)] by auto
    next
      case False
      then have "extend_heap ?w h = (None, h)" using e(1) by simp
      then have "mm_malloc n h = Some (0, h)" using hl n none by (simp add: mm_malloc_def ff Let_def)
      then show ?thesis using small False by simp
    qed
  next
    fix us s vs
    assume bs: "bs = us @ (s, False) # vs" and s: "adjust n \<le> s"
      and fit: "fit_loop (memory h) (adjust n) (heap_listp h) = Some (Some (heap_listp h + total us))"
    have "us \<noteq> []" using bs hd by auto
    then have "placed h bs (heap_listp h + total us) (adjust n) (place (heap_listp h + total us) (adjust n) h)"
      using place_ok [of h us s vs "heap_listp h + total us" "adjust n"] wf adj bs a(1) s by simp
    moreover have "mm_malloc n h = Some (heap_listp h + total us, place (heap_listp h + total us) (adjust n) h)"
      using hl n fit by (simp add: mm_malloc_def ff Let_def)
    ultimately show ?thesis by blast
  qed
qed

section \<open>Releasing\<close>

definition released :: "heap \<Rightarrow> blocks \<Rightarrow> nat \<Rightarrow> nat \<Rightarrow> heap \<Rightarrow> bool" where
  "released h bs p s h' \<longleftrightarrow> (\<exists>m' bs'. h' = h\<lparr>memory := m'\<rparr> \<and> heap_wf h' bs' \<and> no_adjacent bs' \<and>
     allocs (heap_listp h) bs' = allocs (heap_listp h) bs - {(p, s)} \<and>
     kept (allocs (heap_listp h) bs - {(p, s)}) (memory h) m')"

lemma allocs_minus:
  assumes "heap_wf h (xs @ (s, True) # ys)" and "p = heap_listp h + total xs"
  shows "allocs (heap_listp h) (xs @ (s, True) # ys) - {(p, s)} = allocs (heap_listp h) (xs @ (s, False) # ys)"
proof -
  have "8 \<le> s" using wf_block(1) [OF assms(1)] by (simp add: size_ok_def)
  then have "(p, s) \<notin> allocs (heap_listp h) xs" "(p, s) \<notin> allocs (p + s) ys"
    using allocs_bounds [of p s "heap_listp h" xs] allocs_bounds [of p s "p + s" ys] assms(2) by auto
  then show ?thesis using assms(2) by (auto simp: allocs_append)
qed

lemma mm_free_ok:
  assumes wf: "heap_wf h (xs @ (s, True) # ys)" and p: "p = heap_listp h + total xs" and ne: "xs \<noteq> []"
    and adj: "no_adjacent (xs @ (s, True) # ys)"
  shows "released h (xs @ (s, True) # ys) p s (mm_free p h)"
proof -
  let ?m = "put_tags p s False (memory h)" and ?bs = "xs @ (s, False) # ys"
  let ?h1 = "h\<lparr>memory := ?m\<rparr>"
  have s: "size_ok s" by (rule wf_block [OF wf])
  have ge: "8 \<le> p" "heap_listp h \<noteq> 0" using wf p by (auto simp: heap_wf_def)
  have sz: "GET_SIZE (memory h) (HDRP p) = s"
    using wf_next(1) [OF wf p] by (simp add: next_tag_def HDRP_def WSIZE_def)
  have wf': "heap_wf h (xs @ [(s, True)] @ ys)" using wf by simp
  have t: "bseg ?m p [(s, False)]" "same_outside (p - 4) (p + total [(s, True)] - 4) (memory h) ?m"
    using put_tags_ok [OF s, of p] ge by auto
  have wf1: "heap_wf ?h1 ?bs" using wf_replace [OF wf' ne p t(2,1)] by simp
  have k1: "kept (allocs (heap_listp h) ?bs) (memory h) ?m"
    using wf_replace_kept [OF wf' p t(2)] p by (simp add: allocs_append)
  have "no_adjacent xs" "no_adjacent ys" using adj by (cases ys; auto simp: no_adjacent_append)+
  then obtain q h' where c: "coalesce p ?h1 = (q, h')" and co: "coalesced ?h1 ?bs s q h'"
    using coalesce_ok [OF wf1 ne, of p] p by auto
  have "mm_free p h = h'" using ge sz c by (simp add: mm_free_def Let_def)
  moreover obtain m' bs' where h': "h' = ?h1\<lparr>memory := m'\<rparr>" "heap_wf h' bs'" "no_adjacent bs'"
      "allocs (heap_listp h) bs' = allocs (heap_listp h) ?bs" "kept (allocs (heap_listp h) ?bs) ?m m'"
    using co unfolding coalesced_def by auto
  moreover have "kept (allocs (heap_listp h) ?bs) (memory h) m'" by (rule kept_trans [OF k1 h'(5)]) simp
  ultimately show ?thesis unfolding released_def allocs_minus [OF wf p] by auto
qed

section \<open>Initialising\<close>

lemma mm_init_ok:
  assumes "8 dvd mem_brk h" and room: "mem_brk h + 4112 \<le> mem_max_addr h" "mem_max_addr h \<le> mem_brk h + 2 ^ 31"
  shows "\<exists>h' bs. mm_init h = (0, h') \<and> heap_wf h' bs \<and> no_adjacent bs \<and> heap_listp h' = mem_brk h + 8 \<and>
    allocs (heap_listp h') bs = {(heap_listp h', 8)} \<and> mem_max_addr h' = mem_max_addr h \<and> mem_heap h' = mem_heap h"
proof -
  let ?p = "mem_brk h"
  let ?m4 = "PUT (?p + 12) (PACK 0 True) (PUT (?p + 8) (PACK 8 True) (PUT (?p + 4) (PACK 8 True) (PUT ?p 0 (memory h))))"
  let ?h4 = "h\<lparr>mem_brk := ?p + 16, memory := ?m4, heap_listp := ?p + 8\<rparr>"
  have m4: "GET ?m4 (?p + 4) = PACK 8 True" "GET ?m4 (?p + 8) = PACK 8 True" "GET ?m4 (?p + 12) = PACK 0 True"
    by (simp_all add: GET_PUT_other)
  then have wf: "heap_wf ?h4 [(8, True)]"
    using assms by (simp add: heap_wf_def size_ok_def add.commute)
  have w: "CHUNKSIZE div WSIZE = 1024" by (simp add: CHUNKSIZE_def WSIZE_def)
  obtain q h' where x: "extend_heap 1024 ?h4 = (Some q, h')" and f: "has_free ?h4 [(8, True)] 4096 q h'"
    using extend_heap_ok(2) [OF wf, of 4096 1024] room by auto
  have "mm_init h = (0, h')"
    using room x by (simp add: mm_init_def mem_sbrk_def w Let_def) (simp add: WSIZE_def DSIZE_def)
  moreover obtain bs where "heap_wf h' bs" "no_adjacent bs" "heap_listp h' = ?p + 8" "mem_max_addr h' = mem_max_addr h"
    "mem_heap h' = mem_heap h" "allocs (?p + 8) bs = allocs (?p + 8) [(8, True)]"
    using f unfolding has_free_def by auto
  ultimately show ?thesis by auto
qed

text \<open>The first call initialises the heap.\<close>

lemma mm_malloc_first:
  assumes "heap_listp h = 0" and "mm_init h = (r, h')" and "heap_listp h' \<noteq> 0"
  shows "mm_malloc n h = mm_malloc n h'"
  using assms by (simp add: mm_malloc_def)

section \<open>The check of the heap\<close>

lemma checkblock_ok:
  assumes "heap_wf h (xs @ (s, a) # ys)" and "bp = heap_listp h + total xs"
  shows "checkblock (memory h) bp = []"
proof -
  have d: "bseg m b bs \<Longrightarrow> 8 dvd total bs" for m b bs
    by (induction m b bs rule: bseg.induct) (auto simp: size_ok_def)
  have "bseg (memory h) (heap_listp h) xs" "8 dvd heap_listp h" using assms(1) by (auto simp: heap_wf_def bseg_append)
  then have "bp mod 8 = 0" using d assms(2) by auto
  moreover have "FTRP (memory h) bp = bp + s - 8"
    using wf_next(1) [OF assms] by (simp add: FTRP_def next_tag_def HDRP_def WSIZE_def DSIZE_def)
  ultimately show ?thesis
    using wf_block [OF assms(1)] assms(2) by (simp add: checkblock_def HDRP_def WSIZE_def)
qed

lemma check_loop_ok:
  assumes "heap_wf h (xs @ ys)" and "bp = heap_listp h + total xs"
  shows "check_loop (memory h) bp msgs = Some (mem_brk h, msgs)"
  using assms
proof (induction ys arbitrary: xs bp)
  case Nil
  then have "GET_SIZE (memory h) (HDRP bp) = 0" and "bp = mem_brk h"
    using wf_next(1) [OF Nil] by (auto simp: next_tag_def HDRP_def WSIZE_def heap_wf_def)
  then show ?case by (subst check_loop.simps) simp
next
  case (Cons y ys)
  obtain s a where y: "y = (s, a)" by (cases y)
  have tag: "GET_SIZE (memory h) (HDRP bp) = s"
    using wf_next [OF Cons.prems] by (simp add: next_tag_def HDRP_def WSIZE_def y)
  have nxt: "NEXT_BLKP (memory h) bp = bp + s" using tag by (simp add: NEXT_BLKP_def HDRP_def)
  have wf: "heap_wf h (xs @ (s, a) # ys)" using Cons.prems y by simp
  have pos: "0 < s" using wf_block(1) [OF wf] by (auto simp: size_ok_def)
  have "heap_wf h ((xs @ [y]) @ ys)" "bp + s = heap_listp h + total (xs @ [y])" using Cons.prems y by auto
  note ih = Cons.IH [OF this]
  show ?case
    using pos ih by (subst check_loop.simps) (simp add: tag nxt checkblock_ok [OF wf Cons.prems(2)])
qed

lemma checkheap_ok:
  assumes wf: "heap_wf h bs"
  shows "checkheap h = Some []"
proof -
  obtain bs' where bs: "bs = (8, True) # bs'" using wf by (cases bs) (auto simp: heap_wf_def)
  have wf0: "heap_wf h ([] @ (8, True) # bs')" using wf bs by simp
  have z: "heap_listp h = heap_listp h + total []" by simp
  have fin: "heap_wf h (bs @ [])" "mem_brk h = heap_listp h + total bs" using wf by (auto simp: heap_wf_def)
  show ?thesis
    using wf_next [OF wf0 z] wf_next [OF fin] check_loop_ok [OF wf0 z, of "[]"] checkblock_ok [OF wf0 z]
    by (simp add: checkheap_def next_tag_def HDRP_def WSIZE_def DSIZE_def Let_def)
qed

end
