(* ===== verification/Alloc_Spec.thy ===== *)
theory Alloc_Spec
  imports Prelude
begin

text \<open>
  What a client relies on when it uses an allocator. The client keeps a ledger: the objects it holds, with the length it
  asked for, and the bytes it has written to them. An allocator is correct if every request a client may make gets an
  answer, if new objects are aligned and do not overlap those held, and if every byte written is read back until the
  object is released.
\<close>

section \<open>Requests and the ledger\<close>

datatype req = Malloc nat | Realloc nat nat | Free nat | Store nat "8 word" | Load nat
datatype ans = Ptr nat | Byte "8 word" | Done

record ledger =
  live :: "nat \<rightharpoonup> nat"
  written :: "nat \<rightharpoonup> 8 word"

definition within :: "nat \<Rightarrow> nat \<Rightarrow> nat \<Rightarrow> bool" where
  "within p n x \<longleftrightarrow> p \<le> x \<and> x < p + n"

definition held :: "ledger \<Rightarrow> nat \<Rightarrow> bool" where
  "held L x \<longleftrightarrow> (\<exists>p n. live L p = Some n \<and> within p n x)"

definition forget :: "nat \<Rightarrow> nat \<Rightarrow> (nat \<rightharpoonup> 8 word) \<Rightarrow> nat \<rightharpoonup> 8 word" where
  "forget p n w = (\<lambda>x. if within p n x then None else w x)"

fun ledger_step :: "req \<times> ans \<Rightarrow> ledger \<Rightarrow> ledger" where
  "ledger_step (Malloc n, Ptr p) L = (if p = 0 then L else L\<lparr>live := (live L)(p \<mapsto> n)\<rparr>)"
| "ledger_step (Realloc p n, Ptr q) L =
     (if q = 0 then L
      else L\<lparr>live := ((live L)(p := None))(q \<mapsto> n),
             written := (\<lambda>x. if within q n x
               then (if x - q < the (live L p) then written L (p + (x - q)) else None)
               else forget p (the (live L p)) (written L) x)\<rparr>)"
| "ledger_step (Free p, a) L =
     L\<lparr>live := (live L)(p := None), written := forget p (case live L p of None \<Rightarrow> 0 | Some n \<Rightarrow> n) (written L)\<rparr>"
| "ledger_step (Store x v, a) L = L\<lparr>written := (written L)(x \<mapsto> v)\<rparr>"
| "ledger_step _ L = L"

definition ledger :: "(req \<times> ans) list \<Rightarrow> ledger" where
  "ledger tr = fold ledger_step tr \<lparr>live = Map.empty, written = Map.empty\<rparr>"

text \<open>The requests a client may make.\<close>

fun valid_req :: "nat \<Rightarrow> ledger \<Rightarrow> req \<Rightarrow> bool" where
  "valid_req limit L (Malloc n) \<longleftrightarrow> n \<le> limit"
| "valid_req limit L (Realloc p n) \<longleftrightarrow> live L p \<noteq> None \<and> 0 < n \<and> n \<le> limit"
| "valid_req limit L (Free p) \<longleftrightarrow> p = 0 \<or> live L p \<noteq> None"
| "valid_req limit L (Store x v) \<longleftrightarrow> held L x"
| "valid_req limit L (Load x) \<longleftrightarrow> held L x"

definition fresh :: "ledger \<Rightarrow> nat \<Rightarrow> nat \<Rightarrow> bool" where
  "fresh L p n \<longleftrightarrow> 8 dvd p \<and> live L p = None \<and> (\<forall>q m. live L q = Some m \<longrightarrow> p + n \<le> q \<or> q + m \<le> p)"

fun good_answer :: "ledger \<Rightarrow> req \<times> ans \<Rightarrow> bool" where
  "good_answer L (Malloc n, Ptr p) \<longleftrightarrow> p = 0 \<or> 0 < n \<and> fresh L p n"
| "good_answer L (Realloc p n, Ptr q) \<longleftrightarrow> q = 0 \<or> fresh L q n"
| "good_answer L (Free p, Done) \<longleftrightarrow> True"
| "good_answer L (Store x v, Done) \<longleftrightarrow> True"
| "good_answer L (Load x, Byte v) \<longleftrightarrow> (case written L x of None \<Rightarrow> True | Some u \<Rightarrow> v = u)"
| "good_answer L _ \<longleftrightarrow> False"

definition good_trace :: "(req \<times> ans) list \<Rightarrow> bool" where
  "good_trace tr \<longleftrightarrow> (\<forall>i < length tr. good_answer (ledger (take i tr)) (tr ! i))"

text \<open>A client chooses its next request from what it has seen.\<close>

type_synonym client = "(req \<times> ans) list \<Rightarrow> req option"

definition good_client :: "nat \<Rightarrow> client \<Rightarrow> bool" where
  "good_client limit c \<longleftrightarrow> (\<forall>tr r. c tr = Some r \<longrightarrow> valid_req limit (ledger tr) r)"

fun run_client :: "(req \<Rightarrow> 's \<Rightarrow> (ans \<times> 's) option) \<Rightarrow> client \<Rightarrow> nat \<Rightarrow> (req \<times> ans) list \<Rightarrow> 's \<Rightarrow>
    ((req \<times> ans) list \<times> 's) option" where
  "run_client serve c 0 tr s = Some (tr, s)"
| "run_client serve c (Suc n) tr s =
     (case c tr of
        None \<Rightarrow> Some (tr, s)
      | Some r \<Rightarrow> (case serve r s of None \<Rightarrow> None | Some (a, s') \<Rightarrow> run_client serve c n (tr @ [(r, a)]) s'))"

lemma ledger_snoc: "ledger (tr @ [x]) = ledger_step x (ledger tr)"
  by (simp add: ledger_def)

lemma good_trace_snoc: "good_trace (tr @ [x]) \<longleftrightarrow> good_trace tr \<and> good_answer (ledger tr) x"
  by (auto simp: good_trace_def nth_append less_Suc_eq)

section \<open>The contract\<close>

text \<open>
  \<open>inv s A\<close>: the state is consistent and the objects handed out are \<open>A\<close>, an object being its address and its length.
\<close>

locale allocator =
  fixes inv :: "'s \<Rightarrow> (nat \<times> nat) set \<Rightarrow> bool"
    and malloc :: "nat \<Rightarrow> 's \<Rightarrow> (nat \<times> 's) option"
    and realloc :: "nat \<Rightarrow> nat \<Rightarrow> 's \<Rightarrow> (nat \<times> 's) option"
    and release :: "nat \<Rightarrow> 's \<Rightarrow> 's"
    and peek :: "'s \<Rightarrow> nat \<Rightarrow> 8 word"
    and poke :: "nat \<Rightarrow> 8 word \<Rightarrow> 's \<Rightarrow> 's"
    and limit :: nat
  assumes aligned: "inv s A \<Longrightarrow> (p, k) \<in> A \<Longrightarrow> p \<noteq> 0 \<and> 8 dvd p"
    and unique: "inv s A \<Longrightarrow> (p, k) \<in> A \<Longrightarrow> (p, j) \<in> A \<Longrightarrow> k = j"
    and disjoint: "inv s A \<Longrightarrow> (p, k) \<in> A \<Longrightarrow> (q, j) \<in> A \<Longrightarrow> p \<noteq> q \<Longrightarrow> p + k \<le> q \<or> q + j \<le> p"
    and malloc_law: "inv s A \<Longrightarrow> n \<le> limit \<Longrightarrow> \<exists>p s'. malloc n s = Some (p, s') \<and>
      (\<forall>(q, j) \<in> A. \<forall>x. within q j x \<longrightarrow> peek s' x = peek s x) \<and>
      (if p = 0 then inv s' A
       else 0 < n \<and> p \<notin> fst ` A \<and> (\<exists>k. n \<le> k \<and> inv s' (insert (p, k) A)))"
    and realloc_law: "inv s A \<Longrightarrow> (p, k) \<in> A \<Longrightarrow> 0 < n \<Longrightarrow> n \<le> limit \<Longrightarrow> \<exists>q s'. realloc p n s = Some (q, s') \<and>
      (\<forall>(r, j) \<in> A - {(p, k)}. \<forall>x. within r j x \<longrightarrow> peek s' x = peek s x) \<and>
      (if q = 0 then inv s' A \<and> (\<forall>x. within p k x \<longrightarrow> peek s' x = peek s x)
       else q \<notin> fst ` A \<and> (\<forall>i < min n k. peek s' (q + i) = peek s (p + i)) \<and>
         (\<exists>j. n \<le> j \<and> (q + j \<le> p \<or> p + k \<le> q) \<and> inv s' (insert (q, j) (A - {(p, k)}))))"
    and release_null: "release 0 s = s"
    and release_law: "inv s A \<Longrightarrow> (p, k) \<in> A \<Longrightarrow> inv (release p s) (A - {(p, k)}) \<and>
      (\<forall>(q, j) \<in> A - {(p, k)}. \<forall>x. within q j x \<longrightarrow> peek (release p s) x = peek s x)"
    and poke_law: "inv s A \<Longrightarrow> (p, k) \<in> A \<Longrightarrow> within p k x \<Longrightarrow>
      inv (poke x v s) A \<and> peek (poke x v s) = (peek s)(x := v)"

text \<open>Serving a request with the operations of an allocator.\<close>

fun serve :: "(nat \<Rightarrow> 's \<Rightarrow> (nat \<times> 's) option) \<Rightarrow> (nat \<Rightarrow> nat \<Rightarrow> 's \<Rightarrow> (nat \<times> 's) option) \<Rightarrow> (nat \<Rightarrow> 's \<Rightarrow> 's) \<Rightarrow>
    ('s \<Rightarrow> nat \<Rightarrow> 8 word) \<Rightarrow> (nat \<Rightarrow> 8 word \<Rightarrow> 's \<Rightarrow> 's) \<Rightarrow> req \<Rightarrow> 's \<Rightarrow> (ans \<times> 's) option" where
  "serve malloc realloc release peek poke (Malloc n) s = map_option (\<lambda>(p, s'). (Ptr p, s')) (malloc n s)"
| "serve malloc realloc release peek poke (Realloc p n) s = map_option (\<lambda>(q, s'). (Ptr q, s')) (realloc p n s)"
| "serve malloc realloc release peek poke (Free p) s = Some (Done, release p s)"
| "serve malloc realloc release peek poke (Store x v) s = Some (Done, poke x v s)"
| "serve malloc realloc release peek poke (Load x) s = Some (Byte (peek s x), s)"

text \<open>The ledger of the client agrees with the objects handed out and with the memory.\<close>

definition agrees :: "(nat \<times> nat) set \<Rightarrow> (nat \<Rightarrow> 8 word) \<Rightarrow> ledger \<Rightarrow> bool" where
  "agrees A pk L \<longleftrightarrow> dom (live L) = fst ` A \<and> (\<forall>p n k. live L p = Some n \<longrightarrow> (p, k) \<in> A \<longrightarrow> n \<le> k) \<and>
     (\<forall>x v. written L x = Some v \<longrightarrow> pk x = v \<and> held L x)"

lemma heldI: "live L p = Some n \<Longrightarrow> within p n x \<Longrightarrow> held L x"
  by (auto simp: held_def)

lemma held_more:
  assumes "held L x" and "live L p = None" and "live L' = (live L)(p \<mapsto> n)"
  shows "held L' x"
proof -
  obtain q m where "live L q = Some m" "within q m x" using assms(1) by (auto simp: held_def)
  then show ?thesis using assms(2,3) by (intro heldI [of _ q m]) auto
qed

lemma forget_0 [simp]: "forget p 0 w = w"
  by (rule ext) (auto simp: forget_def within_def)

lemma agreesI:
  assumes "dom (live L) = fst ` A" and "\<And>p n k. live L p = Some n \<Longrightarrow> (p, k) \<in> A \<Longrightarrow> n \<le> k"
    and "\<And>x v. written L x = Some v \<Longrightarrow> pk x = v" and "\<And>x v. written L x = Some v \<Longrightarrow> held L x"
  shows "agrees A pk L"
  unfolding agrees_def by (intro conjI allI impI) (simp_all add: assms)

lemma agrees_live:
  assumes "agrees A pk L" and "live L p = Some n"
  obtains k where "(p, k) \<in> A" and "n \<le> k"
proof -
  have "p \<in> fst ` A" using assms by (auto simp: agrees_def dom_def)
  then obtain k where k: "(p, k) \<in> A" by auto
  then have "n \<le> k" using assms unfolding agrees_def by blast
  with k show ?thesis by (rule that)
qed

lemma agrees_held:
  assumes "agrees A pk L" and "held L x"
  obtains p n k where "live L p = Some n" and "within p n x" and "(p, k) \<in> A" and "within p k x"
proof -
  obtain p n where pn: "live L p = Some n" "within p n x" using assms(2) by (auto simp: held_def)
  obtain k where "(p, k) \<in> A" "n \<le> k" using agrees_live [OF assms(1) pn(1)] .
  then show ?thesis using that pn by (auto simp: within_def)
qed

lemma agrees_peek:
  assumes "agrees A pk L" and "\<forall>(q, j) \<in> A. \<forall>x. within q j x \<longrightarrow> pk' x = pk x"
  shows "agrees A pk' L"
proof (rule agreesI)
  fix x v assume w: "written L x = Some v"
  then show "held L x" using assms(1) by (auto simp: agrees_def)
  then obtain p n k where "(p, k) \<in> A" "within p k x" by (rule agrees_held [OF assms(1)])
  then have "pk' x = pk x" using assms(2) by blast
  then show "pk' x = v" using assms(1) w by (auto simp: agrees_def)
qed (use assms(1) in \<open>auto simp: agrees_def\<close>)

section \<open>Every client is served\<close>

context allocator begin

lemma agrees_fresh:
  assumes "inv s A" and "agrees A (peek s) L" and "q \<notin> fst ` A" and "n \<le> j" and "8 dvd q"
    and far: "\<And>r k. (r, k) \<in> A \<Longrightarrow> q + j \<le> r \<or> r + k \<le> q"
  shows "fresh L q n"
  unfolding fresh_def
proof (intro conjI allI impI)
  show "8 dvd q" by fact
  have "dom (live L) = fst ` A" using assms(2) by (simp add: agrees_def)
  then show "live L q = None" using assms(3) by auto
  fix r m assume "live L r = Some m"
  then obtain k where "(r, k) \<in> A" "m \<le> k" by (rule agrees_live [OF assms(2)])
  then show "q + n \<le> r \<or> r + m \<le> q" using far [of r k] assms(4) by auto
qed

lemma serve_malloc:
  assumes inv: "inv s A" and ag: "agrees A (peek s) L" and n: "n \<le> limit"
  shows "\<exists>p s' A'. malloc n s = Some (p, s') \<and> inv s' A' \<and> agrees A' (peek s') (ledger_step (Malloc n, Ptr p) L) \<and>
    good_answer L (Malloc n, Ptr p)"
proof -
  obtain p s' where m: "malloc n s = Some (p, s')" and same: "\<forall>(q, j) \<in> A. \<forall>x. within q j x \<longrightarrow> peek s' x = peek s x"
    and res: "if p = 0 then inv s' A else 0 < n \<and> p \<notin> fst ` A \<and> (\<exists>k. n \<le> k \<and> inv s' (insert (p, k) A))"
    using malloc_law [OF inv n] by blast
  note ag' = agrees_peek [OF ag same]
  show ?thesis
  proof (cases "p = 0")
    case True
    then show ?thesis using m res ag' by (intro exI [of _ p] exI [of _ s'] exI [of _ A]) simp
  next
    case False
    then obtain k where k: "n \<le> k" "inv s' (insert (p, k) A)" and new: "p \<notin> fst ` A" "0 < n" using res by auto
    have "agrees (insert (p, k) A) (peek s') (L\<lparr>live := (live L)(p \<mapsto> n)\<rparr>)"
    proof (rule agreesI)
      fix q m j assume "live (L\<lparr>live := (live L)(p \<mapsto> n)\<rparr>) q = Some m" and "(q, j) \<in> insert (p, k) A"
      then show "m \<le> j" using ag' k(1) new(1) by (cases "q = p") (auto simp: agrees_def image_iff)
    next
      fix x v assume w: "written (L\<lparr>live := (live L)(p \<mapsto> n)\<rparr>) x = Some v"
      then show "peek s' x = v" using ag' by (simp add: agrees_def)
      have "held L x" using w ag' by (simp add: agrees_def)
      moreover have "live L p = None" using ag new(1) by (auto simp: agrees_def dom_def)
      ultimately show "held (L\<lparr>live := (live L)(p \<mapsto> n)\<rparr>) x" by (rule held_more) simp
    qed (use ag in \<open>auto simp: agrees_def\<close>)
    moreover have "fresh L p n"
    proof (rule agrees_fresh [OF inv ag new(1) k(1)])
      show "8 dvd p" using aligned [OF k(2)] by blast
      show "p + k \<le> r \<or> r + j \<le> p" if "(r, j) \<in> A" for r j
        using disjoint [OF k(2), of p k r j] that new(1) by force
    qed
    ultimately show ?thesis
      using m k(2) new False by (intro exI [of _ p] exI [of _ s'] exI [of _ "insert (p, k) A"]) simp
  qed
qed

lemma agrees_release:
  assumes inv: "inv s A" and ag: "agrees A (peek s) L" and p: "(p, k) \<in> A" and n: "live L p = Some n"
    and same: "\<forall>(q, j) \<in> A - {(p, k)}. \<forall>x. within q j x \<longrightarrow> pk x = peek s x"
  shows "agrees (A - {(p, k)}) pk (L\<lparr>live := (live L)(p := None), written := forget p n (written L)\<rparr>)"
    (is "agrees _ _ ?L")
proof (rule agreesI)
  have "q \<noteq> p" if "(q, j) \<in> A - {(p, k)}" for q j
    using unique [OF inv p, of j] that by auto
  then have "fst ` (A - {(p, k)}) = fst ` A - {p}" by force
  then show "dom (live ?L) = fst ` (A - {(p, k)})" using ag by (auto simp: agrees_def)
  show "m \<le> j" if "live ?L q = Some m" "(q, j) \<in> A - {(p, k)}" for q m j
    using that ag by (auto simp: agrees_def split: if_splits)
  fix x v assume "written ?L x = Some v"
  then have w: "\<not> within p n x" "written L x = Some v" by (auto simp: forget_def split: if_splits)
  have "held L x" using ag w(2) by (simp add: agrees_def)
  then obtain q m j where q: "live L q = Some m" "within q m x" "(q, j) \<in> A" "within q j x"
    by (rule agrees_held [OF ag])
  have ne: "q \<noteq> p" using q(1,2) w(1) n by auto
  then show "held ?L x" using q(1,2) by (auto simp: held_def)
  have "pk x = peek s x" using same q(3,4) ne by blast
  then show "pk x = v" using ag w(2) by (simp add: agrees_def)
qed

lemma serve_free:
  assumes inv: "inv s A" and ag: "agrees A (peek s) L" and v: "p = 0 \<or> live L p \<noteq> None"
  shows "\<exists>A'. inv (release p s) A' \<and> agrees A' (peek (release p s)) (ledger_step (Free p, Done) L)"
proof (cases "live L p")
  case None
  then have p: "p = 0" using v by simp
  have "L\<lparr>live := (live L)(p := None), written := forget p 0 (written L)\<rparr> = L"
    using None by (simp add: fun_upd_idem)
  then show ?thesis using inv ag p None by (auto simp: release_null)
next
  case (Some n)
  then obtain k where k: "(p, k) \<in> A" by (rule agrees_live [OF ag])
  then show ?thesis using release_law [OF inv k] agrees_release [OF inv ag k Some] Some by auto
qed

lemma serve_realloc:
  assumes inv: "inv s A" and ag: "agrees A (peek s) L" and v: "live L p = Some m" and n: "0 < n" "n \<le> limit"
  shows "\<exists>q s' A'. realloc p n s = Some (q, s') \<and> inv s' A' \<and> agrees A' (peek s') (ledger_step (Realloc p n, Ptr q) L) \<and>
    good_answer L (Realloc p n, Ptr q)"
proof -
  obtain k where k: "(p, k) \<in> A" "m \<le> k" by (rule agrees_live [OF ag v])
  obtain q s' where r: "realloc p n s = Some (q, s')"
    and same: "\<forall>(r, j) \<in> A - {(p, k)}. \<forall>x. within r j x \<longrightarrow> peek s' x = peek s x"
    and res: "if q = 0 then inv s' A \<and> (\<forall>x. within p k x \<longrightarrow> peek s' x = peek s x)
       else q \<notin> fst ` A \<and> (\<forall>i < min n k. peek s' (q + i) = peek s (p + i)) \<and>
         (\<exists>j. n \<le> j \<and> (q + j \<le> p \<or> p + k \<le> q) \<and> inv s' (insert (q, j) (A - {(p, k)})))"
    using realloc_law [OF inv k(1) n] by blast
  show ?thesis
  proof (cases "q = 0")
    case True
    then have "\<forall>(r, j) \<in> A. \<forall>x. within r j x \<longrightarrow> peek s' x = peek s x" using same res by auto
    from agrees_peek [OF ag this] show ?thesis
      using r res True by (intro exI [of _ q] exI [of _ s'] exI [of _ A]) simp
  next
    case False
    then obtain j where j: "n \<le> j" "q + j \<le> p \<or> p + k \<le> q" "inv s' (insert (q, j) (A - {(p, k)}))"
      and new: "q \<notin> fst ` A" and cp: "\<forall>i < min n k. peek s' (q + i) = peek s (p + i)" using res by auto
    let ?L = "ledger_step (Realloc p n, Ptr q) L"
    let ?L1 = "L\<lparr>live := (live L)(p := None), written := forget p m (written L)\<rparr>"
    note ag1 = agrees_release [OF inv ag k(1) v same]
    have live: "live ?L = (live ?L1)(q \<mapsto> n)" using False by simp
    have held1: "held ?L x" if "held ?L1 x" for x
    proof -
      have "live ?L1 q = None" using ag1 new by (auto simp: agrees_def dom_def)
      then show ?thesis by (rule held_more [OF that _ live])
    qed
    have "agrees (insert (q, j) (A - {(p, k)})) (peek s') ?L"
    proof (rule agreesI)
      show "dom (live ?L) = fst ` insert (q, j) (A - {(p, k)})" unfolding live using ag1 by (auto simp: agrees_def)
      show "u \<le> t" if "live ?L a = Some u" "(a, t) \<in> insert (q, j) (A - {(p, k)})" for a u t
      proof (cases "a = q")
        case True
        then have "t = j" using that(2) new by force
        then show ?thesis using that(1) True j(1) unfolding live by simp
      next
        case False
        then show ?thesis using that ag1 unfolding live agrees_def by auto
      qed
      fix x w assume wr: "written ?L x = Some w"
      show "peek s' x = w"
      proof (cases "within q n x")
        case True
        then have "x - q < m" and w: "written L (p + (x - q)) = Some w" using wr False v by (auto split: if_splits)
        then have "x - q < min n k" using True k(2) by (auto simp: within_def)
        then have "peek s' (q + (x - q)) = peek s (p + (x - q))" using cp by blast
        moreover have "q + (x - q) = x" using True by (simp add: within_def)
        moreover have "peek s (p + (x - q)) = w" using ag w unfolding agrees_def by blast
        ultimately show ?thesis by simp
      next
        case out: False
        then have "written ?L1 x = Some w" using wr False v by simp
        then show ?thesis using ag1 by (simp add: agrees_def)
      qed
      show "held ?L x"
      proof (cases "within q n x")
        case True
        then show ?thesis unfolding held_def live by auto
      next
        case out: False
        then have "written ?L1 x = Some w" using wr False v by simp
        then have "held ?L1 x" using ag1 unfolding agrees_def by blast
        then show ?thesis by (rule held1)
      qed
    qed
    moreover have "fresh L q n"
    proof (rule agrees_fresh [OF inv ag new j(1)])
      show "8 dvd q" using aligned [OF j(3)] by blast
      show "q + j \<le> a \<or> a + t \<le> q" if "(a, t) \<in> A" for a t
      proof (cases "(a, t) = (p, k)")
        case True
        then show ?thesis using j(2) by auto
      next
        case False
        then have "(a, t) \<in> insert (q, j) (A - {(p, k)})" "q \<noteq> a" using that new by force+
        then show ?thesis using disjoint [OF j(3), of q j a t] by auto
      qed
    qed
    ultimately show ?thesis using r j(3) by (intro exI [of _ q] exI [of _ s'] exI [of _ "insert (q, j) (A - {(p, k)})"]) simp
  qed
qed

lemma serve_ok:
  assumes inv: "inv s A" and ag: "agrees A (peek s) L" and v: "valid_req limit L r"
  shows "\<exists>a s' A'. serve malloc realloc release peek poke r s = Some (a, s') \<and> inv s' A' \<and>
    agrees A' (peek s') (ledger_step (r, a) L) \<and> good_answer L (r, a)"
proof (cases r)
  case (Malloc n)
  then obtain p s' A' where "malloc n s = Some (p, s')" "inv s' A'"
      "agrees A' (peek s') (ledger_step (Malloc n, Ptr p) L)" "good_answer L (Malloc n, Ptr p)"
    using serve_malloc [OF inv ag, of n] v by auto
  then show ?thesis unfolding Malloc by (intro exI [of _ "Ptr p"] exI [of _ s'] exI [of _ A'] conjI) simp_all
next
  case (Realloc p n)
  then obtain m where "live L p = Some m" "0 < n" "n \<le> limit" using v by auto
  from serve_realloc [OF inv ag this] obtain q s' A' where "realloc p n s = Some (q, s')" "inv s' A'"
      "agrees A' (peek s') (ledger_step (Realloc p n, Ptr q) L)" "good_answer L (Realloc p n, Ptr q)" by blast
  then show ?thesis unfolding Realloc by (intro exI [of _ "Ptr q"] exI [of _ s'] exI [of _ A'] conjI) simp_all
next
  case (Free p)
  then show ?thesis using serve_free [OF inv ag, of p] v by auto
next
  case (Store x u)
  then have "held L x" using v by simp
  then obtain p n k where p: "live L p = Some n" "within p n x" "(p, k) \<in> A" "within p k x" by (rule agrees_held [OF ag])
  note pk = poke_law [OF inv p(3,4), of u]
  have "agrees A (peek (poke x u s)) (L\<lparr>written := (written L)(x \<mapsto> u)\<rparr>)"
  proof (rule agreesI)
    fix y w assume w: "written (L\<lparr>written := (written L)(x \<mapsto> u)\<rparr>) y = Some w"
    show "peek (poke x u s) y = w" using w pk ag by (cases "y = x") (auto simp: agrees_def)
    have "held L y" using w \<open>held L x\<close> ag by (cases "y = x") (auto simp: agrees_def)
    then show "held (L\<lparr>written := (written L)(x \<mapsto> u)\<rparr>) y" by (simp add: held_def)
  qed (use ag in \<open>auto simp: agrees_def\<close>)
  then show ?thesis using pk Store by auto
next
  case (Load x)
  then show ?thesis using inv ag by (auto simp: agrees_def split: option.split)
qed

text \<open>A client that keeps to the rules is served to the end, and everything it is told is true.\<close>

lemma run_client_ok:
  assumes "inv s A" and "agrees A (peek s) (ledger tr)" and "good_trace tr" and "good_client limit c"
  shows "\<exists>tr' s' A'. run_client (serve malloc realloc release peek poke) c n tr s = Some (tr', s') \<and> inv s' A' \<and>
    agrees A' (peek s') (ledger tr') \<and> good_trace tr'"
  using assms
proof (induction n arbitrary: s A tr)
  case (Suc n)
  show ?case
  proof (cases "c tr")
    case None
    then show ?thesis using Suc.prems by auto
  next
    case (Some r)
    then have v: "valid_req limit (ledger tr) r" using Suc.prems(4) by (simp add: good_client_def)
    obtain a s' A' where r: "serve malloc realloc release peek poke r s = Some (a, s')" "inv s' A'"
        "agrees A' (peek s') (ledger_step (r, a) (ledger tr))" "good_answer (ledger tr) (r, a)"
      using serve_ok [OF Suc.prems(1,2) v] by blast
    have "agrees A' (peek s') (ledger (tr @ [(r, a)]))" and "good_trace (tr @ [(r, a)])"
      using r(3,4) Suc.prems(3) by (simp_all add: ledger_snoc good_trace_snoc)
    from Suc.IH [OF r(2) this Suc.prems(4)] show ?thesis using Some r(1) by simp
  qed
qed auto

lemma live_disjoint:
  assumes "inv s A" and "agrees A pk L" and "live L p = Some n" and "live L q = Some m" and "p \<noteq> q"
  shows "p + n \<le> q \<or> q + m \<le> p"
proof -
  obtain k where k: "(p, k) \<in> A" "n \<le> k" by (rule agrees_live [OF assms(2,3)])
  obtain j where j: "(q, j) \<in> A" "m \<le> j" by (rule agrees_live [OF assms(2,4)])
  show ?thesis using disjoint [OF assms(1) k(1) j(1) assms(5)] k(2) j(2) by auto
qed

end

end
