(* ===== verification/Mm_Client.thy ===== *)
theory Mm_Client
  imports Mm_Alloc Alloc_Spec
begin

text \<open>
  The allocator meets the contract of \<open>Alloc_Spec\<close>: the interpretation on the definitions of \<open>Mm_Heap\<close>, and what it
  means for the clients of \<^verbatim>\<open>mm_malloc\<close>, \<^verbatim>\<open>mm_realloc\<close> and \<^verbatim>\<open>mm_free\<close>.
\<close>

section \<open>The objects handed out\<close>

text \<open>The payload of a block is its size less the two tags; the prologue is not handed out.\<close>

definition objects :: "nat \<Rightarrow> (nat \<times> nat) set \<Rightarrow> (nat \<times> nat) set" where
  "objects hl B = (\<lambda>(p, s). (p, s - 8)) ` {b \<in> B. fst b \<noteq> hl}"

definition mm_inv :: "heap \<Rightarrow> (nat \<times> nat) set \<Rightarrow> bool" where
  "mm_inv h A \<longleftrightarrow> (\<exists>bs. heap_wf h bs \<and> no_adjacent bs \<and> A = objects (heap_listp h) (allocs (heap_listp h) bs))"

definition mm_poke :: "nat \<Rightarrow> 8 word \<Rightarrow> heap \<Rightarrow> heap" where
  "mm_poke x v h = h\<lparr>memory := (memory h)(x := v)\<rparr>"

lemma mm_invE:
  assumes "mm_inv h A"
  obtains bs where "heap_wf h bs" and "no_adjacent bs" and "A = objects (heap_listp h) (allocs (heap_listp h) bs)"
  using assms by (auto simp: mm_inv_def)

lemma wf_alloc_size: "heap_wf h bs \<Longrightarrow> (p, s) \<in> allocs (heap_listp h) bs \<Longrightarrow> 8 \<le> s"
  using allocs_size by (auto simp: heap_wf_def size_ok_def)

lemma objectsD:
  assumes "heap_wf h bs" and "(p, k) \<in> objects (heap_listp h) (allocs (heap_listp h) bs)"
  shows "(p, k + 8) \<in> allocs (heap_listp h) bs" and "p \<noteq> heap_listp h"
  using assms(2) wf_alloc_size [OF assms(1)] by (auto simp: objects_def)

lemma wf_unique:
  assumes "heap_wf h bs" and "(p, s) \<in> allocs (heap_listp h) bs" and "(p, t) \<in> allocs (heap_listp h) bs"
  shows "s = t"
  using allocs_disjoint [OF assms(2,3)] wf_alloc_size [OF assms(1,2)] wf_alloc_size [OF assms(1,3)] by auto

lemma allocs_aligned: "bseg m bp bs \<Longrightarrow> 8 dvd bp \<Longrightarrow> (p, s) \<in> allocs bp bs \<Longrightarrow> 8 dvd p"
  by (induction m bp bs rule: bseg.induct) (auto simp: size_ok_def split: if_splits)

lemma kept_payload:
  assumes "kept B m m'" and "(p, k + 8) \<in> B" and "within p k x"
  shows "m' x = m x"
proof -
  have "p \<le> x + 4 \<and> x + 4 < p + (k + 8)" using assms(3) by (auto simp: within_def)
  then show ?thesis using assms(1,2) unfolding kept_def by blast
qed

section \<open>The laws\<close>

lemma mm_aligned:
  assumes "mm_inv h A" and "(p, k) \<in> A"
  shows "p \<noteq> 0 \<and> 8 dvd p"
proof -
  obtain bs where bs: "heap_wf h bs" "A = objects (heap_listp h) (allocs (heap_listp h) bs)" by (rule mm_invE [OF assms(1)])
  have "(p, k + 8) \<in> allocs (heap_listp h) bs" using objectsD(1) [OF bs(1)] assms(2) bs(2) by simp
  then show ?thesis using allocs_bounds allocs_aligned bs(1) unfolding heap_wf_def by fastforce
qed

lemma mm_unique: "mm_inv h A \<Longrightarrow> (p, k) \<in> A \<Longrightarrow> (p, j) \<in> A \<Longrightarrow> k = j"
  by (elim mm_invE) (use objectsD(1) wf_unique in fastforce)

lemma mm_disjoint:
  assumes "mm_inv h A" and "(p, k) \<in> A" and "(q, j) \<in> A" and "p \<noteq> q"
  shows "p + k \<le> q \<or> q + j \<le> p"
proof -
  obtain bs where bs: "heap_wf h bs" "A = objects (heap_listp h) (allocs (heap_listp h) bs)" by (rule mm_invE [OF assms(1)])
  have "(p, k + 8) \<in> allocs (heap_listp h) bs" "(q, j + 8) \<in> allocs (heap_listp h) bs"
    using objectsD(1) [OF bs(1)] assms(2,3) bs(2) by auto
  then show ?thesis using allocs_disjoint assms(4) by fastforce
qed

lemma objects_insert: "p \<noteq> hl \<Longrightarrow> objects hl (insert (p, s) B) = insert (p, s - 8) (objects hl B)"
proof -
  assume "p \<noteq> hl"
  then have "{b \<in> insert (p, s) B. fst b \<noteq> hl} = insert (p, s) {b \<in> B. fst b \<noteq> hl}" by auto
  then show ?thesis by (simp add: objects_def)
qed

lemma objects_iff: "(q, j) \<in> objects hl B \<longleftrightarrow> q \<noteq> hl \<and> (\<exists>t. (q, t) \<in> B \<and> j = t - 8)"
  unfolding objects_def by force

lemma objects_remove:
  assumes "\<And>t. (p, t) \<in> B \<Longrightarrow> t = s"
  shows "objects hl (B - {(p, s)}) = objects hl B - {(p, s - 8)}"
proof (rule set_eqI)
  fix b :: "nat \<times> nat"
  obtain q j where b: "b = (q, j)" by (cases b)
  show "b \<in> objects hl (B - {(p, s)}) \<longleftrightarrow> b \<in> objects hl B - {(p, s - 8)}"
  proof (cases "q = p")
    case True
    then show ?thesis using assms unfolding b Diff_iff objects_iff by blast
  next
    case False
    then show ?thesis unfolding b Diff_iff objects_iff by simp
  qed
qed

lemma mm_malloc_placed:
  assumes wf: "heap_wf h bs" and pl: "placed h bs p n h'" and n: "16 \<le> n"
  defines "A \<equiv> objects (heap_listp h) (allocs (heap_listp h) bs)"
  shows "p \<noteq> 0 \<and> p \<notin> fst ` A \<and> (\<exists>k. n \<le> k + 8 \<and> mm_inv h' (insert (p, k) A)) \<and>
    (\<forall>(q, j) \<in> A. \<forall>x. within q j x \<longrightarrow> memory h' x = memory h x)"
proof -
  let ?B = "allocs (heap_listp h) bs"
  obtain bs' s where g: "heap_listp h' = heap_listp h" "heap_wf h' bs'" "no_adjacent bs'" "n \<le> s"
    "allocs (heap_listp h) bs' = insert (p, s) ?B" "\<forall>(q, t) \<in> ?B. q + t \<le> p \<or> p + s \<le> q"
    "kept ?B (memory h) (memory h')"
    using pl unfolding placed_def by blast
  have hl: "(heap_listp h, 8) \<in> ?B" "8 \<le> heap_listp h"
    using wf by (cases bs; auto simp: heap_wf_def)+
  have ne: "p \<noteq> heap_listp h" using g(4,6) hl(1) n by fastforce
  have "heap_listp h \<le> p" using allocs_bounds [of p s "heap_listp h" bs'] g(5) by simp
  then have "p \<noteq> 0" using hl(2) by simp
  moreover have "p \<notin> fst ` A"
  proof
    assume "p \<in> fst ` A"
    then obtain k where "(p, k) \<in> A" by auto
    then have "(p, k + 8) \<in> ?B" using objectsD(1) [OF wf] A_def by simp
    then show False using g(4,6) n by fastforce
  qed
  moreover have "mm_inv h' (insert (p, s - 8) A)"
    unfolding mm_inv_def using g(1-3,5) objects_insert [OF ne] A_def by auto
  then have "\<exists>k. n \<le> k + 8 \<and> mm_inv h' (insert (p, k) A)" using g(4) n by (intro exI [of _ "s - 8"]) simp
  moreover have "\<forall>(q, j) \<in> A. \<forall>x. within q j x \<longrightarrow> memory h' x = memory h x"
    using kept_payload [OF g(7)] objectsD(1) [OF wf] A_def by blast
  ultimately show ?thesis by blast
qed

definition mm_limit :: nat where "mm_limit = 2 ^ 31 - 16"

lemma mm_malloc_law:
  assumes inv: "mm_inv h A" and n: "n \<le> mm_limit"
  shows "\<exists>p h'. mm_malloc n h = Some (p, h') \<and>
    (\<forall>(q, j) \<in> A. \<forall>x. within q j x \<longrightarrow> memory h' x = memory h x) \<and>
    (if p = 0 then mm_inv h' A else 0 < n \<and> p \<notin> fst ` A \<and> (\<exists>k. n \<le> k \<and> mm_inv h' (insert (p, k) A)))"
proof -
  obtain bs where bs: "heap_wf h bs" "no_adjacent bs" and A: "A = objects (heap_listp h) (allocs (heap_listp h) bs)"
    by (rule mm_invE [OF inv])
  show ?thesis
  proof (cases "n = 0")
    case True
    have "mm_malloc 0 h = Some (0, h)" using bs(1) by (auto simp: mm_malloc_def heap_wf_def Let_def)
    then show ?thesis using True inv by auto
  next
    case False
    then have n': "0 < n" "n + 16 \<le> 2 ^ 31" using n by (auto simp: mm_limit_def)
    have 16: "16 \<le> adjust n" by (auto simp: adjust_def DSIZE_def) (use n' in simp)
    from mm_malloc_ok [OF bs n'] show ?thesis
    proof (elim disjE conjE exE)
      assume "mm_malloc n h = Some (0, h)"
      then show ?thesis using inv by auto
    next
      fix p h' assume m: "mm_malloc n h = Some (p, h')" and pl: "placed h bs p (adjust n) h'"
      note r = mm_malloc_placed [OF bs(1) pl 16, folded A]
      have "\<exists>k. n \<le> k \<and> mm_inv h' (insert (p, k) A)" using r adjust_ok(2) [OF n'] by fastforce
      then show ?thesis using m r n'(1) by auto
    qed
  qed
qed

lemma mm_free_law:
  assumes inv: "mm_inv h A" and p: "(p, k) \<in> A"
  shows "mm_inv (mm_free p h) (A - {(p, k)}) \<and>
    (\<forall>(q, j) \<in> A - {(p, k)}. \<forall>x. within q j x \<longrightarrow> memory (mm_free p h) x = memory h x)"
proof -
  obtain bs where wf: "heap_wf h bs" and adj: "no_adjacent bs"
    and A: "A = objects (heap_listp h) (allocs (heap_listp h) bs)" by (rule mm_invE [OF inv])
  let ?B = "allocs (heap_listp h) bs"
  have pB: "(p, k + 8) \<in> ?B" "p \<noteq> heap_listp h" using objectsD [OF wf] p A by auto
  obtain xs ys where bs: "bs = xs @ (k + 8, True) # ys" and px: "p = heap_listp h + total xs" by (rule allocs_split [OF pB(1)])
  have "xs \<noteq> []" using px pB(2) by auto
  then have "released h bs p (k + 8) (mm_free p h)" using mm_free_ok wf adj bs px by blast
  then obtain m' bs' where r: "mm_free p h = h\<lparr>memory := m'\<rparr>" "heap_wf (mm_free p h) bs'" "no_adjacent bs'"
      "allocs (heap_listp h) bs' = ?B - {(p, k + 8)}" "kept (?B - {(p, k + 8)}) (memory h) m'"
    unfolding released_def by blast
  have "objects (heap_listp h) (?B - {(p, k + 8)}) = A - {(p, k)}"
    unfolding A using objects_remove [of p ?B "k + 8"] wf_unique [OF wf _ pB(1)] by simp
  moreover have "heap_listp (mm_free p h) = heap_listp h" using r(1) by simp
  ultimately have "mm_inv (mm_free p h) (A - {(p, k)})"
    unfolding mm_inv_def using r(2-4) by (intro exI [of _ bs']) simp
  moreover have "m' x = memory h x" if "(q, j) \<in> A - {(p, k)}" "within q j x" for q j x
  proof (rule kept_payload [OF r(5) _ that(2)])
    show "(q, j + 8) \<in> ?B - {(p, k + 8)}" using objectsD(1) [OF wf] that(1) A by auto
  qed
  ultimately show ?thesis using r(1) by auto
qed

text \<open>Writing to the payload of an object.\<close>

lemma mm_inv_write:
  assumes inv: "mm_inv h A" and p: "(p, k) \<in> A" and same: "same_outside p (p + k) (memory h) m'"
  shows "mm_inv (h\<lparr>memory := m'\<rparr>) A"
proof -
  obtain bs where wf: "heap_wf h bs" and adj: "no_adjacent bs"
    and A: "A = objects (heap_listp h) (allocs (heap_listp h) bs)" by (rule mm_invE [OF inv])
  have pB: "(p, k + 8) \<in> allocs (heap_listp h) bs" "p \<noteq> heap_listp h" using objectsD [OF wf] p A by auto
  obtain xs ys where bs: "bs = xs @ (k + 8, True) # ys" and px: "p = heap_listp h + total xs" by (rule allocs_split [OF pB(1)])
  have ne: "xs \<noteq> []" using px pB(2) by auto
  have wf': "heap_wf h (xs @ [(k + 8, True)] @ ys)" using wf bs by simp
  have ge: "8 \<le> p" using wf px by (simp add: heap_wf_def)
  have m': "m' q = memory h q" if "q < p \<or> p + k \<le> q" for q using same that unfolding same_outside_def by blast
  have bseg: "bseg (memory h) p [(k + 8, True)]" using wf_seg(1) [OF wf'] px by simp
  have "GET m' (p - 4) = GET (memory h) (p - 4)" "GET m' (p + k) = GET (memory h) (p + k)"
    by (rule GET_cong, rule m', use ge in simp)+
  then have "bseg m' p [(k + 8, True)]" using bseg by simp
  moreover have "same_outside (p - 4) (p + total [(k + 8, True)] - 4) (memory h) m'"
    unfolding same_outside_def by (auto intro!: m')
  ultimately have "heap_wf (h\<lparr>memory := m'\<rparr>) (xs @ [(k + 8, True)] @ ys)" by (intro wf_replace [OF wf' ne px]) auto
  then have "heap_wf (h\<lparr>memory := m'\<rparr>) bs" using bs by simp
  then show ?thesis using adj A unfolding mm_inv_def by (intro exI [of _ bs]) simp
qed

lemma mm_poke_law:
  assumes "mm_inv h A" and "(p, k) \<in> A" and "within p k x"
  shows "mm_inv (mm_poke x v h) A \<and> memory (mm_poke x v h) = (memory h)(x := v)"
proof
  show "mm_inv (mm_poke x v h) A"
    unfolding mm_poke_def
    by (rule mm_inv_write [OF assms(1,2)]) (use assms(3) in \<open>auto simp: same_outside_def within_def\<close>)
qed (simp add: mm_poke_def)

lemma mm_inv_size:
  assumes "mm_inv h A" and "(p, k) \<in> A"
  shows "GET_SIZE (memory h) (HDRP p) = k + 8"
proof -
  obtain bs where wf: "heap_wf h bs" and A: "A = objects (heap_listp h) (allocs (heap_listp h) bs)"
    by (rule mm_invE [OF assms(1)])
  have "(p, k + 8) \<in> allocs (heap_listp h) bs" using objectsD(1) [OF wf] assms(2) A by simp
  then obtain xs ys where bs: "bs = xs @ (k + 8, True) # ys" and px: "p = heap_listp h + total xs" by (rule allocs_split)
  show ?thesis using wf_next(1) [OF wf [unfolded bs] px] by (simp add: next_tag_def HDRP_def WSIZE_def)
qed

lemma mm_realloc_law:
  assumes inv: "mm_inv h A" and p: "(p, k) \<in> A" and n: "0 < n" "n \<le> mm_limit"
  shows "\<exists>q h'. mm_realloc p n h = Some (q, h') \<and>
    (\<forall>(r, j) \<in> A - {(p, k)}. \<forall>x. within r j x \<longrightarrow> memory h' x = memory h x) \<and>
    (if q = 0 then mm_inv h' A \<and> (\<forall>x. within p k x \<longrightarrow> memory h' x = memory h x)
     else q \<notin> fst ` A \<and> (\<forall>i < min n k. memory h' (q + i) = memory h (p + i)) \<and>
       (\<exists>j. n \<le> j \<and> (q + j \<le> p \<or> p + k \<le> q) \<and> mm_inv h' (insert (q, j) (A - {(p, k)}))))"
proof -
  obtain q h1 where m: "mm_malloc n h = Some (q, h1)"
    and same: "\<forall>(q, j) \<in> A. \<forall>x. within q j x \<longrightarrow> memory h1 x = memory h x"
    and res: "if q = 0 then mm_inv h1 A else 0 < n \<and> q \<notin> fst ` A \<and> (\<exists>k. n \<le> k \<and> mm_inv h1 (insert (q, k) A))"
    using mm_malloc_law [OF inv n(2)] by blast
  have p0: "p \<noteq> 0" using mm_aligned [OF inv p] by simp
  show ?thesis
  proof (cases "q = 0")
    case True
    then have "mm_realloc p n h = Some (0, h1)" using m n(1) p0 by (simp add: mm_realloc_def)
    moreover have "mm_inv h1 A" using res True by simp
    moreover have "\<forall>x. within p k x \<longrightarrow> memory h1 x = memory h x" using same p by blast
    ultimately show ?thesis using same by (intro exI [of _ 0] exI [of _ h1]) auto
  next
    case False
    then obtain j where j: "n \<le> j" "mm_inv h1 (insert (q, j) A)" and new: "q \<notin> fst ` A" using res by auto
    let ?A1 = "insert (q, j) A" and ?c = "min n (k + 8)"
    let ?m2 = "memcpy q p ?c (memory h1)"
    let ?h2 = "h1\<lparr>memory := ?m2\<rparr>" and ?h3 = "mm_free p (h1\<lparr>memory := ?m2\<rparr>)"
    have inA: "(q, j) \<in> ?A1" "(p, k) \<in> ?A1" "q \<noteq> p" using p new by force+
    have run: "mm_realloc p n h = Some (q, ?h3)"
      using m n(1) p0 False mm_inv_size [OF j(2) inA(2)] by (simp add: mm_realloc_def Let_def)
    have m2: "?m2 x = memory h1 x" if "\<not> within q j x" for x
      using that j(1) by (auto simp: memcpy_def within_def)
    have inv2: "mm_inv ?h2 ?A1"
      by (rule mm_inv_write [OF j(2) inA(1)]) (use m2 in \<open>auto simp: same_outside_def within_def\<close>)
    note fr = mm_free_law [OF inv2 inA(2)]
    have A3: "?A1 - {(p, k)} = insert (q, j) (A - {(p, k)})" using inA(3) by auto
    have far: "q + j \<le> r \<or> r + t \<le> q" if "(r, t) \<in> A" for r t
      using mm_disjoint [OF j(2), of q j r t] that new by force
    have "memory ?h3 x = memory h x" if "(r, t) \<in> A - {(p, k)}" "within r t x" for r t x
    proof -
      have "(r, t) \<in> ?A1 - {(p, k)}" using that(1) by simp
      then have "memory ?h3 x = ?m2 x" using conjunct2 [OF fr] that(2) by fastforce
      also have "\<dots> = memory h1 x" using far [of r t] that by (intro m2) (auto simp: within_def)
      also have "\<dots> = memory h x" using same that by blast
      finally show ?thesis .
    qed
    moreover have "memory ?h3 (q + i) = memory h (p + i)" if "i < min n k" for i
    proof -
      have "within q j (q + i)" "within p k (p + i)" using that j(1) by (auto simp: within_def)
      then have "memory ?h3 (q + i) = ?m2 (q + i)" using conjunct2 [OF fr] inA(3) by fastforce
      also have "\<dots> = memory h1 (p + i)" using that by (simp add: memcpy_def)
      also have "\<dots> = memory h (p + i)" using same p \<open>within p k (p + i)\<close> by blast
      finally show ?thesis .
    qed
    moreover have "mm_inv ?h3 (insert (q, j) (A - {(p, k)}))" using fr A3 by simp
    ultimately show ?thesis using run False new j(1) far [OF p] by (intro exI [of _ q] exI [of _ ?h3]) auto
  qed
qed

interpretation mm: allocator mm_inv mm_malloc mm_realloc mm_free memory mm_poke mm_limit
proof (unfold_locales, goal_cases)
  case (1 h A p k) then show ?case by (rule mm_aligned)
next
  case (2 h A p k j) then show ?case by (rule mm_unique)
next
  case (3 h A p k q j) then show ?case by (rule mm_disjoint)
next
  case (4 h A n) then show ?case by (rule mm_malloc_law)
next
  case (5 h A p k n) then show ?case by (rule mm_realloc_law)
next
  case (6 h) then show ?case by (simp add: mm_free_def)
next
  case (7 h A p k) then show ?case by (rule mm_free_law)
next
  case (8 h A p k x v) then show ?case by (rule mm_poke_law)
qed

definition mm_serve :: "req \<Rightarrow> heap \<Rightarrow> (ans \<times> heap) option" where
  "mm_serve = serve mm_malloc mm_realloc mm_free memory mm_poke"

lemma mm_init_inv:
  assumes "8 dvd mem_brk h" and "mem_brk h + 4112 \<le> mem_max_addr h" and "mem_max_addr h \<le> mem_brk h + 2 ^ 31"
  obtains h' where "mm_init h = (0, h')" and "mm_inv h' {}"
proof -
  obtain h' bs where i: "mm_init h = (0, h')" "heap_wf h' bs" "no_adjacent bs"
      "allocs (heap_listp h') bs = {(heap_listp h', 8)}"
    using mm_init_ok [OF assms] by blast
  have "objects (heap_listp h') (allocs (heap_listp h') bs) = {}" unfolding i(4) by (simp add: objects_def)
  then have "mm_inv h' {}" unfolding mm_inv_def using i(2,3) by metis
  then show thesis using that i(1) by blast
qed

lemma mm_run_ok:
  assumes "mm_inv h {}" and "good_client mm_limit c"
  shows "\<exists>tr h' A. run_client mm_serve c k [] h = Some (tr, h') \<and> mm_inv h' A \<and> agrees A (memory h') (ledger tr) \<and> good_trace tr"
proof -
  have "agrees {} (memory h) (ledger [])" "good_trace []" by (auto simp: agrees_def ledger_def good_trace_def)
  from mm.run_client_ok [OF assms(1) this assms(2)] show ?thesis unfolding mm_serve_def .
qed

lemma mm_inv_check: "mm_inv h A \<Longrightarrow> checkheap h = Some []"
  by (elim mm_invE) (rule checkheap_ok)

section \<open>Sizes that wrap around\<close>

lemma adjust_wraps: "2 ^ 64 - 15 \<le> n \<Longrightarrow> n < 2 ^ 64 - 7 \<Longrightarrow> adjust n = 0"
proof -
  assume n: "2 ^ 64 - 15 \<le> n" "n < 2 ^ 64 - 7"
  then have "n + 15 = (n + 15 - 2 ^ 64) + 2 ^ 64" by simp
  then have "(n + 15) mod 2 ^ 64 = (n + 15 - 2 ^ 64) mod 2 ^ 64" by (metis mod_add_self2)
  then have "(n + 15) mod 2 ^ 64 = n + 15 - 2 ^ 64" using n by simp
  then have "(15 + n) mod 2 ^ 64 div 8 = 0" using n by (simp add: add.commute)
  then show ?thesis using n by (simp add: adjust_def DSIZE_def)
qed

text \<open>The search reads only the headers.\<close>

lemma fit_loop_headers:
  assumes "heap_wf h (xs @ us @ (s, False) # vs)" and "bp = heap_listp h + total xs" and "\<forall>b \<in> set us. snd b" and "n \<le> s"
    and "\<And>q. 8 \<le> q \<Longrightarrow> q + 8 \<le> bp + total us \<Longrightarrow> GET m' (q - 4) = GET (memory h) (q - 4)"
    and "GET m' (bp + total us - 4) = PACK s False"
  shows "fit_loop m' n bp = Some (Some (bp + total us))"
  using assms
proof (induction us arbitrary: xs bp)
  case Nil
  have "size_ok s" using Nil.prems(1) wf_block(1) [of h xs s False vs] by simp
  then have "GET_SIZE m' (HDRP bp) = s" "\<not> GET_ALLOC m' (HDRP bp)" "0 < s"
    using size_ok_fields [of m' "bp - 4" s False] Nil.prems(6) by (auto simp: HDRP_def WSIZE_def size_ok_def)
  then show ?case using Nil.prems(4) by (subst fit_loop.simps) simp
next
  case (Cons u us)
  obtain t where u: "u = (t, True)" using Cons.prems(3) by (cases u) auto
  have wf: "heap_wf h (xs @ (t, True) # us @ (s, False) # vs)" using Cons.prems(1) u by simp
  have t: "size_ok t" "GET (memory h) (bp - 4) = PACK t True" using wf_block [OF wf] Cons.prems(2) by auto
  have "8 \<le> bp" using Cons.prems(1,2) by (simp add: heap_wf_def)
  then have "GET m' (bp - 4) = PACK t True" using Cons.prems(5) [of bp] u t by (simp add: size_ok_def)
  then have f: "GET_SIZE m' (HDRP bp) = t" "GET_ALLOC m' (HDRP bp)" "NEXT_BLKP m' bp = bp + t" "0 < t"
    using size_ok_fields [of m' "bp - 4" t True] t(1) by (auto simp: HDRP_def NEXT_BLKP_def WSIZE_def size_ok_def)
  have "fit_loop m' n (bp + t) = Some (Some (bp + t + total us))"
    by (rule Cons.IH [of "xs @ [u]"]) (use Cons.prems u in \<open>auto simp: add.assoc\<close>)
  then show ?case using f u by (subst fit_loop.simps) (simp add: add.assoc)
qed

lemma place_0:
  assumes wf: "heap_wf h (us @ (s, False) # vs)" and p: "p = heap_listp h + total us" and s: "16 \<le> s"
  shows "\<exists>m'. place p 0 h = h\<lparr>memory := m'\<rparr> \<and> GET m' (p - 4) = PACK s False \<and>
    same_outside (p - 8) (p + s - 4) (memory h) m'"
proof -
  have ok: "size_ok s" by (rule wf_block [OF wf])
  have ge: "8 \<le> p" using wf p by (simp add: heap_wf_def)
  have cs: "GET_SIZE (memory h) (HDRP p) = s"
    using wf_next(1) [OF wf p] by (simp add: next_tag_def HDRP_def WSIZE_def)
  let ?m0 = "PUT (p - 4) (PACK 0 True) (memory h)"
  let ?m1 = "PUT (p - 8) (PACK 0 True) ?m0"
  let ?m2 = "put_tags p s False ?m1"
  have z: "GET_SIZE ?m0 (p - 4) = 0" "GET_SIZE ?m1 (p - 4) = 0"
    using tag_fields(1) [of ?m0 "p - 4" 0 True] tag_fields(1) [of ?m1 "p - 4" 0 True] ge by (simp_all add: GET_PUT_other)
  have pt: "put_tags p 0 True (memory h) = ?m1"
    using z(1) by (simp add: put_tags_def FTRP_def HDRP_def WSIZE_def DSIZE_def Let_def)
  have sub: "sub64 s 0 = s" using ok by (subst sub64_ge) (auto simp: size_ok_def)
  have "place p 0 h = h\<lparr>memory := ?m2\<rparr>"
    using s z(2) by (simp add: place_def cs sub pt DSIZE_def NEXT_BLKP_def WSIZE_def Let_def)
  moreover have t: "bseg ?m2 p [(s, False)]" "same_outside (p - 4) (p + s - 4) ?m1 ?m2"
    using put_tags_ok [OF ok, of p] ge by auto
  moreover have "same_outside (p - 8) (p + s - 4) (memory h) ?m1"
    unfolding same_outside_def
  proof (intro allI impI)
    fix q assume "q < p - 8 \<or> p + s - 4 \<le> q"
    then have "q < p - 4 \<or> p - 4 + 4 \<le> q" "q < p - 8 \<or> p - 8 + 4 \<le> q" using ge s by auto
    then show "?m1 q = memory h q" by (simp add: PUT_outside)
  qed
  then have "same_outside (p - 8) (p + s - 4) (memory h) ?m2"
    by (rule same_outside_trans [OF _ t(2)]) auto
  ultimately show ?thesis by auto
qed

section \<open>Properties\<close>

text \<open>A heap with a prologue, a block of 16 bytes and an epilogue, for the examples.\<close>

definition small_heap :: "bool \<Rightarrow> heap" where
  "small_heap a = \<lparr>memory = PUT 12 (PACK 8 True) (PUT 16 (PACK 8 True) (PUT 20 (PACK 16 a) (PUT 32 (PACK 16 a)
     (PUT 36 (PACK 0 True) (\<lambda>_. 0))))), mem_heap = 8, mem_brk = 40, mem_max_addr = 1000000, heap_listp = 16\<rparr>"

lemma small_heap_wf: "heap_wf (small_heap a) [(8, True), (16, a)]"
  by (simp add: heap_wf_def small_heap_def size_ok_def GET_PUT_other)

text \<open>
  C2. A client of \<^verbatim>\<open>mm_malloc\<close>, \<^verbatim>\<open>mm_realloc\<close> and \<^verbatim>\<open>mm_free\<close> that passes back only pointers it was given, touches only
  bytes of objects it holds and asks for at most 2^31 - 16 bytes at a time is served in every one of its calls: the
  search always ends, a new object is a multiple of 8 and lies apart from all objects held, every byte reads back as it
  was last written (also after it was moved by \<^verbatim>\<open>mm_realloc\<close>), and after any number of calls the check of the heap
  finds nothing.
\<close>

theorem mm_client_safe:
  assumes "8 dvd mem_brk h0" and "mem_brk h0 + 4112 \<le> mem_max_addr h0" and "mem_max_addr h0 \<le> mem_brk h0 + 2 ^ 31"
    and "good_client mm_limit c"
  shows "\<exists>h tr h'. mm_init h0 = (0, h) \<and> run_client mm_serve c k [] h = Some (tr, h') \<and> good_trace tr \<and>
    (\<forall>x v. written (ledger tr) x = Some v \<longrightarrow> memory h' x = v) \<and>
    (\<forall>p n q m. live (ledger tr) p = Some n \<longrightarrow> live (ledger tr) q = Some m \<longrightarrow> p \<noteq> q \<longrightarrow> p + n \<le> q \<or> q + m \<le> p) \<and>
    checkheap h' = Some []"
proof -
  obtain h where h: "mm_init h0 = (0, h)" "mm_inv h {}" by (rule mm_init_inv [OF assms(1-3)])
  obtain tr h' A where r: "run_client mm_serve c k [] h = Some (tr, h')" "mm_inv h' A"
      "agrees A (memory h') (ledger tr)" "good_trace tr"
    using mm_run_ok [OF h(2) assms(4)] by blast
  have "\<forall>x v. written (ledger tr) x = Some v \<longrightarrow> memory h' x = v" using r(3) unfolding agrees_def by blast
  moreover have "\<forall>p n q m. live (ledger tr) p = Some n \<longrightarrow> live (ledger tr) q = Some m \<longrightarrow> p \<noteq> q \<longrightarrow> p + n \<le> q \<or> q + m \<le> p"
    using mm.live_disjoint [OF r(2,3)] by blast
  ultimately show ?thesis using h(1) r(1,4) mm_inv_check [OF r(2)] by blast
qed

definition small_client :: client where
  "small_client tr = (case tr of
     [] \<Rightarrow> Some (Malloc 10)
   | [(Malloc n, Ptr p)] \<Rightarrow> if p \<noteq> 0 \<and> 0 < n then Some (Store p 7) else None
   | [(Malloc n, Ptr p), (Store x v, Done)] \<Rightarrow> if p \<noteq> 0 \<and> 0 < n then Some (Realloc p 5000) else None
   | _ \<Rightarrow> None)"

lemma small_client_good: "good_client mm_limit small_client"
  unfolding good_client_def small_client_def
  by (auto simp: ledger_def held_def within_def mm_limit_def split: list.splits req.splits ans.splits if_splits)

theorem mm_client_safe_witness:
  "\<exists>h tr h'. mm_init \<lparr>memory = \<lambda>_. 0, mem_heap = 4096, mem_brk = 4096, mem_max_addr = 20975616, heap_listp = 0\<rparr> = (0, h) \<and>
     run_client mm_serve small_client 3 [] h = Some (tr, h') \<and> good_trace tr"
  using mm_client_safe [of "\<lparr>memory = \<lambda>_. 0, mem_heap = 4096, mem_brk = 4096, mem_max_addr = 20975616, heap_listp = 0\<rparr>"
    small_client 3] small_client_good by auto

text \<open>
  C21. \<^verbatim>\<open>mm_malloc\<close> on every heap: it returns, and it fails only when no free block is large enough and the memory system
  has not enough room left, and then changes nothing. Otherwise it returns the address of a block that is not smaller
  than the adjusted size and apart from every allocated block, this block is the only one that becomes allocated, no
  allocated byte changes, and no two free blocks are neighbours afterwards either.
\<close>

theorem mm_malloc_correct:
  assumes "heap_wf h bs" and "no_adjacent bs" and "0 < n" and "n + 16 \<le> 2 ^ 31"
  shows "(mm_malloc n h = Some (0, h) \<and> (\<forall>(s, a) \<in> set bs. a \<or> s < adjust n) \<and>
      mem_max_addr h < mem_brk h + max (adjust n) CHUNKSIZE) \<or>
    (\<exists>p h' bs' s. mm_malloc n h = Some (p, h') \<and> heap_listp h' = heap_listp h \<and> heap_wf h' bs' \<and> no_adjacent bs' \<and>
      n + 8 \<le> s \<and> allocs (heap_listp h) bs' = insert (p, s) (allocs (heap_listp h) bs) \<and>
      (\<forall>(q, t) \<in> allocs (heap_listp h) bs. q + t \<le> p \<or> p + s \<le> q) \<and>
      kept (allocs (heap_listp h) bs) (memory h) (memory h'))"
  using mm_malloc_ok [OF assms]
proof (elim disjE exE conjE)
  fix p h' assume m: "mm_malloc n h = Some (p, h')" and "placed h bs p (adjust n) h'"
  then obtain bs' s where "heap_listp h' = heap_listp h" "heap_wf h' bs'" "no_adjacent bs'" "adjust n \<le> s"
      "allocs (heap_listp h) bs' = insert (p, s) (allocs (heap_listp h) bs)"
      "\<forall>(q, t) \<in> allocs (heap_listp h) bs. q + t \<le> p \<or> p + s \<le> q"
      "kept (allocs (heap_listp h) bs) (memory h) (memory h')"
    unfolding placed_def by blast
  moreover then have "n + 8 \<le> s" using adjust_ok(2) [OF assms(3,4)] by simp
  ultimately show ?thesis using m by blast
qed auto

theorem mm_malloc_correct_witness:
  "\<exists>p h'. mm_malloc 6 (small_heap False) = Some (p, h')"
  using mm_malloc_correct [OF small_heap_wf, of False 6] by auto

text \<open>
  C22. \<^verbatim>\<open>mm_free\<close> releases exactly the block it is given, merges it with the free blocks beside it so that no two free
  blocks are neighbours, and keeps every byte of the blocks that stay allocated.
\<close>

theorem mm_free_correct:
  assumes "heap_wf h (xs @ (s, True) # ys)" and "xs \<noteq> []" and "no_adjacent (xs @ (s, True) # ys)"
    and "p = heap_listp h + total xs" and "A = allocs (heap_listp h) (xs @ (s, True) # ys) - {(p, s)}"
  shows "\<exists>bs'. heap_wf (mm_free p h) bs' \<and> no_adjacent bs' \<and> heap_listp (mm_free p h) = heap_listp h \<and>
    allocs (heap_listp h) bs' = A \<and> kept A (memory h) (memory (mm_free p h))"
proof -
  have "released h (xs @ (s, True) # ys) p s (mm_free p h)" by (rule mm_free_ok [OF assms(1,4,2,3)])
  then show ?thesis unfolding released_def assms(5) by fastforce
qed

theorem mm_free_correct_witness:
  "\<exists>bs'. heap_wf (mm_free 24 (small_heap True)) bs' \<and> allocs 16 bs' = {(16, 8)}"
proof -
  have "heap_wf (small_heap True) ([(8, True)] @ (16, True) # [])" using small_heap_wf [of True] by simp
  from mm_free_correct [OF this, of 24 "{(16, 8)}"] show ?thesis by (auto simp: small_heap_def insert_Diff_if)
qed

text \<open>A size just below 2^64 wraps around: the block asked for has the size 0, \<^verbatim>\<open>place\<close> leaves the free block marked as
  free, and the next request gets the same address although the first object was never released.
\<close>

theorem mm_malloc_overflow:
  assumes "heap_wf h (us @ (s, False) # vs)" and "\<forall>b \<in> set us. snd b" and "16 \<le> s"
    and "2 ^ 64 - 15 \<le> big" and "big < 2 ^ 64 - 7" and "0 < n" and "adjust n \<le> s"
  shows "\<exists>p h1 h2. p \<noteq> 0 \<and> mm_malloc big h = Some (p, h1) \<and> mm_malloc n h1 = Some (p, h2)"
proof -
  let ?p = "heap_listp h + total us"
  have wf: "heap_wf h ([] @ us @ (s, False) # vs)" using assms(1) by simp
  have hl: "8 \<le> heap_listp h" and big: "0 < big" using assms(1,4) by (auto simp: heap_wf_def)
  have hdr: "GET (memory h) (?p - 4) = PACK s False" by (rule wf_block [OF assms(1)])
  obtain m' where m': "place ?p 0 h = h\<lparr>memory := m'\<rparr>" "GET m' (?p - 4) = PACK s False"
      "same_outside (?p - 8) (?p + s - 4) (memory h) m'"
    using place_0 [OF assms(1) refl assms(3)] by blast
  have "fit_loop (memory h) 0 (heap_listp h) = Some (Some ?p)"
    by (rule fit_loop_headers [OF wf _ assms(2)]) (use hdr in auto)
  then have "mm_malloc big h = Some (?p, h\<lparr>memory := m'\<rparr>)"
    using hl big m'(1) by (simp add: mm_malloc_def find_fit_def adjust_wraps [OF assms(4,5)] Let_def)
  moreover have "fit_loop m' (adjust n) (heap_listp h) = Some (Some ?p)"
  proof (rule fit_loop_headers [OF wf _ assms(2,7)])
    fix q assume q: "8 \<le> q" "q + 8 \<le> heap_listp h + total us"
    show "GET m' (q - 4) = GET (memory h) (q - 4)"
      by (rule GET_cong) (use m'(3) q in \<open>auto simp: same_outside_def\<close>)
  qed (use m'(2) in auto)
  then have "mm_malloc n (h\<lparr>memory := m'\<rparr>) = Some (?p, place ?p (adjust n) (h\<lparr>memory := m'\<rparr>))"
    using hl assms(6) by (simp add: mm_malloc_def find_fit_def Let_def)
  ultimately show ?thesis using hl by (intro exI [of _ ?p]) auto
qed

theorem mm_malloc_overflow_witness:
  "\<exists>p h1 h2. p \<noteq> 0 \<and> mm_malloc 18446744073709551608 (small_heap False) = Some (p, h1) \<and> mm_malloc 5 h1 = Some (p, h2)"
proof -
  have "heap_wf (small_heap False) ([(8, True)] @ (16, False) # [])" using small_heap_wf [of False] by simp
  from mm_malloc_overflow [OF this, of 18446744073709551608 5] show ?thesis by (simp add: adjust_def DSIZE_def)
qed

end
