(* ===== verification/Date_Spec.thy ===== *)
theory Date_Spec
  imports Prelude
begin

text \<open>
  Dates as the calendars count them, one day after the other, and \<^verbatim>\<open>date.cpp\<close>: the operations that every date has from
  the number of its day. A class of dates has a function \<^verbatim>\<open>mod_julian_day\<close> from dates to day numbers and a function
  \<^verbatim>\<open>adjust_date_from_mjd\<close> back; the calls of these virtual functions are parameters here.
\<close>

record date =
  curr_year :: int
  curr_month :: int
  curr_day :: int

abbreviation mkdate :: "int \<Rightarrow> int \<Rightarrow> int \<Rightarrow> date" where
  "mkdate y m d \<equiv> \<lparr>curr_year = y, curr_month = m, curr_day = d\<rparr>"

lemma mkdate_collapse [simp]: "mkdate (curr_year d) (curr_month d) (curr_day d) = d"
  by (cases d) simp

section \<open>Counting days\<close>

definition month_length :: "(int \<Rightarrow> bool) \<Rightarrow> int \<Rightarrow> int \<Rightarrow> int" where
  "month_length leap m y =
     (if m = 2 then (if leap y then 29 else 28) else if m = 4 \<or> m = 6 \<or> m = 9 \<or> m = 11 then 30 else 31)"

definition valid_date :: "(int \<Rightarrow> bool) \<Rightarrow> date \<Rightarrow> bool" where
  "valid_date leap d \<longleftrightarrow> 1 \<le> curr_month d \<and> curr_month d \<le> 12 \<and> 1 \<le> curr_day d \<and>
     curr_day d \<le> month_length leap (curr_month d) (curr_year d)"

definition next_day :: "(int \<Rightarrow> bool) \<Rightarrow> date \<Rightarrow> date" where
  "next_day leap d =
     (if curr_day d < month_length leap (curr_month d) (curr_year d) then d\<lparr>curr_day := curr_day d + 1\<rparr>
      else if curr_month d < 12 then mkdate (curr_year d) (curr_month d + 1) 1
      else mkdate (curr_year d + 1) 1 1)"

definition civil :: "(int \<Rightarrow> bool) \<Rightarrow> date \<Rightarrow> nat \<Rightarrow> date" where
  "civil leap first n = (next_day leap ^^ n) first"

text \<open>The place of a date in the order by year, month and day.\<close>

definition rank :: "date \<Rightarrow> int" where
  "rank d = (curr_year d * 12 + curr_month d) * 32 + curr_day d"

lemma month_all:
  fixes m :: int
  assumes "1 \<le> m" and "m \<le> 12"
    and "P 1" and "P 2" and "P 3" and "P 4" and "P 5" and "P 6" and "P 7" and "P 8" and "P 9" and "P 10" and "P 11" and "P 12"
  shows "P m"
proof -
  have "m = 1 \<or> m = 2 \<or> m = 3 \<or> m = 4 \<or> m = 5 \<or> m = 6 \<or> m = 7 \<or> m = 8 \<or> m = 9 \<or> m = 10 \<or> m = 11 \<or> m = 12"
    using assms(1,2) by presburger
  then show ?thesis using assms(3-14) by (elim disjE) simp_all
qed

lemma next_day_valid: "valid_date leap d \<Longrightarrow> valid_date leap (next_day leap d)"
  by (auto simp: valid_date_def next_day_def month_length_def)

lemma next_day_rank: "valid_date leap d \<Longrightarrow> rank d < rank (next_day leap d)"
  by (auto simp: valid_date_def next_day_def rank_def month_length_def split: if_splits)

lemma digits_unique:
  fixes A B a b k :: int
  assumes "A * k + a = B * k + b" and "0 \<le> a" and "a < k" and "0 \<le> b" and "b < k"
  shows "A = B" and "a = b"
proof -
  have "(A * k + a) div k = A" "(B * k + b) div k = B"
    using assms(2-5) by (auto intro: int_div_pos_eq [where r = a] int_div_pos_eq [where r = b])
  then show "A = B" using assms(1) by simp
  then show "a = b" using assms(1) by simp
qed

lemma rank_inj:
  assumes "valid_date leap d" and "valid_date leap e" and "rank d = rank e"
  shows "d = e"
proof -
  have day: "0 \<le> curr_day x \<and> curr_day x < 32 \<and> 0 \<le> curr_month x - 1 \<and> curr_month x - 1 < 12" if "valid_date leap x" for x
    using that by (auto simp: valid_date_def month_length_def split: if_splits)
  note days = day [OF assms(1)] day [OF assms(2)]
  have "(curr_year d * 12 + curr_month d) * 32 + curr_day d = (curr_year e * 12 + curr_month e) * 32 + curr_day e"
    using assms(3) by (simp add: rank_def)
  note 1 = digits_unique [OF this]
  have "curr_year d * 12 + (curr_month d - 1) = curr_year e * 12 + (curr_month e - 1)" using 1(1) days by simp
  note 2 = digits_unique [OF this]
  show ?thesis using 1(2) 2 days by (cases d, cases e) auto
qed

text \<open>The same day of the next month, and of the month before.\<close>

definition next_month :: "date \<Rightarrow> date" where
  "next_month d = (if curr_month d = 12 then d\<lparr>curr_month := 1, curr_year := curr_year d + 1\<rparr>
     else d\<lparr>curr_month := curr_month d + 1\<rparr>)"

definition prev_month :: "date \<Rightarrow> date" where
  "prev_month d = (if curr_month d = 1 then d\<lparr>curr_month := 12, curr_year := curr_year d - 1\<rparr>
     else d\<lparr>curr_month := curr_month d - 1\<rparr>)"

lemma next_prev_month: "curr_month d \<le> 12 \<Longrightarrow> next_month (prev_month d) = d"
  by (cases d) (auto simp: next_month_def prev_month_def)

lemma prev_next_month: "1 \<le> curr_month d \<Longrightarrow> prev_month (next_month d) = d"
  by (cases d) (auto simp: next_month_def prev_month_def)

lemma next_day_pow:
  "curr_day d + int n \<le> month_length leap (curr_month d) (curr_year d) \<Longrightarrow>
     (next_day leap ^^ n) d = d\<lparr>curr_day := curr_day d + int n\<rparr>"
proof (induction n)
  case (Suc n)
  then have "(next_day leap ^^ n) d = d\<lparr>curr_day := curr_day d + int n\<rparr>" by simp
  then have "(next_day leap ^^ Suc n) d = next_day leap (d\<lparr>curr_day := curr_day d + int n\<rparr>)" by simp
  also have "\<dots> = d\<lparr>curr_day := curr_day d + int (Suc n)\<rparr>" using Suc.prems by (simp add: next_day_def)
  finally show ?case .
qed simp

text \<open>To the same day of the next month it is as many days as this month has.\<close>

lemma next_month_days:
  assumes "valid_date leap d" and "valid_date leap (next_month d)"
  shows "(next_day leap ^^ nat (month_length leap (curr_month d) (curr_year d))) d = next_month d"
proof -
  define L where "L = month_length leap (curr_month d) (curr_year d)"
  have d: "1 \<le> curr_day d" "curr_day d \<le> L" "1 \<le> curr_month d" "curr_month d \<le> 12" using assms(1) by (auto simp: valid_date_def L_def)
  define e where "e = (next_month d)\<lparr>curr_day := 1\<rparr>"
  have 1: "(next_day leap ^^ nat (L - curr_day d)) d = d\<lparr>curr_day := L\<rparr>"
    using next_day_pow [of d "nat (L - curr_day d)" leap] d by (simp add: L_def)
  have 2: "next_day leap (d\<lparr>curr_day := L\<rparr>) = e"
    using d by (cases d) (auto simp: next_day_def L_def e_def next_month_def)
  have day: "curr_day (next_month d) = curr_day d" by (simp add: next_month_def)
  have e: "curr_day e = 1" "curr_month e = curr_month (next_month d)" "curr_year e = curr_year (next_month d)" by (simp_all add: e_def)
  have "curr_day e + int (nat (curr_day d - 1)) \<le> month_length leap (curr_month e) (curr_year e)"
    using assms(2) d(1) unfolding e valid_date_def day by simp
  then have "(next_day leap ^^ nat (curr_day d - 1)) e = e\<lparr>curr_day := curr_day e + int (nat (curr_day d - 1))\<rparr>"
    by (rule next_day_pow)
  also have "\<dots> = next_month d" using d(1) unfolding e(1) day [symmetric] by (simp add: e_def)
  finally have 3: "(next_day leap ^^ nat (curr_day d - 1)) e = next_month d" .
  have "nat L = nat (curr_day d - 1) + Suc (nat (L - curr_day d))" using d by simp
  then have "(next_day leap ^^ nat L) d = (next_day leap ^^ nat (curr_day d - 1)) (next_day leap ((next_day leap ^^ nat (L - curr_day d)) d))"
    by (simp only: funpow_add funpow.simps o_apply)
  then show ?thesis unfolding L_def [symmetric] 1 2 3 .
qed

text \<open>The common body of the operations that add and take off a month, for a class whose months have the right lengths.\<close>

lemma month_forward:
  assumes "valid_date leap d"
    and days: "\<And>e. 1 \<le> curr_month e \<Longrightarrow> curr_month e \<le> 12 \<Longrightarrow> days e = month_length leap (curr_month e) (curr_year e)"
  shows "(let e = (if curr_month d + 1 > 12 then d\<lparr>curr_month := 1, curr_year := curr_year d + 1\<rparr>
                   else d\<lparr>curr_month := curr_month d + 1\<rparr>)
          in if curr_day e > days e then f (e\<lparr>curr_year := curr_year d, curr_month := curr_month d\<rparr>) else e) =
         (if valid_date leap (next_month d) then next_month d else f d)"
proof -
  have m: "1 \<le> curr_month d" "curr_month d \<le> 12" "1 \<le> curr_day d" using assms(1) by (auto simp: valid_date_def)
  have n: "1 \<le> curr_month (next_month d)" "curr_month (next_month d) \<le> 12" "curr_day (next_month d) = curr_day d"
    using m by (auto simp: next_month_def)
  have "(if curr_month d + 1 > 12 then d\<lparr>curr_month := 1, curr_year := curr_year d + 1\<rparr>
      else d\<lparr>curr_month := curr_month d + 1\<rparr>) = next_month d" using m(2) by (auto simp: next_month_def)
  moreover have "(next_month d)\<lparr>curr_year := curr_year d, curr_month := curr_month d\<rparr> = d"
    by (cases d) (simp add: next_month_def)
  moreover have "curr_day (next_month d) > days (next_month d) \<longleftrightarrow> \<not> valid_date leap (next_month d)"
    using n m(3) by (auto simp: days valid_date_def)
  ultimately show ?thesis by (simp add: Let_def)
qed

lemma month_backward:
  assumes "valid_date leap d"
    and days: "\<And>e. 1 \<le> curr_month e \<Longrightarrow> curr_month e \<le> 12 \<Longrightarrow> days e = month_length leap (curr_month e) (curr_year e)"
  shows "(let e = (if curr_month d - 1 < 1 then d\<lparr>curr_month := 12, curr_year := curr_year d - 1\<rparr>
                   else d\<lparr>curr_month := curr_month d - 1\<rparr>)
          in if curr_day e > days e then f (e\<lparr>curr_year := curr_year d, curr_month := curr_month d\<rparr>) else e) =
         (if valid_date leap (prev_month d) then prev_month d else f d)"
proof -
  have m: "1 \<le> curr_month d" "curr_month d \<le> 12" "1 \<le> curr_day d" using assms(1) by (auto simp: valid_date_def)
  have n: "1 \<le> curr_month (prev_month d)" "curr_month (prev_month d) \<le> 12" "curr_day (prev_month d) = curr_day d"
    using m by (auto simp: prev_month_def)
  have "(if curr_month d - 1 < 1 then d\<lparr>curr_month := 12, curr_year := curr_year d - 1\<rparr>
      else d\<lparr>curr_month := curr_month d - 1\<rparr>) = prev_month d" using m(1) by (auto simp: prev_month_def)
  moreover have "(prev_month d)\<lparr>curr_year := curr_year d, curr_month := curr_month d\<rparr> = d"
    by (cases d) (simp add: prev_month_def)
  moreover have "curr_day (prev_month d) > days (prev_month d) \<longleftrightarrow> \<not> valid_date leap (prev_month d)"
    using n m(3) by (auto simp: days valid_date_def)
  ultimately show ?thesis by (simp add: Let_def)
qed

section \<open>The operators of a date\<close>

definition date_assign :: "('d \<Rightarrow> int) \<Rightarrow> (int \<Rightarrow> 'e) \<Rightarrow> 'd \<Rightarrow> 'e" where
  "date_assign mod_julian_day adjust_date_from_mjd d = adjust_date_from_mjd (mod_julian_day d)"

definition date_eq :: "('d \<Rightarrow> int) \<Rightarrow> ('e \<Rightarrow> int) \<Rightarrow> 'd \<Rightarrow> 'e \<Rightarrow> bool" where
  "date_eq mjd1 mjd2 this d \<longleftrightarrow> mjd1 this = mjd2 d"

definition date_ne :: "('d \<Rightarrow> int) \<Rightarrow> ('e \<Rightarrow> int) \<Rightarrow> 'd \<Rightarrow> 'e \<Rightarrow> bool" where
  "date_ne mjd1 mjd2 this d \<longleftrightarrow> mjd1 this \<noteq> mjd2 d"

definition date_lt :: "('d \<Rightarrow> int) \<Rightarrow> ('e \<Rightarrow> int) \<Rightarrow> 'd \<Rightarrow> 'e \<Rightarrow> bool" where
  "date_lt mjd1 mjd2 this d \<longleftrightarrow> mjd1 this < mjd2 d"

definition date_le :: "('d \<Rightarrow> int) \<Rightarrow> ('e \<Rightarrow> int) \<Rightarrow> 'd \<Rightarrow> 'e \<Rightarrow> bool" where
  "date_le mjd1 mjd2 this d \<longleftrightarrow> mjd1 this \<le> mjd2 d"

definition date_gt :: "('d \<Rightarrow> int) \<Rightarrow> ('e \<Rightarrow> int) \<Rightarrow> 'd \<Rightarrow> 'e \<Rightarrow> bool" where
  "date_gt mjd1 mjd2 this d \<longleftrightarrow> mjd1 this > mjd2 d"

definition date_ge :: "('d \<Rightarrow> int) \<Rightarrow> ('e \<Rightarrow> int) \<Rightarrow> 'd \<Rightarrow> 'e \<Rightarrow> bool" where
  "date_ge mjd1 mjd2 this d \<longleftrightarrow> mjd1 this \<ge> mjd2 d"

definition date_inc :: "('d \<Rightarrow> int) \<Rightarrow> (int \<Rightarrow> 'd) \<Rightarrow> 'd \<Rightarrow> 'd" where
  "date_inc mod_julian_day adjust_date_from_mjd this = adjust_date_from_mjd (mod_julian_day this + 1)"

definition date_dec :: "('d \<Rightarrow> int) \<Rightarrow> (int \<Rightarrow> 'd) \<Rightarrow> 'd \<Rightarrow> 'd" where
  "date_dec mod_julian_day adjust_date_from_mjd this = adjust_date_from_mjd (mod_julian_day this - 1)"

definition date_plus :: "('d \<Rightarrow> int) \<Rightarrow> (int \<Rightarrow> 'd) \<Rightarrow> int \<Rightarrow> 'd \<Rightarrow> 'd" where
  "date_plus mod_julian_day adjust_date_from_mjd n this = adjust_date_from_mjd (mod_julian_day this + n)"

definition date_minus :: "('d \<Rightarrow> int) \<Rightarrow> (int \<Rightarrow> 'd) \<Rightarrow> int \<Rightarrow> 'd \<Rightarrow> 'd" where
  "date_minus mod_julian_day adjust_date_from_mjd n this = adjust_date_from_mjd (mod_julian_day this - n)"

definition date_diff :: "('d \<Rightarrow> int) \<Rightarrow> ('e \<Rightarrow> int) \<Rightarrow> 'd \<Rightarrow> 'e \<Rightarrow> int" where
  "date_diff mjd1 mjd2 this d = mjd1 this - mjd2 d"

section \<open>What a class of dates promises\<close>

text \<open>
  The dates from \<open>first\<close>, the day 0, on; \<open>limit\<close> and \<open>ymax\<close> bound the day numbers and the years for which no
  computation exceeds the range of the machine's integers.
\<close>

locale day_calendar =
  fixes mjd :: "date \<Rightarrow> int" and adjust :: "int \<Rightarrow> date" and leap :: "int \<Rightarrow> bool" and first :: date
    and limit ymax :: int
  assumes first_ok: "valid_date leap first" "curr_year first \<le> ymax" "mjd first = 0"
    and limit_pos: "0 < limit"
    and mjd_next: "valid_date leap d \<Longrightarrow> rank first \<le> rank d \<Longrightarrow> curr_year d < ymax \<Longrightarrow> mjd (next_day leap d) = mjd d + 1"
    and mjd_nonneg: "valid_date leap d \<Longrightarrow> rank first \<le> rank d \<Longrightarrow> curr_year d \<le> ymax \<Longrightarrow> 0 \<le> mjd d"
    and year_bound: "valid_date leap d \<Longrightarrow> rank first \<le> rank d \<Longrightarrow> curr_year d \<le> ymax \<Longrightarrow> mjd d < limit \<Longrightarrow> curr_year d < ymax"
    and adjust_mjd: "valid_date leap d \<Longrightarrow> rank first \<le> rank d \<Longrightarrow> curr_year d \<le> ymax \<Longrightarrow> mjd d < limit \<Longrightarrow>
      adjust (mjd d) = d"
begin

text \<open>A date from the first on, as far as the range of the integers reaches.\<close>

definition proper :: "date \<Rightarrow> bool" where
  "proper d \<longleftrightarrow> valid_date leap d \<and> rank first \<le> rank d \<and> curr_year d \<le> ymax \<and> mjd d < limit"

lemma next_proper:
  assumes "proper d" and "mjd d + 1 < limit"
  shows "proper (next_day leap d)" and "mjd (next_day leap d) = mjd d + 1"
proof -
  have d: "valid_date leap d" "rank first \<le> rank d" "curr_year d < ymax" using assms(1) year_bound by (auto simp: proper_def)
  show n: "mjd (next_day leap d) = mjd d + 1" by (rule mjd_next [OF d])
  have "curr_year (next_day leap d) \<le> curr_year d + 1" by (simp add: next_day_def)
  then show "proper (next_day leap d)"
    using d next_day_valid [OF d(1)] next_day_rank [OF d(1)] n assms(2) by (simp add: proper_def)
qed

lemma civil_ok: "int n < limit \<Longrightarrow> proper (civil leap first n) \<and> mjd (civil leap first n) = int n"
proof (induction n)
  case (Suc n)
  then have "proper (civil leap first n)" "mjd (civil leap first n) = int n" by auto
  then show ?case using next_proper [of "civil leap first n"] Suc.prems by (simp add: civil_def)
qed (simp add: civil_def first_ok limit_pos proper_def)

lemma adjust_civil: "int n < limit \<Longrightarrow> adjust (int n) = civil leap first n"
  using adjust_mjd [of "civil leap first n"] civil_ok [of n] by (simp add: proper_def)

lemma proper_civil:
  assumes "proper d"
  shows "d = civil leap first (nat (mjd d))" and "0 \<le> mjd d" and "mjd d < limit"
proof -
  show "0 \<le> mjd d" "mjd d < limit" using assms mjd_nonneg by (auto simp: proper_def)
  then show "d = civil leap first (nat (mjd d))"
    using assms adjust_mjd [of d] adjust_civil [of "nat (mjd d)"] by (simp add: proper_def)
qed

lemma adjust_proper:
  assumes "0 \<le> n" and "n < limit"
  shows "proper (adjust n)" and "mjd (adjust n) = n"
proof -
  have "adjust n = civil leap first (nat n)" using adjust_civil [of "nat n"] assms by simp
  then show "proper (adjust n)" and "mjd (adjust n) = n" using civil_ok [of "nat n"] assms by auto
qed

lemma civil_rank: "i < j \<Longrightarrow> int j < limit \<Longrightarrow> rank (civil leap first i) < rank (civil leap first j)"
proof (induction j)
  case (Suc j)
  have "valid_date leap (civil leap first j)" using civil_ok [of j] Suc.prems by (simp add: proper_def)
  then have "rank (civil leap first j) < rank (civil leap first (Suc j))"
    using next_day_rank by (simp add: civil_def)
  then show ?case using Suc by (cases "i = j") auto
qed simp

lemma mjd_less_iff:
  assumes "proper d" and "proper e"
  shows "mjd d < mjd e \<longleftrightarrow> rank d < rank e"
proof -
  note d = proper_civil [OF assms(1)] and e = proper_civil [OF assms(2)]
  show ?thesis
  proof (cases "mjd d" "mjd e" rule: linorder_cases)
    case less
    then show ?thesis using civil_rank [of "nat (mjd d)" "nat (mjd e)"] d e by simp
  next
    case equal
    then show ?thesis using d e by (metis less_irrefl)
  next
    case greater
    then have "rank e < rank d" using civil_rank [of "nat (mjd e)" "nat (mjd d)"] d e by simp
    then show ?thesis using greater by simp
  qed
qed

lemma mjd_eq_iff: "proper d \<Longrightarrow> proper e \<Longrightarrow> mjd d = mjd e \<longleftrightarrow> d = e"
  by (metis proper_civil(1))

lemma inc_next: "proper d \<Longrightarrow> mjd d + 1 < limit \<Longrightarrow> date_inc mjd adjust d = next_day leap d"
  using next_proper [of d] adjust_mjd [of "next_day leap d"] by (simp add: proper_def date_inc_def)

lemma dec_inc: "proper d \<Longrightarrow> mjd d + 1 < limit \<Longrightarrow> date_dec mjd adjust (date_inc mjd adjust d) = d"
  using adjust_proper(2) [of "mjd d + 1"] adjust_mjd [of d] proper_civil [of d]
  by (simp add: proper_def date_inc_def date_dec_def)

lemma plus_proper:
  assumes "proper d" and "0 \<le> mjd d + n" and "mjd d + n < limit"
  shows "proper (date_plus mjd adjust n d)" and "date_diff mjd mjd (date_plus mjd adjust n d) d = n"
    and "date_minus mjd adjust n (date_plus mjd adjust n d) = d"
  using adjust_proper [OF assms(2,3)] assms(1) adjust_mjd [of d]
  by (auto simp: date_plus_def date_diff_def date_minus_def proper_def)

lemma compare_proper:
  assumes "proper d" and "proper e"
  shows "date_lt mjd mjd d e \<longleftrightarrow> rank d < rank e" and "date_gt mjd mjd d e \<longleftrightarrow> rank e < rank d"
    and "date_le mjd mjd d e \<longleftrightarrow> rank d \<le> rank e" and "date_ge mjd mjd d e \<longleftrightarrow> rank e \<le> rank d"
    and "date_eq mjd mjd d e \<longleftrightarrow> d = e" and "date_ne mjd mjd d e \<longleftrightarrow> d \<noteq> e"
  using mjd_less_iff [OF assms] mjd_less_iff [OF assms(2,1)] mjd_eq_iff [OF assms]
  by (simp_all add: date_lt_def date_gt_def date_le_def date_ge_def date_eq_def date_ne_def not_less [symmetric])

lemma pow_proper:
  "proper d \<Longrightarrow> mjd d + int n < limit \<Longrightarrow>
     proper ((next_day leap ^^ n) d) \<and> mjd ((next_day leap ^^ n) d) = mjd d + int n"
proof (induction n)
  case (Suc n)
  then have "proper ((next_day leap ^^ n) d)" "mjd ((next_day leap ^^ n) d) = mjd d + int n" by auto
  then show ?case using next_proper [of "(next_day leap ^^ n) d"] Suc.prems by simp
qed simp

lemma month_proper:
  assumes "proper d" and "mjd d + 31 < limit" and "valid_date leap (next_month d)"
  shows "proper (next_month d)" and "mjd (next_month d) = mjd d + month_length leap (curr_month d) (curr_year d)"
proof -
  let ?L = "month_length leap (curr_month d) (curr_year d)"
  have "0 \<le> ?L" "?L \<le> 31" by (simp_all add: month_length_def)
  moreover have "(next_day leap ^^ nat ?L) d = next_month d" using assms(1,3) by (intro next_month_days) (simp add: proper_def)
  ultimately show "proper (next_month d)" and "mjd (next_month d) = mjd d + ?L"
    using pow_proper [OF assms(1), of "nat ?L"] assms(2) by auto
qed

text \<open>A class that goes on by 30 days where the next month does not have the day.\<close>

lemma month_step:
  assumes "proper d" and "mjd d + 31 < limit"
    and e: "e = (if valid_date leap (next_month d) then next_month d else date_plus mjd adjust 30 d)"
  shows "proper e" and "28 \<le> date_diff mjd mjd e d \<and> date_diff mjd mjd e d \<le> 31"
proof -
  have p: "proper (date_plus mjd adjust 30 d)" "date_diff mjd mjd (date_plus mjd adjust 30 d) d = 30"
    using plus_proper [OF assms(1), of 30] proper_civil(2) [OF assms(1)] assms(2) by auto
  show "proper e" using e p(1) month_proper(1) [OF assms(1,2)] by simp
  show "28 \<le> date_diff mjd mjd e d \<and> date_diff mjd mjd e d \<le> 31"
    using e p(2) month_proper(2) [OF assms(1,2)] by (auto simp: date_diff_def month_length_def)
qed

text \<open>And month after month, for a function that goes on so.\<close>

lemma months_pow:
  assumes step: "\<And>d. valid_date leap d \<Longrightarrow>
      add d = (if valid_date leap (next_month d) then next_month d else date_plus mjd adjust 30 d)"
    and "proper d"
  shows "mjd d + 31 * int k < limit \<Longrightarrow>
    proper ((add ^^ k) d) \<and> mjd ((add ^^ k) d) \<le> mjd d + 31 * int k \<and> mjd d + 28 * int k \<le> mjd ((add ^^ k) d)"
proof (induction k)
  case (Suc k)
  let ?e = "(add ^^ k) d"
  have e: "proper ?e" "mjd ?e \<le> mjd d + 31 * int k" "mjd d + 28 * int k \<le> mjd ?e" using Suc by auto
  have l: "mjd ?e + 31 < limit" using e(2) Suc.prems by simp
  have "valid_date leap ?e" using e(1) by (simp add: proper_def)
  note s = month_step [OF e(1) l step [OF this]]
  show ?case using s e(2,3) by (auto simp: date_diff_def)
qed (use assms(2) in simp)

end

end
