(* ===== verification/Double.thy ===== *)
theory Double
  imports Prelude "HOL-Library.Log_Nat" "HOL-Library.Signed_Division"
begin

text \<open>
  Arithmetic of the C++ type \<^verbatim>\<open>double\<close>: the result of an operation is the exact result rounded to 53 significant bits,
  to the nearest such number and in the middle to the even one. Exponents are not bounded, which makes no difference
  for numbers of the size that occur in dates. Conversion to \<^verbatim>\<open>int\<close> cuts off the fraction.
\<close>

definition rne :: "rat \<Rightarrow> int" where
  "rne s = (let f = \<lfloor>s\<rfloor>; r = s - of_int f in
     if r < 1/2 then f else if r > 1/2 then f + 1 else if even f then f else f + 1)"

text \<open>The power of two by which a positive number has to be scaled to get 53 bits before the point.\<close>

definition scale53 :: "rat \<Rightarrow> int" where
  "scale53 x = (let (p, q) = quotient_of x; k = 53 - (bitlen p - bitlen q)
     in if x * 2 powi k \<ge> 2 ^ 53 then k - 1 else k)"

definition round53 :: "rat \<Rightarrow> rat" where
  "round53 x = (let k = scale53 x in of_int (rne (x * 2 powi k)) / 2 powi k)"

definition dbl :: "rat \<Rightarrow> rat" where
  "dbl x = (if x = 0 then 0 else if x < 0 then - round53 (- x) else round53 x)"

definition to_int32 :: "rat \<Rightarrow> int" where
  "to_int32 x = (if x < 0 then - \<lfloor>- x\<rfloor> else \<lfloor>x\<rfloor>)"

lemma rne_err: "\<bar>of_int (rne s) - s\<bar> \<le> 1/2"
proof -
  have "of_int \<lfloor>s\<rfloor> \<le> s" "s < of_int \<lfloor>s\<rfloor> + 1" by linarith+
  then show ?thesis by (simp add: rne_def Let_def abs_le_iff)
qed

lemma rne_int [simp]: "rne (of_int n) = n"
  by (simp add: rne_def)

lemma scale53_ge:
  assumes "0 < x"
  shows "2 ^ 52 \<le> x * 2 powi (scale53 x)"
proof -
  obtain p q where pq: "quotient_of x = (p, q)" by fastforce
  have q: "0 < q" by (rule quotient_of_denom_pos [OF pq])
  have x: "x = of_int p / of_int q" by (rule quotient_of_div [OF pq])
  then have p: "0 < p" using assms q by (simp add: zero_less_divide_iff)
  define bp bq where "bp = bitlen p" and "bq = bitlen q"
  have b: "1 \<le> bp" "1 \<le> bq" unfolding bp_def bq_def using p q bitlen_eq_zero_iff bitlen_nonneg
    by (metis add.commute less_iff_succ_less_eq not_le order_le_less verit_comp_simplify1(3) zle_add1_eq_le int_one_le_iff_zero_less)+
  have "2 ^ nat (bp - 1) \<le> p" "q < 2 ^ nat bq"
    using bitlen_bounds [OF p] bitlen_bounds [OF q] unfolding bp_def bq_def by auto
  then have "(2 :: rat) ^ nat (bp - 1) \<le> of_int p" "(of_int q :: rat) \<le> 2 ^ nat bq"
    by (metis of_int_le_iff of_int_numeral of_int_power, metis less_imp_le of_int_le_iff of_int_numeral of_int_power)
  then have "(2 :: rat) powi (bp - 1) \<le> of_int p" "(of_int q :: rat) \<le> 2 powi bq"
    using b by (simp_all add: power_int_def)
  then have "(2 :: rat) powi (bp - 1) / 2 powi bq \<le> x"
    unfolding x using p q by (intro frac_le) auto
  then have "(2 :: rat) powi (bp - 1 - bq) \<le> x" by (simp add: power_int_diff)
  then have "(2 :: rat) powi (bp - 1 - bq) * 2 powi (53 - (bp - bq)) \<le> x * 2 powi (53 - (bp - bq))"
    by (intro mult_right_mono) auto
  then have k: "2 ^ 52 \<le> x * 2 powi (53 - (bp - bq))"
    by (simp add: power_int_add [symmetric])
  let ?t = "53 - (bp - bq)"
  have half: "x * 2 powi (t - 1) = x * 2 powi t / 2" for t :: int
    by (simp add: power_int_diff)
  have sc: "scale53 x = (if x * 2 powi ?t \<ge> 2 ^ 53 then ?t - 1 else ?t)"
    by (simp add: scale53_def pq bp_def bq_def Let_def)
  show ?thesis
  proof (cases "x * 2 powi ?t \<ge> 2 ^ 53")
    case True
    then have "2 ^ 52 \<le> x * 2 powi ?t / 2" by simp
    then have "2 ^ 52 \<le> x * 2 powi (?t - 1)" by (simp only: half)
    then show ?thesis using True sc by (simp only: if_True)
  next
    case False
    then show ?thesis using k sc by (simp only: if_False)
  qed
qed

lemma round53_err:
  assumes "0 < x"
  shows "\<bar>round53 x - x\<bar> \<le> x / 2 ^ 53"
proof -
  define s :: rat where "s = 2 powi (scale53 x)"
  have s: "0 < s" by (simp add: s_def)
  have ge: "2 ^ 52 \<le> x * s" unfolding s_def by (rule scale53_ge [OF assms])
  have "round53 x - x = (of_int (rne (x * s)) - x * s) / s"
    using s by (simp add: round53_def s_def [symmetric] diff_divide_distrib Let_def)
  then have "\<bar>round53 x - x\<bar> = \<bar>of_int (rne (x * s)) - x * s\<bar> / s" using s by simp
  also have "\<dots> \<le> (1/2) / s" using rne_err [of "x * s"] s by (intro divide_right_mono) auto
  also have "\<dots> \<le> x / 2 ^ 53" using ge s by (simp add: field_simps)
  finally show ?thesis .
qed

lemma dbl_err: "\<bar>dbl x - x\<bar> \<le> \<bar>x\<bar> / 2 ^ 53"
  using round53_err [of x] round53_err [of "- x"] by (auto simp: dbl_def abs_if split: if_splits)

lemma round53_exact:
  assumes "0 < x" and "x = of_int n / 4" and "\<bar>x\<bar> < 2 ^ 50"
  shows "round53 x = x"
proof -
  let ?k = "scale53 x"
  have ge: "2 ^ 52 \<le> x * 2 powi ?k" by (rule scale53_ge [OF assms(1)])
  have "2 \<le> ?k"
  proof (rule ccontr)
    assume "\<not> 2 \<le> ?k"
    then have "(2 :: rat) powi ?k \<le> 2 powi 1" by (intro power_int_increasing) auto
    then have "x * 2 powi ?k \<le> x * 2" using assms(1) by (intro mult_left_mono) auto
    then show False using ge assms(3) by simp
  qed
  then obtain j where j: "?k = int j + 2" by (metis add.commute diff_add_cancel nonneg_int_cases diff_ge_0_iff_ge)
  then have k: "(2 :: rat) powi ?k = 2 ^ j * 4" by (simp add: power_int_add)
  have "x * (2 ^ j * 4) = of_int (n * 2 ^ j)" using assms(2) by simp
  then have "x * 2 powi ?k = of_int (n * 2 ^ j)" by (simp only: k)
  then show ?thesis unfolding round53_def Let_def
    by (metis nonzero_mult_div_cancel_right power_int_not_zero rne_int zero_neq_numeral)
qed

text \<open>Quarters up to a large bound are \<^verbatim>\<open>double\<close> values.\<close>

lemma dbl_exact: "x = of_int n / 4 \<Longrightarrow> \<bar>x\<bar> < 2 ^ 50 \<Longrightarrow> dbl x = x"
  using round53_exact [of x n] round53_exact [of "- x" "- n"] by (auto simp: dbl_def)

lemma to_int32_eq:
  assumes "0 \<le> k" and "of_int k + e \<le> x" and "x \<le> of_int k + 1 - e" and "\<bar>y - x\<bar> < e"
  shows "to_int32 y = k"
proof -
  have "of_int k < y" "y < of_int k + 1" using assms(2-4) by linarith+
  moreover then have "\<lfloor>y\<rfloor> = k" by linarith
  ultimately show ?thesis using assms(1) by (simp add: to_int32_def)
qed

end
