(* ===== verification/Gregorian.thy ===== *)
theory Gregorian
  imports Date_Spec Double Cstring
begin

text \<open>
  \<^verbatim>\<open>cpp-code/date/src/gregorian.cpp\<close> and \<^verbatim>\<open>kattistime.cpp\<close>. An exception is an \<open>Inl\<close>; a string made of the null pointer
  is \<open>None\<close>. Division and remainder of integers cut off as in C++ (\<open>sdiv\<close>, \<open>smod\<close>). The integers are unbounded; the
  statements are about day numbers below 2^30, for which no intermediate value leaves the range of \<^verbatim>\<open>int\<close>.
\<close>

unbundle bit_operations_syntax

datatype date_error = Month_out_of_range | Day_out_of_range | Year_out_of_range

section \<open>Time\<close>

record ktime =
  curtime :: int
  initialized :: bool

text \<open>\<open>None\<close>: the assertion fails.\<close>

definition k_time :: "ktime \<Rightarrow> int option" where
  "k_time k = (if initialized k then Some (curtime k) else None)"

definition set_k_time :: "int \<Rightarrow> ktime \<Rightarrow> ktime" where
  "set_k_time t k = \<lparr>curtime = t, initialized = True\<rparr>"

definition leap_spec :: "int \<Rightarrow> bool" where
  "leap_spec y \<longleftrightarrow> 4 dvd y \<and> (\<not> 100 dvd y \<or> 400 dvd y)"

text \<open>
  The date that \<^verbatim>\<open>gmtime\<close> of the C library gives: days are counted from 17 November 1858, 40587 days before 1 January 1970;
  the calendar repeats after 400 years, which are 146097 days.
\<close>

definition gmtime_date :: "int \<Rightarrow> date" where
  "gmtime_date t =
     (let n = t div 86400 + 40587; d = civil leap_spec (mkdate 1858 11 17) (nat (n mod 146097))
      in d\<lparr>curr_year := curr_year d + 400 * (n div 146097)\<rparr>)"

section \<open>The class\<close>

definition leap_year :: "int \<Rightarrow> bool" where
  "leap_year year \<longleftrightarrow> year AND 3 = 0 \<and> (year smod 100 \<noteq> 0 \<or> year smod 400 = 0)"

definition days_of_month :: "int \<Rightarrow> int \<Rightarrow> int" where
  "days_of_month month year =
     (if month = 1 then 31
      else if month = 2 then (if leap_year year then 29 else 28)
      else if month = 3 then 31
      else if month = 4 then 30
      else if month = 5 then 31
      else if month = 6 then 30
      else if month = 7 then 31
      else if month = 8 then 31
      else if month = 9 then 30
      else if month = 10 then 31
      else if month = 11 then 30
      else if month = 12 then 31
      else 0)"

definition is_valid_date :: "int \<Rightarrow> int \<Rightarrow> int \<Rightarrow> date_error + bool" where
  "is_valid_date year month day =
     (if month < 1 \<or> month > 12 then Inl Month_out_of_range
      else if day < 1 \<or> day > days_of_month month year then Inl Day_out_of_range
      else if year < 1858 \<or> year > 2558 then Inl Year_out_of_range
      else Inr True)"

definition gregorian_ymd :: "int \<Rightarrow> int \<Rightarrow> int \<Rightarrow> date_error + date" where
  "gregorian_ymd year month day =
     (case is_valid_date year month day of Inl e \<Rightarrow> Inl e | Inr _ \<Rightarrow> Inr (mkdate year month day))"

definition gregorian_now :: "ktime \<Rightarrow> date option" where
  "gregorian_now k = (case k_time k of
     None \<Rightarrow> None
   | Some t \<Rightarrow>
       (let tm_year = curr_year (gmtime_date t) - 1900; tm_mon = curr_month (gmtime_date t) - 1;
            tm_mday = curr_day (gmtime_date t)
        in Some (mkdate (1900 + tm_year) (tm_mon + 1) tm_mday)))"

definition month_table :: "int list" where
  "month_table = [-1, 0, 3, 3, 6, 1, 4, 6, 2, 5, 0, 3, 5]"

function weekday_up :: "int \<Rightarrow> int" where
  "weekday_up w = (if w < 1 then weekday_up (w + 7) else w)"
  by auto
termination by (relation "measure (\<lambda>w. nat (1 - w))") auto

declare weekday_up.simps [simp del]

definition week_day :: "date \<Rightarrow> int" where
  "week_day d =
     (let century = curr_year d sdiv 100;
          centuryOffset = ((39 - century) smod 4) * 2;
          centuryYear = curr_year d smod 100;
          yearOffset0 = (centuryYear + centuryYear sdiv 4) smod 7;
          yearOffset = (if leap_year (curr_year d) \<and> curr_month d < 3 then yearOffset0 - 1 else yearOffset0);
          dayOffset = curr_day d smod 7;
          weekday = (centuryOffset + yearOffset + month_table ! nat (curr_month d) + dayOffset) smod 7;
          weekday' = weekday_up weekday
      in if weekday' = 0 then 7 else weekday')"

definition days_this_month :: "date \<Rightarrow> int" where
  "days_this_month d = days_of_month (curr_month d) (curr_year d)"

definition days_per_week :: int where "days_per_week = 7"
definition months_per_year :: int where "months_per_year = 12"

definition week_day_name :: "date \<Rightarrow> string option" where
  "week_day_name d =
     (let w = week_day d in
      if w = 1 then Some ''monday'' else if w = 2 then Some ''tuesday'' else if w = 3 then Some ''wednesday''
      else if w = 4 then Some ''thursday'' else if w = 5 then Some ''friday'' else if w = 6 then Some ''saturday''
      else if w = 7 then Some ''sunday'' else None)"

definition month_name :: "date \<Rightarrow> string option" where
  "month_name d =
     (let m = curr_month d in
      if m = 1 then Some ''january'' else if m = 2 then Some ''february'' else if m = 3 then Some ''march''
      else if m = 4 then Some ''april'' else if m = 5 then Some ''may'' else if m = 6 then Some ''june''
      else if m = 7 then Some ''july'' else if m = 8 then Some ''august'' else if m = 9 then Some ''september''
      else if m = 10 then Some ''october'' else if m = 11 then Some ''november'' else if m = 12 then Some ''december''
      else None)"

section \<open>Day numbers\<close>

text \<open>\<^verbatim>\<open>modf\<close> splits a positive number into its integer part and the rest.\<close>

definition adjust_date_from_mjd :: "int \<Rightarrow> date" where
  "adjust_date_from_mjd mjd =
     (let Q = dbl (dbl (of_int mjd + 2400000.5) + 0.5);
          Z = of_int (to_int32 Q);
          dayFrac = Q - Z;
          W = to_int32 (dbl (dbl (Z - 1867216.25) / 36524.25));
          X = of_int (W sdiv 4);
          A = to_int32 (dbl (dbl (dbl (Z + 1) + of_int W) - X));
          B = A + 1524;
          C = to_int32 (dbl (dbl (of_int B - dbl 122.1) / 365.25));
          D = to_int32 (dbl (365.25 * of_int C));
          E = to_int32 (dbl (of_int (B - D) / dbl 30.6001));
          day = to_int32 (dbl (of_int (B - D - to_int32 (dbl (dbl 30.6001 * of_int E))) + dayFrac));
          month = (if E < 14 then E - 1 else E - 13);
          year = (if month > 2 then C - 4716 else C - 4715)
      in mkdate year month day)"

definition mod_julian_day :: "date \<Rightarrow> int" where
  "mod_julian_day this =
     (let y0 = curr_year this + 8000; m0 = curr_month this; d = curr_day this;
          y = (if m0 < 3 then y0 - 1 else y0);
          m = (if m0 < 3 then m0 + 12 else m0);
          jd = y * 365 + y sdiv 4 - y sdiv 100 + y sdiv 400 - 1200820 + (m * 153 + 3) sdiv 5 - 92 + d - 1
      in to_int32 (dbl (of_int jd - 2400000.5)))"

definition gregorian_from :: "('d \<Rightarrow> int) \<Rightarrow> 'd \<Rightarrow> date" where
  "gregorian_from mjd d = adjust_date_from_mjd (mjd d)"

definition set_mod_julian_day :: "int \<Rightarrow> date" where
  "set_mod_julian_day mjd = adjust_date_from_mjd mjd"

definition gregorian_assign :: "date \<Rightarrow> date \<Rightarrow> date" where
  "gregorian_assign d this = this\<lparr>curr_year := curr_year d, curr_month := curr_month d, curr_day := curr_day d\<rparr>"

section \<open>Months and years\<close>

definition add_year_n :: "int \<Rightarrow> date \<Rightarrow> date" where
  "add_year_n n this =
     (let d = this\<lparr>curr_year := curr_year this + n\<rparr> in
      if curr_month d = 2 \<and> curr_day d = 29 \<and> \<not> leap_year (curr_year d) then d\<lparr>curr_day := 28\<rparr> else d)"

definition add_year :: "date \<Rightarrow> date" where
  "add_year this = add_year_n 1 this"

definition add_month :: "date \<Rightarrow> date" where
  "add_month this =
     (let d = (if curr_month this + 1 > 12 then this\<lparr>curr_month := 1, curr_year := curr_year this + 1\<rparr>
               else this\<lparr>curr_month := curr_month this + 1\<rparr>)
      in if curr_day d > days_this_month d
         then date_plus mod_julian_day adjust_date_from_mjd 30
                (d\<lparr>curr_year := curr_year this, curr_month := curr_month this\<rparr>)
         else d)"

definition sub_month :: "date \<Rightarrow> date" where
  "sub_month this =
     (let d = (if curr_month this - 1 < 1 then this\<lparr>curr_month := 12, curr_year := curr_year this - 1\<rparr>
               else this\<lparr>curr_month := curr_month this - 1\<rparr>)
      in if curr_day d > days_this_month d
         then date_minus mod_julian_day adjust_date_from_mjd 30
                (d\<lparr>curr_year := curr_year this, curr_month := curr_month this\<rparr>)
         else d)"

definition add_month_n :: "int \<Rightarrow> date \<Rightarrow> date" where
  "add_month_n n this = (if n < 0 then (sub_month ^^ nat (- n)) this else (add_month ^^ nat n) this)"

section \<open>Output\<close>

text \<open>How \<^verbatim>\<open>operator<<\<close> of a stream writes an integer.\<close>

definition show_int :: "int \<Rightarrow> string" where
  "show_int n = (if n < 0 then CHR 0x2D # dec (nat (- n)) else dec (nat n))"

definition toString :: "date \<Rightarrow> string" where
  "toString this =
     show_int (curr_year this) @ ''-'' @
     (if curr_month this \<le> 9 then ''0'' else []) @ show_int (curr_month this) @ ''-'' @
     (if curr_day this \<le> 9 then ''0'' else []) @ show_int (curr_day this)"

end
