(* ===== verification/Mjd.thy ===== *)
theory Mjd
  imports Gregorian
begin

text \<open>
  The computations of \<^verbatim>\<open>adjust_date_from_mjd\<close> with floating point numbers give the same as exact ones with integers:
  no quotient lies so close to an integer that the rounding errors could carry it across.
\<close>

section \<open>Rounding does not matter\<close>

lemma to_int32_of_int [simp]: "to_int32 (of_int n) = n"
  by (simp add: to_int32_def)

lemma to_int32_quarter: "0 \<le> n \<Longrightarrow> to_int32 (of_int n / 4) = n div 4"
  using floor_divide_of_int_eq [of n 4, where 'a = rat] by (simp add: to_int32_def zero_le_divide_iff)

lemma dbl_int: "\<bar>n\<bar> < 2 ^ 50 \<Longrightarrow> dbl (of_int n) = of_int n"
  by (rule dbl_exact [of _ "4 * n"]) (simp, metis of_int_abs of_int_less_iff of_int_numeral of_int_power)

lemma to_int32_dbl_int: "\<bar>n\<bar> < 2 ^ 50 \<Longrightarrow> to_int32 (dbl (of_int n + 0)) = n"
  by (simp add: dbl_int)

lemma div_between:
  fixes a b :: int
  assumes "0 < b"
  shows "(of_int (a div b) :: rat) + of_int (a mod b) / of_int b = of_int a / of_int b"
proof -
  have "(of_int a :: rat) = of_int (a div b) * of_int b + of_int (a mod b)"
    unfolding of_int_mult [symmetric] of_int_add [symmetric] by simp
  then show ?thesis using assms by (simp add: add_divide_distrib)
qed

lemma trunc_div:
  assumes "0 \<le> a" and "a < 2 ^ 40" and "0 < b"
  shows "to_int32 (dbl (of_int a / of_int b)) = a div b"
proof -
  let ?x = "of_int a / of_int b :: rat" and ?k = "a div b"
  have x: "?x = of_int ?k + of_int (a mod b) / of_int b" using div_between [OF assms(3), of a] by simp
  have k: "0 \<le> ?k" "?k \<le> a" using assms zdiv_mono2 [of a 1 b] by (auto simp: pos_imp_zdiv_nonneg_iff)
  show ?thesis
  proof (cases "a mod b = 0")
    case True
    then have "dbl ?x = of_int ?k" using x dbl_int [of ?k] k assms(2) by simp
    then show ?thesis by simp
  next
    case False
    then have r: "1 \<le> a mod b" "a mod b \<le> b - 1" using assms(3) pos_mod_sign [of b a] pos_mod_bound [of b a] by linarith+
    have b: "(0 :: rat) < of_int b" using assms(3) by simp
    have "(of_int 1 :: rat) \<le> of_int (a mod b)" "(of_int (a mod b) :: rat) \<le> of_int (b - 1)"
      using r by (simp_all only: of_int_le_iff)
    then have "(1 :: rat) / of_int b \<le> of_int (a mod b) / of_int b"
      and "(of_int (a mod b) :: rat) / of_int b \<le> (of_int b - 1) / of_int b"
      using b by (intro divide_right_mono; simp)+
    moreover have "((of_int b :: rat) - 1) / of_int b = 1 - 1 / of_int b" using b by (simp add: diff_divide_distrib)
    ultimately have "1 / of_int b \<le> (of_int (a mod b) / of_int b :: rat)"
      and "(of_int (a mod b) / of_int b :: rat) \<le> 1 - 1 / of_int b" by (simp_all only:)
    then have 1: "of_int ?k + 1 / of_int b \<le> ?x" "?x \<le> of_int ?k + 1 - 1 / of_int b" unfolding x by linarith+
    have "a < 2 ^ 53" using assms(2) by simp
    then have "(of_int a :: rat) < of_int (2 ^ 53)" by (simp only: of_int_less_iff)
    then have "(of_int a :: rat) < 2 ^ 53" by simp
    then have "of_int a / 2 ^ 53 / of_int b < 1 / (of_int b :: rat)" using b by (intro divide_strict_right_mono) auto
    then have "\<bar>dbl ?x - ?x\<bar> < 1 / of_int b" using dbl_err [of ?x] assms(1) b by (simp add: field_simps)
    then show ?thesis by (rule to_int32_eq [OF k(1) 1])
  qed
qed

text \<open>The two constants that are not exact.\<close>

lemma dbl_err': "\<bar>dbl x - x\<bar> \<le> \<bar>x\<bar> / 9007199254740992"
  using dbl_err [of x] by simp

lemma dbl_122: "\<bar>dbl 122.1 - 122.1\<bar> \<le> 1 / 1000000000"
  using dbl_err [of "122.1"] by simp

lemma dbl_30: "\<bar>dbl 30.6001 - 306001 / 10000\<bar> \<le> 1 / 1000000000"
  using dbl_err [of "30.6001"] by simp

text \<open>The year: the quotient is at least 2/7305 away from an integer.\<close>

lemma year_err:
  fixes b u :: rat
  assumes "123 \<le> b" and "b < 2147483648" and "\<bar>u - 122.1\<bar> \<le> 1 / 1000000000"
  shows "\<bar>dbl (dbl (b - u) / (1461 / 4)) - (b - 122.1) / (1461 / 4)\<bar> < 2 / 7305"
proof -
  define v where "v = dbl (b - u)"
  define w where "w = v / (1461 / 4)"
  have "\<bar>v - (b - u)\<bar> \<le> \<bar>b - u\<bar> / 9007199254740992" unfolding v_def by (rule dbl_err')
  moreover have "\<bar>b - u\<bar> \<le> 2147483648" using assms by linarith
  ultimately have "\<bar>v - (b - u)\<bar> \<le> 1 / 4000000" by simp
  then have v: "\<bar>v - (b - 122.1)\<bar> \<le> 1 / 1000000" using assms(3) by linarith
  define q where "q = 4 * (b - 122.1) / 1461"
  have "w = 4 * v / 1461" unfolding w_def by simp
  then have "w - q = 4 / 1461 * (v - (b - 122.1))" unfolding q_def by (simp add: field_simps)
  then have "\<bar>w - q\<bar> = \<bar>4 / 1461\<bar> * \<bar>v - (b - 122.1)\<bar>" by (simp only: abs_mult)
  then have "\<bar>w - q\<bar> = 4 / 1461 * \<bar>v - (b - 122.1)\<bar>" by simp
  also have "\<dots> \<le> 4 / 1461 * (1 / 1000000)" using v by (intro mult_left_mono) auto
  finally have w: "\<bar>w - q\<bar> \<le> 1 / 1000000" by simp
  have "0 \<le> q" "q \<le> b" unfolding q_def using assms(1) by (auto simp: field_simps)
  then have "\<bar>w\<bar> \<le> 2147483648 + 1" using w assms(2) by linarith
  then have "\<bar>dbl w - w\<bar> \<le> 1 / 1000000" using dbl_err' [of w] by simp
  then have "\<bar>dbl w - q\<bar> < 2 / 7305" using w by linarith
  then show ?thesis unfolding w_def v_def q_def by (simp add: field_simps)
qed

lemma year_between:
  fixes x k r :: rat
  assumes "x = k + r / 7305" and "3 \<le> r" and "r \<le> 7303"
  shows "k + 2 / 7305 \<le> x" and "x \<le> k + 1 - 2 / 7305"
  using assms by linarith+

lemma trunc_year:
  assumes "123 \<le> B" and "B < 2 ^ 31"
  shows "to_int32 (dbl (dbl (of_int B - dbl 122.1) / 365.25)) = (20 * B - 2442) div 7305"
proof -
  let ?a = "20 * B - 2442" and ?b = "of_int B :: rat"
  let ?k = "?a div 7305" and ?x = "of_int (20 * B - 2442) / of_int 7305 :: rat"
  have "(of_int 123 :: rat) \<le> of_int B" "(of_int B :: rat) < of_int (2 ^ 31)"
    using assms by (simp_all only: of_int_le_iff of_int_less_iff)
  then have B: "123 \<le> ?b" "?b < 2147483648" by simp_all
  define w where "w = dbl (?b - dbl 122.1) / (1461 / 4)"
  have x: "?x = (?b - 122.1) / (1461 / 4)" by simp
  have e: "\<bar>dbl w - ?x\<bar> < 2 / 7305" unfolding w_def x by (rule year_err [OF B dbl_122])
  have "?a mod 7305 mod 5 = ?a mod 5" by (rule mod_mod_cancel) simp
  also have "\<dots> = 3" by (rule int_mod_pos_eq [of _ _ "4 * B - 489"]) auto
  finally have "?a mod 7305 mod 5 = 3" .
  moreover have "3 \<le> r \<and> r \<le> 7303" if "r mod 5 = 3" "0 \<le> r" "r < 7305" for r :: int using that by presburger
  ultimately have m: "3 \<le> ?a mod 7305" "?a mod 7305 \<le> 7303" by simp_all
  have "?x = of_int ?k + of_int (?a mod 7305) / 7305" using div_between [of 7305 ?a] by simp
  moreover have "(3 :: rat) \<le> of_int (?a mod 7305)" "(of_int (?a mod 7305) :: rat) \<le> 7303"
    using of_int_le_iff [of 3 "?a mod 7305", where 'a = rat] of_int_le_iff [of "?a mod 7305" 7303, where 'a = rat] m by auto
  ultimately have "of_int ?k + 2 / 7305 \<le> ?x" "?x \<le> of_int ?k + 1 - 2 / 7305" by (rule year_between)+
  moreover have "0 \<le> ?k" using assms(1) by (simp add: pos_imp_zdiv_nonneg_iff)
  ultimately have "to_int32 (dbl w) = ?k" using e by (intro to_int32_eq)
  moreover have "(365.25 :: rat) = 1461 / 4" by simp
  ultimately show ?thesis unfolding w_def by (simp only:)
qed

text \<open>The month and the days before it.\<close>

lemma month_err:
  fixes b u :: rat
  assumes "1 \<le> b" and "b \<le> 1000" and u: "\<bar>u - 306001 / 10000\<bar> \<le> 1 / 1000000000"
  shows "\<bar>dbl (b / u) - 10000 * b / 306001\<bar> < 1 / 306001"
proof -
  have u30: "30 \<le> u" using u by linarith
  have "b / u - 10000 * b / 306001 = b * (306001 / 10000 - u) / (u * (306001 / 10000))" using u30 by (simp add: field_simps)
  also have "\<bar>\<dots>\<bar> = b * \<bar>306001 / 10000 - u\<bar> / (u * (306001 / 10000))" using u30 assms(1) by (simp add: abs_mult)
  also have "\<dots> \<le> 1000 * (1 / 1000000000) / (30 * 30)"
    using u30 assms u by (intro frac_le mult_mono) (auto simp: abs_minus_commute)
  finally have e: "\<bar>b / u - 10000 * b / 306001\<bar> \<le> 1 / 900000000" by simp
  have "10000 * b / 306001 \<le> 33" "0 \<le> 10000 * b / 306001" using assms by linarith+
  then have "\<bar>b / u\<bar> \<le> 34" using e by linarith
  then have "\<bar>dbl (b / u) - b / u\<bar> \<le> 1 / 900000000" using dbl_err' [of "b / u"] by simp
  then show ?thesis using e by linarith
qed

lemma month_between:
  fixes x k r b :: rat
  assumes "x = k + r / b" and "0 < b" and "1 \<le> r" and "r \<le> b - 1"
  shows "k + 1 / b \<le> x" and "x \<le> k + 1 - 1 / b"
  using assms by (auto simp: field_simps)

lemma trunc_month:
  assumes "1 \<le> b" and "b \<le> 1000"
  shows "to_int32 (dbl (of_int b / dbl 30.6001)) = 10000 * b div 306001"
proof -
  let ?a = "10000 * b" let ?k = "?a div 306001" and ?x = "10000 * of_int b / 306001 :: rat"
  have B: "1 \<le> (of_int b :: rat)" "(of_int b :: rat) \<le> 1000" using assms by simp_all
  have "\<not> 306001 dvd b" using assms zdvd_imp_le [of 306001 b] by auto
  moreover have "coprime 306001 (10000 :: int)" by code_simp
  ultimately have "\<not> 306001 dvd ?a" using coprime_dvd_mult_right_iff by blast
  then have "?a mod 306001 \<noteq> 0" by (simp add: dvd_eq_mod_eq_0)
  then have m: "1 \<le> ?a mod 306001" "?a mod 306001 \<le> 306000"
    using pos_mod_sign [of 306001 ?a] pos_mod_bound [of 306001 ?a] by linarith+
  have x: "?x = of_int ?k + of_int (?a mod 306001) / 306001" using div_between [of 306001 ?a] by simp
  have r: "(1 :: rat) \<le> of_int (?a mod 306001)" "(of_int (?a mod 306001) :: rat) \<le> 306001 - 1"
    using of_int_le_iff [of 1 "?a mod 306001", where 'a = rat] of_int_le_iff [of "?a mod 306001" 306000, where 'a = rat] m
    by auto
  have "of_int ?k + 1 / 306001 \<le> ?x" "?x \<le> of_int ?k + 1 - 1 / 306001"
    by (rule month_between [OF x _ r], simp)+
  moreover have "0 \<le> ?k" using assms(1) by (simp add: pos_imp_zdiv_nonneg_iff)
  moreover have "\<bar>dbl (of_int b / dbl 30.6001) - ?x\<bar> < 1 / 306001" by (rule month_err [OF B dbl_30])
  ultimately show ?thesis by (intro to_int32_eq)
qed

lemma days_err:
  fixes e u :: rat
  assumes "1 \<le> e" and "e \<le> 20" and u: "\<bar>u - 306001 / 10000\<bar> \<le> 1 / 1000000000"
  shows "\<bar>dbl (u * e) - 306001 * e / 10000\<bar> < 1 / 10000"
proof -
  have "u * e - 306001 * e / 10000 = (u - 306001 / 10000) * e" by (simp add: left_diff_distrib)
  also have "\<bar>\<dots>\<bar> = \<bar>u - 306001 / 10000\<bar> * e" using assms(1) by (simp add: abs_mult)
  also have "\<dots> \<le> (1 / 1000000000) * 20" using assms by (intro mult_mono) auto
  finally have 1: "\<bar>u * e - 306001 * e / 10000\<bar> \<le> 1 / 50000000" by simp
  have "306001 * e / 10000 \<le> 613" "0 \<le> 306001 * e / 10000" using assms by simp_all
  then have "\<bar>u * e\<bar> \<le> 614" using 1 by linarith
  then have "\<bar>dbl (u * e) - u * e\<bar> \<le> 1 / 50000000" using dbl_err' [of "u * e"] by simp
  then show ?thesis using 1 by linarith
qed

lemma trunc_days:
  assumes "1 \<le> e" and "e \<le> 20"
  shows "to_int32 (dbl (dbl 30.6001 * of_int e)) = 306001 * e div 10000"
proof -
  let ?a = "306001 * e" let ?k = "?a div 10000" and ?x = "306001 * of_int e / 10000 :: rat"
  let ?u = "dbl 30.6001"
  have E: "1 \<le> (of_int e :: rat)" "(of_int e :: rat) \<le> 20" using assms by simp_all
  have err: "\<bar>dbl (?u * of_int e) - ?x\<bar> < 1 / 10000" by (rule days_err [OF E dbl_30])
  have "\<not> 10000 dvd e" using assms zdvd_imp_le [of 10000 e] by auto
  moreover have "coprime 10000 (306001 :: int)" by code_simp
  ultimately have "\<not> 10000 dvd ?a" using coprime_dvd_mult_right_iff by blast
  then have "?a mod 10000 \<noteq> 0" by (simp add: dvd_eq_mod_eq_0)
  then have m: "1 \<le> ?a mod 10000" "?a mod 10000 \<le> 9999"
    using pos_mod_sign [of 10000 ?a] pos_mod_bound [of 10000 ?a] by linarith+
  have x: "?x = of_int ?k + of_int (?a mod 10000) / 10000" using div_between [of 10000 ?a] by simp
  have r: "(1 :: rat) \<le> of_int (?a mod 10000)" "(of_int (?a mod 10000) :: rat) \<le> 10000 - 1"
    using of_int_le_iff [of 1 "?a mod 10000", where 'a = rat] of_int_le_iff [of "?a mod 10000" 9999, where 'a = rat] m
    by auto
  have "of_int ?k + 1 / 10000 \<le> ?x" "?x \<le> of_int ?k + 1 - 1 / 10000"
    by (rule month_between [OF x _ r], simp)+
  moreover have "0 \<le> ?k" using assms(1) by (simp add: pos_imp_zdiv_nonneg_iff)
  ultimately show ?thesis using err by (intro to_int32_eq)
qed

section \<open>Year, month and day of a day number\<close>

definition ymd_of :: "int \<Rightarrow> date" where
  "ymd_of B =
     (let C = (20 * B - 2442) div 7305;
          D = 1461 * C div 4;
          E = 10000 * (B - D) div 306001;
          day = B - D - 306001 * E div 10000;
          month = (if E < 14 then E - 1 else E - 13);
          year = (if month > 2 then C - 4716 else C - 4715)
      in mkdate year month day)"

lemma month_bounds:
  fixes x E :: int
  assumes "122 \<le> x" and "x \<le> 488" and "306001 * E \<le> 10000 * x" and "10000 * x < 306001 * E + 306001"
  shows "3 \<le> E" and "E \<le> 15"
  using assms by linarith+

lemma ymd_bounds:
  fixes B C D E :: int
  assumes "123 \<le> B" and C: "C = (20 * B - 2442) div 7305" and D: "D = 1461 * C div 4" and E: "E = 10000 * (B - D) div 306001"
  shows "0 \<le> C" and "122 \<le> B - D" and "B - D \<le> 488" and "3 \<le> E" and "E \<le> 15"
proof -
  have c: "7305 * C \<le> 20 * B - 2442" "20 * B - 2442 < 7305 * C + 7305"
    using mult_div_mod_eq [of 7305 "20 * B - 2442"] pos_mod_sign [of 7305 "20 * B - 2442"] pos_mod_bound [of 7305 "20 * B - 2442"]
    unfolding C by linarith+
  have d: "4 * D \<le> 1461 * C" "1461 * C < 4 * D + 4"
    using mult_div_mod_eq [of 4 "1461 * C"] pos_mod_sign [of 4 "1461 * C"] pos_mod_bound [of 4 "1461 * C"]
    unfolding D by linarith+
  show "0 \<le> C" using assms(1) unfolding C by (simp add: pos_imp_zdiv_nonneg_iff)
  show b: "122 \<le> B - D" "B - D \<le> 488" using c d by linarith+
  have e: "306001 * E \<le> 10000 * (B - D)" "10000 * (B - D) < 306001 * E + 306001"
    using mult_div_mod_eq [of 306001 "10000 * (B - D)"] pos_mod_sign [of 306001 "10000 * (B - D)"]
      pos_mod_bound [of 306001 "10000 * (B - D)"]
    unfolding E by linarith+
  show "3 \<le> E" "E \<le> 15" by (rule month_bounds [OF b e])+
qed

text \<open>The part that both classes have in common.\<close>

lemma ymd_float:
  assumes "123 \<le> B" and "B < 2 ^ 31"
  defines "C \<equiv> to_int32 (dbl (dbl (of_int B - dbl 122.1) / 365.25))"
  defines "D \<equiv> to_int32 (dbl (365.25 * of_int C))"
  defines "E \<equiv> to_int32 (dbl (of_int (B - D) / dbl 30.6001))"
  shows "ymd_of B =
     (let day = to_int32 (dbl (of_int (B - D - to_int32 (dbl (dbl 30.6001 * of_int E))) + 0));
          month = (if E < 14 then E - 1 else E - 13);
          year = (if month > 2 then C - 4716 else C - 4715)
      in mkdate year month day)"
proof -
  have C: "C = (20 * B - 2442) div 7305" unfolding C_def by (rule trunc_year [OF assms(1,2)])
  note b1 = ymd_bounds(1) [OF assms(1) C refl refl]
  have "C < 2 ^ 31" using assms(2) b1 unfolding C by linarith
  then have "dbl (365.25 * of_int C) = of_int (1461 * C) / 4"
    using b1 by (subst dbl_exact [of _ "1461 * C"]) (auto simp: abs_mult)
  moreover have "to_int32 (of_int (1461 * C) / 4) = 1461 * C div 4" using b1 by (intro to_int32_quarter) simp
  ultimately have D: "D = 1461 * C div 4" unfolding D_def by (simp only:)
  note b2 = ymd_bounds [OF assms(1) C D refl]
  have E: "E = 10000 * (B - D) div 306001" unfolding E_def using b2 by (intro trunc_month) auto
  note b3 = ymd_bounds [OF assms(1) C D E]
  have F: "to_int32 (dbl (dbl 30.6001 * of_int E)) = 306001 * E div 10000" using b3 by (intro trunc_days) auto
  have "0 \<le> 306001 * E div 10000" "306001 * E div 10000 \<le> 500" using b3 by (auto simp: pos_imp_zdiv_nonneg_iff)
  then have "to_int32 (dbl (of_int (B - D - 306001 * E div 10000) + 0)) = B - D - 306001 * E div 10000"
    using b3 by (intro to_int32_dbl_int) auto
  then show ?thesis unfolding ymd_of_def F Let_def C [symmetric] D [symmetric] E [symmetric] by (simp only:)
qed

text \<open>
  Counting the years from March, with the months 3 to 14, the day \<open>d\<close> of month \<open>m\<close> of year \<open>y\<close> is the day
  \<open>day_no y m d\<close>.
\<close>

definition day_no :: "int \<Rightarrow> int \<Rightarrow> int \<Rightarrow> int" where
  "day_no y m d = 365 * y + y div 4 + (153 * m + 3) div 5 + d + 1722549"

lemma march_all:
  fixes m :: int
  assumes "3 \<le> m" and "m \<le> 14"
    and "P 3" and "P 4" and "P 5" and "P 6" and "P 7" and "P 8" and "P 9" and "P 10" and "P 11" and "P 12" and "P 13" and "P 14"
  shows "P m"
proof -
  have "m = 3 \<or> m = 4 \<or> m = 5 \<or> m = 6 \<or> m = 7 \<or> m = 8 \<or> m = 9 \<or> m = 10 \<or> m = 11 \<or> m = 12 \<or> m = 13 \<or> m = 14"
    using assms(1,2) by presburger
  then show ?thesis using assms(3-14) by (elim disjE) simp_all
qed

definition march_day :: "bool \<Rightarrow> int \<Rightarrow> int \<Rightarrow> bool" where
  "march_day q m d \<longleftrightarrow> 3 \<le> m \<and> m \<le> 14 \<and> 1 \<le> d \<and> d \<le> 31 \<and> (m = 4 \<or> m = 6 \<or> m = 9 \<or> m = 11 \<longrightarrow> d \<le> 30) \<and>
     (m = 14 \<longrightarrow> d \<le> 28 \<or> d = 29 \<and> q)"

lemma march_days:
  "3 \<le> m \<Longrightarrow> m \<le> 14 \<Longrightarrow> march_day q m d \<longrightarrow> 93 \<le> (153 * m + 3) div 5 + d \<and>
     ((153 * m + 3) div 5 + d \<le> 457 \<or> (153 * m + 3) div 5 + d = 458 \<and> q)"
  by (rule march_all [of m]) (simp_all add: march_day_def)

lemma march_month:
  "3 \<le> m \<Longrightarrow> m \<le> 14 \<Longrightarrow> march_day q m d \<longrightarrow> 306001 * (m + 1) \<le> 10000 * ((153 * m + 3) div 5 + d + 30) \<and>
     10000 * ((153 * m + 3) div 5 + d + 30) < 306001 * (m + 1) + 306001"
  by (rule march_all [of m]) (simp_all add: march_day_def, auto)

lemma march_offset: "3 \<le> m \<Longrightarrow> m \<le> 14 \<Longrightarrow> (153 * m + 3) div 5 + 30 = 306001 * (m + 1) div (10000 :: int)"
  by (rule march_all [of m]) simp_all

lemma ymd_of_day_no:
  assumes md: "march_day (y mod 4 = 3) m d"
  shows "ymd_of (day_no y m d) = mkdate (if m > 12 then y + 1 else y) (if m > 12 then m - 12 else m) d"
proof -
  let ?B = "day_no y m d" and ?M = "(153 * m + 3) div 5"
  have m: "3 \<le> m" "m \<le> 14" using md by (auto simp: march_day_def)
  have y: "y = 4 * (y div 4) + y mod 4" "0 \<le> y mod 4" "y mod 4 \<le> 3" by auto
  have M: "93 \<le> ?M + d" "?M + d \<le> 457 \<or> ?M + d = 458 \<and> y mod 4 = 3" using march_days [OF m, of "y mod 4 = 3" d] md by auto
  have "20 * (365 * y + y div 4 + M + d + 1722549) - 2442 = 7305 * (y + 4716) + (20 * (M + d) - 5 * (y mod 4) - 1842)" for M
    using y(1) by presburger
  then have "20 * ?B - 2442 = 7305 * (y + 4716) + (20 * (?M + d) - 5 * (y mod 4) - 1842)"
    unfolding day_no_def .
  moreover have "0 \<le> 20 * (?M + d) - 5 * (y mod 4) - 1842" "20 * (?M + d) - 5 * (y mod 4) - 1842 < 7305"
    using M y(2,3) by auto
  ultimately have C: "(20 * ?B - 2442) div 7305 = y + 4716" by (rule int_div_pos_eq)
  have "1461 * (y + 4716) = 4 * (365 * y + y div 4 + 1722519) + y mod 4" using y(1) by presburger
  then have D: "1461 * (y + 4716) div 4 = 365 * y + y div 4 + 1722519" by (rule int_div_pos_eq) (use y in auto)
  have BD: "?B - (365 * y + y div 4 + 1722519) = ?M + d + 30" by (simp add: day_no_def)
  have E: "10000 * (?M + d + 30) div 306001 = m + 1"
    using march_month [OF m, of "y mod 4 = 3" d] md
    by (intro int_div_pos_eq [of _ _ _ "10000 * (?M + d + 30) - 306001 * (m + 1)"]) auto
  have day: "?M + d + 30 - 306001 * (m + 1) div 10000 = d" using march_offset [OF m] by simp
  show ?thesis
    unfolding ymd_of_def C D BD E day Let_def using m by auto
qed

end
