(* ===== verification/Gregorian_Laws.thy ===== *)
theory Gregorian_Laws
  imports Mjd
begin

text \<open>
  The class \<^verbatim>\<open>Gregorian\<close> counts days as the calendar does.
\<close>

lemma sdiv_nonneg: "0 \<le> a \<Longrightarrow> 0 < b \<Longrightarrow> a sdiv b = a div b" for a b :: int
  by (simp add: signed_divide_int_def sgn_if)

lemma smod_nonneg: "0 \<le> a \<Longrightarrow> 0 < b \<Longrightarrow> a smod b = a mod b" for a b :: int
  by (cases "a = 0") (simp_all add: signed_modulo_int_def)

lemma smod_zero: "0 < b \<Longrightarrow> a smod b = 0 \<longleftrightarrow> b dvd a" for a b :: int
  by (auto simp: signed_modulo_int_def mod_eq_0_iff_dvd sgn_0_0)

lemma leap_year_spec [simp]: "leap_year = leap_spec"
proof
  fix y :: int
  have "y AND 3 = y mod 4" using take_bit_eq_mask [of 2 y] by (simp add: take_bit_eq_mod mask_eq_exp_minus_1)
  then show "leap_year y = leap_spec y" by (simp add: leap_year_def leap_spec_def smod_zero dvd_eq_mod_eq_0 [of 4])
qed

lemma days_of_month_spec: "1 \<le> m \<Longrightarrow> m \<le> 12 \<Longrightarrow> days_of_month m y = month_length leap_spec m y"
  by (rule month_all [of m]) (simp_all add: days_of_month_def month_length_def)

section \<open>The number of a day\<close>

definition march_year :: "date \<Rightarrow> int" where
  "march_year d = (if curr_month d < 3 then curr_year d - 1 else curr_year d)"

definition march_month_of :: "date \<Rightarrow> int" where
  "march_month_of d = (if curr_month d < 3 then curr_month d + 12 else curr_month d)"

lemma march_back:
  assumes "1 \<le> curr_month d" and "curr_month d \<le> 12"
  shows "mkdate (if march_month_of d > 12 then march_year d + 1 else march_year d)
    (if march_month_of d > 12 then march_month_of d - 12 else march_month_of d) (curr_day d) = d"
  using assms by (cases d) (auto simp: march_month_of_def march_year_def)

lemma valid_march:
  assumes "valid_date leap d" and "\<And>y. leap y \<Longrightarrow> 4 dvd y"
  shows "march_day (march_year d mod 4 = 3) (march_month_of d) (curr_day d)"
proof -
  have "(curr_year d - 1) mod 4 = 3" if "leap (curr_year d)" using assms(2) [OF that] by presburger
  then show ?thesis using assms(1)
    by (auto simp: march_day_def march_year_def march_month_of_def valid_date_def month_length_def split: if_splits)
qed

definition greg_jd :: "int \<Rightarrow> int \<Rightarrow> int \<Rightarrow> int" where
  "greg_jd y m d = 365 * (y + 8000) + (y + 8000) div 4 - (y + 8000) div 100 + (y + 8000) div 400 +
     (153 * m + 3) div 5 + d - 1200913"

lemma to_int32_half: "0 \<le> n \<Longrightarrow> n < 2 ^ 40 \<Longrightarrow> to_int32 (dbl (of_int (n + 2400001) - 2400000.5)) = n"
proof -
  assume n: "0 \<le> n" "n < 2 ^ 40"
  have "(of_int (n + 2400001) - 2400000.5 :: rat) = of_int (4 * n + 2) / 4" by simp
  moreover have "dbl (of_int (4 * n + 2) / 4) = of_int (4 * n + 2) / 4"
  proof (rule dbl_exact [OF refl])
    have "\<bar>4 * n + 2\<bar> < 2 ^ 50" using n by simp
    then have "\<bar>of_int (4 * n + 2) :: rat\<bar> < 2 ^ 50" by (metis of_int_abs of_int_less_iff of_int_numeral of_int_power)
    then show "\<bar>of_int (4 * n + 2) / 4 :: rat\<bar> < 2 ^ 50" by simp
  qed
  moreover have "to_int32 (of_int (4 * n + 2) / 4) = n" using to_int32_quarter [of "4 * n + 2"] n by simp
  ultimately show ?thesis by (simp only:)
qed

lemma mod_julian_day_jd:
  assumes "0 \<le> march_year d + 8000" and "0 \<le> march_month_of d"
    and "jd = greg_jd (march_year d) (march_month_of d) (curr_day d)" and "2400001 \<le> jd" and "jd < 2 ^ 32"
  shows "mod_julian_day d = jd - 2400001"
proof -
  have "mod_julian_day d = to_int32 (dbl (of_int jd - 2400000.5))"
    unfolding mod_julian_day_def assms(3) greg_jd_def Let_def
    by (rule arg_cong [where f = "\<lambda>j. to_int32 (dbl (of_int j - 2400000.5))"])
      (use assms(1,2) in \<open>auto simp: sdiv_nonneg march_year_def march_month_of_def add.commute mult.commute\<close>)
  also have "jd = (jd - 2400001) + 2400001" by simp
  also have "to_int32 (dbl (of_int \<dots> - 2400000.5)) = jd - 2400001" using assms(4,5) by (intro to_int32_half) auto
  finally show ?thesis .
qed

section \<open>And back\<close>

lemma mjd_double:
  assumes "0 \<le> n" and "n < 2 ^ 30" and Z: "Z = n + 2400001"
  shows "dbl (dbl (of_int n + 2400000.5) + 0.5) = of_int Z"
proof -
  have "dbl (of_int n + 2400000.5) = of_int n + 2400000.5"
  proof (rule dbl_exact)
    show "of_int n + 2400000.5 = (of_int (4 * n + 9600002) / 4 :: rat)" by simp
    have "(of_int n :: rat) < of_int (2 ^ 30)" "(of_int 0 :: rat) \<le> of_int n" using assms(1,2) by (simp_all only: of_int_less_iff of_int_le_iff)
    then show "\<bar>of_int n + 2400000.5 :: rat\<bar> < 2 ^ 50" by simp
  qed
  moreover have "of_int n + 2400000.5 + 0.5 = (of_int Z :: rat)" using Z by simp
  moreover have "dbl (of_int Z) = of_int Z" using assms by (intro dbl_int) auto
  ultimately show ?thesis by (simp only:)
qed

lemma adjust_int:
  assumes "0 \<le> n" and "n < 2 ^ 30" and Z: "Z = n + 2400001" and W: "W = (4 * Z - 7468865) div 146097"
  shows "adjust_date_from_mjd n = ymd_of (Z + 1 + W - W div 4 + 1524)"
proof -
  have zb: "2400001 \<le> Z" "Z < 2 ^ 31" using assms(1-3) by auto
  have wb: "0 \<le> W" "W \<le> Z" unfolding W using zb by (auto simp: pos_imp_zdiv_nonneg_iff)
  have small: "dbl (of_int k) = of_int k" if "\<bar>k\<bar> < 2 ^ 40" for k using that by (intro dbl_int) auto
  have Q: "dbl (dbl (of_int n + 2400000.5) + 0.5) = of_int Z" by (rule mjd_double [OF assms(1-3)])
  have "dbl (of_int Z - 1867216.25) = of_int Z - 1867216.25"
  proof (rule dbl_exact)
    show "of_int Z - 1867216.25 = (of_int (4 * Z - 7468865) / 4 :: rat)" by simp
    have "(of_int Z :: rat) < of_int (2 ^ 31)" "(of_int 2400001 :: rat) \<le> of_int Z" using zb by (simp_all only: of_int_less_iff of_int_le_iff)
    then show "\<bar>of_int Z - 1867216.25 :: rat\<bar> < 2 ^ 50" by simp
  qed
  moreover have "(of_int Z - 1867216.25) / 36524.25 = (of_int (4 * Z - 7468865) / of_int 146097 :: rat)" by (simp add: field_simps)
  moreover have "to_int32 (dbl (of_int (4 * Z - 7468865) / of_int 146097)) = W" unfolding W using zb by (intro trunc_div) auto
  ultimately have w: "to_int32 (dbl (dbl (of_int Z - 1867216.25) / 36524.25)) = W" by (simp only:)
  have x: "W sdiv 4 = W div 4" using wb by (intro sdiv_nonneg) auto
  have "dbl (dbl (dbl (of_int Z + 1) + of_int W) - of_int (W div 4)) = of_int (Z + 1 + W - W div 4)"
  proof -
    have "(of_int Z + 1 :: rat) = of_int (Z + 1)" "(of_int (Z + 1) + of_int W :: rat) = of_int (Z + 1 + W)"
      "(of_int (Z + 1 + W) - of_int (W div 4) :: rat) = of_int (Z + 1 + W - W div 4)" by simp_all
    moreover have "0 \<le> W div 4" "W div 4 \<le> W" using wb by auto
    ultimately show ?thesis using small [of "Z + 1"] small [of "Z + 1 + W"] small [of "Z + 1 + W - W div 4"] zb wb
      by (simp only:) auto
  qed
  then have a: "to_int32 (dbl (dbl (dbl (of_int Z + 1) + of_int W) - of_int (W div 4))) = Z + 1 + W - W div 4"
    by (simp only: to_int32_of_int)
  have "123 \<le> Z + 1 + W - W div 4 + 1524" "Z + 1 + W - W div 4 + 1524 < 2 ^ 31"
  proof -
    show "123 \<le> Z + 1 + W - W div 4 + 1524" using wb zb by auto
    have "W \<le> 4 * Z div 146097" unfolding W by (rule zdiv_mono1) auto
    then show "Z + 1 + W - W div 4 + 1524 < 2 ^ 31" using assms(2,3) wb by auto
  qed
  from ymd_float [OF this] show ?thesis
    unfolding adjust_date_from_mjd_def Q to_int32_of_int Let_def w x a by simp
qed

lemma leap_spec_4: "leap_spec y \<Longrightarrow> 4 dvd y"
  by (simp add: leap_spec_def)

text \<open>The century of a day: the 400 years have 146097 days.\<close>

lemma century:
  fixes c r s :: int
  assumes "0 \<le> r" and "r \<le> 99" and "93 \<le> s" and "s \<le> 457 \<or> s = 458 \<and> (r = 99 \<longrightarrow> c mod 4 = 3)"
    and "jd = 36524 * c + c div 4 + 365 * r + r div 4 + s - 1200913"
  shows "(4 * jd - 7468865) div 146097 = c - 84"
proof (rule int_div_pos_eq)
  let ?R = "1460 * r + 4 * (r div 4) + 4 * s - c mod 4 - 369"
  have c: "c = 4 * (c div 4) + c mod 4" "0 \<le> c mod 4" "c mod 4 \<le> 3" by auto
  have q: "0 \<le> r div 4" "4 * (r div 4) \<le> r" using assms(1) by auto
  show "4 * jd - 7468865 = 146097 * (c - 84) + ?R" using assms(5) c(1) by presburger
  show "0 \<le> ?R" using assms(1,3) q(1) c(3) by linarith
  show "?R < 146097"
  proof (cases "r = 99")
    case True
    then show ?thesis using assms(4) c by auto
  next
    case False
    then have "r \<le> 98" "s \<le> 458" using assms(2,4) by auto
    then show ?thesis using q(2) c(2) by linarith
  qed
qed

lemma greg_century:
  assumes "march_day (leap_spec (y + 1)) m d"
  shows "(4 * greg_jd y m d - 7468865) div 146097 = (y + 8000) div 100 - 84"
proof -
  define c r where "c = (y + 8000) div 100" and "r = (y + 8000) mod 100"
  have y: "y + 8000 = 100 * c + r" "0 \<le> r" "r \<le> 99" by (auto simp: c_def r_def)
  have m: "3 \<le> m" "m \<le> 14" using assms by (auto simp: march_day_def)
  have M: "93 \<le> (153 * m + 3) div 5 + d"
    "(153 * m + 3) div 5 + d \<le> 457 \<or> (153 * m + 3) div 5 + d = 458 \<and> leap_spec (y + 1)"
    using march_days [OF m, of "leap_spec (y + 1)" d] assms by auto
  have "leap_spec (y + 1) \<Longrightarrow> r = 99 \<Longrightarrow> c mod 4 = 3"
  proof -
    assume "leap_spec (y + 1)" and "r = 99"
    then have "y + 1 = 100 * (c - 79)" using y(1) by simp
    then have "100 dvd y + 1" by (metis dvd_triv_left)
    then have "400 dvd y + 1" using \<open>leap_spec (y + 1)\<close> by (simp add: leap_spec_def)
    then obtain k where "y + 1 = 400 * k" by (rule dvdE)
    then have "c = 4 * (k + 19) + 3" using \<open>y + 1 = 100 * (c - 79)\<close> by simp
    then show "c mod 4 = 3" by simp
  qed
  moreover have "greg_jd y m d = 36524 * c + c div 4 + 365 * r + r div 4 + ((153 * m + 3) div 5 + d) - 1200913"
  proof -
    have "100 * c + r = r + 25 * c * 4" by simp
    then have e1: "(100 * c + r) div 4 = 25 * c + r div 4" by simp
    have e2: "(100 * c + r) div 100 = c" using y(2,3) by simp
    have "(100 * c + r) div 400 = (100 * c + r) div 100 div 4" by (simp add: zdiv_zmult2_eq [symmetric])
    then have e3: "(100 * c + r) div 400 = c div 4" unfolding e2 .
    have "365 * (100 * c + r) + (25 * c + f) - c + g + s + d - 1200913 = 36524 * c + g + 365 * r + f + (s + d) - 1200913"
      for f g s by simp
    then show ?thesis unfolding greg_jd_def y(1) e1 e2 e3 .
  qed
  ultimately show ?thesis using century [of r "(153 * m + 3) div 5 + d" c "greg_jd y m d"] y(2,3) M c_def by blast
qed

lemma greg_day_no:
  assumes "march_day (leap_spec (y + 1)) m d" and "W = (4 * greg_jd y m d - 7468865) div 146097"
  shows "greg_jd y m d + 1 + W - W div 4 + 1524 = day_no y m d"
proof -
  define c where "c = (y + 8000) div 100"
  have W: "W = c - 84" using assms greg_century c_def by simp
  have "c - 84 = c + (- 21) * 4" by simp
  then have W4: "(c - 84) div 4 = c div 4 - 21" by simp
  have e: "(y + 8000) div 400 = c div 4" unfolding c_def by (simp add: zdiv_zmult2_eq [symmetric])
  have "y + 8000 = y + 2000 * 4" by simp
  then have a: "(y + 8000) div 4 = y div 4 + 2000" by simp
  have "365 * (y + 8000) + (f + 2000) - c + g + s + d - 1200913 + 1 + (c - 84) - (g - 21) + 1524 = 365 * y + f + s + d + 1722549"
    for f g s by simp
  then show ?thesis unfolding greg_jd_def day_no_def W W4 e a c_def [symmetric] .
qed

lemma valid_march_leap:
  assumes "valid_date leap d"
  shows "march_day (leap (march_year d + 1)) (march_month_of d) (curr_day d)"
  using assms by (auto simp: march_day_def march_year_def march_month_of_def valid_date_def month_length_def split: if_splits)

lemma adjust_greg_jd:
  assumes "valid_date leap_spec d" and "jd = greg_jd (march_year d) (march_month_of d) (curr_day d)"
    and "2400001 \<le> jd" and "jd - 2400001 < 2 ^ 30"
  shows "adjust_date_from_mjd (jd - 2400001) = d"
proof -
  let ?y = "march_year d" and ?m = "march_month_of d" and ?d = "curr_day d"
  define W where "W = (4 * greg_jd ?y ?m ?d - 7468865) div 146097"
  have ml: "march_day (leap_spec (?y + 1)) ?m ?d" by (rule valid_march_leap [OF assms(1)])
  have md: "march_day (?y mod 4 = 3) ?m ?d" using valid_march [OF assms(1) leap_spec_4] .
  have "adjust_date_from_mjd (jd - 2400001) = ymd_of (greg_jd ?y ?m ?d + 1 + W - W div 4 + 1524)"
    using assms(2-4) by (intro adjust_int) (auto simp: W_def)
  also have "\<dots> = ymd_of (day_no ?y ?m ?d)" using greg_day_no [OF ml W_def] by simp
  also have "\<dots> = d"
    unfolding ymd_of_day_no [OF md] using assms(1) by (intro march_back) (auto simp: valid_date_def)
  finally show ?thesis .
qed

section \<open>The laws of the class\<close>

definition jd_of :: "date \<Rightarrow> int" where
  "jd_of d = greg_jd (march_year d) (march_month_of d) (curr_day d)"

definition greg_year :: "int \<Rightarrow> int" where
  "greg_year y = 365 * y + y div 4 - y div 100 + y div 400"

lemma greg_jd_year: "greg_jd y m d = greg_year (y + 8000) + ((153 * m + 3) div 5 + d) - 1200913"
  by (simp add: greg_jd_def greg_year_def)

lemma div_step: "0 < k \<Longrightarrow> (a :: int) div k = (a - 1) div k + (if k dvd a then 1 else 0)"
proof -
  assume k: "0 < k"
  define q r where "q = (a - 1) div k" and "r = (a - 1) mod k"
  have a: "a = k * q + (r + 1)" and r: "0 \<le> r" "r < k" using k by (auto simp: q_def r_def algebra_simps)
  show "a div k = (a - 1) div k + (if k dvd a then 1 else 0)"
  proof (cases "r + 1 = k")
    case True
    then have "a = k * (q + 1)" using a by (simp add: distrib_left)
    then have "a div k = q + 1" "k dvd a" using k by (metis nonzero_mult_div_cancel_left less_irrefl, metis dvd_triv_left)
    then show ?thesis using q_def by simp
  next
    case False
    then have r1: "0 \<le> r + 1" "r + 1 < k" using r by auto
    then have "a div k = q" "a mod k = r + 1" using int_div_pos_eq [OF a] int_mod_pos_eq [OF a] by auto
    then show ?thesis using r(1) q_def by (simp add: dvd_eq_mod_eq_0)
  qed
qed

lemma greg_year_step: "greg_year y = greg_year (y - 1) + 365 + (if leap_spec y then 1 else 0)"
proof -
  have d: "400 dvd y \<Longrightarrow> 100 dvd y" "100 dvd y \<Longrightarrow> 4 dvd y"
    by (rule dvd_trans [of _ 400], simp, assumption) (rule dvd_trans [of _ 100], simp, assumption)
  have s: "y div 4 = (y - 1) div 4 + (if 4 dvd y then 1 else 0)"
    "y div 100 = (y - 1) div 100 + (if 100 dvd y then 1 else 0)"
    "y div 400 = (y - 1) div 400 + (if 400 dvd y then 1 else 0)"
    by (rule div_step; simp)+
  show ?thesis unfolding greg_year_def leap_spec_def s using d by (cases "4 dvd y"; cases "100 dvd y"; cases "400 dvd y") simp_all
qed

lemma greg_year_mono: "y0 \<le> y \<Longrightarrow> greg_year y0 + 365 * (y - y0) \<le> greg_year y"
proof (induction y rule: int_ge_induct)
  case (step y)
  then show ?case using greg_year_step [of "y + 1"] by simp
qed simp

lemma march_last:
  assumes "3 \<le> m" and "m \<le> 13"
  shows "(153 * (m + 1) + 3) div 5 = (153 * m + 3) div 5 + month_length leap (if m > 12 then m - 12 else m) (y :: int)"
  using assms by (intro march_all [of m "\<lambda>m. m \<le> 13 \<longrightarrow> (153 * (m + 1) + 3) div 5 = (153 * m + 3) div 5 +
    month_length leap (if m > 12 then m - 12 else m) y", THEN mp]) (simp_all add: month_length_def)

lemma jd_next:
  assumes v: "valid_date leap_spec d"
  shows "jd_of (next_day leap_spec d) = jd_of d + 1"
proof -
  let ?m = "curr_month d" and ?y = "curr_year d"
  have m: "1 \<le> ?m" "?m \<le> 12" "curr_day d \<le> month_length leap_spec ?m ?y" using v by (auto simp: valid_date_def)
  show ?thesis
  proof (cases "curr_day d < month_length leap_spec ?m ?y")
    case True
    then have "next_day leap_spec d = d\<lparr>curr_day := curr_day d + 1\<rparr>" by (simp add: next_day_def)
    then show ?thesis by (simp add: jd_of_def march_year_def march_month_of_def greg_jd_year)
  next
    case False
    then have day: "curr_day d = month_length leap_spec ?m ?y" using m(3) by simp
    show ?thesis
    proof (cases "?m = 2")
      case True
      then have n: "next_day leap_spec d = mkdate ?y 3 1" using False by (simp add: next_day_def)
      have "greg_year (?y + 8000) = greg_year (?y - 1 + 8000) + 365 + (if leap_spec (?y + 8000) then 1 else 0)"
        using greg_year_step [of "?y + 8000"] by (simp add: algebra_simps)
      moreover have "leap_spec (?y + 8000) \<longleftrightarrow> leap_spec ?y"
        by (simp add: leap_spec_def dvd_add_left_iff)
      ultimately show ?thesis
        unfolding n using True day by (simp add: jd_of_def march_year_def march_month_of_def greg_jd_year month_length_def)
    next
      case F: False
      let ?mm = "march_month_of d"
      have mm: "3 \<le> ?mm" "?mm \<le> 13" "(if ?mm > 12 then ?mm - 12 else ?mm) = ?m" using m F by (auto simp: march_month_of_def)
      have n: "march_year (next_day leap_spec d) = march_year d" "march_month_of (next_day leap_spec d) = ?mm + 1"
        "curr_day (next_day leap_spec d) = 1"
        using m F False by (auto simp: next_day_def march_year_def march_month_of_def)
      show ?thesis
        unfolding jd_of_def n greg_jd_year march_last [OF mm(1,2), of leap_spec ?y] mm(3) day by simp
    qed
  qed
qed

lemma jd_lower:
  assumes v: "valid_date leap_spec d" and r: "rank (mkdate 1858 11 17) \<le> rank d"
  shows "2400001 \<le> jd_of d" and "365 * (curr_year d - 1858) + 2399000 \<le> jd_of d" and "1858 \<le> curr_year d"
proof -
  have m: "1 \<le> curr_month d" "curr_month d \<le> 12" "1 \<le> curr_day d" "curr_day d \<le> 31"
    using v by (auto simp: valid_date_def month_length_def split: if_splits)
  show y: "1858 \<le> curr_year d" using r m by (simp add: rank_def)
  have mm: "3 \<le> march_month_of d" "march_month_of d \<le> 14" using m by (auto simp: march_month_of_def)
  have M: "93 \<le> (153 * march_month_of d + 3) div 5 + curr_day d"
    using march_days [OF mm, of "leap_spec (march_year d + 1)" "curr_day d"] valid_march_leap [OF v] by simp
  have jd: "jd_of d = greg_year (march_year d + 8000) + ((153 * march_month_of d + 3) div 5 + curr_day d) - 1200913"
    by (simp add: jd_of_def greg_jd_year)
  have g: "greg_year 9857 = 3600195" "greg_year 9858 = 3600560" "greg_year 9859 = 3600925" by (simp_all add: greg_year_def)
  have my: "curr_year d - 1 \<le> march_year d" by (simp add: march_year_def)
  have "greg_year 9857 + 365 * (march_year d + 8000 - 9857) \<le> greg_year (march_year d + 8000)"
    using my y by (intro greg_year_mono) simp
  then show "365 * (curr_year d - 1858) + 2399000 \<le> jd_of d" unfolding jd using M my g(1) by simp
  show "2400001 \<le> jd_of d"
  proof (cases "1859 \<le> march_year d")
    case True
    then have "greg_year 9859 + 365 * (march_year d + 8000 - 9859) \<le> greg_year (march_year d + 8000)"
      by (intro greg_year_mono) simp
    then show ?thesis unfolding jd using M g(3) True by simp
  next
    case False
    then have "curr_year d = 1858 \<and> 3 \<le> curr_month d \<or> curr_year d = 1859 \<and> curr_month d < 3 \<or> curr_year d = 1858 \<and> curr_month d < 3"
      using y by (auto simp: march_year_def split: if_splits)
    then show ?thesis
    proof (elim disjE conjE)
      assume a: "curr_year d = 1858" "3 \<le> curr_month d"
      then have "\<not> curr_month d \<le> 10" using r m by (auto simp: rank_def)
      then have "curr_month d = 11 \<or> curr_month d = 12" using m by auto
      then have "curr_month d = 11 \<and> 17 \<le> curr_day d \<or> curr_month d = 12" using r a(1) by (auto simp: rank_def)
      then show ?thesis unfolding jd using a g m by (auto simp: march_year_def march_month_of_def)
    next
      assume a: "curr_year d = 1859" "curr_month d < 3"
      then have "curr_month d = 1 \<or> curr_month d = 2" using m by auto
      then show ?thesis unfolding jd using a g m by (auto simp: march_year_def march_month_of_def)
    next
      assume "curr_year d = 1858" "curr_month d < 3"
      then show ?thesis using r m by (simp add: rank_def)
    qed
  qed
qed

abbreviation greg_first :: date where "greg_first \<equiv> mkdate 1858 11 17"
abbreviation mjd_limit :: int where "mjd_limit \<equiv> 1073741824"
abbreviation year_max :: int where "year_max \<equiv> 4000000"

lemma mod_julian_day_eq:
  assumes v: "valid_date leap_spec d" and r: "rank greg_first \<le> rank d" and y: "curr_year d \<le> year_max"
  shows "mod_julian_day d = jd_of d - 2400001"
proof (rule mod_julian_day_jd [OF _ _ jd_of_def])
  note l = jd_lower [OF v r]
  have my: "march_year d \<le> year_max" "curr_year d - 1 \<le> march_year d" using y by (auto simp: march_year_def)
  then show "0 \<le> march_year d + 8000" using l(3) by simp
  have m: "1 \<le> curr_month d" "curr_month d \<le> 12" using v by (auto simp: valid_date_def)
  then show "0 \<le> march_month_of d" by (auto simp: march_month_of_def)
  show "2400001 \<le> jd_of d" by (rule l)
  have mm: "3 \<le> march_month_of d" "march_month_of d \<le> 14" using m by (auto simp: march_month_of_def)
  have M: "(153 * march_month_of d + 3) div 5 + curr_day d \<le> 458"
    using march_days [OF mm, of "leap_spec (march_year d + 1)" "curr_day d"] valid_march_leap [OF v] by auto
  define Y where "Y = march_year d + 8000"
  have Y: "0 \<le> Y" "Y \<le> 4008000" using my l(3) by (auto simp: Y_def)
  then have "Y div 4 \<le> Y" "0 \<le> Y div 100" "Y div 400 \<le> Y" by auto
  then have "greg_year Y \<le> 367 * Y" by (simp add: greg_year_def)
  then show "jd_of d < 2 ^ 32" unfolding jd_of_def greg_jd_year Y_def [symmetric] using M Y(2) by simp
qed

interpretation greg: day_calendar mod_julian_day adjust_date_from_mjd leap_spec greg_first mjd_limit year_max
proof (unfold_locales, goal_cases)
  case 1 show ?case by (simp add: valid_date_def month_length_def)
next
  case 2 show ?case by simp
next
  case 3
  have "valid_date leap_spec greg_first" by (simp add: valid_date_def month_length_def)
  then show ?case
    by (simp add: mod_julian_day_eq jd_of_def march_year_def march_month_of_def greg_jd_def)
next
  case 4 show ?case by simp
next
  case (5 d)
  have "curr_year (next_day leap_spec d) \<le> curr_year d + 1" by (simp add: next_day_def)
  moreover have "rank greg_first \<le> rank (next_day leap_spec d)" using next_day_rank [OF 5(1)] 5(2) by simp
  ultimately show ?case using 5 mod_julian_day_eq [of d] mod_julian_day_eq [of "next_day leap_spec d"] jd_next [OF 5(1)]
    next_day_valid [OF 5(1)] by simp
next
  case (6 d) then show ?case using mod_julian_day_eq [of d] jd_lower(1) [of d] by simp
next
  case (7 d) then show ?case using mod_julian_day_eq [of d] jd_lower(2) [of d] by simp
next
  case (8 d)
  then show ?case using mod_julian_day_eq [of d] adjust_greg_jd [OF 8(1) jd_of_def] jd_lower(1) [of d] by simp
qed

end
