(* ===== verification/Julian.thy ===== *)
theory Julian
  imports Gregorian_Laws
begin

text \<open>
  \<^verbatim>\<open>cpp-code/date/src/julian.cpp\<close>: the class \<^verbatim>\<open>Julian\<close>, derived from \<^verbatim>\<open>Gregorian\<close>, with the members it overrides, and that
  it counts days as the Julian calendar does.
\<close>

section \<open>The class\<close>

definition leap_year_j :: "int \<Rightarrow> bool" where
  "leap_year_j year \<longleftrightarrow> year smod 4 = 0"

definition days_of_month_j :: "int \<Rightarrow> int \<Rightarrow> int" where
  "days_of_month_j month year =
     (if month = 1 then 31
      else if month = 2 then (if leap_year_j year then 29 else 28)
      else if month = 3 then 31
      else if month = 4 then 30
      else if month = 5 then 31
      else if month = 6 then 30
      else if month = 7 then 31
      else if month = 8 then 31
      else if month = 9 then 30
      else if month = 10 then 31
      else if month = 11 then 30
      else if month = 12 then 31
      else 0)"

definition is_valid_date_j :: "int \<Rightarrow> int \<Rightarrow> int \<Rightarrow> date_error + bool" where
  "is_valid_date_j year month day =
     (if month < 1 \<or> month > 12 then Inl Month_out_of_range
      else if day < 1 \<or> day > days_of_month_j month year then Inl Day_out_of_range
      else Inr True)"

definition julian_ymd :: "int \<Rightarrow> int \<Rightarrow> int \<Rightarrow> date_error + date" where
  "julian_ymd year month day =
     (case is_valid_date_j year month day of Inl e \<Rightarrow> Inl e | Inr _ \<Rightarrow> Inr (mkdate year month day))"

definition adjust_date_from_mjd_j :: "int \<Rightarrow> date" where
  "adjust_date_from_mjd_j mjd =
     (let Q = dbl (dbl (of_int mjd + 2400000.5) + 0.5);
          Z = of_int (to_int32 Q);
          dayFrac = Q - Z;
          A = to_int32 Z;
          B = A + 1524;
          C = to_int32 (dbl (dbl (of_int B - dbl 122.1) / 365.25));
          D = to_int32 (dbl (365.25 * of_int C));
          E = to_int32 (dbl (of_int (B - D) / dbl 30.6001));
          day = to_int32 (dbl (of_int (B - D - to_int32 (dbl (dbl 30.6001 * of_int E))) + dayFrac));
          month = (if E < 14 then E - 1 else E - 13);
          year = (if month > 2 then C - 4716 else C - 4715)
      in mkdate year month day)"

definition mod_julian_day_j :: "date \<Rightarrow> int" where
  "mod_julian_day_j this =
     (let y0 = curr_year this; m0 = curr_month this; d = curr_day this;
          y1 = (if m0 < 3 then y0 - 1 else y0);
          m1 = (if m0 < 3 then m0 + 12 else m0);
          y = y1 + 4800;
          m = m1 - 3;
          jd = y * 365 + y sdiv 4 + 30 * m + (m * 3 + 2) sdiv 5 + d - 32083
      in to_int32 (dbl (of_int jd - 2400000.5)))"

definition julian_from :: "('d \<Rightarrow> int) \<Rightarrow> 'd \<Rightarrow> date" where
  "julian_from mjd d = adjust_date_from_mjd_j (mjd d)"

text \<open>
  Each constructor of \<^verbatim>\<open>Julian\<close> first runs the default constructor of its base class \<^verbatim>\<open>Gregorian\<close>, which asks for the time; what
  it puts into the members is overwritten, but without a clock that has been set the assertion fails (\<open>None\<close>).
  \<open>julian_ymd\<close> and \<open>julian_from\<close> are the bodies of the constructors.
\<close>

definition julian_now :: "ktime \<Rightarrow> date option" where
  "julian_now k = (case gregorian_now k of None \<Rightarrow> None
     | Some _ \<Rightarrow> map_option (\<lambda>g. adjust_date_from_mjd_j (mod_julian_day g)) (gregorian_now k))"

definition julian_ymd_new :: "ktime \<Rightarrow> int \<Rightarrow> int \<Rightarrow> int \<Rightarrow> (date_error + date) option" where
  "julian_ymd_new k year month day = (case gregorian_now k of None \<Rightarrow> None | Some _ \<Rightarrow> Some (julian_ymd year month day))"

definition julian_from_new :: "ktime \<Rightarrow> ('d \<Rightarrow> int) \<Rightarrow> 'd \<Rightarrow> date option" where
  "julian_from_new k mjd d = (case gregorian_now k of None \<Rightarrow> None | Some _ \<Rightarrow> Some (julian_from mjd d))"

definition julian_assign :: "('d \<Rightarrow> int) \<Rightarrow> 'd \<Rightarrow> date" where
  "julian_assign mjd d = date_assign mjd adjust_date_from_mjd_j d"

definition week_day_j :: "date \<Rightarrow> int" where
  "week_day_j d =
     (let century = curr_year d sdiv 100;
          centuryOffset = 7 - ((century + 3) smod 7);
          centuryYear = curr_year d smod 100;
          yearOffset0 = (centuryYear + centuryYear sdiv 4) smod 7;
          yearOffset = (if leap_year_j (curr_year d) \<and> curr_month d \<le> 2 then yearOffset0 - 1 else yearOffset0);
          dayOffset = curr_day d smod 7;
          weekday = (centuryOffset + yearOffset + month_table ! nat (curr_month d) + dayOffset) smod 7
      in if weekday = 0 then 7 else weekday)"

definition days_per_week_j :: int where "days_per_week_j = 7"
definition months_per_year_j :: int where "months_per_year_j = 12"

definition days_this_month_j :: "date \<Rightarrow> int" where
  "days_this_month_j d = days_of_month_j (curr_month d) (curr_year d)"

definition week_day_name_j :: "date \<Rightarrow> string option" where
  "week_day_name_j d =
     (let w = week_day_j d in
      if w = 1 then Some ''monday'' else if w = 2 then Some ''tuesday'' else if w = 3 then Some ''wednesday''
      else if w = 4 then Some ''thursday'' else if w = 5 then Some ''friday'' else if w = 6 then Some ''saturday''
      else if w = 7 \<or> w = 0 then Some ''sunday'' else None)"

definition month_name_j :: "date \<Rightarrow> string option" where
  "month_name_j d =
     (let m = curr_month d in
      if m = 1 then Some ''january'' else if m = 2 then Some ''february'' else if m = 3 then Some ''march''
      else if m = 4 then Some ''april'' else if m = 5 then Some ''may'' else if m = 6 then Some ''june''
      else if m = 7 then Some ''july'' else if m = 8 then Some ''august'' else if m = 9 then Some ''september''
      else if m = 10 then Some ''october'' else if m = 11 then Some ''november'' else if m = 12 then Some ''december''
      else None)"

definition add_year_n_j :: "int \<Rightarrow> date \<Rightarrow> date" where
  "add_year_n_j n this =
     (let d = this\<lparr>curr_year := curr_year this + n\<rparr> in
      if curr_month d = 2 \<and> curr_day d = 29 \<and> \<not> leap_year_j (curr_year d) then d\<lparr>curr_day := 28\<rparr> else d)"

definition add_year_j :: "date \<Rightarrow> date" where
  "add_year_j this = add_year_n_j 1 this"

definition add_month_j :: "date \<Rightarrow> date" where
  "add_month_j this =
     (let d = (if curr_month this + 1 > 12 then this\<lparr>curr_month := 1, curr_year := curr_year this + 1\<rparr>
               else this\<lparr>curr_month := curr_month this + 1\<rparr>)
      in if curr_day d > days_this_month_j d
         then date_plus mod_julian_day_j adjust_date_from_mjd_j 30
                (d\<lparr>curr_year := curr_year this, curr_month := curr_month this\<rparr>)
         else d)"

definition sub_month_j :: "date \<Rightarrow> date" where
  "sub_month_j this =
     (let d = (if curr_month this - 1 < 1 then this\<lparr>curr_month := 12, curr_year := curr_year this - 1\<rparr>
               else this\<lparr>curr_month := curr_month this - 1\<rparr>)
      in if curr_day d > days_this_month_j d
         then date_minus mod_julian_day_j adjust_date_from_mjd_j 30
                (d\<lparr>curr_year := curr_year this, curr_month := curr_month this\<rparr>)
         else d)"

definition add_month_n_j :: "int \<Rightarrow> date \<Rightarrow> date" where
  "add_month_n_j n this = (if n < 0 then (sub_month_j ^^ nat (- n)) this else (add_month_j ^^ nat n) this)"

definition toString_j :: "date \<Rightarrow> string" where
  "toString_j this =
     show_int (curr_year this) @ ''-'' @
     (if curr_month this \<le> 9 then ''0'' else []) @ show_int (curr_month this) @ ''-'' @
     (if curr_day this \<le> 9 then ''0'' else []) @ show_int (curr_day this)"

section \<open>The laws of the class\<close>

abbreviation leap_jul :: "int \<Rightarrow> bool" where "leap_jul \<equiv> (\<lambda>y. 4 dvd y)"
abbreviation jul_first :: date where "jul_first \<equiv> mkdate 1858 11 5"

lemma leap_year_j_spec [simp]: "leap_year_j y = leap_jul y"
  by (simp add: leap_year_j_def smod_zero)

lemma days_of_month_j_spec: "1 \<le> m \<Longrightarrow> m \<le> 12 \<Longrightarrow> days_of_month_j m y = month_length leap_jul m y"
  by (rule month_all [of m]) (simp_all add: days_of_month_j_def month_length_def)

text \<open>The day number, counted as in \<open>day_no\<close>.\<close>

definition jul_jd :: "date \<Rightarrow> int" where
  "jul_jd d = day_no (march_year d) (march_month_of d) (curr_day d) - 1524"

lemma jul_months: "3 \<le> m \<Longrightarrow> m \<le> 14 \<Longrightarrow> 30 * (m - 3) + ((m - 3) * 3 + 2) div 5 + 92 = (153 * m + 3) div (5 :: int)"
  by (rule march_all [of m]) simp_all

lemma mod_julian_day_j_jd:
  assumes "0 \<le> march_year d + 4800" and mm: "3 \<le> march_month_of d" "march_month_of d \<le> 14"
    and "2400001 \<le> jul_jd d" and "jul_jd d < 2 ^ 32"
  shows "mod_julian_day_j d = jul_jd d - 2400001"
proof -
  have "(march_year d + 4800) * 365 + (march_year d + 4800) sdiv 4 + 30 * (march_month_of d - 3) +
      ((march_month_of d - 3) * 3 + 2) sdiv 5 + curr_day d - 32083 = jul_jd d"
  proof -
    have "(march_year d + 4800) sdiv 4 = march_year d div 4 + 1200" using assms(1) by (simp add: sdiv_nonneg)
    moreover have "((march_month_of d - 3) * 3 + 2) sdiv 5 = ((march_month_of d - 3) * 3 + 2) div 5"
      using mm by (intro sdiv_nonneg) auto
    moreover have "(153 * march_month_of d + 3) div 5 = 30 * (march_month_of d - 3) + ((march_month_of d - 3) * 3 + 2) div 5 + 92"
      using jul_months [OF mm] by simp
    ultimately show ?thesis unfolding jul_jd_def day_no_def by (simp only:) simp
  qed
  then have "mod_julian_day_j d = to_int32 (dbl (of_int (jul_jd d) - 2400000.5))"
    unfolding mod_julian_day_j_def Let_def march_year_def march_month_of_def by (simp only:)
  also have "jul_jd d = (jul_jd d - 2400001) + 2400001" by simp
  also have "to_int32 (dbl (of_int \<dots> - 2400000.5)) = jul_jd d - 2400001" using assms(4,5) by (intro to_int32_half) auto
  finally show ?thesis .
qed

lemma adjust_int_j:
  assumes "0 \<le> n" and "n < 2 ^ 30"
  shows "adjust_date_from_mjd_j n = ymd_of (n + 2400001 + 1524)"
proof -
  define Z where "Z = n + 2400001"
  have zb: "2400001 \<le> Z" "Z < 2 ^ 31" using assms by (auto simp: Z_def)
  have "123 \<le> Z + 1524" "Z + 1524 < 2 ^ 31" using assms zb by (auto simp: Z_def)
  note f = ymd_float [OF this]
  show ?thesis
    unfolding adjust_date_from_mjd_j_def mjd_double [OF assms Z_def] to_int32_of_int Let_def f [symmetric] Z_def [symmetric]
    using f by simp
qed

lemma valid_march_jul:
  assumes "valid_date leap_jul d"
  shows "march_day (march_year d mod 4 = 3) (march_month_of d) (curr_day d)"
  using valid_march [OF assms] by simp

lemma adjust_jul:
  assumes v: "valid_date leap_jul d" and "2400001 \<le> jul_jd d" and "jul_jd d - 2400001 < 2 ^ 30"
  shows "adjust_date_from_mjd_j (jul_jd d - 2400001) = d"
proof -
  have "adjust_date_from_mjd_j (jul_jd d - 2400001) = ymd_of (day_no (march_year d) (march_month_of d) (curr_day d))"
    using assms(2,3) by (simp add: adjust_int_j jul_jd_def)
  also have "\<dots> = d"
    unfolding ymd_of_day_no [OF valid_march_jul [OF v]] using v by (intro march_back) (auto simp: valid_date_def)
  finally show ?thesis .
qed

lemma jul_year_step: "(y :: int) div 4 = (y - 1) div 4 + (if 4 dvd y then 1 else 0)"
  by (rule div_step) simp

lemma jul_next:
  assumes v: "valid_date leap_jul d"
  shows "jul_jd (next_day leap_jul d) = jul_jd d + 1"
proof -
  let ?m = "curr_month d" and ?y = "curr_year d"
  have m: "1 \<le> ?m" "?m \<le> 12" "curr_day d \<le> month_length leap_jul ?m ?y" using v by (auto simp: valid_date_def)
  show ?thesis
  proof (cases "curr_day d < month_length leap_jul ?m ?y")
    case True
    then have "next_day leap_jul d = d\<lparr>curr_day := curr_day d + 1\<rparr>" by (simp add: next_day_def)
    then have n: "march_year (next_day leap_jul d) = march_year d" "march_month_of (next_day leap_jul d) = march_month_of d"
      "curr_day (next_day leap_jul d) = curr_day d + 1" by (simp_all add: march_year_def march_month_of_def)
    show ?thesis unfolding jul_jd_def n day_no_def by simp
  next
    case False
    then have day: "curr_day d = month_length leap_jul ?m ?y" using m(3) by simp
    show ?thesis
    proof (cases "?m = 2")
      case True
      then have n: "next_day leap_jul d = mkdate ?y 3 1" using False by (simp add: next_day_def)
      show ?thesis
        unfolding n using True day jul_year_step [of ?y]
        by (simp add: jul_jd_def march_year_def march_month_of_def day_no_def month_length_def)
    next
      case F: False
      let ?mm = "march_month_of d"
      have mm: "3 \<le> ?mm" "?mm \<le> 13" "(if ?mm > 12 then ?mm - 12 else ?mm) = ?m" using m F by (auto simp: march_month_of_def)
      have n: "march_year (next_day leap_jul d) = march_year d" "march_month_of (next_day leap_jul d) = ?mm + 1"
        "curr_day (next_day leap_jul d) = 1"
        using m F False by (auto simp: next_day_def march_year_def march_month_of_def)
      show ?thesis
        unfolding jul_jd_def n day_no_def march_last [OF mm(1,2), of leap_jul ?y] mm(3) day by simp
    qed
  qed
qed

lemma jul_lower:
  assumes v: "valid_date leap_jul d" and r: "rank jul_first \<le> rank d"
  shows "2400001 \<le> jul_jd d" and "365 * (curr_year d - 1858) + 2399000 \<le> jul_jd d" and "1858 \<le> curr_year d"
proof -
  have m: "1 \<le> curr_month d" "curr_month d \<le> 12" "1 \<le> curr_day d" "curr_day d \<le> 31"
    using v by (auto simp: valid_date_def month_length_def split: if_splits)
  show y: "1858 \<le> curr_year d" using r m by (simp add: rank_def)
  have mm: "3 \<le> march_month_of d" "march_month_of d \<le> 14" using m by (auto simp: march_month_of_def)
  have M: "93 \<le> (153 * march_month_of d + 3) div 5 + curr_day d"
    using march_days [OF mm, of "march_year d mod 4 = 3" "curr_day d"] valid_march_jul [OF v] by simp
  define Y q s where "Y = march_year d" and "q = march_year d div 4" and "s = (153 * march_month_of d + 3) div 5 + curr_day d"
  have jd: "jul_jd d = 365 * Y + q + s + 1721025" by (simp add: jul_jd_def day_no_def Y_def q_def s_def)
  have my: "curr_year d - 1 \<le> Y" by (simp add: march_year_def Y_def)
  have q: "464 \<le> q" unfolding q_def using zdiv_mono1 [of 1857 "march_year d" 4] my y by (simp add: Y_def)
  show "365 * (curr_year d - 1858) + 2399000 \<le> jul_jd d" unfolding jd using M my q by (simp add: s_def)
  show "2400001 \<le> jul_jd d"
  proof (cases "1859 \<le> Y")
    case True
    then show ?thesis unfolding jd using M q by (simp add: s_def)
  next
    case False
    then have "curr_year d = 1858 \<and> 3 \<le> curr_month d \<or> curr_year d = 1859 \<and> curr_month d < 3 \<or> curr_year d = 1858 \<and> curr_month d < 3"
      using y by (auto simp: march_year_def Y_def split: if_splits)
    then show ?thesis
    proof (elim disjE conjE)
      assume a: "curr_year d = 1858" "3 \<le> curr_month d"
      then have "\<not> curr_month d \<le> 10" using r m by (auto simp: rank_def)
      then have "curr_month d = 11 \<or> curr_month d = 12" using m by auto
      then have "curr_month d = 11 \<and> 5 \<le> curr_day d \<or> curr_month d = 12" using r a(1) by (auto simp: rank_def)
      then show ?thesis unfolding jd Y_def s_def q_def using a m by (auto simp: march_year_def march_month_of_def)
    next
      assume a: "curr_year d = 1859" "curr_month d < 3"
      then have "curr_month d = 1 \<or> curr_month d = 2" using m by auto
      then show ?thesis unfolding jd Y_def s_def q_def using a m by (auto simp: march_year_def march_month_of_def)
    next
      assume "curr_year d = 1858" "curr_month d < 3"
      then show ?thesis using r m by (simp add: rank_def)
    qed
  qed
qed

lemma mod_julian_day_j_eq:
  assumes v: "valid_date leap_jul d" and r: "rank jul_first \<le> rank d" and y: "curr_year d \<le> year_max"
  shows "mod_julian_day_j d = jul_jd d - 2400001"
proof (rule mod_julian_day_j_jd)
  note l = jul_lower [OF v r]
  have my: "march_year d \<le> year_max" "curr_year d - 1 \<le> march_year d" using y by (auto simp: march_year_def)
  then show "0 \<le> march_year d + 4800" using l(3) by simp
  have m: "1 \<le> curr_month d" "curr_month d \<le> 12" using v by (auto simp: valid_date_def)
  then show mm: "3 \<le> march_month_of d" "march_month_of d \<le> 14" by (auto simp: march_month_of_def)
  show "2400001 \<le> jul_jd d" by (rule l)
  have M: "(153 * march_month_of d + 3) div 5 + curr_day d \<le> 458"
    using march_days [OF mm, of "march_year d mod 4 = 3" "curr_day d"] valid_march_jul [OF v] by auto
  have "march_year d div 4 \<le> march_year d" using my l(3) by simp
  then show "jul_jd d < 2 ^ 32" unfolding jul_jd_def day_no_def using M my(1) by simp
qed

interpretation jul: day_calendar mod_julian_day_j adjust_date_from_mjd_j leap_jul jul_first mjd_limit year_max
proof (unfold_locales, goal_cases)
  case 1 show ?case by (simp add: valid_date_def month_length_def)
next
  case 2 show ?case by simp
next
  case 3
  have "valid_date leap_jul jul_first" by (simp add: valid_date_def month_length_def)
  then show ?case
    by (simp add: mod_julian_day_j_eq jul_jd_def march_year_def march_month_of_def day_no_def)
next
  case 4 show ?case by simp
next
  case (5 d)
  have "curr_year (next_day leap_jul d) \<le> curr_year d + 1" by (simp add: next_day_def)
  moreover have "rank jul_first \<le> rank (next_day leap_jul d)" using next_day_rank [OF 5(1)] 5(2) by simp
  ultimately show ?case using 5 mod_julian_day_j_eq [of d] mod_julian_day_j_eq [of "next_day leap_jul d"] jul_next [OF 5(1)]
    next_day_valid [OF 5(1)] by simp
next
  case (6 d) then show ?case using mod_julian_day_j_eq [of d] jul_lower(1) [of d] by simp
next
  case (7 d) then show ?case using mod_julian_day_j_eq [of d] jul_lower(2) [of d] by simp
next
  case (8 d)
  then show ?case using mod_julian_day_j_eq [of d] adjust_jul [OF 8(1)] jul_lower(1) [of d] by simp
qed

end
