(* ===== verification/Dates.thy ===== *)
theory Dates
  imports Julian
begin

text \<open>
  What the two classes of dates promise their users: week days, months and years, conversions, and the output.
\<close>

section \<open>Week days\<close>

lemma weekday_up_small: "- 7 < u \<Longrightarrow> weekday_up u = (if u < 1 then u + 7 else u)"
  by (subst weekday_up.simps, subst weekday_up.simps) simp

lemma smod7: "t smod 7 = (if t < 0 then - ((- t) mod 7) else t mod 7)" for t :: int
  by (auto simp: signed_modulo_int_def sgn_if)

lemma pred_mod7: "(t - 1) mod 7 + 1 = (if t mod 7 = 0 then 7 else t mod 7)" for t :: int
proof -
  define q r where "q = t div 7" and "r = t mod 7"
  have t: "t = 7 * q + r" and r: "0 \<le> r" "r < 7" by (auto simp: q_def r_def)
  have "(t - 1) mod 7 = (if r = 0 then 6 else r - 1)"
  proof (cases "r = 0")
    case True
    then show ?thesis using int_mod_pos_eq [of "t - 1" 7 "q - 1" 6] t by simp
  next
    case False
    then show ?thesis using int_mod_pos_eq [of "t - 1" 7 q "r - 1"] t r by simp
  qed
  then show ?thesis by (simp add: r_def)
qed

lemma weekday_up_mod: "weekday_up (t smod 7) = (t - 1) mod 7 + 1"
proof (cases "t < 0")
  case True
  define q r where "q = (- t) div 7" and "r = (- t) mod 7"
  have "- t = 7 * q + r" unfolding q_def r_def by (rule mult_div_mod_eq [symmetric])
  then have t: "t - 1 = 7 * (- q - 1) + (6 - r)" by simp
  have r: "0 \<le> r" "r < 7" by (auto simp: r_def)
  have "(t - 1) mod 7 = 6 - r" by (rule int_mod_pos_eq [OF t]) (use r in auto)
  moreover have "t smod 7 = - r" using True by (simp add: smod7 r_def)
  ultimately show ?thesis using weekday_up_small [of "- r"] r by simp
next
  case False
  have "0 \<le> t mod 7" by simp
  then show ?thesis unfolding pred_mod7 using False weekday_up_small [of "t mod 7"] by (auto simp: smod7)
qed

lemma week_nonzero: "x mod 7 + 1 \<noteq> 0" for x :: int
  using pos_mod_sign [of 7 x] by linarith

text \<open>The offset of a month in the table, against the days before the month.\<close>

lemma month_offset:
  assumes "1 \<le> m" and "m \<le> 12"
  shows "\<exists>k. month_table ! nat m = (153 * (if m < 3 then m + 12 else m) + 3) div 5 - (if m < 3 then 365 else 0) + 2 - 7 * k"
  by (rule month_all [OF assms]; simp add: month_table_def; presburger)

lemma leap_shift: "leap_spec (y + 8000) \<longleftrightarrow> leap_spec y"
  by (simp add: leap_spec_def dvd_add_left_iff)

lemma jd_of_january:
  "jd_of d = greg_year (curr_year d + 8000) - (if leap_spec (curr_year d) \<and> curr_month d < 3 then 1 else 0) +
     ((153 * march_month_of d + 3) div 5 - (if curr_month d < 3 then 365 else 0) + curr_day d) - 1200913"
  using greg_year_step [of "curr_year d + 8000"] leap_shift [of "curr_year d"]
  by (auto simp: jd_of_def greg_jd_year march_year_def algebra_simps)

lemma greg_year_parts:
  assumes "0 \<le> f" and "f < 4" and "0 \<le> r" and "r < 100"
  shows "greg_year (400 * e + 100 * f + r) = 146097 * e + 36524 * f + 365 * r + r div 4"
proof -
  have "400 * e + 100 * f + r = r + (100 * e + 25 * f) * 4" by simp
  then have 1: "(400 * e + 100 * f + r) div 4 = 100 * e + 25 * f + r div 4" by simp
  have 2: "(400 * e + 100 * f + r) div 100 = 4 * e + f" using assms by (intro int_div_pos_eq [where r = r]) auto
  have 3: "(400 * e + 100 * f + r) div 400 = e" using assms by (intro int_div_pos_eq [where r = "100 * f + r"]) auto
  show ?thesis unfolding greg_year_def 1 2 3 by simp
qed

lemma week_day_greg:
  assumes v: "valid_date leap_spec d" and r: "rank greg_first \<le> rank d" and y: "curr_year d \<le> 3999"
  shows "week_day d = (mod_julian_day d + 2) mod 7 + 1"
proof -
  define c s where "c = curr_year d div 100" and "s = curr_year d mod 100"
  define e f q where "e = c div 4" and "f = c mod 4" and "q = s div 4"
  have y0: "1858 \<le> curr_year d" using jd_lower(3) [OF v r] .
  have m: "1 \<le> curr_month d" "curr_month d \<le> 12" "1 \<le> curr_day d" using v by (auto simp: valid_date_def)
  have s: "0 \<le> s" "s < 100" and f: "0 \<le> f" "f < 4" by (auto simp: s_def f_def)
  have c39: "c \<le> 39" "0 \<le> c" unfolding c_def using y y0 by simp_all
  have yd: "curr_year d + 8000 = 400 * (e + 20) + 100 * f + s"
  proof -
    have "curr_year d = 100 * c + s" "c = 4 * e + f" by (simp_all add: c_def s_def e_def f_def)
    then show ?thesis by simp
  qed
  obtain k where k: "month_table ! nat (curr_month d) =
      (153 * march_month_of d + 3) div 5 - (if curr_month d < 3 then 365 else 0) + 2 - 7 * k"
    using month_offset [OF m(1,2)] unfolding march_month_of_def by (rule exE)
  define t where "t = 2 * (3 - f) + ((s + q) mod 7 - (if leap_spec (curr_year d) \<and> curr_month d < 3 then 1 else 0)) +
    month_table ! nat (curr_month d) + curr_day d mod 7"
  have "(39 - c) smod 4 = 3 - f" 
  proof -
    have "39 - c = 4 * (9 - c div 4) + (3 - f)" by (simp add: f_def minus_mult_div_eq_mod [symmetric])
    then have "(39 - c) mod 4 = 3 - f" by (rule int_mod_pos_eq) (use f in auto)
    then show ?thesis using c39 by (simp add: smod_nonneg)
  qed
  moreover have "0 \<le> q" using s by (simp add: q_def)
  ultimately have "week_day d = weekday_up (t smod 7)"
    unfolding week_day_def Let_def t_def leap_year_spec using y0 s m(3)
    by (simp add: sdiv_nonneg smod_nonneg c_def [symmetric] s_def [symmetric] q_def [symmetric] weekday_up_mod week_nonzero mult.commute)
  also have "\<dots> = (t - 1) mod 7 + 1" by (rule weekday_up_mod)
  also have "(t - 1) mod 7 = (jd_of d - 2400001 + 2) mod 7"
  proof -
    define a b where "a = (s + q) div 7" and "b = curr_day d div 7"
    have "(s + q) mod 7 = s + q - 7 * a" "curr_day d mod 7 = curr_day d - 7 * b"
      by (simp_all add: a_def b_def minus_mult_div_eq_mod [symmetric])
    then have "jd_of d - 2400001 + 2 = (t - 1) + 7 * (20871 * e + 5218 * f + 52 * s + a + b + k - 96997)"
      unfolding jd_of_january yd greg_year_parts [OF f s] t_def k q_def [symmetric] by simp
    then show ?thesis by (simp only: mod_mult_self2)
  qed
  finally show ?thesis using mod_julian_day_eq [OF v r] y by simp
qed

lemma jul_jd_january:
  "jul_jd d = 365 * curr_year d + curr_year d div 4 - (if 4 dvd curr_year d \<and> curr_month d < 3 then 1 else 0) +
     ((153 * march_month_of d + 3) div 5 - (if curr_month d < 3 then 365 else 0) + curr_day d) + 1721025"
  using jul_year_step [of "curr_year d"] by (auto simp: jul_jd_def day_no_def march_year_def algebra_simps)

lemma month_table_nonneg: "1 \<le> m \<Longrightarrow> m \<le> 12 \<Longrightarrow> 0 \<le> month_table ! nat m"
  by (rule month_all [of m]) (simp_all add: month_table_def)

lemma week_day_jul:
  assumes v: "valid_date leap_jul d" and r: "rank jul_first \<le> rank d" and y: "curr_year d \<le> year_max"
  shows "week_day_j d = (mod_julian_day_j d + 2) mod 7 + 1"
proof -
  define c s where "c = curr_year d div 100" and "s = curr_year d mod 100"
  define q where "q = s div 4"
  have y0: "1858 \<le> curr_year d" using jul_lower(3) [OF v r] .
  have m: "1 \<le> curr_month d" "curr_month d \<le> 12" "1 \<le> curr_day d" using v by (auto simp: valid_date_def)
  have s: "0 \<le> s" "s < 100" and q0: "0 \<le> q" "0 \<le> c" using y0 by (auto simp: s_def q_def c_def)
  have yd: "curr_year d = 100 * c + s" by (simp add: c_def s_def)
  have y4: "curr_year d div 4 = 25 * c + q"
  proof -
    have "curr_year d = s + 25 * c * 4" using yd by simp
    then show ?thesis by (simp add: q_def s_def)
  qed
  obtain k where k: "month_table ! nat (curr_month d) =
      (153 * march_month_of d + 3) div 5 - (if curr_month d < 3 then 365 else 0) + 2 - 7 * k"
    using month_offset [OF m(1,2)] unfolding march_month_of_def by (rule exE)
  define t where "t = 7 - (c + 3) mod 7 + ((s + q) mod 7 - (if 4 dvd curr_year d \<and> curr_month d < 3 then 1 else 0)) +
    month_table ! nat (curr_month d) + curr_day d mod 7"
  have t0: "0 \<le> t"
  proof -
    have "(c + 3) mod 7 \<le> 6" "0 \<le> (s + q) mod 7" "0 \<le> curr_day d mod 7" by simp_all
    then show ?thesis using month_table_nonneg [OF m(1,2)] by (simp add: t_def)
  qed
  have m2: "curr_month d \<le> 2 \<longleftrightarrow> curr_month d < 3" by auto
  have o: "curr_year d sdiv 100 = c" "(c + 3) smod 7 = (c + 3) mod 7" "curr_year d smod 100 = s" "s sdiv 4 = q"
    "(s + q) smod 7 = (s + q) mod 7" "curr_day d smod 7 = curr_day d mod 7"
    unfolding q_def s_def c_def by (rule sdiv_nonneg smod_nonneg; use y0 m(3) in simp)+
  have leap1: "(if P then A - 1 else A) = A - (if P then 1 else 0)" for P and A :: int by simp
  have "week_day_j d = (if t smod 7 = 0 then 7 else t smod 7)"
    unfolding week_day_j_def Let_def t_def leap_year_j_spec o m2 leap1 ..
  also have "\<dots> = (t - 1) mod 7 + 1" unfolding smod_nonneg [OF t0 zero_less_numeral] pred_mod7 ..
  also have "(t - 1) mod 7 = (jul_jd d - 2400001 + 2) mod 7"
  proof -
    define a b h where "a = (s + q) div 7" and "b = curr_day d div 7" and "h = (c + 3) div 7"
    have "(s + q) mod 7 = s + q - 7 * a" "curr_day d mod 7 = curr_day d - 7 * b" "(c + 3) mod 7 = c + 3 - 7 * h"
      by (simp_all add: a_def b_def h_def minus_mult_div_eq_mod [symmetric])
    then have "jul_jd d - 2400001 + 2 = (t - 1) + 7 * (5218 * c + 52 * s + a + b - h + k - 96997)"
      unfolding jul_jd_january t_def k y4 using yd by simp
    then show ?thesis by (simp only: mod_mult_self2)
  qed
  finally show ?thesis using mod_julian_day_j_eq [OF v r y] by simp
qed

section \<open>Months and years\<close>

lemma add_month_next:
  "valid_date leap_spec d \<Longrightarrow> add_month d = (if valid_date leap_spec (next_month d) then next_month d
     else date_plus mod_julian_day adjust_date_from_mjd 30 d)"
  unfolding add_month_def by (rule month_forward) (simp_all add: days_this_month_def days_of_month_spec)

lemma sub_month_prev:
  "valid_date leap_spec d \<Longrightarrow> sub_month d = (if valid_date leap_spec (prev_month d) then prev_month d
     else date_minus mod_julian_day adjust_date_from_mjd 30 d)"
  unfolding sub_month_def by (rule month_backward) (simp_all add: days_this_month_def days_of_month_spec)

lemma add_month_j_next:
  "valid_date leap_jul d \<Longrightarrow> add_month_j d = (if valid_date leap_jul (next_month d) then next_month d
     else date_plus mod_julian_day_j adjust_date_from_mjd_j 30 d)"
  unfolding add_month_j_def by (rule month_forward) (simp_all add: days_this_month_j_def days_of_month_j_spec)

lemma sub_month_j_prev:
  "valid_date leap_jul d \<Longrightarrow> sub_month_j d = (if valid_date leap_jul (prev_month d) then prev_month d
     else date_minus mod_julian_day_j adjust_date_from_mjd_j 30 d)"
  unfolding sub_month_j_def by (rule month_backward) (simp_all add: days_this_month_j_def days_of_month_j_spec)

lemma add_year_n_valid: "valid_date leap_spec d \<Longrightarrow> valid_date leap_spec (add_year_n n d)"
  by (auto simp: add_year_n_def Let_def valid_date_def month_length_def split: if_splits)

lemma add_year_n_j_valid: "valid_date leap_jul d \<Longrightarrow> valid_date leap_jul (add_year_n_j n d)"
  by (auto simp: add_year_n_j_def Let_def valid_date_def month_length_def split: if_splits)

section \<open>Constructors\<close>

lemma gregorian_ymd_ok:
  "gregorian_ymd y m d = Inr x \<longleftrightarrow> x = mkdate y m d \<and> valid_date leap_spec x \<and> 1858 \<le> y \<and> y \<le> 2558"
  by (auto simp: gregorian_ymd_def is_valid_date_def days_of_month_spec valid_date_def)

lemma julian_ymd_ok: "julian_ymd y m d = Inr x \<longleftrightarrow> x = mkdate y m d \<and> valid_date leap_jul x"
  by (auto simp: julian_ymd_def is_valid_date_j_def days_of_month_j_spec valid_date_def)

lemma jd_upper:
  assumes "valid_date leap_spec d" and "rank greg_first \<le> rank d" and "curr_year d \<le> 2558"
  shows "jd_of d \<le> 3000000"
proof -
  have m: "1 \<le> curr_month d" "curr_month d \<le> 12" using assms(1) by (auto simp: valid_date_def)
  then have mm: "3 \<le> march_month_of d" "march_month_of d \<le> 14" by (auto simp: march_month_of_def)
  have "march_year d \<le> 2558" using assms(3) by (auto simp: march_year_def)
  then have "greg_year (march_year d + 8000) + 365 * (2558 - march_year d) \<le> greg_year 10558"
    using greg_year_mono [of "march_year d + 8000" 10558] by simp
  moreover have "greg_year 10558 = 3856230" by (simp add: greg_year_def)
  moreover have "(153 * march_month_of d + 3) div 5 + curr_day d \<le> 458"
    using march_days [OF mm, of "leap_spec (march_year d + 1)" "curr_day d"] valid_march_leap [OF assms(1)] by auto
  ultimately show ?thesis using \<open>march_year d \<le> 2558\<close> by (simp add: jd_of_def greg_jd_year)
qed

lemma gregorian_ymd_proper:
  assumes "gregorian_ymd y m d = Inr x" and "rank greg_first \<le> rank x"
  shows "greg.proper x"
proof -
  have v: "valid_date leap_spec x" "curr_year x \<le> 2558" using assms(1) by (auto simp: gregorian_ymd_ok)
  then show ?thesis using mod_julian_day_eq [OF v(1) assms(2)] jd_upper [OF v(1) assms(2) v(2)] assms(2)
    by (simp add: greg.proper_def)
qed

text \<open>The calendar repeats after 400 years.\<close>

lemma leap_period: "leap_spec (y + 400 * q) \<longleftrightarrow> leap_spec y"
proof -
  have "4 dvd y + 400 * q \<longleftrightarrow> 4 dvd y" "100 dvd y + 400 * q \<longleftrightarrow> 100 dvd y" "400 dvd y + 400 * q \<longleftrightarrow> 400 dvd y"
    by (simp_all add: dvd_add_left_iff dvd_mult2)
  then show ?thesis by (simp add: leap_spec_def)
qed

lemma greg_year_period: "greg_year (y + 400 * q) = greg_year y + 146097 * q"
proof -
  have "y + 400 * q = y + (100 * q) * 4" "y + 400 * q = y + (4 * q) * 100" by simp_all
  then have "(y + 400 * q) div 4 = y div 4 + 100 * q" "(y + 400 * q) div 100 = y div 100 + 4 * q"
    by (metis div_mult_self1 zero_neq_numeral add.commute)+
  moreover have "(y + 400 * q) div 400 = y div 400 + q" by simp
  ultimately show ?thesis unfolding greg_year_def by simp
qed

lemma jd_period: "jd_of (d\<lparr>curr_year := curr_year d + 400 * q\<rparr>) = jd_of d + 146097 * q"
proof -
  have a: "march_year (d\<lparr>curr_year := curr_year d + 400 * q\<rparr>) + 8000 = (march_year d + 8000) + 400 * q" by (simp add: march_year_def)
  have b: "march_month_of (d\<lparr>curr_year := curr_year d + 400 * q\<rparr>) = march_month_of d" by (simp add: march_month_of_def)
  show ?thesis unfolding jd_of_def greg_jd_year a b greg_year_period by simp
qed

lemma civil_period:
  assumes "0 \<le> n" and "n < mjd_limit"
  shows "greg.proper ((civil leap_spec greg_first (nat (n mod 146097)))
      \<lparr>curr_year := curr_year (civil leap_spec greg_first (nat (n mod 146097))) + 400 * (n div 146097)\<rparr>)"
    (is "greg.proper ?e")
    and "mod_julian_day ((civil leap_spec greg_first (nat (n mod 146097)))
      \<lparr>curr_year := curr_year (civil leap_spec greg_first (nat (n mod 146097))) + 400 * (n div 146097)\<rparr>) = n"
proof -
  define d q where "d = civil leap_spec greg_first (nat (n mod 146097))" and "q = n div 146097"
  have q: "0 \<le> q" "q \<le> 7350" "n mod 146097 < 146097" "0 \<le> n mod 146097" using assms by (auto simp: q_def)
  have d: "greg.proper d" "mod_julian_day d = n mod 146097" using greg.civil_ok [of "nat (n mod 146097)"] q by (auto simp: d_def)
  then have v: "valid_date leap_spec d" "rank greg_first \<le> rank d" "curr_year d \<le> year_max" by (auto simp: greg.proper_def)
  have jd: "jd_of d = n mod 146097 + 2400001" using mod_julian_day_eq [OF v] d(2) by simp
  then have y: "curr_year d \<le> 2300" using jd_lower(2) [OF v(1,2)] q(3) by simp
  define e where "e = d\<lparr>curr_year := curr_year d + 400 * q\<rparr>"
  have e: "valid_date leap_spec e" "rank greg_first \<le> rank e" "curr_year e \<le> year_max"
    using v y q(1,2) by (auto simp: e_def valid_date_def month_length_def leap_period rank_def)
  have "jd_of e = n + 2400001" unfolding e_def jd_period jd q_def by (simp add: algebra_simps)
  then have m: "mod_julian_day e = n" using mod_julian_day_eq [OF e] by simp
  then have "greg.proper e" using e assms(2) by (simp add: greg.proper_def)
  then show "greg.proper ?e" "mod_julian_day ?e = n" using m by (simp_all add: e_def d_def q_def)
qed

lemma gregorian_now_day:
  assumes "0 \<le> t div 86400 + 40587" and "t div 86400 + 40587 < mjd_limit"
  shows "\<exists>d. gregorian_now (set_k_time t k) = Some d \<and> greg.proper d \<and> mod_julian_day d = t div 86400 + 40587"
proof -
  have "gregorian_now (set_k_time t k) = Some (gmtime_date t)"
    by (simp add: gregorian_now_def k_time_def set_k_time_def)
  then show ?thesis unfolding gmtime_date_def Let_def using civil_period [OF assms] by blast
qed

lemma julian_now_day:
  assumes "0 \<le> t div 86400 + 40587" and "t div 86400 + 40587 < mjd_limit"
  shows "\<exists>d. julian_now (set_k_time t k) = Some d \<and> jul.proper d \<and> mod_julian_day_j d = t div 86400 + 40587"
proof -
  obtain g where "gregorian_now (set_k_time t k) = Some g" "mod_julian_day g = t div 86400 + 40587"
    using gregorian_now_day [OF assms] by blast
  then show ?thesis using jul.adjust_proper [OF assms] by (simp add: julian_now_def)
qed

lemma julian_new_clock:
  "initialized k \<Longrightarrow> julian_ymd_new k y m d = Some (julian_ymd y m d) \<and> julian_from_new k mjd x = Some (julian_from mjd x)"
  by (simp add: julian_ymd_new_def julian_from_new_def gregorian_now_def k_time_def)

section \<open>Before day 0\<close>

lemma jd_next_pow: "valid_date leap_spec d \<Longrightarrow> jd_of ((next_day leap_spec ^^ n) d) = jd_of d + int n"
proof (induction n)
  case (Suc n)
  have "valid_date leap_spec ((next_day leap_spec ^^ n) d)"
    using Suc.prems by (induction n) (simp_all add: next_day_valid)
  then show ?case using jd_next Suc by simp
qed simp

lemma to_int32_below:
  assumes "0 < n" and "n < 2 ^ 20"
  shows "to_int32 (dbl (of_int (2400001 - n) - 2400000.5)) = 1 - n"
proof -
  have n: "(of_int n :: rat) < 2 ^ 20" "(0 :: rat) < of_int n"
    using assms of_int_less_iff [of n "2 ^ 20", where 'a = rat] by simp_all
  have "(of_int (2400001 - n) - 2400000.5 :: rat) = of_int (2 - 4 * n) / 4" by simp
  moreover have "dbl (of_int (2 - 4 * n) / 4) = of_int (2 - 4 * n) / 4" using n by (intro dbl_exact [OF refl]) simp
  moreover have "to_int32 (of_int (2 - 4 * n) / 4) = 1 - n"
  proof -
    have h: "(of_int (2 - 4 * n) / 4 :: rat) = - (of_int n - 1 / 2)" by (simp add: field_simps)
    have "(1 :: rat) \<le> of_int n" using assms(1) by simp
    moreover have "\<lfloor>of_int n - 1 / 2 :: rat\<rfloor> = n - 1" by (simp add: floor_eq_iff)
    ultimately show ?thesis unfolding h by (simp add: to_int32_def)
  qed
  ultimately show ?thesis by (simp only:)
qed

lemma mod_julian_day_below:
  assumes v: "valid_date leap_spec d" and "1 \<le> curr_year d" and "0 < n" and "n < 2 ^ 20" and "jd_of d = 2400001 - n"
  shows "mod_julian_day d = 1 - n"
proof -
  have "1 \<le> curr_month d" using v by (simp add: valid_date_def)
  then have "mod_julian_day d = to_int32 (dbl (of_int (jd_of d) - 2400000.5))"
    unfolding mod_julian_day_def jd_of_def greg_jd_def Let_def using assms(2)
    by (intro arg_cong [where f = "\<lambda>j. to_int32 (dbl (of_int j - 2400000.5))"])
      (auto simp: sdiv_nonneg march_year_def march_month_of_def add.commute mult.commute)
  then show ?thesis using to_int32_below [OF assms(3,4)] assms(5) by simp
qed

section \<open>The properties\<close>

text \<open>
  C5. The arithmetic of \<^verbatim>\<open>adjust_date_from_mjd\<close> in floating-point numbers, and of \<^verbatim>\<open>mod_julian_day\<close>, counts the days of the
  Gregorian calendar: day \<open>n\<close> is the date that one reaches from 17 November 1858 by going on \<open>n\<close> times to the next day,
  the two functions are inverse to each other, and every date from 17 November 1858 on is reached.
\<close>

theorem gregorian_counts_days:
  assumes "0 \<le> n" and "n < 1073741824"
    and "valid_date leap_spec d" and "rank (mkdate 1858 11 17) \<le> rank d" and "curr_year d \<le> 4000000" and "mod_julian_day d < 1073741824"
  shows "adjust_date_from_mjd n = civil leap_spec (mkdate 1858 11 17) (nat n) \<and>
    mod_julian_day (adjust_date_from_mjd n) = n \<and> valid_date leap_spec (adjust_date_from_mjd n) \<and>
    d = civil leap_spec (mkdate 1858 11 17) (nat (mod_julian_day d)) \<and> adjust_date_from_mjd (mod_julian_day d) = d"
proof -
  have d: "greg.proper d" using assms(3-6) by (simp add: greg.proper_def)
  show ?thesis
    using greg.adjust_civil [of "nat n"] greg.adjust_proper [OF assms(1,2)] assms(1,2) greg.proper_civil(1) [OF d]
      greg.adjust_mjd [OF assms(3-6)]
    by (simp add: greg.proper_def)
qed

theorem gregorian_counts_days_witness:
  "mod_julian_day (mkdate 2000 2 29) = 51603 \<and> adjust_date_from_mjd 51603 = mkdate 2000 2 29 \<and>
   civil leap_spec (mkdate 1858 11 17) 51603 = mkdate 2000 2 29"
proof -
  have "mod_julian_day (mkdate 2000 2 29) = 51603" "valid_date leap_spec (mkdate 2000 2 29)"
    "rank (mkdate 1858 11 17) \<le> rank (mkdate 2000 2 29)" by code_simp+
  then show ?thesis using gregorian_counts_days [of 51603 "mkdate 2000 2 29"] by simp
qed

text \<open>
  C35. The class \<^verbatim>\<open>Julian\<close> counts the days of the Julian calendar in the same way, from its 5 November 1858, the same
  day 0.
\<close>

theorem julian_counts_days:
  assumes "0 \<le> n" and "n < 1073741824"
    and "valid_date (\<lambda>y. 4 dvd y) d" and "rank (mkdate 1858 11 5) \<le> rank d" and "curr_year d \<le> 4000000" and "mod_julian_day_j d < 1073741824"
  shows "adjust_date_from_mjd_j n = civil (\<lambda>y. 4 dvd y) (mkdate 1858 11 5) (nat n) \<and>
    mod_julian_day_j (adjust_date_from_mjd_j n) = n \<and> valid_date (\<lambda>y. 4 dvd y) (adjust_date_from_mjd_j n) \<and>
    d = civil (\<lambda>y. 4 dvd y) (mkdate 1858 11 5) (nat (mod_julian_day_j d)) \<and> adjust_date_from_mjd_j (mod_julian_day_j d) = d"
proof -
  have d: "jul.proper d" using assms(3-6) by (simp add: jul.proper_def)
  show ?thesis
    using jul.adjust_civil [of "nat n"] jul.adjust_proper [OF assms(1,2)] assms(1,2) jul.proper_civil(1) [OF d]
      jul.adjust_mjd [OF assms(3-6)]
    by (simp add: jul.proper_def)
qed

theorem julian_counts_days_witness:
  "mod_julian_day_j (mkdate 1900 2 29) = 15091 \<and> adjust_date_from_mjd_j 15091 = mkdate 1900 2 29 \<and>
   civil (\<lambda>y. 4 dvd y) (mkdate 1858 11 5) 15091 = mkdate 1900 2 29"
proof -
  have "mod_julian_day_j (mkdate 1900 2 29) = 15091" "valid_date (\<lambda>y. 4 dvd y) (mkdate 1900 2 29)"
    "rank (mkdate 1858 11 5) \<le> rank (mkdate 1900 2 29)" by code_simp+
  then show ?thesis using julian_counts_days [of 15091 "mkdate 1900 2 29"] by simp
qed

text \<open>
  C36. The operators of \<^verbatim>\<open>Date\<close> on two dates of one class, Gregorian from 17 November 1858 on or Julian from its 5 November 1858 (the
  same day, number 0) on, up to day \<open>2 ^ 30 - 1\<close>: \<open>greg.proper\<close> and \<open>jul.proper\<close> are the valid dates in this range. The comparisons are the
  order by year, month and day, \<^verbatim>\<open>++\<close> goes to the next day of the calendar where that is in the range, \<^verbatim>\<open>--\<close> takes it back, and a date
  after \<^verbatim>\<open>+= n\<close> is \<open>n\<close> days away and \<^verbatim>\<open>-= n\<close> takes it back, where the sum is in the range. The constructor
  of \<^verbatim>\<open>Gregorian\<close> accepts earlier dates too, and of these it does not hold.
\<close>

theorem date_operators:
  assumes "greg.proper d" and "greg.proper e" and "mod_julian_day d + 1 < 1073741824"
    and "0 \<le> mod_julian_day d + n" and "mod_julian_day d + n < 1073741824"
    and "jul.proper d'" and "jul.proper e'" and "mod_julian_day_j d' + 1 < 1073741824"
    and "0 \<le> mod_julian_day_j d' + n'" and "mod_julian_day_j d' + n' < 1073741824"
  shows "(date_lt mod_julian_day mod_julian_day d e \<longleftrightarrow> rank d < rank e) \<and>
    (date_gt mod_julian_day mod_julian_day d e \<longleftrightarrow> rank e < rank d) \<and>
    (date_le mod_julian_day mod_julian_day d e \<longleftrightarrow> rank d \<le> rank e) \<and>
    (date_ge mod_julian_day mod_julian_day d e \<longleftrightarrow> rank e \<le> rank d) \<and>
    (date_eq mod_julian_day mod_julian_day d e \<longleftrightarrow> d = e) \<and> (date_ne mod_julian_day mod_julian_day d e \<longleftrightarrow> d \<noteq> e) \<and>
    date_inc mod_julian_day adjust_date_from_mjd d = next_day leap_spec d \<and>
    date_dec mod_julian_day adjust_date_from_mjd (date_inc mod_julian_day adjust_date_from_mjd d) = d \<and>
    date_diff mod_julian_day mod_julian_day (date_plus mod_julian_day adjust_date_from_mjd n d) d = n \<and>
    date_minus mod_julian_day adjust_date_from_mjd n (date_plus mod_julian_day adjust_date_from_mjd n d) = d \<and>
    (date_lt mod_julian_day_j mod_julian_day_j d' e' \<longleftrightarrow> rank d' < rank e') \<and>
    (date_gt mod_julian_day_j mod_julian_day_j d' e' \<longleftrightarrow> rank e' < rank d') \<and>
    (date_le mod_julian_day_j mod_julian_day_j d' e' \<longleftrightarrow> rank d' \<le> rank e') \<and>
    (date_ge mod_julian_day_j mod_julian_day_j d' e' \<longleftrightarrow> rank e' \<le> rank d') \<and>
    (date_eq mod_julian_day_j mod_julian_day_j d' e' \<longleftrightarrow> d' = e') \<and> (date_ne mod_julian_day_j mod_julian_day_j d' e' \<longleftrightarrow> d' \<noteq> e') \<and>
    date_inc mod_julian_day_j adjust_date_from_mjd_j d' = next_day (\<lambda>y. 4 dvd y) d' \<and>
    date_dec mod_julian_day_j adjust_date_from_mjd_j (date_inc mod_julian_day_j adjust_date_from_mjd_j d') = d' \<and>
    date_diff mod_julian_day_j mod_julian_day_j (date_plus mod_julian_day_j adjust_date_from_mjd_j n' d') d' = n' \<and>
    date_minus mod_julian_day_j adjust_date_from_mjd_j n' (date_plus mod_julian_day_j adjust_date_from_mjd_j n' d') = d'"
  using greg.inc_next [OF assms(1,3)] greg.dec_inc [OF assms(1,3)] greg.plus_proper(2,3) [OF assms(1,4,5)]
    jul.inc_next [OF assms(6,8)] jul.dec_inc [OF assms(6,8)] jul.plus_proper(2,3) [OF assms(6,9,10)]
  by (simp add: greg.compare_proper [OF assms(1,2)] jul.compare_proper [OF assms(6,7)])

theorem date_operators_witness:
  "date_inc mod_julian_day adjust_date_from_mjd (mkdate 1999 12 31) = mkdate 2000 1 1 \<and>
   date_lt mod_julian_day mod_julian_day (mkdate 1999 12 31) (mkdate 2000 2 1) \<and>
   date_diff mod_julian_day mod_julian_day
     (date_plus mod_julian_day adjust_date_from_mjd (-365) (mkdate 1999 12 31)) (mkdate 1999 12 31) = -365 \<and>
   date_inc mod_julian_day_j adjust_date_from_mjd_j (mkdate 1900 2 28) = mkdate 1900 2 29"
proof -
  have m: "mod_julian_day (mkdate 1999 12 31) = 51543" "mod_julian_day (mkdate 2000 2 1) = 51575" "mod_julian_day_j (mkdate 1900 2 28) = 15090"
    by code_simp+
  have "greg.proper (mkdate 1999 12 31)" "greg.proper (mkdate 2000 2 1)" "jul.proper (mkdate 1900 2 28)"
    unfolding greg.proper_def jul.proper_def m by (simp_all add: valid_date_def month_length_def rank_def)
  moreover have "next_day leap_spec (mkdate 1999 12 31) = mkdate 2000 1 1" "rank (mkdate 1999 12 31) < rank (mkdate 2000 2 1)"
    "next_day (\<lambda>y. 4 dvd y) (mkdate 1900 2 28) = mkdate 1900 2 29"
    by (simp_all add: next_day_def month_length_def rank_def)
  ultimately show ?thesis
    using date_operators [of "mkdate 1999 12 31" "mkdate 2000 2 1" "-365" "mkdate 1900 2 28" "mkdate 1900 2 28" 1] m by simp
qed

text \<open>A Gregorian date made a Julian date, by the constructor from a \<^verbatim>\<open>Date\<close> or by assignment, and made a Gregorian date
  again is itself; it compares equal to the Julian date and has the same day of the week, which in both classes is the day
  number modulo 7, for the years up to 3999.
\<close>

theorem date_conversion:
  assumes "greg.proper d" and "curr_year d \<le> 3999"
  shows "gregorian_from mod_julian_day_j (julian_from mod_julian_day d) = d \<and>
    julian_assign mod_julian_day d = julian_from mod_julian_day d \<and>
    date_eq mod_julian_day mod_julian_day_j d (julian_from mod_julian_day d) \<and>
    week_day d = (mod_julian_day d + 2) mod 7 + 1 \<and> week_day_j (julian_from mod_julian_day d) = week_day d \<and>
    week_day_name d = Some ([''monday'', ''tuesday'', ''wednesday'', ''thursday'', ''friday'', ''saturday'', ''sunday''] !
      nat ((mod_julian_day d + 2) mod 7))"
proof -
  let ?j = "julian_from mod_julian_day d"
  have d: "valid_date leap_spec d" "rank greg_first \<le> rank d" "curr_year d \<le> year_max" "mod_julian_day d < mjd_limit"
    using assms(1) by (auto simp: greg.proper_def)
  note j = jul.adjust_proper [OF greg.proper_civil(2,3) [OF assms(1)]]
  have "week_day_j ?j = (mod_julian_day d + 2) mod 7 + 1"
    using week_day_jul [of ?j] j by (simp add: jul.proper_def julian_from_def)
  moreover have "week_day_name d = Some ([''monday'', ''tuesday'', ''wednesday'', ''thursday'', ''friday'', ''saturday'', ''sunday''] ! nat w)"
    if "week_day d = w + 1" "0 \<le> w" "w < 7" for w
  proof -
    have "w = 0 \<or> w = 1 \<or> w = 2 \<or> w = 3 \<or> w = 4 \<or> w = 5 \<or> w = 6" using that(2,3) by presburger
    then show ?thesis using that(1) by (elim disjE) (simp_all add: week_day_name_def)
  qed
  ultimately show ?thesis using week_day_greg [OF d(1,2) assms(2)] j(2) greg.adjust_mjd [OF d]
    by (simp add: julian_from_def gregorian_from_def julian_assign_def date_assign_def date_eq_def)
qed

theorem date_conversion_witness:
  "gregorian_from mod_julian_day_j (julian_from mod_julian_day (mkdate 2000 1 1)) = mkdate 2000 1 1 \<and>
   week_day_name (mkdate 2000 1 1) = Some ''saturday''"
proof -
  have m: "mod_julian_day (mkdate 2000 1 1) = 51544" by code_simp
  have "greg.proper (mkdate 2000 1 1)" unfolding greg.proper_def m by (simp add: valid_date_def month_length_def rank_def)
  then show ?thesis using date_conversion [of "mkdate 2000 1 1"] m by simp
qed

text \<open>\<^verbatim>\<open>add_month\<close> goes to the same day of the next month if there is one, and otherwise 30 days on; \<open>k\<close> months later is
  between \<open>28 k\<close> and \<open>31 k\<close> days later; \<^verbatim>\<open>sub_month\<close> undoes a step to the same day; \<^verbatim>\<open>add_year\<close> makes a valid date. The same
  of the Julian calendar.
\<close>

theorem date_months:
  assumes "greg.proper d" and "mod_julian_day d + 31 * int (Suc k) < 1073741824"
    and "jul.proper e" and "mod_julian_day_j e + 31 * int (Suc k) < 1073741824"
  shows "add_month d = (if valid_date leap_spec (next_month d) then next_month d
      else date_plus mod_julian_day adjust_date_from_mjd 30 d) \<and>
    28 * int k \<le> date_diff mod_julian_day mod_julian_day (add_month_n (int k) d) d \<and>
    date_diff mod_julian_day mod_julian_day (add_month_n (int k) d) d \<le> 31 * int k \<and>
    valid_date leap_spec (add_month_n (int k) d) \<and>
    (valid_date leap_spec (next_month d) \<longrightarrow> sub_month (add_month d) = d) \<and> valid_date leap_spec (add_year_n n d) \<and>
    add_month_j e = (if valid_date (\<lambda>y. 4 dvd y) (next_month e) then next_month e
      else date_plus mod_julian_day_j adjust_date_from_mjd_j 30 e) \<and>
    28 * int k \<le> date_diff mod_julian_day_j mod_julian_day_j (add_month_n_j (int k) e) e \<and>
    date_diff mod_julian_day_j mod_julian_day_j (add_month_n_j (int k) e) e \<le> 31 * int k \<and>
    valid_date (\<lambda>y. 4 dvd y) (add_month_n_j (int k) e) \<and>
    (valid_date (\<lambda>y. 4 dvd y) (next_month e) \<longrightarrow> sub_month_j (add_month_j e) = e) \<and> valid_date (\<lambda>y. 4 dvd y) (add_year_n_j n e)"
proof -
  have d: "valid_date leap_spec d" "1 \<le> curr_month d" and e: "valid_date leap_jul e" "1 \<le> curr_month e"
    using assms(1,3) by (auto simp: greg.proper_def jul.proper_def valid_date_def)
  have k: "mod_julian_day d + 31 * int k < mjd_limit" "mod_julian_day_j e + 31 * int k < mjd_limit" using assms(2,4) by auto
  note g = greg.months_pow [OF add_month_next assms(1) k(1)] and j = jul.months_pow [OF add_month_j_next assms(3) k(2)]
  have "sub_month (add_month d) = d" if "valid_date leap_spec (next_month d)"
    using add_month_next [OF d(1)] sub_month_prev [OF that] that d by (simp add: prev_next_month)
  moreover have "sub_month_j (add_month_j e) = e" if "valid_date leap_jul (next_month e)"
    using add_month_j_next [OF e(1)] sub_month_j_prev [OF that] that e by (simp add: prev_next_month)
  ultimately show ?thesis
    using g j add_month_next [OF d(1)] add_month_j_next [OF e(1)] add_year_n_valid [OF d(1)] add_year_n_j_valid [OF e(1)]
    by (simp add: add_month_n_def add_month_n_j_def date_diff_def greg.proper_def jul.proper_def)
qed

theorem date_months_witness:
  "add_month (mkdate 2000 1 29) = mkdate 2000 2 29 \<and> sub_month (add_month (mkdate 2000 1 29)) = mkdate 2000 1 29 \<and>
   add_month_j (mkdate 1900 1 29) = mkdate 1900 2 29 \<and> valid_date leap_spec (add_year_n 1 (mkdate 2000 1 29))"
proof -
  have m: "mod_julian_day (mkdate 2000 1 29) = 51572" "mod_julian_day_j (mkdate 1900 1 29) = 15060" by code_simp+
  have p: "greg.proper (mkdate 2000 1 29)" "jul.proper (mkdate 1900 1 29)"
    unfolding greg.proper_def jul.proper_def m by (simp_all add: valid_date_def month_length_def rank_def)
  have n: "next_month (mkdate 2000 1 29) = mkdate 2000 2 29" "next_month (mkdate 1900 1 29) = mkdate 1900 2 29"
    "valid_date leap_spec (mkdate 2000 2 29)" "valid_date leap_jul (mkdate 1900 2 29)"
    by (simp_all add: next_month_def valid_date_def month_length_def leap_spec_def)
  show ?thesis using date_months [OF p(1) _ p(2), where k = 1 and n = 1] m n by auto
qed

text \<open>
  C40. The conversion of \<^verbatim>\<open>jd-2400000.5\<close> to an integer cuts off towards zero: a date \<open>n\<close> days before 17 November 1858 has
  the day number \<open>1 - n\<close> and not \<open>- n\<close>. So 16 and 17 November 1858 compare equal and \<^verbatim>\<open>++\<close> takes 16 November to
  18 November, although the constructor accepts these dates.
\<close>

theorem gregorian_before_epoch:
  assumes "gregorian_ymd y m d = Inr x" and "(next_day leap_spec ^^ n) x = mkdate 1858 11 17" and "0 < n" and "n < 1000"
  shows "mod_julian_day x = 1 - int n \<and> mod_julian_day (mkdate 1858 11 17) = 0 \<and>
    (n = 1 \<longrightarrow> date_eq mod_julian_day mod_julian_day x (mkdate 1858 11 17) \<and>
      date_inc mod_julian_day adjust_date_from_mjd x = next_day leap_spec (next_day leap_spec x))"
proof -
  have x: "valid_date leap_spec x" "1 \<le> curr_year x" using assms(1) by (auto simp: gregorian_ymd_ok)
  have "jd_of (mkdate 1858 11 17) = 2400001" by (simp add: jd_of_def march_year_def march_month_of_def greg_jd_def)
  then have "jd_of x = 2400001 - int n" using jd_next_pow [OF x(1), of n] assms(2) by simp
  then have m: "mod_julian_day x = 1 - int n" using assms(3,4) x by (intro mod_julian_day_below) auto
  have "date_inc mod_julian_day adjust_date_from_mjd x = next_day leap_spec (next_day leap_spec x)" if "n = 1"
    using greg.adjust_civil [of 1] m assms(2) that by (simp add: date_inc_def civil_def)
  then show ?thesis using m greg.first_ok(3) by (simp add: date_eq_def)
qed

theorem gregorian_before_epoch_witness:
  "date_eq mod_julian_day mod_julian_day (mkdate 1858 11 16) (mkdate 1858 11 17) \<and>
   date_inc mod_julian_day adjust_date_from_mjd (mkdate 1858 11 16) = mkdate 1858 11 18"
  using gregorian_before_epoch [of 1858 11 16 "mkdate 1858 11 16" 1]
  by (simp add: gregorian_ymd_ok valid_date_def month_length_def next_day_def)

end
