(* ===== verification/Calls.thy ===== *)
theory Calls
  imports Prelude
begin

text \<open>Sequences of calls of an interface, and the interface of a component that implements another one call by call.\<close>

fun calls :: "('o \<Rightarrow> 's \<Rightarrow> 'r \<times> 's) \<Rightarrow> 'o list \<Rightarrow> 's \<Rightarrow> 'r list \<times> 's" where
  "calls f [] s = ([], s)"
| "calls f (x # xs) s = (case f x s of (r, s1) \<Rightarrow> case calls f xs s1 of (rs, s2) \<Rightarrow> (r # rs, s2))"

locale call_refinement =
  fixes impl :: "'o \<Rightarrow> 's \<Rightarrow> 'r \<times> 's" and spec :: "'o \<Rightarrow> 'a \<Rightarrow> 'r \<times> 'a" and abs :: "'s \<Rightarrow> 'a"
    and inv :: "'s \<Rightarrow> bool" and ok :: "'o \<Rightarrow> bool"
  assumes step: "inv s \<Longrightarrow> ok x \<Longrightarrow> inv (snd (impl x s)) \<and> map_prod id abs (impl x s) = spec x (abs s)"
begin

lemma calls_refine:
  "inv s \<Longrightarrow> list_all ok xs \<Longrightarrow>
     inv (snd (calls impl xs s)) \<and> map_prod id abs (calls impl xs s) = calls spec xs (abs s)"
proof (induction xs arbitrary: s)
  case (Cons x xs)
  obtain r s1 where 1: "impl x s = (r, s1)" by fastforce
  have s: "inv s1" "spec x (abs s) = (r, abs s1)" using step [OF Cons.prems(1), of x] Cons.prems(2) 1 by auto
  obtain rs s2 where 2: "calls impl xs s1 = (rs, s2)" by fastforce
  show ?case using Cons.IH [OF s(1)] Cons.prems(2) by (simp add: 1 2 s(2)) (auto split: prod.splits)
qed simp

lemma calls_result:
  assumes "inv s" and "list_all ok xs" and "calls impl xs s = (rs, s')"
  shows "inv s'" and "calls spec xs (abs s) = (rs, abs s')"
  using calls_refine [OF assms(1,2)] assms(3) by auto

end

end
