(* ===== verification/Calendar.thy ===== *)
theory Calendar
  imports Dates Calls
begin

text \<open>
  \<^verbatim>\<open>cpp-code/date/includes/calendar.h\<close>: the class template \<^verbatim>\<open>Calendar<C>\<close>. The parameter \<^verbatim>\<open>C\<close> is given by the function that
  numbers its days, its constructor from year, month and day, and its output; an exception of the constructor is \<open>Inl\<close>. The
  default constructor of \<^verbatim>\<open>C\<close> that fills a variable before it is assigned has no effect once the calendar exists (the
  clock, once set, stays set), so that only the constructor of the calendar can fail in it.
\<close>

record event =
  event_date :: date
  event_str :: string

record calendar =
  events :: "event list"
  current_date :: date

abbreviation mkevent :: "date \<Rightarrow> string \<Rightarrow> event" where
  "mkevent d s \<equiv> \<lparr>event_date = d, event_str = s\<rparr>"

type_synonym cons = "int \<Rightarrow> int \<Rightarrow> int \<Rightarrow> date_error + date"

section \<open>Events\<close>

definition event_eq :: "(date \<Rightarrow> int) \<Rightarrow> event \<Rightarrow> event \<Rightarrow> bool" where
  "event_eq mjd this event \<longleftrightarrow>
     (if date_eq mjd mjd (event_date event) (event_date this) \<and> event_str event = event_str this then True else False)"

text \<open>The order of \<^verbatim>\<open>std::string\<close>, by the codes of the characters.\<close>

fun str_less :: "string \<Rightarrow> string \<Rightarrow> bool" where
  "str_less s [] \<longleftrightarrow> False"
| "str_less [] (y # ys) \<longleftrightarrow> True"
| "str_less (x # xs) (y # ys) \<longleftrightarrow> (of_char x :: nat) < of_char y \<or> x = y \<and> str_less xs ys"

definition event_less :: "(date \<Rightarrow> int) \<Rightarrow> event \<Rightarrow> event \<Rightarrow> bool" where
  "event_less mjd this e \<longleftrightarrow>
     (if date_lt mjd mjd (event_date this) (event_date e) then True
      else if date_gt mjd mjd (event_date this) (event_date e) then False
      else str_less (event_str this) (event_str e))"

definition event_out :: "(date \<Rightarrow> string) \<Rightarrow> event \<Rightarrow> string" where
  "event_out str e = str (event_date e) @ '' : '' @ event_str e"

section \<open>The calendar\<close>

definition calendar_new :: "date option \<Rightarrow> calendar option" where
  "calendar_new now = map_option (\<lambda>d. \<lparr>events = [], current_date = d\<rparr>) now"

definition set_date :: "cons \<Rightarrow> int \<Rightarrow> int \<Rightarrow> int \<Rightarrow> calendar \<Rightarrow> bool \<times> calendar" where
  "set_date ctor year month day c =
     (case ctor year month day of
        Inl _ \<Rightarrow> (False, c)
      | Inr date \<Rightarrow> (True, c\<lparr>current_date := date\<rparr>))"

definition get_date :: "calendar \<Rightarrow> date" where
  "get_date c = current_date c"

text \<open>The loop of \<^verbatim>\<open>add_event\<close>: the result and the list after it.\<close>

fun add_loop :: "(date \<Rightarrow> int) \<Rightarrow> string \<Rightarrow> date \<Rightarrow> event list \<Rightarrow> bool \<times> event list" where
  "add_loop mjd str date [] = (True, [mkevent date str])"
| "add_loop mjd str date (event # it) =
     (if date_eq mjd mjd (event_date event) date \<and> event_str event = str then (False, event # it)
      else if date_gt mjd mjd (event_date event) date then (True, mkevent date str # event # it)
      else case add_loop mjd str date it of (r, it') \<Rightarrow> (r, event # it'))"

definition add_event :: "(date \<Rightarrow> int) \<Rightarrow> string \<Rightarrow> date \<Rightarrow> calendar \<Rightarrow> bool \<times> calendar" where
  "add_event mjd str date c = (case add_loop mjd str date (events c) of (r, es) \<Rightarrow> (r, c\<lparr>events := es\<rparr>))"

definition add_event_d :: "(date \<Rightarrow> int) \<Rightarrow> cons \<Rightarrow> string \<Rightarrow> int \<Rightarrow> calendar \<Rightarrow> bool \<times> calendar" where
  "add_event_d mjd ctor str day c =
     (case ctor (curr_year (current_date c)) (curr_month (current_date c)) day of
        Inl _ \<Rightarrow> (False, c) | Inr date \<Rightarrow> add_event mjd str date c)"

definition add_event_dm :: "(date \<Rightarrow> int) \<Rightarrow> cons \<Rightarrow> string \<Rightarrow> int \<Rightarrow> int \<Rightarrow> calendar \<Rightarrow> bool \<times> calendar" where
  "add_event_dm mjd ctor str day month c =
     (case ctor (curr_year (current_date c)) month day of
        Inl _ \<Rightarrow> (False, c) | Inr date \<Rightarrow> add_event mjd str date c)"

definition add_event_dmy :: "(date \<Rightarrow> int) \<Rightarrow> cons \<Rightarrow> string \<Rightarrow> int \<Rightarrow> int \<Rightarrow> int \<Rightarrow> calendar \<Rightarrow> bool \<times> calendar" where
  "add_event_dmy mjd ctor str day month year c =
     (case ctor year month day of
        Inl _ \<Rightarrow> (False, c) | Inr date \<Rightarrow> add_event mjd str date c)"

text \<open>
  The loop of \<^verbatim>\<open>remove_event\<close> looks for the first event that matches; \<^verbatim>\<open>list::remove\<close> then deletes every event equal to it.
\<close>

fun remove_loop :: "(date \<Rightarrow> int) \<Rightarrow> string \<Rightarrow> date \<Rightarrow> event list \<Rightarrow> event list \<Rightarrow> bool \<times> event list" where
  "remove_loop mjd str date es [] = (False, es)"
| "remove_loop mjd str date es (event # it) =
     (if date_eq mjd mjd (event_date event) date \<and> event_str event = str
      then (True, filter (\<lambda>x. \<not> event_eq mjd x event) es)
      else remove_loop mjd str date es it)"

definition remove_event :: "(date \<Rightarrow> int) \<Rightarrow> string \<Rightarrow> date \<Rightarrow> calendar \<Rightarrow> bool \<times> calendar" where
  "remove_event mjd str date c =
     (case remove_loop mjd str date (events c) (events c) of (r, es) \<Rightarrow> (r, c\<lparr>events := es\<rparr>))"

definition remove_event_d :: "(date \<Rightarrow> int) \<Rightarrow> cons \<Rightarrow> string \<Rightarrow> int \<Rightarrow> calendar \<Rightarrow> bool \<times> calendar" where
  "remove_event_d mjd ctor str day c =
     (case ctor (curr_year (current_date c)) (curr_month (current_date c)) day of
        Inl _ \<Rightarrow> (False, c) | Inr date \<Rightarrow> remove_event mjd str date c)"

definition remove_event_md :: "(date \<Rightarrow> int) \<Rightarrow> cons \<Rightarrow> string \<Rightarrow> int \<Rightarrow> int \<Rightarrow> calendar \<Rightarrow> bool \<times> calendar" where
  "remove_event_md mjd ctor str month day c =
     (case ctor (curr_year (current_date c)) month day of
        Inl _ \<Rightarrow> (False, c) | Inr date \<Rightarrow> remove_event mjd str date c)"

definition remove_event_ymd :: "(date \<Rightarrow> int) \<Rightarrow> cons \<Rightarrow> string \<Rightarrow> int \<Rightarrow> int \<Rightarrow> int \<Rightarrow> calendar \<Rightarrow> bool \<times> calendar" where
  "remove_event_ymd mjd ctor str year month day c =
     (case ctor year month day of
        Inl _ \<Rightarrow> (False, c) | Inr date \<Rightarrow> remove_event mjd str date c)"

definition all_events :: "calendar \<Rightarrow> event list" where
  "all_events c = events c"

fun later_loop :: "(date \<Rightarrow> int) \<Rightarrow> date \<Rightarrow> event list \<Rightarrow> event list \<Rightarrow> event list" where
  "later_loop mjd cur ll [] = ll"
| "later_loop mjd cur ll (event # it) =
     later_loop mjd cur (if date_gt mjd mjd (event_date event) cur then ll @ [event] else ll) it"

definition date_events :: "(date \<Rightarrow> int) \<Rightarrow> calendar \<Rightarrow> event list" where
  "date_events mjd c = later_loop mjd (current_date c) [] (events c)"

fun out_loop :: "(date \<Rightarrow> int) \<Rightarrow> (date \<Rightarrow> string) \<Rightarrow> date \<Rightarrow> event list \<Rightarrow> string \<Rightarrow> string" where
  "out_loop mjd str cur [] os = os"
| "out_loop mjd str cur (event # it) os =
     out_loop mjd str cur it (if date_gt mjd mjd (event_date event) cur then os @ event_out str event @ [NEWLINE] else os)"

definition calendar_out :: "(date \<Rightarrow> int) \<Rightarrow> (date \<Rightarrow> string) \<Rightarrow> string \<Rightarrow> calendar \<Rightarrow> string" where
  "calendar_out mjd str os d = out_loop mjd str (current_date d) (events d) os"

section \<open>What the list of events promises\<close>

text \<open>
  A book of entries, each a day number and a text: adding tells whether the entry is new, removing whether it was there, and
  the order of the entries is kept.
\<close>

locale event_book =
  fixes add remove :: "'d \<Rightarrow> string \<Rightarrow> 'c \<Rightarrow> bool \<times> 'c" and day :: "'d \<Rightarrow> int" and items :: "'c \<Rightarrow> (int \<times> string) set"
    and inv :: "'c \<Rightarrow> bool"
  assumes add_inv: "inv c \<Longrightarrow> inv (snd (add d s c))"
    and add_items: "inv c \<Longrightarrow> items (snd (add d s c)) = insert (day d, s) (items c)"
    and add_result: "inv c \<Longrightarrow> fst (add d s c) \<longleftrightarrow> (day d, s) \<notin> items c"
    and remove_inv: "inv c \<Longrightarrow> inv (snd (remove d s c))"
    and remove_items: "inv c \<Longrightarrow> items (snd (remove d s c)) = items c - {(day d, s)}"
    and remove_result: "inv c \<Longrightarrow> fst (remove d s c) \<longleftrightarrow> (day d, s) \<in> items c"
begin

lemma add_again: "inv c \<Longrightarrow> \<not> fst (add d s (snd (add d s c))) \<and> items (snd (add d s (snd (add d s c)))) = items (snd (add d s c))"
  by (simp add: add_inv add_items add_result)

lemma remove_added:
  "inv c \<Longrightarrow> fst (add d s c) \<Longrightarrow> fst (remove d s (snd (add d s c))) \<and> items (snd (remove d s (snd (add d s c)))) = items c"
  by (simp add: add_inv add_items add_result remove_items remove_result)

lemma remove_again: "inv c \<Longrightarrow> \<not> fst (remove d s (snd (remove d s c)))"
  by (simp add: remove_inv remove_items remove_result)

lemmas laws = add_inv add_items add_result remove_inv remove_items remove_result

end

definition event_key :: "(date \<Rightarrow> int) \<Rightarrow> event \<Rightarrow> int \<times> string" where
  "event_key mjd e = (mjd (event_date e), event_str e)"

definition cal_items :: "(date \<Rightarrow> int) \<Rightarrow> calendar \<Rightarrow> (int \<times> string) set" where
  "cal_items mjd c = event_key mjd ` set (events c)"

text \<open>The events are in the order of their dates, and none is there twice.\<close>

definition cal_ok :: "(date \<Rightarrow> int) \<Rightarrow> calendar \<Rightarrow> bool" where
  "cal_ok mjd c \<longleftrightarrow> sorted (map (\<lambda>e. mjd (event_date e)) (events c)) \<and> distinct (map (event_key mjd) (events c))"

lemma add_loop_spec:
  assumes "sorted (map (\<lambda>e. mjd (event_date e)) es)" and "distinct (map (event_key mjd) es)"
    and "add_loop mjd s d es = (r, es')"
  shows "sorted (map (\<lambda>e. mjd (event_date e)) es') \<and> distinct (map (event_key mjd) es') \<and>
    event_key mjd ` set es' = insert (mjd d, s) (event_key mjd ` set es) \<and> (r \<longleftrightarrow> (mjd d, s) \<notin> event_key mjd ` set es) \<and>
    set es' \<subseteq> insert (mkevent d s) (set es)"
  using assms
proof (induction es arbitrary: r es')
  case (Cons e es)
  have k: "event_key mjd e = (mjd d, s) \<longleftrightarrow> mjd (event_date e) = mjd d \<and> event_str e = s" by (simp add: event_key_def)
  consider (same) "event_key mjd e = (mjd d, s)" | (later) "mjd d < mjd (event_date e)"
    | (earlier) "event_key mjd e \<noteq> (mjd d, s)" "mjd (event_date e) \<le> mjd d" by fastforce
  then show ?case
  proof cases
    case same
    then have "r = False" "es' = e # es" using Cons.prems(3) k by (auto simp: date_eq_def)
    then show ?thesis using same Cons.prems(1,2) by auto
  next
    case later
    then have "r = True" "es' = mkevent d s # e # es" using Cons.prems(3) by (auto simp: date_eq_def date_gt_def)
    moreover have "(mjd d, s) \<notin> event_key mjd ` set (e # es)"
      using later Cons.prems(1) by (auto simp: event_key_def)
    ultimately show ?thesis using later Cons.prems(1,2) by (auto simp: event_key_def)
  next
    case earlier
    then obtain es1 where 1: "add_loop mjd s d es = (r, es1)" "es' = e # es1"
      using Cons.prems(3) k by (auto simp: date_eq_def date_gt_def split: prod.splits)
    note IH = Cons.IH [OF _ _ 1(1)]
    have "\<forall>x \<in> set es1. mjd (event_date e) \<le> mjd (event_date x)" using IH Cons.prems(1,2) earlier(2) by auto
    moreover have "event_key mjd e \<notin> event_key mjd ` set es1" using IH Cons.prems(1,2) earlier(1) by auto
    ultimately show ?thesis using IH Cons.prems(1,2) earlier(1) 1(2) by auto
  qed
qed (auto simp: event_key_def)

lemma remove_loop_spec:
  "remove_loop mjd s d es it =
     (if (mjd d, s) \<in> event_key mjd ` set it then (True, filter (\<lambda>e. event_key mjd e \<noteq> (mjd d, s)) es) else (False, es))"
proof (induction it)
  case (Cons e it)
  show ?case
  proof (cases "event_key mjd e = (mjd d, s)")
    case True
    then show ?thesis by (auto simp: event_key_def event_eq_def date_eq_def intro!: filter_cong)
  next
    case False
    then show ?thesis using Cons by (auto simp: event_key_def date_eq_def)
  qed
qed simp

lemma image_filter_neq: "f ` {x \<in> A. f x \<noteq> k} = f ` A - {k}"
  by auto

lemma cal_frame [simp]:
  "current_date (snd (add_event mjd s d c)) = current_date c" "current_date (snd (remove_event mjd s d c)) = current_date c"
  by (simp_all add: add_event_def remove_event_def split: prod.splits)

interpretation cal: event_book "\<lambda>d s. add_event mjd s d" "\<lambda>d s. remove_event mjd s d" mjd "cal_items mjd" "cal_ok mjd"
  for mjd :: "date \<Rightarrow> int"
proof unfold_locales
  fix c :: calendar and d :: date and s :: string
  assume c: "cal_ok mjd c"
  obtain r es where a: "add_loop mjd s d (events c) = (r, es)" by fastforce
  have "add_event mjd s d c = (r, c\<lparr>events := es\<rparr>)" using a by (simp add: add_event_def)
  then show "cal_ok mjd (snd (add_event mjd s d c))" "cal_items mjd (snd (add_event mjd s d c)) = insert (mjd d, s) (cal_items mjd c)"
    "fst (add_event mjd s d c) \<longleftrightarrow> (mjd d, s) \<notin> cal_items mjd c"
    using add_loop_spec [OF _ _ a] c by (auto simp: cal_ok_def cal_items_def)
  show "cal_ok mjd (snd (remove_event mjd s d c))"
    using c by (simp add: remove_event_def remove_loop_spec cal_ok_def sorted_filter distinct_map_filter)
  show "cal_items mjd (snd (remove_event mjd s d c)) = cal_items mjd c - {(mjd d, s)}"
    by (simp add: remove_event_def remove_loop_spec cal_items_def image_filter_neq)
  show "fst (remove_event mjd s d c) \<longleftrightarrow> (mjd d, s) \<in> cal_items mjd c"
    by (simp add: remove_event_def remove_loop_spec cal_items_def)
qed

lemma later_loop_filter: "later_loop mjd cur ll es = ll @ filter (\<lambda>e. mjd cur < mjd (event_date e)) es"
  by (induction es arbitrary: ll) (simp_all add: date_gt_def)

lemma out_loop_concat:
  "out_loop mjd str cur es os = os @ concat (map (\<lambda>e. event_out str e @ [NEWLINE]) (filter (\<lambda>e. mjd cur < mjd (event_date e)) es))"
  by (induction es arbitrary: os) (simp_all add: date_gt_def)

section \<open>The calls of a calendar\<close>

text \<open>The member functions that change a calendar, and what each does to the current date and the set of entries.\<close>

datatype cal_call =
    Set_date int int int
  | Add string date
  | Add_d string int
  | Add_dm string int int
  | Add_dmy string int int int
  | Remove string date
  | Remove_d string int
  | Remove_md string int int
  | Remove_ymd string int int int

primrec cal_do :: "(date \<Rightarrow> int) \<Rightarrow> cons \<Rightarrow> cal_call \<Rightarrow> calendar \<Rightarrow> bool \<times> calendar" where
  "cal_do mjd ctor (Set_date y m d) c = set_date ctor y m d c"
| "cal_do mjd ctor (Add s d) c = add_event mjd s d c"
| "cal_do mjd ctor (Add_d s d) c = add_event_d mjd ctor s d c"
| "cal_do mjd ctor (Add_dm s d m) c = add_event_dm mjd ctor s d m c"
| "cal_do mjd ctor (Add_dmy s d m y) c = add_event_dmy mjd ctor s d m y c"
| "cal_do mjd ctor (Remove s d) c = remove_event mjd s d c"
| "cal_do mjd ctor (Remove_d s d) c = remove_event_d mjd ctor s d c"
| "cal_do mjd ctor (Remove_md s m d) c = remove_event_md mjd ctor s m d c"
| "cal_do mjd ctor (Remove_ymd s y m d) c = remove_event_ymd mjd ctor s y m d c"

type_synonym agenda = "date \<times> (int \<times> string) set"

definition enter :: "(date \<Rightarrow> int) \<Rightarrow> string \<Rightarrow> date_error + date \<Rightarrow> agenda \<Rightarrow> bool \<times> agenda" where
  "enter mjd s x a = (case x of Inl _ \<Rightarrow> (False, a)
     | Inr d \<Rightarrow> ((mjd d, s) \<notin> snd a, (fst a, insert (mjd d, s) (snd a))))"

definition strike :: "(date \<Rightarrow> int) \<Rightarrow> string \<Rightarrow> date_error + date \<Rightarrow> agenda \<Rightarrow> bool \<times> agenda" where
  "strike mjd s x a = (case x of Inl _ \<Rightarrow> (False, a)
     | Inr d \<Rightarrow> ((mjd d, s) \<in> snd a, (fst a, snd a - {(mjd d, s)})))"

primrec agenda_do :: "(date \<Rightarrow> int) \<Rightarrow> cons \<Rightarrow> cal_call \<Rightarrow> agenda \<Rightarrow> bool \<times> agenda" where
  "agenda_do mjd ctor (Set_date y m d) a = (case ctor y m d of Inl _ \<Rightarrow> (False, a) | Inr x \<Rightarrow> (True, (x, snd a)))"
| "agenda_do mjd ctor (Add s d) a = enter mjd s (Inr d) a"
| "agenda_do mjd ctor (Add_d s d) a = enter mjd s (ctor (curr_year (fst a)) (curr_month (fst a)) d) a"
| "agenda_do mjd ctor (Add_dm s d m) a = enter mjd s (ctor (curr_year (fst a)) m d) a"
| "agenda_do mjd ctor (Add_dmy s d m y) a = enter mjd s (ctor y m d) a"
| "agenda_do mjd ctor (Remove s d) a = strike mjd s (Inr d) a"
| "agenda_do mjd ctor (Remove_d s d) a = strike mjd s (ctor (curr_year (fst a)) (curr_month (fst a)) d) a"
| "agenda_do mjd ctor (Remove_md s m d) a = strike mjd s (ctor (curr_year (fst a)) m d) a"
| "agenda_do mjd ctor (Remove_ymd s y m d) a = strike mjd s (ctor y m d) a"

definition agenda_of :: "(date \<Rightarrow> int) \<Rightarrow> calendar \<Rightarrow> agenda" where
  "agenda_of mjd c = (current_date c, cal_items mjd c)"

lemma add_enter:
  "cal_ok mjd c \<Longrightarrow> cal_ok mjd (snd (add_event mjd s d c)) \<and>
     map_prod id (agenda_of mjd) (add_event mjd s d c) = enter mjd s (Inr d) (agenda_of mjd c)"
  by (simp add: prod_eq_iff enter_def agenda_of_def cal.laws)

lemma remove_strike:
  "cal_ok mjd c \<Longrightarrow> cal_ok mjd (snd (remove_event mjd s d c)) \<and>
     map_prod id (agenda_of mjd) (remove_event mjd s d c) = strike mjd s (Inr d) (agenda_of mjd c)"
  by (simp add: prod_eq_iff strike_def agenda_of_def cal.laws)

lemma cal_do_agenda:
  assumes "cal_ok mjd c"
  shows "cal_ok mjd (snd (cal_do mjd ctor x c)) \<and> map_prod id (agenda_of mjd) (cal_do mjd ctor x c) = agenda_do mjd ctor x (agenda_of mjd c)"
proof -
  have e: "enter mjd s (Inl e) a = (False, a)" "strike mjd s (Inl e) a = (False, a)" for s e a
    by (simp_all add: enter_def strike_def)
  have f: "fst (agenda_of mjd c) = current_date c" by (simp add: agenda_of_def)
  have u: "cal_ok mjd (c\<lparr>current_date := d\<rparr>) = cal_ok mjd c" "agenda_of mjd (c\<lparr>current_date := d\<rparr>) = (d, snd (agenda_of mjd c))" for d
    by (simp_all add: cal_ok_def agenda_of_def cal_items_def)
  note defs = add_event_d_def add_event_dm_def add_event_dmy_def remove_event_d_def remove_event_md_def remove_event_ymd_def set_date_def
  show ?thesis using assms
    by (cases x) (auto simp: defs e f u add_enter remove_strike split: sum.splits)
qed

interpretation cal_calls: call_refinement "cal_do mjd ctor" "agenda_do mjd ctor" "agenda_of mjd" "cal_ok mjd" "\<lambda>_. True"
  for mjd ctor
  by unfold_locales (rule cal_do_agenda)

section \<open>The properties\<close>

lemma calendar_new_ok: "calendar_new now = Some c \<Longrightarrow> cal_ok mjd c \<and> agenda_of mjd c = (current_date c, {})"
  by (auto simp: calendar_new_def cal_ok_def agenda_of_def cal_items_def)

lemma ymd_day_31:
  assumes "31 < d"
  shows "\<exists>e. gregorian_ymd y m d = Inl e" and "\<exists>e. julian_ymd y m d = Inl e"
proof -
  have "month_length leap m' y' \<le> 31" for leap m' and y' :: int by (simp add: month_length_def)
  then have "\<not> valid_date leap (mkdate y m d)" for leap using assms by (simp add: valid_date_def) (metis not_less order_less_le_trans)
  then show "\<exists>e. gregorian_ymd y m d = Inl e" "\<exists>e. julian_ymd y m d = Inl e"
    using gregorian_ymd_ok [of y m d] julian_ymd_ok [of y m d] by (metis Inr_not_Inl sum.exhaust)+
qed

text \<open>
  \<^verbatim>\<open>add_event\<close> takes day, month and year, and \<^verbatim>\<open>remove_event\<close> year, month and day. The test driver gives both the day first; for
  a year after 31 the removal then always answers \<^verbatim>\<open>false\<close> and leaves the calendar as it was.
\<close>

lemma remove_day_first:
  assumes "31 < y"
  shows "remove_event_ymd mjd gregorian_ymd s d m y c = (False, c)" and "remove_event_ymd mjd julian_ymd s d m y c = (False, c)"
proof -
  obtain e f where "gregorian_ymd d m y = Inl e" "julian_ymd d m y = Inl f" using ymd_day_31 [OF assms] by blast
  then show "remove_event_ymd mjd gregorian_ymd s d m y c = (False, c)" "remove_event_ymd mjd julian_ymd s d m y c = (False, c)"
    by (simp_all add: remove_event_ymd_def)
qed

text \<open>
  C11. Any sequence of calls of the member functions, on a calendar of dates of any class, has the results and the effect that
  it has on a set of entries, each a day and a text: adding answers whether the entry is new, removing whether it was there,
  a date that does not exist changes nothing. The list stays in the order of the dates, without repetitions; \<^verbatim>\<open>date_events\<close>
  gives, in this order, the events after the current date, and the output writes these on a line each. The arguments are in
  the order in which \<^verbatim>\<open>calendar.h\<close> declares them, which is day, month, year for \<^verbatim>\<open>add_event\<close> and year, month, day for \<^verbatim>\<open>remove_event\<close>.
  The test driver \<^verbatim>\<open>cprog09lab23.cpp\<close> passes day, month, year to both, and its expected output \<^verbatim>\<open>lab23.out\<close> counts on that: with the code as
  it is, such a removal answers \<^verbatim>\<open>false\<close> and removes nothing, for both calendars and every year after 31.
\<close>

theorem calendar_refines_set:
  assumes "calendar_new now = Some c" and "calls (cal_do mjd ctor) xs c = (rs, c')"
  shows "calls (agenda_do mjd ctor) xs (get_date c, {}) = (rs, (get_date c', cal_items mjd c')) \<and>
    sorted (map (\<lambda>e. mjd (event_date e)) (all_events c')) \<and> distinct (map (event_key mjd) (all_events c')) \<and>
    date_events mjd c' = filter (\<lambda>e. mjd (get_date c') < mjd (event_date e)) (all_events c') \<and>
    calendar_out mjd str os c' = os @ concat (map (\<lambda>e. event_out str e @ [NEWLINE]) (date_events mjd c')) \<and>
    (ctor = gregorian_ymd \<or> ctor = julian_ymd \<longrightarrow> (\<forall>s day month year. 31 < year \<longrightarrow>
       cal_do mjd ctor (Remove_ymd s day month year) c' = (False, c')))"
proof -
  have "ctor = gregorian_ymd \<or> ctor = julian_ymd \<longrightarrow> (\<forall>s day month year. 31 < year \<longrightarrow>
       cal_do mjd ctor (Remove_ymd s day month year) c' = (False, c'))"
    by (auto simp: remove_day_first)
  then show ?thesis
    using cal_calls.calls_result [OF _ _ assms(2)] calendar_new_ok [OF assms(1), of mjd]
    by (simp add: list_all_iff get_date_def all_events_def date_events_def calendar_out_def later_loop_filter out_loop_concat
        agenda_of_def cal_ok_def)
qed

theorem calendar_refines_set_witness:
  "calls (agenda_do mod_julian_day_j julian_ymd) [Set_date 2000 1 1, Add_dm ''b'' 3 2, Add_dmy ''a'' 4 1 1999, Add_dm ''b'' 3 2]
     (mkdate 2012 5 6, {}) = ([True, True, True, False], (mkdate 2000 1 1, {(51590, ''b''), (51195, ''a'')}))"
proof -
  define c where "c = \<lparr>events = [], current_date = mkdate 2012 5 6\<rparr>"
  have n: "calendar_new (Some (mkdate 2012 5 6)) = Some c" by (simp add: calendar_new_def c_def)
  have m: "mod_julian_day_j (mkdate 2000 2 3) = 51590" "mod_julian_day_j (mkdate 1999 1 4) = 51195" by code_simp+
  have k: "julian_ymd 2000 1 1 = Inr (mkdate 2000 1 1)" "julian_ymd 2000 2 3 = Inr (mkdate 2000 2 3)"
    "julian_ymd 1999 1 4 = Inr (mkdate 1999 1 4)"
    by (simp_all add: julian_ymd_ok valid_date_def month_length_def)
  have r: "calls (cal_do mod_julian_day_j julian_ymd) [Set_date 2000 1 1, Add_dm ''b'' 3 2, Add_dmy ''a'' 4 1 1999, Add_dm ''b'' 3 2] c =
      ([True, True, True, False], \<lparr>events = [mkevent (mkdate 1999 1 4) ''a'', mkevent (mkdate 2000 2 3) ''b''], current_date = mkdate 2000 1 1\<rparr>)"
    by (simp add: c_def set_date_def add_event_dm_def add_event_dmy_def add_event_def k m date_eq_def date_gt_def)
  show ?thesis using calendar_refines_set [OF n r] by (auto simp: get_date_def c_def cal_items_def event_key_def m)
qed

end
