(* ===== verification/Rio.thy ===== *)
theory Rio
  imports Calls Cstring
begin

text \<open>
  \<^verbatim>\<open>csapp/code/src/csapp.c\<close>: the package for robust input and output (Rio). The system calls \<^verbatim>\<open>read\<close> and \<^verbatim>\<open>write\<close> on a
  descriptor take bytes from \<open>inp\<close> and put bytes to \<open>outp\<close>; a list of replies says what they do: transfer some
  of the bytes, fail because of a signal or for another reason, or transfer nothing. After the last reply they transfer
  all they can. A user buffer is the list of the bytes stored into it, from its beginning on. Sizes are natural numbers: a
  buffer has less than 2^31 bytes.
\<close>

datatype reply = Give nat | Intr | Fail int | Nought

record kern =
  inp :: string
  outp :: string
  replies :: "reply list"
  errno :: int

section \<open>The system calls\<close>

definition sys_read :: "nat \<Rightarrow> kern \<Rightarrow> int \<times> string \<times> kern" where
  "sys_read n k =
     (case replies k of
        [] \<Rightarrow> (let bs = take n (inp k) in (int (length bs), bs, k\<lparr>inp := drop n (inp k)\<rparr>))
      | Give m # rs \<Rightarrow>
          (let c = min n (Suc m); bs = take c (inp k)
           in (int (length bs), bs, k\<lparr>inp := drop c (inp k), replies := rs\<rparr>))
      | Intr # rs \<Rightarrow> (-1, [], k\<lparr>replies := rs, errno := EINTR\<rparr>)
      | Fail e # rs \<Rightarrow> (-1, [], k\<lparr>replies := rs, errno := e\<rparr>)
      | Nought # rs \<Rightarrow> (0, [], k\<lparr>replies := rs\<rparr>))"

definition sys_write :: "string \<Rightarrow> kern \<Rightarrow> int \<times> kern" where
  "sys_write bs k =
     (case replies k of
        [] \<Rightarrow> (int (length bs), k\<lparr>outp := outp k @ bs\<rparr>)
      | Give m # rs \<Rightarrow>
          (let c = min (length bs) (Suc m) in (int c, k\<lparr>outp := outp k @ take c bs, replies := rs\<rparr>))
      | Intr # rs \<Rightarrow> (-1, k\<lparr>replies := rs, errno := EINTR\<rparr>)
      | Fail e # rs \<Rightarrow> (-1, k\<lparr>replies := rs, errno := e\<rparr>)
      | Nought # rs \<Rightarrow> (0, k\<lparr>replies := rs\<rparr>))"

lemma sys_read_cases:
  assumes "sys_read n k = (r, bs, k1)"
  obtains (error) "r = -1" "bs = []" "inp k1 = inp k" "length (replies k1) < length (replies k)"
    | (data) "r = int (length bs)" "length bs \<le> n" "inp k = bs @ inp k1" "length (replies k1) \<le> length (replies k)"
proof -
  have "(r = -1 \<and> bs = [] \<and> inp k1 = inp k \<and> length (replies k1) < length (replies k)) \<or>
    (r = int (length bs) \<and> length bs \<le> n \<and> inp k = bs @ inp k1 \<and> length (replies k1) \<le> length (replies k))"
    using assms by (auto simp: sys_read_def Let_def split: list.splits reply.splits)
  then show thesis using error data by blast
qed

lemma fewer_left: "a \<noteq> [] \<Longrightarrow> length a \<le> n \<Longrightarrow> r' \<le> r \<Longrightarrow> n + r' - length a < n + r"
  by (cases a) auto

section \<open>Unbuffered\<close>

text \<open>A failed call because of a signal leaves \<^verbatim>\<open>nleft\<close> and \<^verbatim>\<open>bufp\<close> as they are.\<close>

function readn_loop :: "nat \<Rightarrow> nat \<Rightarrow> string \<Rightarrow> kern \<Rightarrow> int \<times> string \<times> kern" where
  "readn_loop n nleft buf k =
     (if nleft > 0 then
        (case sys_read nleft k of (nread, bs, k1) \<Rightarrow>
           if nread < 0 then (if errno k1 = EINTR then readn_loop n nleft buf k1 else (-1, buf, k1))
           else if nread = 0 then (int (n - nleft), buf, k1)
           else readn_loop n (nleft - nat nread) (buf @ bs) k1)
      else (int (n - nleft), buf, k))"
  by pat_completeness auto
termination
  by (relation "measure (\<lambda>(n, nleft, buf, k). nleft + length (replies k))")
    (auto elim!: sys_read_cases [OF sym] intro: fewer_left)

declare readn_loop.simps [simp del]

definition rio_readn :: "nat \<Rightarrow> kern \<Rightarrow> int \<times> string \<times> kern" where
  "rio_readn n k = readn_loop n n [] k"

function writen_loop :: "nat \<Rightarrow> string \<Rightarrow> kern \<Rightarrow> int \<times> kern" where
  "writen_loop n bufp k =
     (if length bufp > 0 then
        (case sys_write bufp k of (nwritten, k1) \<Rightarrow>
           if nwritten \<le> 0 then (if errno k1 = EINTR then writen_loop n bufp k1 else (-1, k1))
           else writen_loop n (drop (nat nwritten) bufp) k1)
      else (int n, k))"
  by pat_completeness auto
termination
  by (relation "measure (\<lambda>(n, bufp, k). length bufp + length (replies k))")
    (auto simp: sys_write_def Let_def split: list.splits reply.splits)

declare writen_loop.simps [simp del]

definition rio_writen :: "string \<Rightarrow> kern \<Rightarrow> int \<times> kern" where
  "rio_writen usrbuf k = writen_loop (length usrbuf) usrbuf k"

section \<open>Buffered\<close>

definition RIO_BUFSIZE :: nat where "RIO_BUFSIZE = 8192"

record rio =
  rio_cnt :: int
  rio_bufptr :: nat
  rio_buf :: string

text \<open>The loop of \<^verbatim>\<open>rio_read\<close>: \<open>Some r\<close> where it returns \<open>r\<close>.\<close>

function rio_fill :: "rio \<Rightarrow> kern \<Rightarrow> int option \<times> rio \<times> kern" where
  "rio_fill rp k =
     (if rio_cnt rp \<le> 0 then
        (case sys_read RIO_BUFSIZE k of (r, bs, k1) \<Rightarrow>
           let rp1 = rp\<lparr>rio_cnt := r, rio_buf := bs @ drop (length bs) (rio_buf rp)\<rparr> in
           if rio_cnt rp1 < 0 then (if errno k1 \<noteq> EINTR then (Some (-1), rp1, k1) else rio_fill rp1 k1)
           else if rio_cnt rp1 = 0 then (Some 0, rp1, k1)
           else rio_fill (rp1\<lparr>rio_bufptr := 0\<rparr>) k1)
      else (None, rp, k))"
  by pat_completeness auto
termination
  by (relation "measure (\<lambda>(rp, k). (if rio_cnt rp \<le> 0 then 1 else 0) + length (replies k))")
    (auto elim!: sys_read_cases [OF sym])

declare rio_fill.simps [simp del]

definition rio_read :: "rio \<Rightarrow> nat \<Rightarrow> kern \<Rightarrow> int \<times> string \<times> rio \<times> kern" where
  "rio_read rp n k =
     (case rio_fill rp k of
        (Some r, rp1, k1) \<Rightarrow> (r, [], rp1, k1)
      | (None, rp1, k1) \<Rightarrow>
          (let cnt = (if rio_cnt rp1 < int n then rio_cnt rp1 else int n)
           in (cnt, take (nat cnt) (drop (rio_bufptr rp1) (rio_buf rp1)),
               rp1\<lparr>rio_bufptr := rio_bufptr rp1 + nat cnt, rio_cnt := rio_cnt rp1 - cnt\<rparr>, k1)))"

definition rio_readinitb :: "rio \<Rightarrow> rio" where
  "rio_readinitb rp = rp\<lparr>rio_cnt := 0, rio_bufptr := 0\<rparr>"

lemma rio_fill_result:
  "rio_fill rp k = (res, rp1, k1) \<Longrightarrow>
     (res = None \<longrightarrow> 0 < rio_cnt rp1) \<and> (\<forall>r. res = Some r \<longrightarrow> r = 0 \<or> r = -1 \<and> errno k1 \<noteq> EINTR)"
proof (induction rp k rule: rio_fill.induct)
  case (1 rp k)
  show ?case
    using 1 by (subst (asm) (3) rio_fill.simps) (auto simp: Let_def split: prod.splits if_splits)
qed

lemma rio_read_progress:
  assumes "rio_read rp n k = (r, bs, rp1, k1)" and "0 < n"
  shows "r \<le> int n" and "r < 0 \<Longrightarrow> errno k1 \<noteq> EINTR"
  using assms rio_fill_result [of rp k]
  by (auto simp: rio_read_def Let_def split: prod.splits option.splits if_splits)

function readnb_loop :: "nat \<Rightarrow> nat \<Rightarrow> string \<Rightarrow> rio \<Rightarrow> kern \<Rightarrow> int \<times> string \<times> rio \<times> kern" where
  "readnb_loop n nleft buf rp k =
     (if nleft > 0 then
        (case rio_read rp nleft k of (nread, bs, rp1, k1) \<Rightarrow>
           if nread < 0 then (if errno k1 = EINTR then readnb_loop n nleft buf rp1 k1 else (-1, buf, rp1, k1))
           else if nread = 0 then (int (n - nleft), buf, rp1, k1)
           else readnb_loop n (nleft - nat nread) (buf @ bs) rp1 k1)
      else (int (n - nleft), buf, rp, k))"
  by pat_completeness auto
termination
  by (relation "measure (\<lambda>(n, nleft, buf, rp, k). nleft)") (auto dest: rio_read_progress [OF sym])

declare readnb_loop.simps [simp del]

definition rio_readnb :: "rio \<Rightarrow> nat \<Rightarrow> kern \<Rightarrow> int \<times> string \<times> rio \<times> kern" where
  "rio_readnb rp n k = readnb_loop n n [] rp k"

text \<open>The value at \<^verbatim>\<open>n\<close> of the loop of \<^verbatim>\<open>rio_readlineb\<close>; at its end the terminator is stored.\<close>

function readlineb_loop :: "nat \<Rightarrow> nat \<Rightarrow> string \<Rightarrow> rio \<Rightarrow> kern \<Rightarrow> int \<times> string \<times> rio \<times> kern" where
  "readlineb_loop maxlen n buf rp k =
     (if n < maxlen then
        (case rio_read rp 1 k of (rc, bs, rp1, k1) \<Rightarrow>
           if rc = 1 then
             (if bs = [NEWLINE] then (int n, buf @ bs @ [NUL], rp1, k1)
              else readlineb_loop maxlen (n + 1) (buf @ bs) rp1 k1)
           else if rc = 0 then
             (if n = 1 then (0, buf, rp1, k1) else (int n, buf @ [NUL], rp1, k1))
           else (-1, buf, rp1, k1))
      else (int n, buf @ [NUL], rp, k))"
  by pat_completeness auto
termination
  by (relation "measure (\<lambda>(maxlen, n, buf, rp, k). maxlen - n)") auto

declare readlineb_loop.simps [simp del]

definition rio_readlineb :: "rio \<Rightarrow> nat \<Rightarrow> kern \<Rightarrow> int \<times> string \<times> rio \<times> kern" where
  "rio_readlineb rp maxlen k = readlineb_loop maxlen 1 [] rp k"

section \<open>The wrappers\<close>

text \<open>\<open>None\<close>: \<^verbatim>\<open>unix_error\<close> ends the program.\<close>

definition Rio_readn :: "nat \<Rightarrow> kern \<Rightarrow> (int \<times> string \<times> kern) option" where
  "Rio_readn n k = (case rio_readn n k of (r, buf, k1) \<Rightarrow> if r < 0 then None else Some (r, buf, k1))"

definition Rio_writen :: "string \<Rightarrow> kern \<Rightarrow> kern option" where
  "Rio_writen usrbuf k = (case rio_writen usrbuf k of (r, k1) \<Rightarrow> if r \<noteq> int (length usrbuf) then None else Some k1)"

definition Rio_readinitb :: "rio \<Rightarrow> rio" where
  "Rio_readinitb rp = rio_readinitb rp"

definition Rio_readnb :: "rio \<Rightarrow> nat \<Rightarrow> kern \<Rightarrow> (int \<times> string \<times> rio \<times> kern) option" where
  "Rio_readnb rp n k = (case rio_readnb rp n k of (rc, buf, rp1, k1) \<Rightarrow> if rc < 0 then None else Some (rc, buf, rp1, k1))"

definition Rio_readlineb :: "rio \<Rightarrow> nat \<Rightarrow> kern \<Rightarrow> (int \<times> string \<times> rio \<times> kern) option" where
  "Rio_readlineb rp maxlen k = (case rio_readlineb rp maxlen k of (rc, buf, rp1, k1) \<Rightarrow> if rc < 0 then None else Some (rc, buf, rp1, k1))"

section \<open>The bytes not yet read\<close>

definition unread :: "rio \<Rightarrow> string" where
  "unread rp = take (nat (rio_cnt rp)) (drop (rio_bufptr rp) (rio_buf rp))"

definition pending :: "rio \<Rightarrow> kern \<Rightarrow> string" where
  "pending rp k = unread rp @ inp k"

definition rio_ok :: "rio \<Rightarrow> bool" where
  "rio_ok rp \<longleftrightarrow> length (rio_buf rp) = RIO_BUFSIZE \<and> rio_bufptr rp + nat (rio_cnt rp) \<le> RIO_BUFSIZE"

text \<open>A kernel whose calls do not fail but for signals, and transfer nothing only at the end of the file.\<close>

fun calm_reply :: "reply \<Rightarrow> bool" where
  "calm_reply (Give m) \<longleftrightarrow> True"
| "calm_reply Intr \<longleftrightarrow> True"
| "calm_reply (Fail e) \<longleftrightarrow> e = EINTR"
| "calm_reply Nought \<longleftrightarrow> False"

definition calm :: "kern \<Rightarrow> bool" where
  "calm k \<longleftrightarrow> (\<forall>r \<in> set (replies k). calm_reply r)"

lemma sys_read_calm:
  assumes "calm k" and "sys_read n k = (r, bs, k1)" and "0 < n"
  shows "calm k1" and "r < 0 \<Longrightarrow> errno k1 = EINTR" and "r = 0 \<Longrightarrow> inp k = []"
  using assms by (auto simp: sys_read_def calm_def Let_def min_def split: list.splits reply.splits if_splits)

lemma rio_fill_any:
  "rio_ok rp \<Longrightarrow> rio_fill rp k = (res, rp1, k1) \<Longrightarrow> rio_ok rp1 \<and> pending rp1 k1 = pending rp k"
proof (induction rp k rule: rio_fill.induct)
  case (1 rp k)
  show ?case
  proof (cases "rio_cnt rp \<le> 0")
    case True
    obtain r bs k2 where s: "sys_read RIO_BUFSIZE k = (r, bs, k2)" by (cases "sys_read RIO_BUFSIZE k")
    define rp2 where "rp2 = rp\<lparr>rio_cnt := r, rio_buf := bs @ drop (length bs) (rio_buf rp)\<rparr>"
    have f: "rio_fill rp k = (if r < 0 then (if errno k2 \<noteq> EINTR then (Some (-1), rp2, k2) else rio_fill rp2 k2)
       else if r = 0 then (Some 0, rp2, k2) else rio_fill (rp2\<lparr>rio_bufptr := 0\<rparr>) k2)"
      using True s by (subst rio_fill.simps) (simp add: rp2_def Let_def)
    have p: "pending rp k = inp k" using True by (simp add: pending_def unread_def)
    from s show ?thesis
    proof (cases rule: sys_read_cases)
      case error
      have 2: "rio_ok rp2" "pending rp2 k2 = pending rp k"
        using error "1.prems"(1) p by (auto simp: rp2_def rio_ok_def pending_def unread_def)
      then show ?thesis using "1.IH"(1) [OF True s [symmetric] refl refl] "1.prems"(2) f error by (auto simp: rp2_def split: if_splits)
    next
      case data
      define rp3 where "rp3 = rp2\<lparr>rio_bufptr := 0\<rparr>"
      have "length bs \<le> RIO_BUFSIZE" using data by simp
      then have 2: "rio_ok rp3" "pending rp3 k2 = pending rp k" "0 \<le> r"
        using data "1.prems"(1) p by (auto simp: rp2_def rp3_def rio_ok_def pending_def unread_def)
      have "rio_fill rp3 k2 = (None, rp3, k2)" if "0 < r"
        using that by (subst rio_fill.simps) (simp add: rp2_def rp3_def)
      moreover have "rio_ok rp2" "pending rp2 k2 = pending rp k" if "r = 0"
        using that data "1.prems"(1) p by (auto simp: rp2_def rio_ok_def pending_def unread_def)
      ultimately show ?thesis using f "1.prems"(2) 2 by (auto simp: rp3_def split: if_splits)
    qed
  next
    case False
    then show ?thesis using "1.prems" by (subst (asm) rio_fill.simps) simp
  qed
qed

lemma rio_fill_calm:
  "calm k \<Longrightarrow> rio_fill rp k = (res, rp1, k1) \<Longrightarrow> calm k1 \<and> (\<forall>r. res = Some r \<longrightarrow> r = 0 \<and> pending rp1 k1 = [])"
proof (induction rp k rule: rio_fill.induct)
  case (1 rp k)
  show ?case
  proof (cases "rio_cnt rp \<le> 0")
    case True
    obtain r bs k2 where s: "sys_read RIO_BUFSIZE k = (r, bs, k2)" by (cases "sys_read RIO_BUFSIZE k")
    define rp2 where "rp2 = rp\<lparr>rio_cnt := r, rio_buf := bs @ drop (length bs) (rio_buf rp)\<rparr>"
    have f: "rio_fill rp k = (if r < 0 then (if errno k2 \<noteq> EINTR then (Some (-1), rp2, k2) else rio_fill rp2 k2)
       else if r = 0 then (Some 0, rp2, k2) else rio_fill (rp2\<lparr>rio_bufptr := 0\<rparr>) k2)"
      using True s by (subst rio_fill.simps) (simp add: rp2_def Let_def)
    note c = sys_read_calm [OF "1.prems"(1) s]
    have "0 < RIO_BUFSIZE" by (simp add: RIO_BUFSIZE_def)
    note c = c [OF this]
    have "inp k2 = []" if "r = 0" using s c(3) [OF that] that by (cases rule: sys_read_cases) auto
    then have e: "pending rp2 k2 = []" if "r = 0" using that by (simp add: pending_def unread_def rp2_def)
    consider "r < 0" | "r = 0" | "0 < r" by linarith
    then show ?thesis
    proof cases
      case 1
      then have "rio_fill rp2 k2 = (res, rp1, k1)" using f c(2) "1.prems"(2) by simp
      then show ?thesis using "1.IH"(1) [OF True s [symmetric] refl refl] 1 c by (simp add: rp2_def)
    next
      case 2
      then show ?thesis using f c(1) e "1.prems"(2) by auto
    next
      case 3
      then have "rio_fill (rp2\<lparr>rio_bufptr := 0\<rparr>) k2 = (None, rp2\<lparr>rio_bufptr := 0\<rparr>, k2)"
        by (subst rio_fill.simps) (simp add: rp2_def)
      then show ?thesis using 3 f c(1) "1.prems"(2) by auto
    qed
  next
    case False
    then show ?thesis using "1.prems" by (subst (asm) rio_fill.simps) simp
  qed
qed

lemma unread_length: "rio_ok rp \<Longrightarrow> length (unread rp) = nat (rio_cnt rp)"
  by (auto simp: rio_ok_def unread_def)

lemma rio_read_any:
  assumes "rio_ok rp" and "rio_read rp n k = (r, bs, rp1, k1)"
  shows "rio_ok rp1" and "bs @ pending rp1 k1 = pending rp k" and "length bs \<le> n"
    and "r = -1 \<and> bs = [] \<and> errno k1 \<noteq> EINTR \<or> r = int (length bs)"
proof -
  obtain res rp2 k2 where f: "rio_fill rp k = (res, rp2, k2)" by (cases "rio_fill rp k")
  note a = rio_fill_any [OF assms(1) f] and b = rio_fill_result [OF f]
  have "rio_ok rp1 \<and> bs @ pending rp1 k1 = pending rp k \<and> length bs \<le> n \<and>
    (r = -1 \<and> bs = [] \<and> errno k1 \<noteq> EINTR \<or> r = int (length bs))"
  proof (cases res)
    case None
    define c where "c = nat (min (rio_cnt rp2) (int n))"
    have cnt: "0 < rio_cnt rp2" using b None by simp
    have e: "r = int c" "bs = take c (drop (rio_bufptr rp2) (rio_buf rp2))" "k1 = k2"
      "rp1 = rp2\<lparr>rio_bufptr := rio_bufptr rp2 + c, rio_cnt := rio_cnt rp2 - int c\<rparr>"
      using assms(2) f None cnt by (auto simp: rio_read_def Let_def c_def min_def split: if_splits)
    have c: "c \<le> nat (rio_cnt rp2)" "c \<le> n" using cnt by (auto simp: c_def)
    have l: "rio_bufptr rp2 + nat (rio_cnt rp2) \<le> length (rio_buf rp2)" using a by (simp add: rio_ok_def)
    have "bs @ unread rp1 = unread rp2"
    proof -
      have n: "nat (rio_cnt rp2 - int c) = nat (rio_cnt rp2) - c" using cnt by simp
      have "unread rp1 = take (nat (rio_cnt rp2) - c) (drop c (drop (rio_bufptr rp2) (rio_buf rp2)))"
        by (simp add: unread_def e(4) n add.commute)
      then show ?thesis unfolding e(2) unread_def using c(1)
        by (metis append_take_drop_id drop_take min.absorb1 take_take)
    qed
    moreover have "rio_ok rp1" using a c(1) by (auto simp: rio_ok_def e(4))
    moreover have "length bs = c" using l c(1) by (simp add: e(2))
    ultimately show ?thesis using a c(2) e(1,3) by (simp add: pending_def append_assoc [symmetric] del: append_assoc)
  next
    case (Some x)
    then have "r = x" "bs = []" "rp1 = rp2" "k1 = k2" using assms(2) f by (auto simp: rio_read_def)
    then show ?thesis using a b Some by auto
  qed
  then show "rio_ok rp1" "bs @ pending rp1 k1 = pending rp k" "length bs \<le> n"
    "r = -1 \<and> bs = [] \<and> errno k1 \<noteq> EINTR \<or> r = int (length bs)" by auto
qed

lemma rio_read_calm:
  assumes "rio_ok rp" and "calm k" and "rio_read rp n k = (r, bs, rp1, k1)" and "0 < n"
  shows "calm k1" and "r = int (length bs)" and "bs = [] \<Longrightarrow> pending rp k = []"
proof -
  obtain res rp2 k2 where f: "rio_fill rp k = (res, rp2, k2)" by (cases "rio_fill rp k")
  note c = rio_fill_calm [OF assms(2) f] and b = rio_fill_result [OF f] and a = rio_fill_any [OF assms(1) f]
  have "calm k1 \<and> r = int (length bs) \<and> (bs = [] \<longrightarrow> pending rp k = [])"
  proof (cases res)
    case None
    then have cnt: "0 < rio_cnt rp2" using b by simp
    have r: "0 < r" "k1 = k2" using assms(3,4) f None cnt by (auto simp: rio_read_def Let_def split: if_splits)
    then show ?thesis using c rio_read_any(4) [OF assms(1,3)] by auto
  next
    case (Some x)
    then have "r = x" "bs = []" "rp1 = rp2" "k1 = k2" using assms(3) f by (auto simp: rio_read_def)
    then show ?thesis using a c Some by auto
  qed
  then show "calm k1" "r = int (length bs)" "bs = [] \<Longrightarrow> pending rp k = []" by auto
qed

section \<open>Reading a number of bytes\<close>

lemma readnb_loop_any:
  "rio_ok rp \<Longrightarrow> nleft \<le> n \<Longrightarrow> readnb_loop n nleft buf rp k = (r, buf1, rp1, k1) \<Longrightarrow>
     rio_ok rp1 \<and> (\<exists>bs. buf1 = buf @ bs \<and> bs @ pending rp1 k1 = pending rp k \<and> length bs \<le> nleft \<and>
       (r = -1 \<or> r = int (n - nleft + length bs)) \<and>
       (calm k \<longrightarrow> calm k1 \<and> r \<noteq> -1 \<and> (length bs = nleft \<or> pending rp1 k1 = [])))"
proof (induction n nleft buf rp k arbitrary: r buf1 rp1 k1 rule: readnb_loop.induct)
  case (1 n nleft buf rp k)
  show ?case
  proof (cases "nleft = 0")
    case True
    then show ?thesis using "1.prems" by (subst (asm) readnb_loop.simps) auto
  next
    case False
    obtain q bs rp2 k2 where s: "rio_read rp nleft k = (q, bs, rp2, k2)" by (cases "rio_read rp nleft k")
    note a = rio_read_any [OF "1.prems"(1) s] and c = rio_read_calm [OF "1.prems"(1) _ s]
    have step: "readnb_loop n nleft buf rp k =
        (if q < 0 then (if errno k2 = EINTR then readnb_loop n nleft buf rp2 k2 else (-1, buf, rp2, k2))
         else if q = 0 then (int (n - nleft), buf, rp2, k2)
         else readnb_loop n (nleft - nat q) (buf @ bs) rp2 k2)"
      using False s by (subst readnb_loop.simps) simp
    consider (fail) "q = -1" "bs = []" "errno k2 \<noteq> EINTR" | (eof) "q = 0" "bs = []" | (some) "q = int (length bs)" "bs \<noteq> []"
      using a(4) by fastforce
    then show ?thesis
    proof cases
      case fail
      then have "r = -1" "buf1 = buf" "rp1 = rp2" "k1 = k2" using step "1.prems"(3) by auto
      moreover have "\<not> calm k" using c(2) fail False by auto
      ultimately show ?thesis using a fail by auto
    next
      case eof
      then have "r = int (n - nleft)" "buf1 = buf" "rp1 = rp2" "k1 = k2" using step "1.prems"(3) by auto
      moreover have "calm k \<Longrightarrow> calm k2 \<and> pending rp2 k2 = []" using c(1,3) a(2) eof False by auto
      ultimately show ?thesis using a eof by auto
    next
      case some
      then have q: "\<not> q < 0" "q \<noteq> 0" "nat q = length bs" by auto
      then have "readnb_loop n (nleft - length bs) (buf @ bs) rp2 k2 = (r, buf1, rp1, k1)"
        using step "1.prems"(3) by simp
      then have IH: "rio_ok rp1 \<and> (\<exists>bs'. buf1 = (buf @ bs) @ bs' \<and> bs' @ pending rp1 k1 = pending rp2 k2 \<and>
          length bs' \<le> nleft - length bs \<and> (r = -1 \<or> r = int (n - (nleft - length bs) + length bs')) \<and>
          (calm k2 \<longrightarrow> calm k1 \<and> r \<noteq> -1 \<and> (length bs' = nleft - length bs \<or> pending rp1 k1 = [])))"
        using "1.IH"(2) [OF _ s [symmetric] refl refl q(1,2)] False a(1) "1.prems"(2) q(3) by simp
      then obtain bs' where b: "buf1 = buf @ (bs @ bs')" "bs' @ pending rp1 k1 = pending rp2 k2"
          "length bs' \<le> nleft - length bs" "r = -1 \<or> r = int (n - (nleft - length bs) + length bs')"
          "calm k2 \<longrightarrow> calm k1 \<and> r \<noteq> -1 \<and> (length bs' = nleft - length bs \<or> pending rp1 k1 = [])" by auto
      have "(bs @ bs') @ pending rp1 k1 = pending rp k" using a(2) b(2) by simp
      moreover have "length (bs @ bs') \<le> nleft" "r = -1 \<or> r = int (n - nleft + length (bs @ bs'))"
        using b(3,4) a(3) "1.prems"(2) by auto
      moreover have "calm k \<longrightarrow> calm k1 \<and> r \<noteq> -1 \<and> (length (bs @ bs') = nleft \<or> pending rp1 k1 = [])"
        using b(5) c(1) a(3) False by auto
      ultimately show ?thesis using IH b(1) by blast
    qed
  qed
qed

lemma rio_readnb_any:
  assumes "rio_ok rp" and "rio_readnb rp n k = (r, bs, rp1, k1)"
  shows "rio_ok rp1" and "bs @ pending rp1 k1 = pending rp k" and "length bs \<le> n" and "r = -1 \<or> r = int (length bs)"
    and "calm k \<Longrightarrow> calm k1 \<and> r = int (length bs) \<and> bs = take n (pending rp k) \<and> pending rp1 k1 = drop n (pending rp k)"
proof -
  note l = readnb_loop_any [OF assms(1) order_refl assms(2) [unfolded rio_readnb_def]]
  then show p: "rio_ok rp1" "bs @ pending rp1 k1 = pending rp k" "length bs \<le> n" "r = -1 \<or> r = int (length bs)" by auto
  assume "calm k"
  then have c: "calm k1" "r = int (length bs)" "length bs = n \<or> pending rp1 k1 = []" using l p(4) by auto
  moreover have "bs = take n (pending rp k) \<and> pending rp1 k1 = drop n (pending rp k)"
    using c(3) p(3) unfolding p(2) [symmetric] by auto
  ultimately show "calm k1 \<and> r = int (length bs) \<and> bs = take n (pending rp k) \<and> pending rp1 k1 = drop n (pending rp k)" by simp
qed

section \<open>Reading a line\<close>

text \<open>What \<^verbatim>\<open>rio_readlineb\<close> takes off the bytes: up to the first newline, at most \<open>m\<close> bytes.\<close>

fun line :: "nat \<Rightarrow> string \<Rightarrow> string" where
  "line 0 s = []"
| "line (Suc m) [] = []"
| "line (Suc m) (c # s) = (if c = NEWLINE then [c] else c # line m s)"

definition ended :: "string \<Rightarrow> bool" where
  "ended l \<longleftrightarrow> l \<noteq> [] \<and> last l = NEWLINE"

lemma ended_Cons: "c \<noteq> NEWLINE \<Longrightarrow> ended (c # l) = ended l"
  by (auto simp: ended_def)

lemma line_prefix: "take (length (line m s)) s = line m s" "length (line m s) \<le> m"
  by (induction m s rule: line.induct) auto

lemma readlineb_loop_any:
  "rio_ok rp \<Longrightarrow> n \<le> maxlen \<Longrightarrow> 0 < n \<Longrightarrow> readlineb_loop maxlen n buf rp k = (r, buf1, rp1, k1) \<Longrightarrow>
     rio_ok rp1 \<and> (\<exists>bs t. buf1 = buf @ bs @ t \<and> bs @ pending rp1 k1 = pending rp k \<and> length (bs @ t) \<le> maxlen - n + 1 \<and>
       (t = [] \<or> t = [NUL]) \<and>
       (calm k \<longrightarrow> calm k1 \<and> bs = line (maxlen - n) (pending rp k) \<and>
         (if n = 1 \<and> n < maxlen \<and> pending rp k = [] then r = 0 \<and> t = []
          else t = [NUL] \<and> r = int (n + length bs) - (if ended bs then 1 else 0))))"
proof (induction maxlen n buf rp k arbitrary: r buf1 rp1 k1 rule: readlineb_loop.induct)
  case (1 maxlen n buf rp k)
  show ?case
  proof (cases "n < maxlen")
    case False
    then have "readlineb_loop maxlen n buf rp k = (int n, buf @ [NUL], rp, k)" by (subst readlineb_loop.simps) simp
    then show ?thesis using "1.prems" False by (auto simp: ended_def)
  next
    case True
    obtain q bs rp2 k2 where s: "rio_read rp 1 k = (q, bs, rp2, k2)" by (cases "rio_read rp 1 k")
    note a = rio_read_any [OF "1.prems"(1) s] and c = rio_read_calm [OF "1.prems"(1) _ s]
    have step: "readlineb_loop maxlen n buf rp k =
        (if q = 1 then (if bs = [NEWLINE] then (int n, buf @ bs @ [NUL], rp2, k2)
           else readlineb_loop maxlen (n + 1) (buf @ bs) rp2 k2)
         else if q = 0 then (if n = 1 then (0, buf, rp2, k2) else (int n, buf @ [NUL], rp2, k2))
         else (-1, buf, rp2, k2))"
      using True s by (subst readlineb_loop.simps) simp
    obtain m where m: "maxlen - n = Suc m" "maxlen - (n + 1) = m" using True by (metis Suc_diff_Suc Suc_eq_plus1)
    consider (fail) "q = -1" "bs = []" | (eof) "q = 0" "bs = []" | (some) ch where "q = 1" "bs = [ch]"
      using a(3,4) by (cases bs) auto
    then show ?thesis
    proof cases
      case fail
      then have "r = -1" "buf1 = buf" "rp1 = rp2" "k1 = k2" using step "1.prems"(4) by auto
      moreover have "\<not> calm k" using c(2) fail by auto
      ultimately show ?thesis using a fail by auto
    next
      case eof
      have e: "calm k \<Longrightarrow> calm k2 \<and> pending rp k = []" using c(1,3) eof by auto
      have x: "rp1 = rp2" "k1 = k2" "if n = 1 then r = 0 \<and> buf1 = buf else r = int n \<and> buf1 = buf @ [NUL]"
        using step "1.prems"(4) eof by (auto split: if_splits)
      show ?thesis using x e a(1,2) eof True m
        by (intro conjI exI [of _ "[]"] exI [of _ "if n = 1 then [] else [NUL]"]) (auto simp: ended_def)
    next
      case some
      then have p: "pending rp k = ch # pending rp2 k2" using a(2) by simp
      show ?thesis
      proof (cases "ch = NEWLINE")
        case nl: True
        then have "r = int n" "buf1 = buf @ [NEWLINE] @ [NUL]" "rp1 = rp2" "k1 = k2" using step "1.prems"(4) some by auto
        then show ?thesis using a(1,2) p c(1) nl m some
          by (intro conjI exI [of _ "[NEWLINE]"] exI [of _ "[NUL]"]) (auto simp: ended_def)
      next
        case nl: False
        then have "readlineb_loop maxlen (n + 1) (buf @ [ch]) rp2 k2 = (r, buf1, rp1, k1)" using step "1.prems"(4) some by simp
        then have IH: "rio_ok rp1 \<and> (\<exists>bs t. buf1 = (buf @ [ch]) @ bs @ t \<and> bs @ pending rp1 k1 = pending rp2 k2 \<and>
            length (bs @ t) \<le> maxlen - (n + 1) + 1 \<and> (t = [] \<or> t = [NUL]) \<and>
            (calm k2 \<longrightarrow> calm k1 \<and> bs = line (maxlen - (n + 1)) (pending rp2 k2) \<and>
              (if n + 1 = 1 \<and> n + 1 < maxlen \<and> pending rp2 k2 = [] then r = 0 \<and> t = []
               else t = [NUL] \<and> r = int (n + 1 + length bs) - (if ended bs then 1 else 0))))"
          using "1.IH" [OF True s [symmetric] refl refl] some nl a(1) True by simp
        from conjunct2 [OF IH] obtain bs' t where B: "buf1 = (buf @ [ch]) @ bs' @ t" "bs' @ pending rp1 k1 = pending rp2 k2"
            "length (bs' @ t) \<le> m + 1" "t = [] \<or> t = [NUL]"
            "calm k2 \<longrightarrow> calm k1 \<and> bs' = line m (pending rp2 k2) \<and>
              (if n + 1 = 1 \<and> n + 1 < maxlen \<and> pending rp2 k2 = [] then r = 0 \<and> t = []
               else t = [NUL] \<and> r = int (n + 1 + length bs') - (if ended bs' then 1 else 0))"
          unfolding m by (elim exE conjE) (rule that)
        have n1: "n + 1 \<noteq> 1" using "1.prems"(3) by simp
        have b: "buf1 = buf @ (ch # bs') @ t" "bs' @ pending rp1 k1 = pending rp2 k2" "length (bs' @ t) \<le> m + 1" "t = [] \<or> t = [NUL]"
            "calm k2 \<Longrightarrow> calm k1 \<and> bs' = line m (pending rp2 k2) \<and> t = [NUL] \<and> r = int (n + 1 + length bs') - (if ended bs' then 1 else 0)"
          using B n1 by (simp_all only: simp_thms if_False append_Cons append_Nil append_assoc)
        have C: "calm k \<longrightarrow> calm k1 \<and> ch # bs' = line (maxlen - n) (pending rp k) \<and>
            (if n = 1 \<and> n < maxlen \<and> pending rp k = [] then r = 0 \<and> t = []
             else t = [NUL] \<and> r = int (n + length (ch # bs')) - (if ended (ch # bs') then 1 else 0))"
          using b(5) c(1) p nl m ended_Cons [OF nl] by auto
        have A: "(ch # bs') @ pending rp1 k1 = pending rp k" "length ((ch # bs') @ t) \<le> maxlen - n + 1"
          using b(2,3) p m by simp_all
        show ?thesis using conjunct1 [OF IH] b(1,4) A C by blast
      qed
    qed
  qed
qed

lemma rio_readlineb_any:
  assumes "rio_ok rp" and "0 < maxlen" and "rio_readlineb rp maxlen k = (r, buf, rp1, k1)"
  obtains bs t where "rio_ok rp1" and "buf = bs @ t" and "bs @ pending rp1 k1 = pending rp k" and "length buf \<le> maxlen"
    and "t = [] \<or> t = [NUL]"
    and "calm k \<Longrightarrow> calm k1 \<and> bs = line (maxlen - 1) (pending rp k) \<and>
      (if 1 < maxlen \<and> pending rp k = [] then r = 0 \<and> t = []
       else t = [NUL] \<and> r = int (length bs) + (if ended bs then 0 else 1))"
proof -
  have m: "1 \<le> maxlen" "(0 :: nat) < 1" using assms(2) by auto
  note l = readlineb_loop_any [OF assms(1) m assms(3) [unfolded rio_readlineb_def]]
  from conjunct2 [OF l] obtain bs t where b: "buf = [] @ bs @ t" "bs @ pending rp1 k1 = pending rp k"
      "length (bs @ t) \<le> maxlen - 1 + 1" "t = [] \<or> t = [NUL]"
      "calm k \<longrightarrow> calm k1 \<and> bs = line (maxlen - 1) (pending rp k) \<and>
        (if 1 = (1 :: nat) \<and> 1 < maxlen \<and> pending rp k = [] then r = 0 \<and> t = []
         else t = [NUL] \<and> r = int (1 + length bs) - (if ended bs then 1 else 0))"
    by (elim exE conjE) (rule that)
  show thesis
  proof (rule that [OF conjunct1 [OF l], of bs t])
    show "buf = bs @ t" "length buf \<le> maxlen" using b(1,3) m by simp_all
    show "bs @ pending rp1 k1 = pending rp k" "t = [] \<or> t = [NUL]" by (rule b(2,4))+
    assume "calm k"
    with b(5) show "calm k1 \<and> bs = line (maxlen - 1) (pending rp k) \<and>
      (if 1 < maxlen \<and> pending rp k = [] then r = 0 \<and> t = []
       else t = [NUL] \<and> r = int (length bs) + (if ended bs then 0 else 1))" by simp
  qed
qed

section \<open>The unbuffered functions\<close>

lemma readn_loop_any:
  "nleft \<le> n \<Longrightarrow> readn_loop n nleft buf k = (r, buf1, k1) \<Longrightarrow>
     \<exists>bs. buf1 = buf @ bs \<and> bs @ inp k1 = inp k \<and> length bs \<le> nleft \<and> (r = -1 \<or> r = int (n - nleft + length bs)) \<and>
       (calm k \<longrightarrow> calm k1 \<and> r \<noteq> -1 \<and> (length bs = nleft \<or> inp k1 = []))"
proof (induction n nleft buf k arbitrary: r buf1 k1 rule: readn_loop.induct)
  case (1 n nleft buf k)
  show ?case
  proof (cases "nleft = 0")
    case True
    then show ?thesis using "1.prems" by (subst (asm) readn_loop.simps) auto
  next
    case False
    obtain q bs k2 where s: "sys_read nleft k = (q, bs, k2)" by (cases "sys_read nleft k")
    note c = sys_read_calm [OF _ s]
    have step: "readn_loop n nleft buf k =
        (if q < 0 then (if errno k2 = EINTR then readn_loop n nleft buf k2 else (-1, buf, k2))
         else if q = 0 then (int (n - nleft), buf, k2)
         else readn_loop n (nleft - nat q) (buf @ bs) k2)"
      using False s by (subst readn_loop.simps) simp
    from s show ?thesis
    proof (cases rule: sys_read_cases)
      case error
      then have q: "q < 0" by simp
      show ?thesis
      proof (cases "errno k2 = EINTR")
        case True
        then have "readn_loop n nleft buf k2 = (r, buf1, k1)" using step "1.prems"(2) q by simp
        then show ?thesis using "1.IH"(1) [OF _ s [symmetric] refl q True "1.prems"(1)] False error c(1) by auto
      next
        case F: False
        then have "\<not> calm k" using c(2) q False by auto
        then show ?thesis using step "1.prems"(2) q F error by auto
      qed
    next
      case data
      show ?thesis
      proof (cases "bs = []")
        case True
        then show ?thesis using step "1.prems"(2) data c(1,3) False by auto
      next
        case F: False
        then have q: "\<not> q < 0" "q \<noteq> 0" "nat q = length bs" using data by auto
        then have "readn_loop n (nleft - length bs) (buf @ bs) k2 = (r, buf1, k1)" using step "1.prems"(2) by simp
        then have "\<exists>bs'. buf1 = (buf @ bs) @ bs' \<and> bs' @ inp k1 = inp k2 \<and> length bs' \<le> nleft - length bs \<and>
            (r = -1 \<or> r = int (n - (nleft - length bs) + length bs')) \<and>
            (calm k2 \<longrightarrow> calm k1 \<and> r \<noteq> -1 \<and> (length bs' = nleft - length bs \<or> inp k1 = []))"
          using "1.IH"(2) [OF _ s [symmetric] refl q(1,2)] False "1.prems"(1) q(3) by simp
        then obtain bs' where b: "buf1 = buf @ (bs @ bs')" "bs' @ inp k1 = inp k2" "length bs' \<le> nleft - length bs"
            "r = -1 \<or> r = int (n - (nleft - length bs) + length bs')"
            "calm k2 \<longrightarrow> calm k1 \<and> r \<noteq> -1 \<and> (length bs' = nleft - length bs \<or> inp k1 = [])" by auto
        have "(bs @ bs') @ inp k1 = inp k" using data(3) b(2) by simp
        moreover have "length (bs @ bs') \<le> nleft" "r = -1 \<or> r = int (n - nleft + length (bs @ bs'))"
          using b(3,4) data(2) "1.prems"(1) by auto
        moreover have "calm k \<longrightarrow> calm k1 \<and> r \<noteq> -1 \<and> (length (bs @ bs') = nleft \<or> inp k1 = [])"
          using b(5) c(1) data(2) False by auto
        ultimately show ?thesis using b(1) by blast
      qed
    qed
  qed
qed

lemma writen_loop_any:
  "writen_loop n bufp k = (r, k1) \<Longrightarrow>
     \<exists>c. outp k1 = outp k @ take c bufp \<and> inp k1 = inp k \<and> (r = -1 \<or> r = int n \<and> c = length bufp) \<and> (calm k \<longrightarrow> r \<noteq> -1)"
proof (induction n bufp k arbitrary: r k1 rule: writen_loop.induct)
  case (1 n bufp k)
  show ?case
  proof (cases "bufp = []")
    case True
    then show ?thesis using "1.prems" by (subst (asm) writen_loop.simps) auto
  next
    case False
    then have ne: "0 < length bufp" by simp
    obtain q k2 where s: "sys_write bufp k = (q, k2)" by (cases "sys_write bufp k")
    have step: "writen_loop n bufp k =
        (if q \<le> 0 then (if errno k2 = EINTR then writen_loop n bufp k2 else (-1, k2))
         else writen_loop n (drop (nat q) bufp) k2)"
      using False s by (subst writen_loop.simps) simp
    have w: "inp k2 = inp k" "outp k2 = outp k @ take (nat q) bufp" "calm k \<Longrightarrow> calm k2 \<and> (q \<le> 0 \<longrightarrow> errno k2 = EINTR)"
      "nat q \<le> length bufp"
      using s False by (auto simp: sys_write_def calm_def Let_def min_def nat_add_distrib split: list.splits reply.splits if_splits)
    show ?thesis
    proof (cases "q \<le> 0")
      case q: True
      show ?thesis
      proof (cases "errno k2 = EINTR")
        case True
        then have "writen_loop n bufp k2 = (r, k1)" using step "1.prems" q by simp
        then show ?thesis using "1.IH"(1) [OF ne s [symmetric] q True] w q by auto
      next
        case F: False
        then have "r = -1" "k1 = k2" "\<not> calm k" using step "1.prems" q w(3) by auto
        then show ?thesis using w q by (intro exI [of _ 0]) auto
      qed
    next
      case q: False
      then have "writen_loop n (drop (nat q) bufp) k2 = (r, k1)" using step "1.prems" by simp
      then obtain c where c: "outp k1 = outp k2 @ take c (drop (nat q) bufp)" "inp k1 = inp k2"
          "r = -1 \<or> r = int n \<and> c = length (drop (nat q) bufp)" "calm k2 \<longrightarrow> r \<noteq> -1"
        using "1.IH"(2) [OF ne s [symmetric] q] by blast
      have "outp k1 = outp k @ take (nat q + c) bufp" using c(1) w(2) by (simp add: take_add)
      then show ?thesis using c w by (intro exI [of _ "nat q + c"]) auto
    qed
  qed
qed

section \<open>The properties\<close>

datatype rio_call = Readnb nat | Readlineb nat

primrec rio_do :: "rio_call \<Rightarrow> rio \<times> kern \<Rightarrow> (int \<times> string) \<times> rio \<times> kern" where
  "rio_do (Readnb n) s = (case rio_readnb (fst s) n (snd s) of (r, buf, rp, k) \<Rightarrow> ((r, buf), rp, k))"
| "rio_do (Readlineb m) s = (case rio_readlineb (fst s) m (snd s) of (r, buf, rp, k) \<Rightarrow> ((r, buf), rp, k))"

text \<open>The same calls on the bytes themselves.\<close>

primrec stream_do :: "rio_call \<Rightarrow> string \<Rightarrow> (int \<times> string) \<times> string" where
  "stream_do (Readnb n) s = ((int (min n (length s)), take n s), drop n s)"
| "stream_do (Readlineb m) s =
     (let l = line (m - 1) s in
      (if 1 < m \<and> s = [] then (0, []) else (int (length l) + (if ended l then 0 else 1), l @ [NUL]), drop (length l) s))"

interpretation rio_calls: call_refinement rio_do stream_do "\<lambda>(rp, k). pending rp k" "\<lambda>(rp, k). rio_ok rp \<and> calm k"
  "\<lambda>c. c \<noteq> Readlineb 0"
proof
  fix s :: "rio \<times> kern" and c
  assume s: "case s of (rp, k) \<Rightarrow> rio_ok rp \<and> calm k" and c: "c \<noteq> Readlineb 0"
  obtain rp k where p: "s = (rp, k)" by fastforce
  have ok: "rio_ok rp" "calm k" using s p by auto
  show "(case snd (rio_do c s) of (rp, k) \<Rightarrow> rio_ok rp \<and> calm k) \<and>
    map_prod id (\<lambda>(rp, k). pending rp k) (rio_do c s) = stream_do c (case s of (rp, k) \<Rightarrow> pending rp k)"
  proof (cases c)
    case (Readnb n)
    obtain r bs rp1 k1 where e: "rio_readnb rp n k = (r, bs, rp1, k1)" by (cases "rio_readnb rp n k")
    note a = rio_readnb_any [OF ok(1) e]
    show ?thesis using a(1) a(5) [OF ok(2)] e by (simp add: Readnb p min.commute)
  next
    case (Readlineb m)
    then have m: "0 < m" using c by simp
    obtain r buf rp1 k1 where e: "rio_readlineb rp m k = (r, buf, rp1, k1)" by (cases "rio_readlineb rp m k")
    obtain bs t where a: "rio_ok rp1" "buf = bs @ t" "bs @ pending rp1 k1 = pending rp k"
        "calm k1" "bs = line (m - 1) (pending rp k)"
        "if 1 < m \<and> pending rp k = [] then r = 0 \<and> t = [] else t = [NUL] \<and> r = int (length bs) + (if ended bs then 0 else 1)"
      using rio_readlineb_any [OF ok(1) m e] ok(2) by blast
    have "drop (length bs) (pending rp k) = pending rp1 k1" unfolding a(3) [symmetric] by simp
    then show ?thesis using a e by (auto simp: Readlineb p Let_def split: if_splits)
  qed
qed

text \<open>
  C7. The buffered functions of Rio are a stream of bytes: any sequence of \<^verbatim>\<open>rio_readnb\<close> and \<^verbatim>\<open>rio_readlineb\<close> after
  \<^verbatim>\<open>rio_readinitb\<close> returns the same results and the same bytes as on the contents of the file, however the system divides
  the data among the calls of \<^verbatim>\<open>read\<close> and however often signals interrupt them.
\<close>

theorem rio_refines_stream:
  assumes "length (rio_buf rp) = RIO_BUFSIZE" and "calm k" and "Readlineb 0 \<notin> set cs"
    and "calls rio_do cs (rio_readinitb rp, k) = (rs, rp', k')"
  shows "calls stream_do cs (inp k) = (rs, pending rp' k')"
proof -
  have "rio_ok (rio_readinitb rp)" "pending (rio_readinitb rp) k = inp k"
    using assms(1) by (auto simp: rio_ok_def rio_readinitb_def pending_def unread_def)
  moreover have "list_all (\<lambda>c. c \<noteq> Readlineb 0) cs" using assms(3) by (auto simp: list_all_iff)
  ultimately show ?thesis using rio_calls.calls_result(2) [OF _ _ assms(4)] assms(2) by simp
qed

theorem rio_refines_stream_witness:
  "fst (calls rio_do [Readlineb 10, Readnb 5]
     (rio_readinitb \<lparr>rio_cnt = 0, rio_bufptr = 0, rio_buf = replicate RIO_BUFSIZE NUL\<rparr>,
      \<lparr>inp = [CHR 0x61, NEWLINE, CHR 0x62], outp = [], replies = [Give 0, Intr, Give 1], errno = 0\<rparr>)) =
   [(2, [CHR 0x61, NEWLINE, NUL]), (1, [CHR 0x62])]"
proof -
  define rp where "rp = \<lparr>rio_cnt = 0, rio_bufptr = 0, rio_buf = replicate RIO_BUFSIZE NUL\<rparr>"
  define k where "k = \<lparr>inp = [CHR 0x61, NEWLINE, CHR 0x62], outp = [], replies = [Give 0, Intr, Give 1], errno = 0\<rparr>"
  obtain rs rp' k' where c: "calls rio_do [Readlineb 10, Readnb 5] (rio_readinitb rp, k) = (rs, rp', k')"
    by (metis prod.exhaust)
  have "calls stream_do [Readlineb 10, Readnb 5] (inp k) = (rs, pending rp' k')"
    by (rule rio_refines_stream [OF _ _ _ c]) (auto simp: rp_def k_def calm_def)
  then have "rs = [(2, [CHR 0x61, NEWLINE, NUL]), (1, [CHR 0x62])]"
    by (simp add: k_def numeral_eq_Suc ended_def NEWLINE_def)
  then show ?thesis using c by (simp add: rp_def k_def)
qed

text \<open>
  C26. Whatever the system does, also when it fails: the bytes that a call has stored and those that are still to be read make
  up the bytes that were to be read before, so that nothing is lost or read twice; no more is stored than the caller has
  room for; the result is -1 or the number of the bytes; and \<^verbatim>\<open>rio_writen\<close> writes a beginning of the data, all of them unless it
  returns -1.
\<close>

theorem rio_conserves:
  assumes "rio_ok rp" and "rio_readnb rp n k = (r1, b1, rp1, k1)" and "0 < m" and "rio_readlineb rp m k = (r2, b2, rp2, k2)"
    and "rio_readn n k = (r3, b3, k3)" and "rio_writen b k = (r4, k4)"
  shows "b1 @ pending rp1 k1 = pending rp k \<and> length b1 \<le> n \<and> (r1 = -1 \<or> r1 = int (length b1)) \<and> rio_ok rp1 \<and>
    (\<exists>bs t. b2 = bs @ t \<and> (t = [] \<or> t = [NUL]) \<and> bs @ pending rp2 k2 = pending rp k) \<and> length b2 \<le> m \<and> rio_ok rp2 \<and>
    b3 @ inp k3 = inp k \<and> length b3 \<le> n \<and> (r3 = -1 \<or> r3 = int (length b3)) \<and>
    (calm k \<longrightarrow> r3 = int (min n (length (inp k)))) \<and>
    (\<exists>c. outp k4 = outp k @ take c b \<and> (r4 = -1 \<or> r4 = int (length b) \<and> c = length b)) \<and> (calm k \<longrightarrow> r4 \<noteq> -1)"
proof -
  obtain bs t where l: "rio_ok rp2" "b2 = bs @ t" "bs @ pending rp2 k2 = pending rp k" "length b2 \<le> m" "t = [] \<or> t = [NUL]"
    using rio_readlineb_any [OF assms(1,3,4)] by blast
  obtain bs3 where n: "b3 = bs3" "bs3 @ inp k3 = inp k" "length bs3 \<le> n" "r3 = -1 \<or> r3 = int (length bs3)"
      "calm k \<longrightarrow> r3 \<noteq> -1 \<and> (length bs3 = n \<or> inp k3 = [])"
    using readn_loop_any [OF order_refl assms(5) [unfolded rio_readn_def]] by auto
  have "calm k \<longrightarrow> r3 = int (min n (length (inp k)))" using n(3-5) unfolding n(2) [symmetric] by auto
  moreover obtain c where "outp k4 = outp k @ take c b" "r4 = -1 \<or> r4 = int (length b) \<and> c = length b" "calm k \<longrightarrow> r4 \<noteq> -1"
    using writen_loop_any [OF assms(6) [unfolded rio_writen_def]] by blast
  ultimately show ?thesis using rio_readnb_any(1-4) [OF assms(1,2)] l n(1-4) by blast
qed

theorem rio_conserves_witness:
  "\<exists>r b rp1 k1. rio_readnb (rio_readinitb \<lparr>rio_cnt = 0, rio_bufptr = 0, rio_buf = replicate RIO_BUFSIZE NUL\<rparr>) 2
      \<lparr>inp = ''abc'', outp = [], replies = [Give 0, Fail 5], errno = 0\<rparr> = (r, b, rp1, k1) \<and>
     b @ pending rp1 k1 = ''abc'' \<and> length b \<le> 2 \<and> (r = -1 \<or> r = int (length b))"
proof -
  define rp where "rp = rio_readinitb \<lparr>rio_cnt = 0, rio_bufptr = 0, rio_buf = replicate RIO_BUFSIZE NUL\<rparr>"
  define k where "k = \<lparr>inp = ''abc'', outp = [], replies = [Give 0, Fail 5], errno = 0\<rparr>"
  have rp: "rio_ok rp" "pending rp k = ''abc''" by (simp_all add: rp_def k_def rio_ok_def rio_readinitb_def pending_def unread_def)
  obtain r1 b1 rp1 k1 where 1: "rio_readnb rp 2 k = (r1, b1, rp1, k1)" by (metis prod.exhaust)
  obtain r2 b2 rp2 k2 where 2: "rio_readlineb rp 2 k = (r2, b2, rp2, k2)" by (metis prod.exhaust)
  obtain r3 b3 k3 where 3: "rio_readn 2 k = (r3, b3, k3)" by (metis prod.exhaust)
  obtain r4 k4 where 4: "rio_writen ''x'' k = (r4, k4)" by (metis prod.exhaust)
  show ?thesis using rio_conserves [OF rp(1) 1 _ 2 3 4] 1 rp(2) unfolding rp_def k_def by auto
qed

text \<open>The value of \<^verbatim>\<open>rio_readlineb\<close> is the number of the bytes of the line only when the line ends with a newline. For the last
  line of a file without one, and for a line that is longer than the buffer, it is one more. A buffer of size 0 gets a
  terminator all the same.
\<close>

theorem rio_readlineb_count:
  assumes "rio_ok rp" and "calm k" and "1 < m" and "pending rp k \<noteq> []" and "rio_readlineb rp m k = (r, buf, rp1, k1)"
  shows "buf = line (m - 1) (pending rp k) @ [NUL] \<and>
    (if ended (line (m - 1) (pending rp k)) then r = int (length buf) - 1 else r = int (length buf)) \<and>
    rio_readlineb rp 0 k = (1, [NUL], rp, k)"
proof -
  have m: "0 < m" using assms(3) by simp
  obtain bs t where a: "buf = bs @ t" "bs = line (m - 1) (pending rp k)"
      "if 1 < m \<and> pending rp k = [] then r = 0 \<and> t = [] else t = [NUL] \<and> r = int (length bs) + (if ended bs then 0 else 1)"
    using rio_readlineb_any [OF assms(1) m assms(5)] assms(2) by blast
  moreover have "rio_readlineb rp 0 k = (1, [NUL], rp, k)" by (simp add: rio_readlineb_def readlineb_loop.simps)
  ultimately show ?thesis using assms(4) by auto
qed

theorem rio_readlineb_count_witness:
  "\<exists>rp1 k1. rio_readlineb (rio_readinitb \<lparr>rio_cnt = 0, rio_bufptr = 0, rio_buf = replicate RIO_BUFSIZE NUL\<rparr>) 10
      \<lparr>inp = ''ab'', outp = [], replies = [], errno = 0\<rparr> = (3, ''ab'' @ [NUL], rp1, k1)"
proof -
  define rp where "rp = rio_readinitb \<lparr>rio_cnt = 0, rio_bufptr = 0, rio_buf = replicate RIO_BUFSIZE NUL\<rparr>"
  define k where "k = \<lparr>inp = ''ab'', outp = [], replies = [], errno = 0\<rparr>"
  have rp: "rio_ok rp" "pending rp k = ''ab''" "calm k"
    by (simp_all add: rp_def k_def rio_ok_def rio_readinitb_def pending_def unread_def calm_def)
  obtain r buf rp1 k1 where 1: "rio_readlineb rp 10 k = (r, buf, rp1, k1)" by (metis prod.exhaust)
  have l: "line (10 - 1) ''ab'' = ''ab''" "\<not> ended ''ab''" by (simp_all add: numeral_eq_Suc NEWLINE_def ended_def)
  have "buf = ''ab'' @ [NUL]" "r = 3" using rio_readlineb_count [OF rp(1,3) _ _ 1] rp(2) l by auto
  then show ?thesis using 1 unfolding rp_def k_def by blast
qed

end
