(* ===== verification/Readn.thy ===== *)
theory Readn
  imports Rio
begin

text \<open>
  The functions of the other libraries that read and write a number of bytes or a line: \<^verbatim>\<open>readn\<close>, \<^verbatim>\<open>writen\<close> and
  \<^verbatim>\<open>readline\<close> of \<^verbatim>\<open>unpv13e/lib\<close>, \<^verbatim>\<open>readn\<close> and \<^verbatim>\<open>writen\<close> of \<^verbatim>\<open>apue.3e/lib\<close>, and \<^verbatim>\<open>readn\<close>, \<^verbatim>\<open>writen\<close> and
  \<^verbatim>\<open>readLine\<close> of \<^verbatim>\<open>tlpi-dist/sockets\<close>, over the system calls of \<open>Rio\<close>. The buffers of the callers are not null pointers.
\<close>

lemma sys_write_progress:
  assumes "sys_write bs k = (r, k1)" and "bs \<noteq> []"
  shows "r \<le> 0 \<Longrightarrow> length (replies k1) < length (replies k)" and "length (replies k1) \<le> length (replies k)"
  using assms by (auto simp: sys_write_def Let_def split: list.splits reply.splits)

lemma fewer_to_read:
  "t < n \<Longrightarrow> a \<noteq> [] \<Longrightarrow> length a \<le> n - t \<Longrightarrow> r' \<le> r \<Longrightarrow> n + r' - (t + length a) < n + r - t"
  by (cases a) auto

lemma some_read: "a \<noteq> [] \<Longrightarrow> r' \<le> r \<Longrightarrow> r' < length a + r"
  by (cases a) auto

section \<open>unpv13e/lib\<close>

function unp_readn_loop :: "nat \<Rightarrow> nat \<Rightarrow> string \<Rightarrow> kern \<Rightarrow> int \<times> string \<times> kern" where
  "unp_readn_loop n nleft buf k =
     (if nleft > 0 then
        (case sys_read nleft k of (nread, bs, k1) \<Rightarrow>
           if nread < 0 then (if errno k1 = EINTR then unp_readn_loop n nleft buf k1 else (-1, buf, k1))
           else if nread = 0 then (int (n - nleft), buf, k1)
           else unp_readn_loop n (nleft - nat nread) (buf @ bs) k1)
      else (int (n - nleft), buf, k))"
  by pat_completeness auto
termination
  by (relation "measure (\<lambda>(n, nleft, buf, k). nleft + length (replies k))")
    (auto elim!: sys_read_cases [OF sym] intro: fewer_left)

declare unp_readn_loop.simps [simp del]

definition unp_readn :: "nat \<Rightarrow> kern \<Rightarrow> int \<times> string \<times> kern" where
  "unp_readn n k = unp_readn_loop n n [] k"

definition unp_Readn :: "nat \<Rightarrow> kern \<Rightarrow> (int \<times> string \<times> kern) option" where
  "unp_Readn nbytes k = (case unp_readn nbytes k of (n, buf, k1) \<Rightarrow> if n < 0 then None else Some (n, buf, k1))"

function unp_writen_loop :: "nat \<Rightarrow> string \<Rightarrow> kern \<Rightarrow> int \<times> kern" where
  "unp_writen_loop n ptr k =
     (if length ptr > 0 then
        (case sys_write ptr k of (nwritten, k1) \<Rightarrow>
           if nwritten \<le> 0 then
             (if nwritten < 0 \<and> errno k1 = EINTR then unp_writen_loop n ptr k1 else (-1, k1))
           else unp_writen_loop n (drop (nat nwritten) ptr) k1)
      else (int n, k))"
  by pat_completeness auto
termination
  by (relation "measure (\<lambda>(n, ptr, k). length ptr + length (replies k))")
    (auto simp: sys_write_def Let_def split: list.splits reply.splits)

declare unp_writen_loop.simps [simp del]

definition unp_writen :: "string \<Rightarrow> kern \<Rightarrow> int \<times> kern" where
  "unp_writen vptr k = unp_writen_loop (length vptr) vptr k"

definition unp_Writen :: "string \<Rightarrow> kern \<Rightarrow> kern option" where
  "unp_Writen ptr k = (case unp_writen ptr k of (n, k1) \<Rightarrow> if n \<noteq> int (length ptr) then None else Some k1)"

text \<open>The static variables of \<^verbatim>\<open>readline.c\<close>.\<close>

definition MAXLINE :: nat where "MAXLINE = 4096"

record rlbuf =
  read_cnt :: int
  read_ptr :: nat
  read_buf :: string

text \<open>The loop at the label \<^verbatim>\<open>again\<close>: \<open>Some r\<close> where the function returns \<open>r\<close>.\<close>

function again :: "rlbuf \<Rightarrow> kern \<Rightarrow> int option \<times> rlbuf \<times> kern" where
  "again b k =
     (case sys_read MAXLINE k of (r, bs, k1) \<Rightarrow>
        let b1 = b\<lparr>read_cnt := r, read_buf := bs @ drop (length bs) (read_buf b)\<rparr> in
        if r < 0 then (if errno k1 = EINTR then again b1 k1 else (Some (-1), b1, k1))
        else if r = 0 then (Some 0, b1, k1)
        else (None, b1\<lparr>read_ptr := 0\<rparr>, k1))"
  by pat_completeness auto
termination
  by (relation "measure (\<lambda>(b, k). length (replies k))") (auto elim!: sys_read_cases [OF sym])

declare again.simps [simp del]

definition my_read :: "rlbuf \<Rightarrow> kern \<Rightarrow> int \<times> string \<times> rlbuf \<times> kern" where
  "my_read b k =
     (case (if read_cnt b \<le> 0 then again b k else (None, b, k)) of
        (Some r, b1, k1) \<Rightarrow> (r, [], b1, k1)
      | (None, b1, k1) \<Rightarrow> (1, [read_buf b1 ! read_ptr b1], b1\<lparr>read_cnt := read_cnt b1 - 1, read_ptr := read_ptr b1 + 1\<rparr>, k1))"

function readline_loop :: "nat \<Rightarrow> nat \<Rightarrow> string \<Rightarrow> rlbuf \<Rightarrow> kern \<Rightarrow> int \<times> string \<times> rlbuf \<times> kern" where
  "readline_loop maxlen n buf b k =
     (if n < maxlen then
        (case my_read b k of (rc, c, b1, k1) \<Rightarrow>
           if rc = 1 then
             (if c = [NEWLINE] then (int n, buf @ c @ [NUL], b1, k1) else readline_loop maxlen (n + 1) (buf @ c) b1 k1)
           else if rc = 0 then (int n - 1, buf @ [NUL], b1, k1)
           else (-1, buf, b1, k1))
      else (int n, buf @ [NUL], b, k))"
  by pat_completeness auto
termination
  by (relation "measure (\<lambda>(maxlen, n, buf, b, k). maxlen - n)") auto

declare readline_loop.simps [simp del]

definition readline :: "nat \<Rightarrow> rlbuf \<Rightarrow> kern \<Rightarrow> int \<times> string \<times> rlbuf \<times> kern" where
  "readline maxlen b k = readline_loop maxlen 1 [] b k"

definition Readline :: "nat \<Rightarrow> rlbuf \<Rightarrow> kern \<Rightarrow> (int \<times> string \<times> rlbuf \<times> kern) option" where
  "Readline maxlen b k = (case readline maxlen b k of (n, buf, b1, k1) \<Rightarrow> if n < 0 then None else Some (n, buf, b1, k1))"

text \<open>The pointer is a place in the buffer, and is stored only when there are bytes.\<close>

definition readlinebuf :: "rlbuf \<Rightarrow> int \<times> nat option" where
  "readlinebuf b = (read_cnt b, if read_cnt b \<noteq> 0 then Some (read_ptr b) else None)"

section \<open>apue.3e/lib\<close>

function apue_readn_loop :: "nat \<Rightarrow> nat \<Rightarrow> string \<Rightarrow> kern \<Rightarrow> int \<times> string \<times> kern" where
  "apue_readn_loop n nleft buf k =
     (if nleft > 0 then
        (case sys_read nleft k of (nread, bs, k1) \<Rightarrow>
           if nread < 0 then (if nleft = n then (-1, buf, k1) else (int (n - nleft), buf, k1))
           else if nread = 0 then (int (n - nleft), buf, k1)
           else apue_readn_loop n (nleft - nat nread) (buf @ bs) k1)
      else (int (n - nleft), buf, k))"
  by pat_completeness auto
termination
  by (relation "measure (\<lambda>(n, nleft, buf, k). nleft)") auto

declare apue_readn_loop.simps [simp del]

definition apue_readn :: "nat \<Rightarrow> kern \<Rightarrow> int \<times> string \<times> kern" where
  "apue_readn n k = apue_readn_loop n n [] k"

function apue_writen_loop :: "nat \<Rightarrow> string \<Rightarrow> kern \<Rightarrow> int \<times> kern" where
  "apue_writen_loop n ptr k =
     (if length ptr > 0 then
        (case sys_write ptr k of (nwritten, k1) \<Rightarrow>
           if nwritten < 0 then (if length ptr = n then (-1, k1) else (int (n - length ptr), k1))
           else if nwritten = 0 then (int (n - length ptr), k1)
           else apue_writen_loop n (drop (nat nwritten) ptr) k1)
      else (int (n - length ptr), k))"
  by pat_completeness auto
termination
  by (relation "measure (\<lambda>(n, ptr, k). length ptr)") auto

declare apue_writen_loop.simps [simp del]

definition apue_writen :: "string \<Rightarrow> kern \<Rightarrow> int \<times> kern" where
  "apue_writen ptr k = apue_writen_loop (length ptr) ptr k"

section \<open>tlpi-dist/sockets\<close>

function tlpi_readn_loop :: "nat \<Rightarrow> nat \<Rightarrow> string \<Rightarrow> kern \<Rightarrow> int \<times> string \<times> kern" where
  "tlpi_readn_loop n totRead buf k =
     (if totRead < n then
        (case sys_read (n - totRead) k of (numRead, bs, k1) \<Rightarrow>
           if numRead = 0 then (int totRead, buf, k1)
           else if numRead = -1 then (if errno k1 = EINTR then tlpi_readn_loop n totRead buf k1 else (-1, buf, k1))
           else tlpi_readn_loop n (totRead + nat numRead) (buf @ bs) k1)
      else (int totRead, buf, k))"
  by pat_completeness auto
termination
  by (relation "measure (\<lambda>(n, totRead, buf, k). (n - totRead) + length (replies k))")
    (auto elim!: sys_read_cases [OF sym] simp: fewer_to_read)

declare tlpi_readn_loop.simps [simp del]

definition tlpi_readn :: "nat \<Rightarrow> kern \<Rightarrow> int \<times> string \<times> kern" where
  "tlpi_readn n k = tlpi_readn_loop n 0 [] k"

function tlpi_writen_loop :: "string \<Rightarrow> nat \<Rightarrow> kern \<Rightarrow> int \<times> kern" where
  "tlpi_writen_loop buffer totWritten k =
     (if totWritten < length buffer then
        (case sys_write (drop totWritten buffer) k of (numWritten, k1) \<Rightarrow>
           if numWritten \<le> 0 then
             (if numWritten = -1 \<and> errno k1 = EINTR then tlpi_writen_loop buffer totWritten k1 else (-1, k1))
           else tlpi_writen_loop buffer (totWritten + nat numWritten) k1)
      else (int totWritten, k))"
  by pat_completeness auto
termination
  by (relation "measure (\<lambda>(buffer, totWritten, k). (length buffer - totWritten) + length (replies k))")
    (auto simp: sys_write_def Let_def split: list.splits reply.splits)

declare tlpi_writen_loop.simps [simp del]

definition tlpi_writen :: "string \<Rightarrow> kern \<Rightarrow> int \<times> kern" where
  "tlpi_writen buffer k = tlpi_writen_loop buffer 0 k"

text \<open>The bytes of a line beyond the first \<open>n - 1\<close> are read and not stored.\<close>

function readLine_loop :: "nat \<Rightarrow> string \<Rightarrow> kern \<Rightarrow> int \<times> string \<times> kern" where
  "readLine_loop n buf k =
     (case sys_read 1 k of (numRead, ch, k1) \<Rightarrow>
        if numRead = -1 then (if errno k1 = EINTR then readLine_loop n buf k1 else (-1, buf, k1))
        else if numRead = 0 then (if buf = [] then (0, buf, k1) else (int (length buf), buf @ [NUL], k1))
        else
          (let buf1 = (if length buf < n - 1 then buf @ ch else buf)
           in if ch = [NEWLINE] then (int (length buf1), buf1 @ [NUL], k1) else readLine_loop n buf1 k1))"
  by pat_completeness auto
termination
  by (relation "measure (\<lambda>(n, buf, k). length (inp k) + length (replies k))")
    (auto elim!: sys_read_cases [OF sym] simp: some_read)

declare readLine_loop.simps [simp del]

definition readLine :: "nat \<Rightarrow> kern \<Rightarrow> int \<times> string \<times> kern" where
  "readLine n k = (if n \<le> 0 then (-1, [], k\<lparr>errno := EINVAL\<rparr>) else readLine_loop n [] k)"

section \<open>The implementations agree\<close>

lemma unp_readn_loop_eq: "unp_readn_loop n nleft buf k = readn_loop n nleft buf k"
proof (induction n nleft buf k rule: readn_loop.induct)
  case (1 n nleft buf k)
  show ?case
    by (subst unp_readn_loop.simps, subst readn_loop.simps) (use 1 in \<open>auto split: prod.splits\<close>)
qed

lemma tlpi_readn_loop_eq: "totRead \<le> n \<Longrightarrow> tlpi_readn_loop n totRead buf k = readn_loop n (n - totRead) buf k"
proof (induction n totRead buf k rule: tlpi_readn_loop.induct)
  case (1 n totRead buf k)
  show ?case
  proof (cases "totRead < n")
    case True
    obtain r bs k1 where s: "sys_read (n - totRead) k = (r, bs, k1)" by (cases "sys_read (n - totRead) k")
    have r: "r = -1 \<or> 0 \<le> r \<and> nat r \<le> n - totRead" using s by (cases rule: sys_read_cases) auto
    show ?thesis
      by (subst tlpi_readn_loop.simps, subst readn_loop.simps)
        (use 1 True s r in \<open>auto simp: diff_diff_left [symmetric] simp del: diff_diff_left\<close>)
  next
    case False
    then show ?thesis using "1.prems" by (subst tlpi_readn_loop.simps, subst readn_loop.simps) simp
  qed
qed

lemma apue_readn_loop_eq:
  "\<forall>r \<in> set (replies k). \<exists>m. r = Give m \<Longrightarrow> apue_readn_loop n nleft buf k = readn_loop n nleft buf k"
proof (induction n nleft buf k rule: apue_readn_loop.induct)
  case (1 n nleft buf k)
  obtain r bs k1 where s: "sys_read nleft k = (r, bs, k1)" by (cases "sys_read nleft k")
  have r: "0 \<le> r" "\<forall>r \<in> set (replies k1). \<exists>m. r = Give m"
    using s "1.prems" by (auto simp: sys_read_def Let_def split: list.splits reply.splits)
  show ?case
    by (subst apue_readn_loop.simps, subst readn_loop.simps) (use 1 s r in auto)
qed

lemma tlpi_writen_loop_eq:
  "totWritten \<le> length buffer \<Longrightarrow> tlpi_writen_loop buffer totWritten k = unp_writen_loop (length buffer) (drop totWritten buffer) k"
proof (induction buffer totWritten k rule: tlpi_writen_loop.induct)
  case (1 buffer totWritten k)
  show ?case
  proof (cases "totWritten < length buffer")
    case True
    obtain r k1 where s: "sys_write (drop totWritten buffer) k = (r, k1)" by (cases "sys_write (drop totWritten buffer) k")
    have r: "r = -1 \<or> 0 \<le> r \<and> nat r \<le> length buffer - totWritten"
      using s by (auto simp: sys_write_def Let_def split: list.splits reply.splits)
    show ?thesis
      by (subst tlpi_writen_loop.simps, subst unp_writen_loop.simps)
        (use 1 True s r in \<open>auto simp: add.commute\<close>)
  next
    case False
    then show ?thesis using "1.prems" by (subst tlpi_writen_loop.simps, subst unp_writen_loop.simps) simp
  qed
qed

lemma unp_writen_loop_eq: "Nought \<notin> set (replies k) \<Longrightarrow> unp_writen_loop n ptr k = writen_loop n ptr k"
proof (induction n ptr k rule: unp_writen_loop.induct)
  case (1 n ptr k)
  obtain r k1 where s: "sys_write ptr k = (r, k1)" by (cases "sys_write ptr k")
  have r: "Nought \<notin> set (replies k1)" "ptr \<noteq> [] \<Longrightarrow> r \<noteq> 0"
    using s "1.prems" by (auto simp: sys_write_def Let_def min_def split: list.splits reply.splits if_splits)
  show ?case
    by (subst unp_writen_loop.simps, subst writen_loop.simps) (use 1 s r in auto)
qed

lemma apue_writen_loop_eq:
  "\<forall>r \<in> set (replies k). \<exists>m. r = Give m \<Longrightarrow> apue_writen_loop n ptr k = writen_loop n ptr k"
proof (induction n ptr k rule: apue_writen_loop.induct)
  case (1 n ptr k)
  obtain r k1 where s: "sys_write ptr k = (r, k1)" by (cases "sys_write ptr k")
  have r: "0 \<le> r" "ptr \<noteq> [] \<Longrightarrow> r \<noteq> 0" "\<forall>r \<in> set (replies k1). \<exists>m. r = Give m"
    using s "1.prems" by (auto simp: sys_write_def Let_def min_def split: list.splits reply.splits if_splits)
  show ?case
    by (subst apue_writen_loop.simps, subst writen_loop.simps) (use 1 s r in auto)
qed

section \<open>Lines\<close>

definition rl_pending :: "rlbuf \<Rightarrow> kern \<Rightarrow> string" where
  "rl_pending b k = take (nat (read_cnt b)) (drop (read_ptr b) (read_buf b)) @ inp k"

definition rl_ok :: "rlbuf \<Rightarrow> bool" where
  "rl_ok b \<longleftrightarrow> length (read_buf b) = MAXLINE \<and> read_ptr b + nat (read_cnt b) \<le> MAXLINE"

lemma again_calm:
  "rl_ok b \<Longrightarrow> read_cnt b \<le> 0 \<Longrightarrow> calm k \<Longrightarrow> again b k = (res, b1, k1) \<Longrightarrow>
     rl_ok b1 \<and> calm k1 \<and> rl_pending b1 k1 = inp k \<and> (case res of None \<Rightarrow> 0 < read_cnt b1 | Some r \<Rightarrow> r = 0 \<and> inp k = [])"
proof (induction b k rule: again.induct)
  case (1 b k)
  obtain r bs k2 where s: "sys_read MAXLINE k = (r, bs, k2)" by (cases "sys_read MAXLINE k")
  define b2 where "b2 = b\<lparr>read_cnt := r, read_buf := bs @ drop (length bs) (read_buf b)\<rparr>"
  have M: "0 < MAXLINE" by (simp add: MAXLINE_def)
  note c = sys_read_calm [OF "1.prems"(3) s M]
  have step: "again b k = (if r < 0 then (if errno k2 = EINTR then again b2 k2 else (Some (-1), b2, k2))
      else if r = 0 then (Some 0, b2, k2) else (None, b2\<lparr>read_ptr := 0\<rparr>, k2))"
    using s by (subst again.simps) (simp add: b2_def Let_def)
  from s show ?case
  proof (cases rule: sys_read_cases)
    case error
    then have "rl_ok b2" "read_cnt b2 \<le> 0" using "1.prems"(1) by (auto simp: b2_def rl_ok_def)
    then show ?thesis using "1.IH" [OF s [symmetric] refl refl] "1.prems"(4) step error c(1,2)
      by (simp add: b2_def split: option.splits)
  next
    case data
    then have "length bs \<le> MAXLINE" "0 \<le> r" by simp_all
    then show ?thesis using "1.prems"(1,4) step data c(1,3)
      by (auto simp: b2_def rl_ok_def rl_pending_def split: if_splits)
  qed
qed

lemma my_read_calm:
  assumes "rl_ok b" and "calm k" and "my_read b k = (r, c, b1, k1)"
  shows "rl_ok b1 \<and> calm k1 \<and> c @ rl_pending b1 k1 = rl_pending b k \<and> (r = 0 \<and> c = [] \<and> rl_pending b k = [] \<or> r = 1 \<and> length c = 1)"
proof -
  obtain res b2 k2 where f: "(if read_cnt b \<le> 0 then again b k else (None, b, k)) = (res, b2, k2)" by (metis prod_cases3)
  have a: "rl_ok b2" "calm k2" "rl_pending b2 k2 = rl_pending b k"
    "case res of None \<Rightarrow> 0 < read_cnt b2 | Some r \<Rightarrow> r = 0 \<and> rl_pending b k = []"
    using f again_calm [OF assms(1) _ assms(2)] assms(1,2) by (auto simp: rl_pending_def split: if_splits option.splits)
  show ?thesis
  proof (cases res)
    case None
    then have cnt: "0 < read_cnt b2" using a(4) by simp
    have l: "read_ptr b2 < length (read_buf b2)" using a(1) cnt by (auto simp: rl_ok_def)
    obtain m where m: "nat (read_cnt b2) = Suc m" "nat (read_cnt b2 - 1) = m" using cnt by (cases "nat (read_cnt b2)") auto
    have "drop (read_ptr b2) (read_buf b2) = read_buf b2 ! read_ptr b2 # drop (Suc (read_ptr b2)) (read_buf b2)"
      using l by (simp add: Cons_nth_drop_Suc)
    then show ?thesis using assms(3) f None a(1-3) m by (auto simp: my_read_def rl_pending_def rl_ok_def)
  next
    case (Some x)
    then show ?thesis using assms(3) f a by (auto simp: my_read_def)
  qed
qed

lemma readline_loop_calm:
  "rl_ok b \<Longrightarrow> calm k \<Longrightarrow> 0 < n \<Longrightarrow> n \<le> maxlen \<Longrightarrow> readline_loop maxlen n buf b k = (r, buf1, b1, k1) \<Longrightarrow>
     l = line (maxlen - n) (rl_pending b k) \<Longrightarrow>
     rl_ok b1 \<and> calm k1 \<and> buf1 = buf @ l @ [NUL] \<and> l @ rl_pending b1 k1 = rl_pending b k \<and>
     r = int (n - 1 + length l) + (if ended l \<or> length l < maxlen - n then 0 else 1)"
proof (induction maxlen n buf b k arbitrary: l rule: readline_loop.induct)
  case (1 maxlen n buf b k)
  show ?case
  proof (cases "n < maxlen")
    case False
    then show ?thesis using "1.prems" by (subst (asm) readline_loop.simps) (auto simp: ended_def)
  next
    case True
    obtain q c b2 k2 where s: "my_read b k = (q, c, b2, k2)" by (cases "my_read b k")
    note a = my_read_calm [OF "1.prems"(1,2) s]
    obtain m where m: "maxlen - n = Suc m" "maxlen - (n + 1) = m" using True by (metis Suc_diff_Suc Suc_eq_plus1)
    have step: "readline_loop maxlen n buf b k =
        (if q = 1 then (if c = [NEWLINE] then (int n, buf @ c @ [NUL], b2, k2) else readline_loop maxlen (n + 1) (buf @ c) b2 k2)
         else if q = 0 then (int n - 1, buf @ [NUL], b2, k2) else (-1, buf, b2, k2))"
      using True s by (subst readline_loop.simps) simp
    consider (eof) "q = 0" "c = []" "rl_pending b k = []" | (some) ch where "q = 1" "c = [ch]" "rl_pending b k = ch # rl_pending b2 k2"
      using a by (cases c) auto
    then show ?thesis
    proof cases
      case eof
      then show ?thesis using a step "1.prems" m by (auto simp: ended_def)
    next
      case some
      show ?thesis
      proof (cases "ch = NEWLINE")
        case nl: True
        then show ?thesis using a step "1.prems" some m by (auto simp: ended_def)
      next
        case nl: False
        then have "readline_loop maxlen (n + 1) (buf @ [ch]) b2 k2 = (r, buf1, b1, k1)" using step "1.prems"(5) some by simp
        then have "rl_ok b1 \<and> calm k1 \<and> buf1 = (buf @ [ch]) @ line m (rl_pending b2 k2) @ [NUL] \<and>
            line m (rl_pending b2 k2) @ rl_pending b1 k1 = rl_pending b2 k2 \<and>
            r = int (n + length (line m (rl_pending b2 k2))) + (if ended (line m (rl_pending b2 k2)) \<or> length (line m (rl_pending b2 k2)) < m then 0 else 1)"
          using "1.IH" [OF True s [symmetric] refl refl, of "line m (rl_pending b2 k2)"] some nl a True m(2) by simp
        then show ?thesis using "1.prems"(3,6) some nl m ended_Cons [OF nl] by auto
      qed
    qed
  qed
qed

lemma take_store:
  assumes "length buf < n"
  shows "take (n - 1) ((if length buf < n - 1 then buf @ [ch] else buf) @ x) = take (n - 1) (buf @ ch # x)"
proof (cases "length buf < n - 1")
  case True
  then show ?thesis by (simp del: take_append)
next
  case False
  then have "length buf = n - 1" using assms by simp
  then show ?thesis by simp
qed

lemma readLine_loop_calm:
  "calm k \<Longrightarrow> 2 \<le> n \<Longrightarrow> length buf < n \<Longrightarrow> readLine_loop n buf k = (r, buf1, k1) \<Longrightarrow> l = line (length (inp k)) (inp k) \<Longrightarrow>
     calm k1 \<and> l @ inp k1 = inp k \<and>
     (if buf = [] \<and> inp k = [] then r = 0 \<and> buf1 = []
      else buf1 = take (n - 1) (buf @ l) @ [NUL] \<and> r = int (length buf1) - 1)"
proof (induction n buf k arbitrary: l rule: readLine_loop.induct)
  case (1 n buf k)
  obtain q c k2 where s: "sys_read 1 k = (q, c, k2)" by (cases "sys_read 1 k")
  have a: "calm k2" "q < 0 \<Longrightarrow> errno k2 = EINTR" "q = 0 \<Longrightarrow> inp k = []" using sys_read_calm [OF "1.prems"(1) s] by auto
  define buf2 where "buf2 = (if length buf < n - 1 then buf @ c else buf)"
  have step: "readLine_loop n buf k =
      (if q = -1 then (if errno k2 = EINTR then readLine_loop n buf k2 else (-1, buf, k2))
       else if q = 0 then (if buf = [] then (0, buf, k2) else (int (length buf), buf @ [NUL], k2))
       else if c = [NEWLINE] then (int (length buf2), buf2 @ [NUL], k2) else readLine_loop n buf2 k2)"
    using s by (subst readLine_loop.simps) (simp add: buf2_def Let_def)
  from s show ?case
  proof (cases rule: sys_read_cases)
    case error
    then show ?thesis using "1.IH"(1) [OF s [symmetric] refl] a(1,2) step "1.prems" by auto
  next
    case data
    consider (eof) "c = []" "q = 0" | (some) ch where "c = [ch]" "q = 1" "inp k = ch # inp k2" using data by (cases c) auto
    then show ?thesis
    proof cases
      case eof
      then show ?thesis using step "1.prems" a data by auto
    next
      case some
      have b2: "buf2 \<noteq> []" "length buf2 < n" "take (n - 1) (buf2 @ x) = take (n - 1) (buf @ ch # x)" for x
        using "1.prems"(2,3) some take_store [OF "1.prems"(3), of ch x] by (auto simp: buf2_def simp del: take_append)
      show ?thesis
      proof (cases "ch = NEWLINE")
        case nl: True
        have "buf2 = take (n - 1) (buf @ [ch])" using b2(2) b2(3) [of "[]"] by simp
        then show ?thesis using step "1.prems" a(1) some nl by auto
      next
        case nl: False
        have "readLine_loop n buf2 k2 = (r, buf1, k1)" using step "1.prems"(4) some nl by simp
        then show ?thesis
          using "1.IH"(2) [OF s [symmetric] refl _ _ buf2_def _ a(1) "1.prems"(2) b2(2) _ refl] some nl b2(1,3) "1.prems"(5) by auto
      qed
    qed
  qed
qed

section \<open>The properties\<close>

text \<open>
  C29. The libraries agree: \<^verbatim>\<open>readn\<close> of \<^verbatim>\<open>unpv13e\<close> and of \<^verbatim>\<open>tlpi-dist\<close> and \<^verbatim>\<open>rio_readn\<close> of \<^verbatim>\<open>csapp\<close> do the same for
  every behaviour of the system; so do the functions \<^verbatim>\<open>writen\<close> of the first two, and \<^verbatim>\<open>rio_writen\<close> as long as \<^verbatim>\<open>write\<close> does not
  return 0; and those of \<^verbatim>\<open>apue.3e\<close> agree with them where no call fails.
\<close>

theorem readn_implementations_agree:
  "unp_readn n k = rio_readn n k \<and> tlpi_readn n k = rio_readn n k \<and> tlpi_writen bs k = unp_writen bs k \<and>
   (Nought \<notin> set (replies k) \<longrightarrow> unp_writen bs k = rio_writen bs k) \<and>
   ((\<forall>r \<in> set (replies k). \<exists>m. r = Give m) \<longrightarrow> apue_readn n k = rio_readn n k \<and> apue_writen bs k = rio_writen bs k)"
  using unp_readn_loop_eq tlpi_readn_loop_eq [of 0 n] tlpi_writen_loop_eq [of 0 bs] unp_writen_loop_eq apue_readn_loop_eq apue_writen_loop_eq
  by (simp add: unp_readn_def rio_readn_def tlpi_readn_def tlpi_writen_def unp_writen_def rio_writen_def apue_readn_def apue_writen_def)

theorem readn_implementations_agree_witness:
  "apue_readn 3 \<lparr>inp = ''abcd'', outp = [], replies = [Give 0, Give 5], errno = 0\<rparr> =
   rio_readn 3 \<lparr>inp = ''abcd'', outp = [], replies = [Give 0, Give 5], errno = 0\<rparr> \<and>
   unp_writen ''ab'' \<lparr>inp = [], outp = [], replies = [Give 0, Intr], errno = 0\<rparr> =
   rio_writen ''ab'' \<lparr>inp = [], outp = [], replies = [Give 0, Intr], errno = 0\<rparr>"
  using readn_implementations_agree [of 3 "\<lparr>inp = ''abcd'', outp = [], replies = [Give 0, Give 5], errno = 0\<rparr>" "[]"]
    readn_implementations_agree [of 0 "\<lparr>inp = [], outp = [], replies = [Give 0, Intr], errno = 0\<rparr>" "''ab''"]
  by simp

text \<open>The calls of \<^verbatim>\<open>readline\<close> and of \<^verbatim>\<open>readLine\<close>, each with the size of the buffer, on the system and on the bytes.\<close>

definition readline_do :: "nat \<Rightarrow> rlbuf \<times> kern \<Rightarrow> (int \<times> string) \<times> rlbuf \<times> kern" where
  "readline_do m s = (case readline m (fst s) (snd s) of (r, buf, b, k) \<Rightarrow> ((r, buf), b, k))"

definition cut_line :: "nat \<Rightarrow> string \<Rightarrow> (int \<times> string) \<times> string" where
  "cut_line m s =
     (let l = line (m - 1) s
      in ((int (length l) + (if ended l \<or> length l < m - 1 then 0 else 1), l @ [NUL]), drop (length l) s))"

definition readLine_do :: "nat \<Rightarrow> kern \<Rightarrow> (int \<times> string) \<times> kern" where
  "readLine_do n k = (case readLine n k of (r, buf, k1) \<Rightarrow> ((r, buf), k1))"

definition take_line :: "nat \<Rightarrow> string \<Rightarrow> (int \<times> string) \<times> string" where
  "take_line n s =
     (let l = line (length s) s
      in (if s = [] then (0, []) else (int (min (n - 1) (length l)), take (n - 1) l @ [NUL]), drop (length l) s))"

interpretation unp_lines: call_refinement readline_do cut_line "\<lambda>(b, k). rl_pending b k" "\<lambda>(b, k). rl_ok b \<and> calm k" "\<lambda>m. 0 < m"
proof
  fix s :: "rlbuf \<times> kern" and m :: nat
  assume s: "case s of (b, k) \<Rightarrow> rl_ok b \<and> calm k" and m: "0 < m"
  obtain b k where p: "s = (b, k)" by fastforce
  obtain r buf b1 k1 where e: "readline m b k = (r, buf, b1, k1)" by (cases "readline m b k")
  define l where "l = line (m - 1) (rl_pending b k)"
  have a: "rl_ok b1 \<and> calm k1 \<and> buf = [] @ l @ [NUL] \<and> l @ rl_pending b1 k1 = rl_pending b k \<and>
      r = int (1 - 1 + length l) + (if ended l \<or> length l < m - 1 then 0 else 1)"
    by (rule readline_loop_calm [OF _ _ _ _ e [unfolded readline_def] l_def]) (use s p m in auto)
  have "drop (length l) (rl_pending b k) = rl_pending b1 k1" using a by (metis append_eq_conv_conj)
  then show "(case snd (readline_do m s) of (b, k) \<Rightarrow> rl_ok b \<and> calm k) \<and>
      map_prod id (\<lambda>(b, k). rl_pending b k) (readline_do m s) = cut_line m (case s of (b, k) \<Rightarrow> rl_pending b k)"
    using a by (simp add: p readline_do_def e cut_line_def l_def [symmetric] Let_def del: One_nat_def)
qed

interpretation tlpi_lines: call_refinement readLine_do take_line inp calm "\<lambda>n. 2 \<le> n"
proof
  fix k n
  assume k: "calm k" and n: "2 \<le> (n :: nat)"
  obtain r buf k1 where e: "readLine_loop n [] k = (r, buf, k1)" by (cases "readLine_loop n [] k")
  define l where "l = line (length (inp k)) (inp k)"
  have a: "calm k1 \<and> l @ inp k1 = inp k \<and>
      (if [] = ([] :: string) \<and> inp k = [] then r = 0 \<and> buf = [] else buf = take (n - 1) ([] @ l) @ [NUL] \<and> r = int (length buf) - 1)"
    by (rule readLine_loop_calm [OF k n _ e l_def]) (use n in simp)
  have "drop (length l) (inp k) = inp k1" using a by (metis append_eq_conv_conj)
  then show "calm (snd (readLine_do n k)) \<and> map_prod id inp (readLine_do n k) = take_line n (inp k)"
    using a n by (auto simp: readLine_do_def readLine_def e take_line_def l_def [symmetric] min.commute)
qed

text \<open>
  C25. \<^verbatim>\<open>readline\<close> of \<^verbatim>\<open>unpv13e\<close> and \<^verbatim>\<open>readLine\<close> of \<^verbatim>\<open>tlpi-dist\<close> read a file line by line, however the system divides the
  data and whichever calls signals interrupt. The first one leaves what does not fit for the next call, and its result is one
  too large then; the second one skips it, and its result is always the number of bytes that are stored before the terminator.
\<close>

theorem readline_refines_lines:
  assumes "length (read_buf b) = MAXLINE" and "read_cnt b = 0" and "read_ptr b \<le> MAXLINE" and "calm k"
    and "0 \<notin> set ms" and "calls readline_do ms (b, k) = (rs, b', k')"
    and "\<forall>n \<in> set ns. 2 \<le> n" and "calls readLine_do ns k = (qs, k'')"
  shows "calls cut_line ms (inp k) = (rs, rl_pending b' k') \<and> calls take_line ns (inp k) = (qs, inp k'')"
proof
  have b: "rl_ok b" "rl_pending b k = inp k" using assms(1-3) by (simp_all add: rl_ok_def rl_pending_def)
  have "list_all (\<lambda>m. 0 < m) ms" using assms(5) by (metis list_all_iff neq0_conv)
  then show "calls cut_line ms (inp k) = (rs, rl_pending b' k')"
    using unp_lines.calls_result(2) [OF _ _ assms(6)] b assms(4) by simp
  show "calls take_line ns (inp k) = (qs, inp k'')"
    using tlpi_lines.calls_result(2) [OF assms(4) _ assms(8)] assms(7) by (simp add: list_all_iff)
qed

theorem readline_refines_lines_witness:
  "fst (calls readLine_do [3, 3] \<lparr>inp = ''abc'' @ [NEWLINE] @ ''d'', outp = [], replies = [Intr], errno = 0\<rparr>) =
   [(2, ''ab'' @ [NUL]), (1, ''d'' @ [NUL])]"
proof -
  define k where "k = \<lparr>inp = ''abc'' @ [NEWLINE] @ ''d'', outp = [], replies = [Intr], errno = 0\<rparr>"
  define b where "b = \<lparr>read_cnt = 0, read_ptr = 0, read_buf = replicate MAXLINE NUL\<rparr>"
  obtain qs k'' where c: "calls readLine_do [3, 3] k = (qs, k'')" by fastforce
  have "calls cut_line [] (inp k) = ([], rl_pending b k) \<and> calls take_line [3, 3] (inp k) = (qs, inp k'')"
    by (rule readline_refines_lines [OF _ _ _ _ _ _ _ c]) (auto simp: b_def k_def calm_def)
  then have "qs = [(2, ''ab'' @ [NUL]), (1, ''d'' @ [NUL])]"
    by (auto simp: k_def take_line_def NEWLINE_def numeral_eq_Suc)
  then show ?thesis using c by (simp add: k_def)
qed

end
