(* ===== verification/Proxy.thy ===== *)
theory Proxy
  imports Rio
begin

text \<open>
  \<^verbatim>\<open>c-proxy/my/proxy.c\<close>: a proxy for the web. Modelled are the parsing of an address, the ring of accepted connections that the
  threads take their work from, the wrappers of Rio, and the function \<^verbatim>\<open>client\<close>, which sends the request to the server
  and passes the answer on to the browser. The copy of Rio in this directory is the one of \<open>Rio\<close>.
\<close>

section \<open>Addresses\<close>

definition to_lower :: "char \<Rightarrow> char" where
  "to_lower c = (if (65::nat) \<le> of_char c \<and> of_char c \<le> (90::nat) then char_of ((of_char c :: nat) + 32) else c)"

text \<open>\<^verbatim>\<open>strpbrk\<close>: the place of the first character that is one of \<open>cs\<close>; strings are without their terminator.\<close>

definition strpbrk :: "string \<Rightarrow> string \<Rightarrow> nat option" where
  "strpbrk s cs = (let n = length (takeWhile (\<lambda>c. c \<notin> set cs) s) in if n < length s then Some n else None)"

definition SLASH :: char where "SLASH = CHR 0x2F"
definition COLON :: char where "COLON = CHR 0x3A"
definition CR :: char where "CR = CHR 0x0D"

datatype uri_result = Bad_uri | Uri string string int

text \<open>\<open>None\<close>: the code uses the null pointer that \<^verbatim>\<open>strpbrk\<close> returns where it finds no end of the host name.\<close>

definition parse_uri :: "string \<Rightarrow> uri_result option" where
  "parse_uri uri =
     (if map to_lower (take 7 uri) \<noteq> ''http://'' then Some Bad_uri
      else
        (let hostbegin = drop 7 uri in
         case strpbrk hostbegin [SPACE, COLON, SLASH, CR, NEWLINE] of
           None \<Rightarrow> None
         | Some len \<Rightarrow>
             (let hostname = take len hostbegin;
                  port = (if hostbegin ! len = COLON then atol (drop (len + 1) hostbegin) else 80);
                  pathname = (case strchr SLASH hostbegin of None \<Rightarrow> [] | Some i \<Rightarrow> drop (i + 1) hostbegin)
              in Some (Uri hostname pathname port))))"

text \<open>\<open>time_str\<close> is what \<^verbatim>\<open>strftime\<close> writes; \<open>host\<close> the address in host byte order.\<close>

definition format_log_entry :: "string \<Rightarrow> 32 word \<Rightarrow> string \<Rightarrow> nat \<Rightarrow> string" where
  "format_log_entry time_str host uri sz =
     (let a = unat host div 2 ^ 24; b = unat host div 2 ^ 16 mod 256; c = unat host div 2 ^ 8 mod 256; d = unat host mod 256
      in time_str @ '': '' @ dec a @ ''.'' @ dec b @ ''.'' @ dec c @ ''.'' @ dec d @ '' '' @ uri @ '' '' @ dec sz)"

section \<open>The ring of connections\<close>

definition MAXNCLI :: nat where "MAXNCLI = 32"

record ring =
  clifd :: "int list"
  iget :: nat
  iput :: nat

text \<open>What \<^verbatim>\<open>main\<close> does with a connection, and what a thread does to get one: \<open>None\<close> where it waits. Both hold \<^verbatim>\<open>clifd_mutex\<close>.\<close>

definition put_connection :: "int \<Rightarrow> ring \<Rightarrow> ring" where
  "put_connection connfd r =
     r\<lparr>clifd := (clifd r)[iput r := connfd], iput := (if iput r + 1 = MAXNCLI then 0 else iput r + 1)\<rparr>"

definition get_connection :: "ring \<Rightarrow> int option \<times> ring" where
  "get_connection r =
     (if iget r = iput r then (None, r)
      else (Some (clifd r ! iget r), r\<lparr>iget := (if iget r + 1 = MAXNCLI then 0 else iget r + 1)\<rparr>))"

section \<open>The wrappers and the client\<close>

definition Rio_readn_w :: "nat \<Rightarrow> kern \<Rightarrow> int \<times> string \<times> kern" where
  "Rio_readn_w nbytes k = (case rio_readn nbytes k of (n, buf, k1) \<Rightarrow> if n < 0 then (0, buf, k1) else (n, buf, k1))"

definition Rio_readlineb_w :: "rio \<Rightarrow> nat \<Rightarrow> kern \<Rightarrow> int \<times> string \<times> rio \<times> kern" where
  "Rio_readlineb_w rp maxlen k = (case rio_readlineb rp maxlen k of (rc, buf, rp1, k1) \<Rightarrow> if rc < 0 then (0, buf, rp1, k1) else (rc, buf, rp1, k1))"

definition Rio_writen_w :: "string \<Rightarrow> kern \<Rightarrow> kern" where
  "Rio_writen_w usrbuf k = snd (rio_writen usrbuf k)"

text \<open>The loop that passes the answer of the server, from \<open>k\<close>, on to the browser, \<open>b\<close>.\<close>

partial_function (option) relay_loop :: "32 word \<Rightarrow> rio \<Rightarrow> kern \<Rightarrow> kern \<Rightarrow> (32 word \<times> kern \<times> kern) option" where
  "relay_loop readsize rp k b =
     (case Rio_readlineb_w rp 2048 k of (lines, response_body, rp1, k1) \<Rightarrow>
        if lines \<noteq> 0 then
          (case rio_writen (take (nat lines) response_body) b of (status, b1) \<Rightarrow>
             if status = -1 then Some (readsize + of_int lines, k1, b1)
             else relay_loop (readsize + of_int lines) rp1 k1 b1)
        else Some (readsize, k1, b))"

text \<open>
  The array \<^verbatim>\<open>request\<close> has \<^verbatim>\<open>MAXLINE\<close> bytes, 8192 in \<^verbatim>\<open>csapp.h\<close>, and \<^verbatim>\<open>sprintf\<close> does not know it: a text that does not fit, with its null
  byte, is written behind the array (\<open>Overflow\<close>). \<^verbatim>\<open>uri\<close> and \<^verbatim>\<open>hostname\<close> are C strings and have no null byte.
\<close>

datatype client_error = Overflow

definition REQUEST_SIZE :: nat where "REQUEST_SIZE = 8192"

definition sprintf_request :: "string \<Rightarrow> client_error + string" where
  "sprintf_request s = (if length s < REQUEST_SIZE then Inr s else Inl Overflow)"

definition proxy_client :: "string \<Rightarrow> string \<Rightarrow> rio \<Rightarrow> kern \<Rightarrow> kern \<Rightarrow> client_error + (32 word \<times> kern \<times> kern) option" where
  "proxy_client uri hostname response_rio k b =
     (case sprintf_request (''GET '' @ uri @ '' HTTP/1.0'' @ [CR, NEWLINE]) of Inl e \<Rightarrow> Inl e | Inr request1 \<Rightarrow>
        let k1 = Rio_writen_w request1 k in
      case sprintf_request (''Connection: close'' @ [CR, NEWLINE]) of Inl e \<Rightarrow> Inl e | Inr request2 \<Rightarrow>
        let k2 = Rio_writen_w request2 k1 in
      case sprintf_request (''Host: '' @ hostname @ [SPACE, CR, NEWLINE, CR, NEWLINE]) of Inl e \<Rightarrow> Inl e | Inr request3 \<Rightarrow>
        let k3 = Rio_writen_w request3 k2 in
      Inr (relay_loop 0 (rio_readinitb response_rio) k3 b))"

section \<open>Properties of addresses\<close>

lemma strpbrk_here: "set s \<inter> set cs = {} \<Longrightarrow> c \<in> set cs \<Longrightarrow> strpbrk (s @ c # t) cs = Some (length s)"
proof -
  assume a: "set s \<inter> set cs = {}" "c \<in> set cs"
  then have "takeWhile (\<lambda>c. c \<notin> set cs) (s @ c # t) = s" by (subst takeWhile_append2) auto
  then show ?thesis by (simp add: strpbrk_def Let_def)
qed

lemma strpbrk_none: "set s \<inter> set cs = {} \<Longrightarrow> strpbrk s cs = None"
proof -
  assume a: "set s \<inter> set cs = {}"
  then have t: "takeWhile (\<lambda>c. c \<notin> set cs) s = s" by (auto simp: takeWhile_eq_all_conv)
  show ?thesis by (simp add: strpbrk_def t)
qed

section \<open>The ring as a queue\<close>

definition waiting :: "ring \<Rightarrow> int list" where
  "waiting r = map (\<lambda>j. clifd r ! ((iget r + j) mod MAXNCLI)) [0..<(iput r + MAXNCLI - iget r) mod MAXNCLI]"

definition ring_ok :: "ring \<Rightarrow> bool" where
  "ring_ok r \<longleftrightarrow> length (clifd r) = MAXNCLI \<and> iget r < MAXNCLI \<and> iput r < MAXNCLI"

datatype ring_call = Accepted int | Take

fun ring_do :: "ring_call \<Rightarrow> ring \<Rightarrow> int option \<times> ring" where
  "ring_do (Accepted c) r = (None, put_connection c r)"
| "ring_do Take r = get_connection r"

text \<open>With 31 connections waiting, the next one makes the ring look empty.\<close>

fun queue_do :: "ring_call \<Rightarrow> int list \<Rightarrow> int option \<times> int list" where
  "queue_do (Accepted c) q = (None, if length q + 1 = MAXNCLI then [] else q @ [c])"
| "queue_do Take q = (case q of [] \<Rightarrow> (None, []) | c # q' \<Rightarrow> (Some c, q'))"

lemma wrap: "(if x + 1 = MAXNCLI then 0 else x + 1) = (x + 1) mod MAXNCLI" if "x < MAXNCLI"
  using that by (simp add: mod_Suc)

lemma distance:
  assumes "g < MAXNCLI" and "p < MAXNCLI" and "n = (p + MAXNCLI - g) mod MAXNCLI"
  shows "(g + n) mod MAXNCLI = p" and "n < MAXNCLI" and "((p + 1) mod MAXNCLI + MAXNCLI - g) mod MAXNCLI = (n + 1) mod MAXNCLI"
    and "g \<noteq> p \<Longrightarrow> (p + MAXNCLI - (g + 1) mod MAXNCLI) mod MAXNCLI = n - 1" and "n = 0 \<longleftrightarrow> g = p"
proof -
  have M: "(x + MAXNCLI) mod MAXNCLI = x" if "x < MAXNCLI" for x using that by simp
  consider (up) "g \<le> p" "n = p - g" | (down) "p < g" "n = p + MAXNCLI - g"
    using assms M [of "p - g"] by (cases "g \<le> p") (auto simp: Nat.add_diff_assoc2 le_mod_geq)
  then have "(g + n) mod MAXNCLI = p \<and> n < MAXNCLI \<and> ((p + 1) mod MAXNCLI + MAXNCLI - g) mod MAXNCLI = (n + 1) mod MAXNCLI \<and>
      (g \<noteq> p \<longrightarrow> (p + MAXNCLI - (g + 1) mod MAXNCLI) mod MAXNCLI = n - 1) \<and> (n = 0 \<longleftrightarrow> g = p)"
  proof cases
    case up
    have "((p + 1) mod MAXNCLI + MAXNCLI - g) mod MAXNCLI = (n + 1) mod MAXNCLI"
    proof (cases "p + 1 = MAXNCLI")
      case True
      then have "n + 1 = MAXNCLI - g" "(p + 1) mod MAXNCLI = 0" using up by simp_all
      then show ?thesis by simp
    next
      case False
      then have "(p + 1) mod MAXNCLI = p + 1" "p + 1 + MAXNCLI - g = n + 1 + MAXNCLI" using up assms(2) by simp_all
      then show ?thesis by (simp only: mod_add_self2)
    qed
    moreover have "(p + MAXNCLI - (g + 1) mod MAXNCLI) mod MAXNCLI = n - 1" if "g \<noteq> p"
    proof -
      have e: "(g + 1) mod MAXNCLI = g + 1" "p + MAXNCLI - (g + 1) = (n - 1) + MAXNCLI" "n - 1 < MAXNCLI"
        using up that assms(2) by simp_all
      show ?thesis unfolding e(1,2) by (rule M [OF e(3)])
    qed
    ultimately show ?thesis using up assms by auto
  next
    case down
    have "(p + 1) mod MAXNCLI = p + 1" "p + 1 + MAXNCLI - g = n + 1" using down assms(1) by simp_all
    moreover have "(p + MAXNCLI - (g + 1) mod MAXNCLI) mod MAXNCLI = n - 1"
    proof (cases "g + 1 = MAXNCLI")
      case True
      then have "n - 1 = p" using down by simp
      then show ?thesis using True assms(2) by simp
    next
      case False
      then have "(g + 1) mod MAXNCLI = g + 1" "p + MAXNCLI - (g + 1) = n - 1" "n - 1 < MAXNCLI" using down assms(1) by simp_all
      then show ?thesis by simp
    qed
    moreover have "g + n = p + MAXNCLI" using down assms(1) by simp
    ultimately show ?thesis using down assms(1,2) by simp
  qed
  then show "(g + n) mod MAXNCLI = p" "n < MAXNCLI" "((p + 1) mod MAXNCLI + MAXNCLI - g) mod MAXNCLI = (n + 1) mod MAXNCLI"
    "g \<noteq> p \<Longrightarrow> (p + MAXNCLI - (g + 1) mod MAXNCLI) mod MAXNCLI = n - 1" "n = 0 \<longleftrightarrow> g = p" by auto
qed

lemma other_slot:
  assumes "g < MAXNCLI" and "j < n" and "n < MAXNCLI"
  shows "(g + j) mod MAXNCLI \<noteq> (g + n) mod MAXNCLI"
proof -
  have "x mod MAXNCLI = (if x < MAXNCLI then x else x - MAXNCLI)" if "x < MAXNCLI + MAXNCLI" for x using that by (simp add: le_mod_geq)
  then show ?thesis using assms by (auto split: if_splits)
qed

lemma ring_do_queue:
  assumes "ring_ok r"
  shows "ring_ok (snd (ring_do c r)) \<and> map_prod id waiting (ring_do c r) = queue_do c (waiting r)"
proof -
  define n where "n = (iput r + MAXNCLI - iget r) mod MAXNCLI"
  have b: "iget r < MAXNCLI" "iput r < MAXNCLI" "length (clifd r) = MAXNCLI" using assms by (auto simp: ring_ok_def)
  note d = distance [OF b(1,2) n_def]
  have w: "waiting r = map (\<lambda>j. clifd r ! ((iget r + j) mod MAXNCLI)) [0..<n]" by (simp add: waiting_def n_def)
  have M: "0 < MAXNCLI" by (simp add: MAXNCLI_def)
  show ?thesis
  proof (cases c)
    case (Accepted x)
    define r' where "r' = r\<lparr>clifd := (clifd r)[iput r := x], iput := (iput r + 1) mod MAXNCLI\<rparr>"
    have p: "put_connection x r = r'" using wrap [OF b(2)] by (simp add: put_connection_def r'_def)
    have w': "waiting r' = map (\<lambda>j. (clifd r)[iput r := x] ! ((iget r + j) mod MAXNCLI)) [0..<(n + 1) mod MAXNCLI]"
      using d(3) by (simp add: waiting_def r'_def)
    have old: "map (\<lambda>j. (clifd r)[iput r := x] ! ((iget r + j) mod MAXNCLI)) [0..<n] = waiting r"
    proof -
      have "(iget r + j) mod MAXNCLI \<noteq> iput r" if "j < n" for j using other_slot [OF b(1) that d(2)] d(1) by simp
      then show ?thesis unfolding w by (intro map_cong refl) (metis atLeastLessThan_iff atLeastLessThan_upt nth_list_update_neq)
    qed
    have "waiting r' = (if n + 1 = MAXNCLI then [] else waiting r @ [x])"
    proof (cases "n + 1 = MAXNCLI")
      case True
      then show ?thesis by (simp add: w')
    next
      case False
      then have "(n + 1) mod MAXNCLI = n + 1" using d(2) by simp
      then show ?thesis using False old d(1) b by (simp add: w')
    qed
    then show ?thesis using b M by (auto simp: Accepted p ring_ok_def r'_def w)
  next
    case Take
    show ?thesis
    proof (cases "iget r = iput r")
      case True
      then show ?thesis using assms d(5) by (simp add: Take get_connection_def w)
    next
      case False
      define r' where "r' = r\<lparr>iget := (iget r + 1) mod MAXNCLI\<rparr>"
      obtain m where m: "n = Suc m" using False d(5) by (cases n) auto
      have g: "get_connection r = (Some (clifd r ! iget r), r')" using False wrap [OF b(1)] by (simp add: get_connection_def r'_def)
      have "waiting r' = map (\<lambda>j. clifd r ! ((iget r + Suc j) mod MAXNCLI)) [0..<m]"
        using d(4) [OF False] m by (simp add: waiting_def r'_def mod_add_left_eq)
      moreover have "waiting r = clifd r ! iget r # map (\<lambda>j. clifd r ! ((iget r + Suc j) mod MAXNCLI)) [0..<m]"
        unfolding w m using b(1) by (simp add: upt_conv_Cons map_Suc_upt [symmetric] comp_def del: upt_Suc)
      ultimately show ?thesis using b M by (simp add: Take g ring_ok_def r'_def)
    qed
  qed
qed

interpretation ring_calls: call_refinement ring_do queue_do waiting ring_ok "\<lambda>_. True"
  by unfold_locales (rule ring_do_queue)

section \<open>The answer of the server\<close>

text \<open>The pieces that \<^verbatim>\<open>rio_readlineb\<close> makes of the answer.\<close>

lemma line_Nil [simp]: "line m [] = []"
  by (cases m) simp_all

lemma line_nonempty: "s \<noteq> [] \<Longrightarrow> 0 < m \<Longrightarrow> line m s \<noteq> []"
  by (cases m; cases s) auto

function pieces :: "string \<Rightarrow> string list" where
  "pieces s = (if s = [] then [] else line 2047 s # pieces (drop (length (line 2047 s)) s))"
  by pat_completeness auto
termination
  by (relation "measure length") (auto simp: line_nonempty)

declare pieces.simps [simp del]

definition sent :: "string \<Rightarrow> string" where
  "sent l = (if ended l then l else l @ [NUL])"

lemma concat_pieces: "concat (pieces s) = s"
proof (induction s rule: pieces.induct)
  case (1 s)
  then show ?case by (subst pieces.simps) (auto, metis append_take_drop_id line_prefix(1))
qed

lemma writen_calm: "calm k \<Longrightarrow> writen_loop n bs k = (r, k1) \<Longrightarrow> calm k1"
proof (induction n bs k rule: writen_loop.induct)
  case (1 n bs k)
  obtain q k2 where s: "sys_write bs k = (q, k2)" by (cases "sys_write bs k")
  have "calm k2" using s "1.prems"(1) by (auto simp: sys_write_def calm_def Let_def split: list.splits reply.splits)
  then show ?case using 1 s by (subst (asm) (3) writen_loop.simps) (auto split: if_splits)
qed

lemma rio_writen_calm:
  assumes "calm k"
  obtains k1 where "rio_writen bs k = (int (length bs), k1)" and "calm k1" and "outp k1 = outp k @ bs" and "inp k1 = inp k"
proof -
  obtain r k1 where w: "rio_writen bs k = (r, k1)" by fastforce
  then have "calm k1" using writen_calm [OF assms] by (simp add: rio_writen_def)
  then show thesis using that w writen_loop_any [OF w [unfolded rio_writen_def]] assms by auto
qed

lemma rio_fill_outp: "rio_fill rp k = (res, rp1, k1) \<Longrightarrow> outp k1 = outp k"
proof (induction rp k rule: rio_fill.induct)
  case (1 rp k)
  obtain r bs k2 where s: "sys_read RIO_BUFSIZE k = (r, bs, k2)" by (cases "sys_read RIO_BUFSIZE k")
  have "outp k2 = outp k" using s by (auto simp: sys_read_def Let_def split: list.splits reply.splits)
  then show ?case using 1 s by (subst (asm) (3) rio_fill.simps) (auto simp: Let_def split: if_splits)
qed

lemma rio_read_outp: "rio_read rp n k = (r, bs, rp1, k1) \<Longrightarrow> outp k1 = outp k"
  by (auto simp: rio_read_def Let_def dest!: rio_fill_outp split: prod.splits option.splits)

lemma readlineb_outp: "readlineb_loop m n buf rp k = (r, buf1, rp1, k1) \<Longrightarrow> outp k1 = outp k"
proof (induction m n buf rp k rule: readlineb_loop.induct)
  case (1 m n buf rp k)
  obtain q bs rp2 k2 where s: "rio_read rp 1 k = (q, bs, rp2, k2)" by (cases "rio_read rp 1 k")
  then show ?case using 1 rio_read_outp [OF s] by (subst (asm) (2) readlineb_loop.simps) (auto split: if_splits)
qed

lemma relay_read:
  assumes "rio_ok rp" and "calm k" and "pending rp k = s"
  obtains rp1 k1 where "Rio_readlineb_w rp 2048 k = (int (length (sent (line 2047 s))) * (if s = [] then 0 else 1),
      (if s = [] then [] else line 2047 s @ [NUL]), rp1, k1)"
    and "rio_ok rp1" and "calm k1" and "pending rp1 k1 = drop (length (line 2047 s)) s" and "outp k1 = outp k"
proof -
  obtain r buf rp1 k1 where e: "rio_readlineb rp 2048 k = (r, buf, rp1, k1)" by (cases "rio_readlineb rp 2048 k")
  have m: "0 < (2048::nat)" by simp
  obtain bs t where "rio_ok rp1" "buf = bs @ t" "bs @ pending rp1 k1 = pending rp k"
      "calm k1 \<and> bs = line (2048 - 1) (pending rp k) \<and>
       (if 1 < (2048::nat) \<and> pending rp k = [] then r = 0 \<and> t = [] else t = [NUL] \<and> r = int (length bs) + (if ended bs then 0 else 1))"
    using rio_readlineb_any [OF assms(1) m e] assms(2) by blast
  then have a: "rio_ok rp1" "buf = bs @ t" "bs @ pending rp1 k1 = s" "calm k1" "bs = line 2047 s"
      "if s = [] then r = 0 \<and> t = [] else t = [NUL] \<and> r = int (length bs) + (if ended bs then 0 else 1)"
    using assms(3) by simp_all
  have "drop (length bs) s = pending rp1 k1" using a(3) by (metis append_eq_conv_conj)
  moreover have "outp k1 = outp k" using e readlineb_outp by (simp add: rio_readlineb_def)
  moreover have "Rio_readlineb_w rp 2048 k = (int (length (sent (line 2047 s))) * (if s = [] then 0 else 1),
      (if s = [] then [] else line 2047 s @ [NUL]), rp1, k1)"
    using a(2,5,6) e by (auto simp: Rio_readlineb_w_def sent_def split: if_splits)
  ultimately show thesis using that a(1,4,5) by simp
qed

lemma relay_ok:
  "rio_ok rp \<Longrightarrow> calm k \<Longrightarrow> calm b \<Longrightarrow> pending rp k = s \<Longrightarrow>
     \<exists>k' b'. relay_loop n rp k b = Some (n + of_nat (length (concat (map sent (pieces s)))), k', b') \<and>
       outp b' = outp b @ concat (map sent (pieces s)) \<and> outp k' = outp k"
proof (induction s arbitrary: n rp k b rule: pieces.induct)
  case (1 s)
  obtain rp1 k1 where r: "Rio_readlineb_w rp 2048 k = (int (length (sent (line 2047 s))) * (if s = [] then 0 else 1),
      (if s = [] then [] else line 2047 s @ [NUL]), rp1, k1)"
      "rio_ok rp1" "calm k1" "pending rp1 k1 = drop (length (line 2047 s)) s" "outp k1 = outp k"
    using relay_read [OF "1.prems"(1,2,4)] .
  show ?case
  proof (cases "s = []")
    case True
    then show ?thesis using r by (subst relay_loop.simps) (simp add: pieces.simps)
  next
    case False
    define l where "l = line 2047 s"
    have l: "sent l \<noteq> []" "take (length (sent l)) (l @ [NUL]) = sent l" using line_nonempty [OF False, of 2047] by (auto simp: l_def sent_def)
    obtain b1 where b: "rio_writen (sent l) b = (int (length (sent l)), b1)" "calm b1" "outp b1 = outp b @ sent l" "inp b1 = inp b"
      using rio_writen_calm [OF "1.prems"(3)] .
    have "relay_loop n rp k b = relay_loop (n + of_nat (length (sent l))) rp1 k1 b1"
      using r(1) False l b(1) by (subst relay_loop.simps) (simp add: l_def [symmetric])
    moreover have "pieces s = l # pieces (drop (length l) s)" using False by (subst pieces.simps) (simp add: l_def)
    ultimately show ?thesis
      using "1.IH" [OF False r(2,3) b(2) r(4), of "n + of_nat (length (sent l))"] b(3) r(5) by (auto simp: l_def)
  qed
qed

section \<open>The properties\<close>

lemma sint_of_nat: "n < 2 ^ 31 \<Longrightarrow> sint (of_nat n :: 32 word) = int n"
  by (simp add: sint_uint unsigned_of_nat take_bit_nat_eq_self signed_take_bit_int_eq_self)

text \<open>
  C23. \<^verbatim>\<open>client\<close> sends the request and passes the answer of the server on in pieces of a line, or of 2047 bytes where a line is
  longer, and ends, however the data are divided and calls are interrupted, provided that the address has at most 8176 bytes
  and the name of the host at most 8180; with one byte more in either, the request is written behind its array. An answer
  all of whose lines end with a newline and are no longer than 2047 bytes arrives unchanged; behind every other piece a null byte is
  inserted. The number of bytes that is returned is the number passed on, below \<open>2 ^ 31\<close>.
\<close>

theorem proxy_relays_answer:
  assumes "length (rio_buf rp) = RIO_BUFSIZE" and "calm k" and "calm b"
  shows "if length uri \<le> 8176 \<and> length hostname \<le> 8180 then
    \<exists>n k' b'. proxy_client uri hostname rp k b = Inr (Some (n, k', b')) \<and>
      outp k' = outp k @ ''GET '' @ uri @ '' HTTP/1.0'' @ [CR, NEWLINE] @ ''Connection: close'' @ [CR, NEWLINE] @
        ''Host: '' @ hostname @ [SPACE, CR, NEWLINE, CR, NEWLINE] \<and>
      outp b' = outp b @ concat (map sent (pieces (inp k))) \<and> concat (pieces (inp k)) = inp k \<and>
      ((\<forall>l \<in> set (pieces (inp k)). ended l) \<longrightarrow> outp b' = outp b @ inp k) \<and>
      (length (concat (map sent (pieces (inp k)))) < 2 ^ 31 \<longrightarrow> length (outp b') = length (outp b) + nat (sint n))
    else proxy_client uri hostname rp k b = Inl Overflow"
proof (cases "length uri \<le> 8176 \<and> length hostname \<le> 8180")
  case True
  define q1 q2 q3 where q: "q1 = ''GET '' @ uri @ '' HTTP/1.0'' @ [CR, NEWLINE]" "q2 = ''Connection: close'' @ [CR, NEWLINE]"
    "q3 = ''Host: '' @ hostname @ [SPACE, CR, NEWLINE, CR, NEWLINE]"
  obtain k1 where 1: "rio_writen q1 k = (int (length q1), k1)" "calm k1" "outp k1 = outp k @ q1" "inp k1 = inp k" using rio_writen_calm [OF assms(2)] .
  obtain k2 where 2: "rio_writen q2 k1 = (int (length q2), k2)" "calm k2" "outp k2 = outp k1 @ q2" "inp k2 = inp k1" using rio_writen_calm [OF 1(2)] .
  obtain k3 where 3: "rio_writen q3 k2 = (int (length q3), k3)" "calm k3" "outp k3 = outp k2 @ q3" "inp k3 = inp k2" using rio_writen_calm [OF 2(2)] .
  have rp: "rio_ok (rio_readinitb rp)" "pending (rio_readinitb rp) k3 = inp k"
    using assms(1) 1(4) 2(4) 3(4) by (auto simp: rio_ok_def rio_readinitb_def pending_def unread_def)
  have "sprintf_request q1 = Inr q1" "sprintf_request q2 = Inr q2" "sprintf_request q3 = Inr q3"
    using True by (simp_all add: sprintf_request_def REQUEST_SIZE_def q)
  then have c: "proxy_client uri hostname rp k b = Inr (relay_loop 0 (rio_readinitb rp) k3 b)"
    using 1(1) 2(1) 3(1) unfolding proxy_client_def q [symmetric] by (simp add: Rio_writen_w_def)
  define ps where "ps = concat (map sent (pieces (inp k)))"
  obtain k' b' where r: "relay_loop 0 (rio_readinitb rp) k3 b = Some (of_nat (length ps), k', b')" "outp b' = outp b @ ps" "outp k' = outp k3"
    using relay_ok [OF rp(1) 3(2) assms(3) rp(2), of 0] by (auto simp: ps_def)
  have "ps = inp k" if "\<forall>l \<in> set (pieces (inp k)). ended l"
  proof -
    have "map sent (pieces (inp k)) = pieces (inp k)" using that by (intro map_idI) (simp add: sent_def)
    then show ?thesis by (simp add: ps_def concat_pieces)
  qed
  moreover have "length (outp b') = length (outp b) + nat (sint (of_nat (length ps) :: 32 word))" if "length ps < 2 ^ 31"
    using sint_of_nat [OF that] by (simp add: r(2))
  moreover have "outp k' = outp k @ q1 @ q2 @ q3" by (simp add: r(3) 1(3) 2(3) 3(3))
  ultimately show ?thesis
    unfolding if_P [OF True] ps_def [symmetric] using c r(1,2) concat_pieces [of "inp k"] by (auto simp: q)
next
  case False
  then show ?thesis by (auto simp: proxy_client_def sprintf_request_def REQUEST_SIZE_def Let_def)
qed

theorem proxy_relays_answer_witness:
  "\<exists>n k' b'. proxy_client ''u'' ''h'' \<lparr>rio_cnt = 0, rio_bufptr = 0, rio_buf = replicate RIO_BUFSIZE NUL\<rparr>
     \<lparr>inp = ''ab'', outp = [], replies = [Intr], errno = 0\<rparr> \<lparr>inp = [], outp = [], replies = [], errno = 0\<rparr> = Inr (Some (n, k', b')) \<and>
     outp b' = ''ab'' @ [NUL] \<and> nat (sint n) = 3"
proof -
  have "pieces ''ab'' = [''ab'']" by (simp add: pieces.simps numeral_eq_Suc NEWLINE_def)
  moreover have "sent ''ab'' = ''ab'' @ [NUL]" by (simp add: sent_def ended_def NEWLINE_def)
  ultimately show ?thesis
    using proxy_relays_answer [of "\<lparr>rio_cnt = 0, rio_bufptr = 0, rio_buf = replicate RIO_BUFSIZE NUL\<rparr>"
        "\<lparr>inp = ''ab'', outp = [], replies = [Intr], errno = 0\<rparr>" "\<lparr>inp = [], outp = [], replies = [], errno = 0\<rparr>" "''u''" "''h''"]
    by (auto simp: calm_def)
qed

text \<open>
  C24. The ring hands the accepted connections to the threads in their order: any sequence of connections that are accepted and
  taken has the results of a queue, except that the connection that arrives while 31 are waiting makes all 32 of them get
  lost.
\<close>

theorem proxy_ring_refines_queue:
  assumes "length (clifd r) = MAXNCLI" and "calls ring_do cs (r\<lparr>iget := 0, iput := 0\<rparr>) = (outs, r')"
  shows "calls queue_do cs [] = (outs, waiting r') \<and> length (waiting r') < MAXNCLI"
proof -
  have r: "ring_ok (r\<lparr>iget := 0, iput := 0\<rparr>)" "waiting (r\<lparr>iget := 0, iput := 0\<rparr>) = []"
    using assms(1) by (simp_all add: ring_ok_def waiting_def MAXNCLI_def)
  have "length (waiting r') < MAXNCLI" by (simp add: waiting_def MAXNCLI_def)
  then show ?thesis using ring_calls.calls_result(2) [OF r(1) _ assms(2)] r(2) by (simp add: list_all_iff)
qed

theorem proxy_ring_refines_queue_witness:
  "fst (calls ring_do [Accepted 4, Take, Take, Accepted 5, Accepted 6, Take] \<lparr>clifd = replicate 32 0, iget = 0, iput = 0\<rparr>) =
   [None, Some 4, None, None, None, Some 5]"
proof -
  define r where "r = \<lparr>clifd = replicate 32 0, iget = 0, iput = 0\<rparr>"
  obtain outs r' where c: "calls ring_do [Accepted 4, Take, Take, Accepted 5, Accepted 6, Take] (r\<lparr>iget := 0, iput := 0\<rparr>) = (outs, r')" by fastforce
  have "calls queue_do [Accepted 4, Take, Take, Accepted 5, Accepted 6, Take] [] = (outs, waiting r')"
    using proxy_ring_refines_queue [OF _ c] by (simp add: r_def MAXNCLI_def)
  then have "outs = [None, Some 4, None, None, None, Some 5]" by (simp add: MAXNCLI_def)
  then show ?thesis using c by (simp add: r_def)
qed

text \<open>\<^verbatim>\<open>parse_uri\<close> takes an address apart: host, port and path of \<^verbatim>\<open>http://host:port/path\<close> are found again, the port is 80 where
  none is given, and an address that does not begin with \<^verbatim>\<open>http://\<close> is refused; but where nothing follows the host name, the code
  uses the null pointer.
\<close>

theorem proxy_parses_uri:
  assumes "set host \<inter> {SPACE, COLON, SLASH, CR, NEWLINE, NUL} = {}"
  shows "parse_uri (''http://'' @ host @ [COLON] @ dec port @ [SLASH] @ path) = Some (Uri host path (int port)) \<and>
    parse_uri (''http://'' @ host @ [SLASH] @ path) = Some (Uri host path 80) \<and>
    parse_uri (''http://'' @ host) = None \<and>
    (map to_lower (take 7 uri) \<noteq> ''http://'' \<longrightarrow> parse_uri uri = Some Bad_uri)"
proof -
  have h: "set host \<inter> set [SPACE, COLON, SLASH, CR, NEWLINE] = {}" "SLASH \<notin> set host" "NUL \<notin> set host" using assms by auto
  have l: "map to_lower (take 7 (''http://'' @ s)) = ''http://''" "drop 7 (''http://'' @ s) = s" for s :: string
    by (simp_all add: to_lower_def)
  have d: "SLASH \<notin> set (host @ COLON # dec port)" "NUL \<notin> set (host @ COLON # dec port)"
    using h dec_digits [of _ port] by (auto simp: SLASH_def COLON_def NUL_def isdigit_def dest!: dec_digits)
  have 1: "strpbrk (host @ COLON # dec port @ SLASH # path) [SPACE, COLON, SLASH, CR, NEWLINE] = Some (length host)"
    by (rule strpbrk_here [OF h(1)]) simp
  have 2: "strchr SLASH (host @ COLON # dec port @ SLASH # path) = Some (length (host @ COLON # dec port))"
    using strchr_here [OF d, of path] by simp
  have 3: "atol (dec port @ SLASH # path) = int port" by (rule atol_dec) (simp add: isdigit_def SLASH_def)
  have "parse_uri (''http://'' @ host @ [COLON] @ dec port @ [SLASH] @ path) = Some (Uri host path (int port))"
    unfolding parse_uri_def l using 1 2 3 by (simp add: Let_def nth_append)
  moreover have "parse_uri (''http://'' @ host @ [SLASH] @ path) = Some (Uri host path 80)"
    unfolding parse_uri_def l using strpbrk_here [OF h(1), of SLASH path] strchr_here [OF h(2,3), of path]
    by (simp add: Let_def nth_append SLASH_def COLON_def)
  moreover have "parse_uri (''http://'' @ host) = None"
    unfolding parse_uri_def l using strpbrk_none [OF h(1)] by simp
  ultimately show ?thesis by (simp add: parse_uri_def)
qed

theorem proxy_parses_uri_witness:
  "parse_uri (''http://'' @ ''kth.se'' @ [COLON] @ dec 8080 @ [SLASH] @ ''a/b'') = Some (Uri ''kth.se'' ''a/b'' 8080)"
  using proxy_parses_uri [of "''kth.se''" 8080 "''a/b''"] by (simp add: char_defs SLASH_def COLON_def CR_def)

end
