(* ===== verification/Sbuf.thy ===== *)
theory Sbuf
  imports Prelude "HOL-Library.Signed_Division"
begin

text \<open>
  \<^verbatim>\<open>csapp/code/conc/sbuf.c\<close>: the bounded buffer that threads share, and the semaphore wrappers of
  \<^verbatim>\<open>csapp/code/src/csapp.c\<close> that it calls. A function that can block is a step function on the place it has reached; a step
  is one call of \<^verbatim>\<open>P\<close> or \<^verbatim>\<open>V\<close>, the increment of an index, or the access to the array. Indices are of type \<^verbatim>\<open>int\<close>, which
  wraps around after 2^31 - 1.
\<close>

record sbuf =
  buf :: "int list"
  n_slots :: int
  front :: int
  rear :: int
  mutex :: nat
  slots :: nat
  items :: nat

definition wrap32 :: "int \<Rightarrow> int" where
  "wrap32 x = (x + 2147483648) mod 4294967296 - 2147483648"

section \<open>The wrappers of the semaphores\<close>

text \<open>\<^verbatim>\<open>sem_wait\<close> fails when a signal interrupts it; the wrapper then ends the program.\<close>

datatype p_result = Taken nat | Blocked | Died

definition P :: "bool \<Rightarrow> nat \<Rightarrow> p_result" where
  "P intr sem = (if intr then Died else if sem > 0 then Taken (sem - 1) else Blocked)"

definition V :: "nat \<Rightarrow> nat" where
  "V sem = sem + 1"

text \<open>\<^verbatim>\<open>sem_init\<close> fails only for a value above \<^verbatim>\<open>SEM_VALUE_MAX\<close>, \<open>2 ^ 31 - 1\<close>; the values here are 0, 1 and a size of type \<^verbatim>\<open>int\<close>.\<close>

definition Sem_init :: "nat \<Rightarrow> nat" where
  "Sem_init value = value"

section \<open>The buffer\<close>

definition sbuf_init :: "nat \<Rightarrow> sbuf" where
  "sbuf_init n = \<lparr>buf = replicate n 0, n_slots = int n, front = 0, rear = 0,
     mutex = Sem_init 1, slots = Sem_init n, items = Sem_init 0\<rparr>"

datatype ins_pc = I_slot | I_lock | I_inc | I_store int | I_unlock | I_post
datatype rem_pc = R_item | R_lock | R_inc | R_load int | R_unlock int | R_post int

datatype ('p, 'r) outcome = Go 'p sbuf | Done 'r sbuf | Block | Exit | Fault

fun wait_then :: "p_result \<Rightarrow> (nat \<Rightarrow> ('p, 'r) outcome) \<Rightarrow> ('p, 'r) outcome" where
  "wait_then (Taken v) f = f v"
| "wait_then Blocked f = Block"
| "wait_then Died f = Exit"

fun sbuf_insert :: "bool \<Rightarrow> int \<Rightarrow> ins_pc \<Rightarrow> sbuf \<Rightarrow> (ins_pc, unit) outcome" where
  "sbuf_insert intr item I_slot sp = wait_then (P intr (slots sp)) (\<lambda>v. Go I_lock (sp\<lparr>slots := v\<rparr>))"
| "sbuf_insert intr item I_lock sp = wait_then (P intr (mutex sp)) (\<lambda>v. Go I_inc (sp\<lparr>mutex := v\<rparr>))"
| "sbuf_insert intr item I_inc sp =
     (let r = wrap32 (rear sp + 1) in Go (I_store (r smod n_slots sp)) (sp\<lparr>rear := r\<rparr>))"
| "sbuf_insert intr item (I_store i) sp =
     (if i < 0 \<or> i \<ge> int (length (buf sp)) then Fault else Go I_unlock (sp\<lparr>buf := (buf sp)[nat i := item]\<rparr>))"
| "sbuf_insert intr item I_unlock sp = Go I_post (sp\<lparr>mutex := V (mutex sp)\<rparr>)"
| "sbuf_insert intr item I_post sp = Done () (sp\<lparr>items := V (items sp)\<rparr>)"

fun sbuf_remove :: "bool \<Rightarrow> rem_pc \<Rightarrow> sbuf \<Rightarrow> (rem_pc, int) outcome" where
  "sbuf_remove intr R_item sp = wait_then (P intr (items sp)) (\<lambda>v. Go R_lock (sp\<lparr>items := v\<rparr>))"
| "sbuf_remove intr R_lock sp = wait_then (P intr (mutex sp)) (\<lambda>v. Go R_inc (sp\<lparr>mutex := v\<rparr>))"
| "sbuf_remove intr R_inc sp =
     (let f = wrap32 (front sp + 1) in Go (R_load (f smod n_slots sp)) (sp\<lparr>front := f\<rparr>))"
| "sbuf_remove intr (R_load i) sp =
     (if i < 0 \<or> i \<ge> int (length (buf sp)) then Fault else Go (R_unlock (buf sp ! nat i)) sp)"
| "sbuf_remove intr (R_unlock item) sp = Go (R_post item) (sp\<lparr>mutex := V (mutex sp)\<rparr>)"
| "sbuf_remove intr (R_post item) sp = Done item (sp\<lparr>slots := V (slots sp)\<rparr>)"

section \<open>Threads\<close>

datatype phase = Idle | Inserting int ins_pc | Removing rem_pc

text \<open>The items put into and taken out of the array so far, in this order, belong to the state.\<close>

record sb_state =
  sb :: sbuf
  thr :: "phase list"
  put :: "int list"
  got :: "int list"
  exited :: bool
  faulted :: bool

definition sb_start :: "nat \<Rightarrow> nat \<Rightarrow> sb_state" where
  "sb_start n m = \<lparr>sb = sbuf_init n, thr = replicate m Idle, put = [], got = [], exited = False, faulted = False\<rparr>"

fun stored :: "int \<Rightarrow> ins_pc \<Rightarrow> int list" where
  "stored item (I_store i) = [item]"
| "stored item pc = []"

fun loaded :: "rem_pc \<Rightarrow> int list" where
  "loaded (R_unlock item) = [item]"
| "loaded pc = []"

inductive sb_step :: "sb_state \<Rightarrow> sb_state \<Rightarrow> bool" where
  call_insert: "i < length (thr s) \<Longrightarrow> thr s ! i = Idle \<Longrightarrow> \<not> exited s \<Longrightarrow> \<not> faulted s \<Longrightarrow>
    sb_step s (s\<lparr>thr := (thr s)[i := Inserting x I_slot]\<rparr>)"
| call_remove: "i < length (thr s) \<Longrightarrow> thr s ! i = Idle \<Longrightarrow> \<not> exited s \<Longrightarrow> \<not> faulted s \<Longrightarrow>
    sb_step s (s\<lparr>thr := (thr s)[i := Removing R_item]\<rparr>)"
| ins_go: "i < length (thr s) \<Longrightarrow> thr s ! i = Inserting x pc \<Longrightarrow> \<not> exited s \<Longrightarrow> \<not> faulted s \<Longrightarrow>
    sbuf_insert intr x pc (sb s) = Go pc' sp \<Longrightarrow>
    sb_step s (s\<lparr>sb := sp, thr := (thr s)[i := Inserting x pc'], put := put s @ stored x pc\<rparr>)"
| ins_done: "i < length (thr s) \<Longrightarrow> thr s ! i = Inserting x pc \<Longrightarrow> \<not> exited s \<Longrightarrow> \<not> faulted s \<Longrightarrow>
    sbuf_insert intr x pc (sb s) = Done () sp \<Longrightarrow> sb_step s (s\<lparr>sb := sp, thr := (thr s)[i := Idle]\<rparr>)"
| ins_exit: "i < length (thr s) \<Longrightarrow> thr s ! i = Inserting x pc \<Longrightarrow> \<not> exited s \<Longrightarrow> \<not> faulted s \<Longrightarrow>
    sbuf_insert intr x pc (sb s) = Exit \<Longrightarrow> sb_step s (s\<lparr>exited := True\<rparr>)"
| ins_fault: "i < length (thr s) \<Longrightarrow> thr s ! i = Inserting x pc \<Longrightarrow> \<not> exited s \<Longrightarrow> \<not> faulted s \<Longrightarrow>
    sbuf_insert intr x pc (sb s) = Fault \<Longrightarrow> sb_step s (s\<lparr>faulted := True\<rparr>)"
| rem_go: "i < length (thr s) \<Longrightarrow> thr s ! i = Removing pc \<Longrightarrow> \<not> exited s \<Longrightarrow> \<not> faulted s \<Longrightarrow>
    sbuf_remove intr pc (sb s) = Go pc' sp \<Longrightarrow>
    sb_step s (s\<lparr>sb := sp, thr := (thr s)[i := Removing pc'], got := got s @ loaded pc'\<rparr>)"
| rem_done: "i < length (thr s) \<Longrightarrow> thr s ! i = Removing pc \<Longrightarrow> \<not> exited s \<Longrightarrow> \<not> faulted s \<Longrightarrow>
    sbuf_remove intr pc (sb s) = Done x sp \<Longrightarrow> sb_step s (s\<lparr>sb := sp, thr := (thr s)[i := Idle]\<rparr>)"
| rem_exit: "i < length (thr s) \<Longrightarrow> thr s ! i = Removing pc \<Longrightarrow> \<not> exited s \<Longrightarrow> \<not> faulted s \<Longrightarrow>
    sbuf_remove intr pc (sb s) = Exit \<Longrightarrow> sb_step s (s\<lparr>exited := True\<rparr>)"
| rem_fault: "i < length (thr s) \<Longrightarrow> thr s ! i = Removing pc \<Longrightarrow> \<not> exited s \<Longrightarrow> \<not> faulted s \<Longrightarrow>
    sbuf_remove intr pc (sb s) = Fault \<Longrightarrow> sb_step s (s\<lparr>faulted := True\<rparr>)"

inductive sb_reach :: "nat \<Rightarrow> nat \<Rightarrow> sb_state \<Rightarrow> bool" for n m where
  start: "sb_reach n m (sb_start n m)"
| more: "sb_reach n m s \<Longrightarrow> sb_step s s' \<Longrightarrow> sb_reach n m s'"

section \<open>The invariant\<close>

definition pcount :: "('a \<Rightarrow> bool) \<Rightarrow> 'a list \<Rightarrow> int" where
  "pcount Q xs = int (length (filter Q xs))"

lemma pcount_Cons: "pcount Q (x # xs) = pcount Q xs + (if Q x then 1 else 0)"
  by (simp add: pcount_def)

lemma pcount_update [cnt_simps]:
  "i < length xs \<Longrightarrow> pcount Q (xs[i := p]) = pcount Q xs - (if Q (xs ! i) then 1 else 0) + (if Q p then 1 else 0)"
proof (induction xs arbitrary: i)
  case (Cons x xs)
  show ?case
  proof (cases i)
    case (Suc j)
    then show ?thesis using Cons.IH [of j] Cons.prems by (simp add: pcount_Cons)
  qed (simp add: pcount_Cons)
qed simp

lemma pcount_nonneg [simp]: "0 \<le> pcount Q xs"
  by (simp add: pcount_def)

lemma pcount_pos: "i < length xs \<Longrightarrow> Q (xs ! i) \<Longrightarrow> 1 \<le> pcount Q xs"
  by (auto simp: pcount_def Suc_le_eq filter_empty_conv dest: nth_mem)

lemma pcount_two:
  assumes "pcount Q xs \<le> 1" and "i < length xs" and "j < length xs" and "i \<noteq> j" and "Q (xs ! i)"
  shows "\<not> Q (xs ! j)"
proof
  assume "Q (xs ! j)"
  obtain y where y: "\<not> Q y \<or> \<not> (\<exists>y. \<not> Q y)" by auto
  show False
  proof (cases "\<exists>y. \<not> Q y")
    case True
    then obtain y where "\<not> Q y" by auto
    then show False using pcount_update [OF assms(2), of Q y] pcount_pos [of j "xs[i := y]" Q] assms \<open>Q (xs ! j)\<close> by simp
  next
    case False
    then have "filter Q xs = xs" by (simp add: filter_id_conv)
    then show False using assms(1-4) by (simp add: pcount_def)
  qed
qed

fun has_slot :: "phase \<Rightarrow> bool" where
  "has_slot (Inserting x I_lock) = True"
| "has_slot (Inserting x I_inc) = True"
| "has_slot (Inserting x (I_store k)) = True"
| "has_slot p = False"

fun has_put :: "phase \<Rightarrow> bool" where
  "has_put (Inserting x I_unlock) = True"
| "has_put (Inserting x I_post) = True"
| "has_put p = False"

fun has_item :: "phase \<Rightarrow> bool" where
  "has_item (Removing R_lock) = True"
| "has_item (Removing R_inc) = True"
| "has_item (Removing (R_load k)) = True"
| "has_item p = False"

fun has_got :: "phase \<Rightarrow> bool" where
  "has_got (Removing (R_unlock x)) = True"
| "has_got (Removing (R_post x)) = True"
| "has_got p = False"

fun critical :: "phase \<Rightarrow> bool" where
  "critical (Inserting x I_inc) = True"
| "critical (Inserting x (I_store k)) = True"
| "critical (Inserting x I_unlock) = True"
| "critical (Removing R_inc) = True"
| "critical (Removing (R_load k)) = True"
| "critical (Removing (R_unlock x)) = True"
| "critical p = False"

fun storing :: "phase \<Rightarrow> bool" where
  "storing (Inserting x (I_store k)) = True"
| "storing p = False"

fun loading :: "phase \<Rightarrow> bool" where
  "loading (Removing (R_load k)) = True"
| "loading p = False"

lemma storing_critical: "storing p \<Longrightarrow> critical p" "loading p \<Longrightarrow> critical p"
  by (cases p rule: storing.cases; simp) (cases p rule: loading.cases; simp)

text \<open>The tokens: every slot is free, on its way, filled or on its way back; and one thread at most is between the calls on the mutex.\<close>

definition tokens :: "nat \<Rightarrow> sb_state \<Rightarrow> bool" where
  "tokens n s \<longleftrightarrow>
     int (slots (sb s)) + pcount has_slot (thr s) + int (length (put s)) + pcount has_got (thr s) = int n + int (length (got s)) \<and>
     int (items (sb s)) + pcount has_put (thr s) + pcount has_item (thr s) + int (length (got s)) = int (length (put s)) \<and>
     int (mutex (sb s)) + pcount critical (thr s) = 1"

definition places :: "nat \<Rightarrow> sb_state \<Rightarrow> bool" where
  "places n s \<longleftrightarrow>
     rear (sb s) = int (length (put s)) + pcount storing (thr s) \<and>
     front (sb s) = int (length (got s)) + pcount loading (thr s) \<and>
     (\<forall>i < length (thr s). \<forall>x k. thr s ! i = Inserting x (I_store k) \<longrightarrow> k = int (Suc (length (put s)) mod n)) \<and>
     (\<forall>i < length (thr s). \<forall>k. thr s ! i = Removing (R_load k) \<longrightarrow> k = int (Suc (length (got s)) mod n))"

definition contents :: "nat \<Rightarrow> sb_state \<Rightarrow> bool" where
  "contents n s \<longleftrightarrow> n_slots (sb s) = int n \<and> length (buf (sb s)) = n \<and> got s = take (length (got s)) (put s) \<and>
     (\<forall>j < length (put s). length (got s) \<le> j \<longrightarrow> buf (sb s) ! (Suc j mod n) = put s ! j) \<and> \<not> faulted s"

definition sb_inv :: "nat \<Rightarrow> sb_state \<Rightarrow> bool" where
  "sb_inv n s \<longleftrightarrow> tokens n s \<and> places n s \<and> contents n s"

lemma pcount_replicate: "\<not> Q p \<Longrightarrow> pcount Q (replicate m p) = 0"
  by (simp add: pcount_def)

lemma sb_inv_start: "sb_inv n (sb_start n m)"
  by (simp add: sb_inv_def tokens_def places_def contents_def sb_start_def sbuf_init_def Sem_init_def pcount_replicate)

lemma wrap32_small: "- 2147483648 \<le> x \<Longrightarrow> x < 2147483648 \<Longrightarrow> wrap32 x = x"
  by (simp add: wrap32_def)

text \<open>A thread between the calls on the mutex is there alone.\<close>

lemma alone:
  assumes "tokens n s" and "i < length (thr s)" and "critical (thr s ! i)"
  shows "\<And>j. j < length (thr s) \<Longrightarrow> j \<noteq> i \<Longrightarrow> \<not> critical (thr s ! j)"
    and "mutex (sb s) = 0" and "pcount critical (thr s) = 1"
proof -
  have c: "1 \<le> pcount critical (thr s)" "pcount critical (thr s) \<le> 1"
    using pcount_pos [of i "thr s" critical] assms by (auto simp: tokens_def)
  then show "pcount critical (thr s) = 1" "mutex (sb s) = 0" using assms(1) by (auto simp: tokens_def)
  show "\<not> critical (thr s ! j)" if "j < length (thr s)" "j \<noteq> i" for j
    using pcount_two [OF c(2) assms(2) that(1)] that(2) assms(3) by auto
qed

lemma alone_pc:
  assumes "tokens n s" and "i < length (thr s)" and "critical (thr s ! i)" and "i \<noteq> j" and "j < length (thr s)"
  shows "thr s ! j = Inserting y (I_store k) \<Longrightarrow> False" and "thr s ! j = Removing (R_load k) \<Longrightarrow> False"
  using alone(1) [OF assms(1-3,5)] assms(4) by auto

lemma pcount_zero: "(\<And>j. j < length xs \<Longrightarrow> \<not> Q (xs ! j)) \<Longrightarrow> pcount Q xs = 0"
  by (auto simp: pcount_def filter_empty_conv in_set_conv_nth)

lemma no_storing:
  assumes "tokens n s" and "i < length (thr s)" and "critical (thr s ! i)"
  shows "\<not> storing (thr s ! i) \<Longrightarrow> pcount storing (thr s) = 0" and "\<not> loading (thr s ! i) \<Longrightarrow> pcount loading (thr s) = 0"
  using alone(1) [OF assms] storing_critical by (metis pcount_zero)+

lemma put_room:
  assumes "tokens n s" and "i < length (thr s)" and "has_slot (thr s ! i)"
  shows "length (put s) < length (got s) + n"
proof -
  have "1 \<le> pcount has_slot (thr s)" using pcount_pos assms(2,3) by blast
  moreover have "0 \<le> pcount has_got (thr s)" by simp
  ultimately show ?thesis using assms(1) unfolding tokens_def by linarith
qed

lemma got_item:
  assumes "tokens n s" and "i < length (thr s)" and "has_item (thr s ! i)"
  shows "length (got s) < length (put s)"
proof -
  have "1 \<le> pcount has_item (thr s)" using pcount_pos assms(2,3) by blast
  moreover have "0 \<le> pcount has_put (thr s)" by simp
  ultimately show ?thesis using assms(1) unfolding tokens_def by linarith
qed

lemmas sb_defs = sb_inv_def tokens_def places_def contents_def

lemma mod_near_neq:
  fixes a b n :: nat
  assumes "a < b" and "b < a + n"
  shows "a mod n \<noteq> b mod n"
proof
  assume "a mod n = b mod n"
  then have "n dvd b - a" using assms(1) mod_eq_dvd_iff_nat [of a b n] by (simp add: eq_commute)
  then have "n \<le> b - a" using assms(1) by (intro dvd_imp_le) auto
  then show False using assms by simp
qed

lemma ins_go_inv:
  assumes inv: "sb_inv n s" and i: "i < length (thr s)" and p: "thr s ! i = Inserting x pc" and n: "0 < n"
    and g: "sbuf_insert intr x pc (sb s) = Go pc' sp" and b: "length (put s) < 2147483647"
  shows "sb_inv n (s\<lparr>sb := sp, thr := (thr s)[i := Inserting x pc'], put := put s @ stored x pc\<rparr>)"
proof (cases pc)
  case I_slot
  then have "slots (sb s) > 0" "pc' = I_lock" "sp = (sb s)\<lparr>slots := slots (sb s) - 1\<rparr>"
    using g by (auto simp: P_def split: if_splits)
  then show ?thesis using inv i p I_slot by (auto simp: sb_defs cnt_simps nth_list_update)
next
  case I_lock
  then have "mutex (sb s) > 0" "pc' = I_inc" "sp = (sb s)\<lparr>mutex := mutex (sb s) - 1\<rparr>"
    using g by (auto simp: P_def split: if_splits)
  then show ?thesis using inv i p I_lock by (auto simp: sb_defs cnt_simps nth_list_update)
next
  case I_unlock
  then have "pc' = I_post" "sp = (sb s)\<lparr>mutex := mutex (sb s) + 1\<rparr>" using g by (auto simp: V_def)
  then show ?thesis using inv i p I_unlock by (auto simp: sb_defs cnt_simps nth_list_update)
next
  case I_post
  then show ?thesis using g by simp
next
  case I_inc
  have t: "tokens n s" using inv by (simp add: sb_inv_def)
  have c: "critical (thr s ! i)" "\<not> storing (thr s ! i)" using p I_inc by auto
  have st: "pcount storing (thr s) = 0" using no_storing(1) [OF t i c(1)] c(2) by simp
  have r: "rear (sb s) = int (length (put s))" "n_slots (sb s) = int n" using inv st by (auto simp: sb_defs)
  have w: "wrap32 (rear (sb s) + 1) = int (Suc (length (put s)))" using b by (simp add: r wrap32_small)
  then have e: "pc' = I_store (int (Suc (length (put s)) mod n))" "sp = (sb s)\<lparr>rear := int (Suc (length (put s)))\<rparr>"
    using g I_inc n by (auto simp: r Let_def signed_modulo_int_def zmod_int)
  show ?thesis using inv i p I_inc st alone(1) [OF t i c(1)]
    by (auto simp: e sb_defs cnt_simps nth_list_update)
next
  case (I_store k)
  have t: "tokens n s" using inv by (simp add: sb_inv_def)
  have c: "critical (thr s ! i)" "has_slot (thr s ! i)" "\<not> loading (thr s ! i)" using p I_store by auto
  have k: "k = int (Suc (length (put s)) mod n)" using inv i p I_store by (auto simp: sb_defs)
  have e: "pc' = I_unlock" "sp = (sb s)\<lparr>buf := (buf (sb s))[Suc (length (put s)) mod n := x]\<rparr>"
    using g I_store k by (auto split: if_splits)
  have room: "length (put s) < length (got s) + n" by (rule put_room [OF t i c(2)])
  have other: "Suc (length (put s)) mod n \<noteq> Suc j mod n" if "j < length (put s)" "length (got s) \<le> j" for j
    using that room by (intro mod_near_neq [THEN not_sym]) auto
  have lg: "length (got s) \<le> length (put s)" using inv unfolding sb_inv_def contents_def by (metis length_take min.cobounded1)
  have "contents n (s\<lparr>sb := sp, thr := (thr s)[i := Inserting x pc'], put := put s @ stored x pc\<rparr>)"
    using inv lg other n by (auto simp: e I_store sb_inv_def contents_def nth_append less_Suc_eq)
  moreover have "tokens n (s\<lparr>sb := sp, thr := (thr s)[i := Inserting x pc'], put := put s @ stored x pc\<rparr>)"
    using inv i p by (simp add: e I_store sb_inv_def tokens_def cnt_simps)
  moreover have "places n (s\<lparr>sb := sp, thr := (thr s)[i := Inserting x pc'], put := put s @ stored x pc\<rparr>)"
    using inv i p by (auto simp: e I_store sb_inv_def places_def cnt_simps nth_list_update dest: alone_pc [OF t i c(1)])
  ultimately show ?thesis by (simp add: sb_inv_def)
qed

lemma ins_done_inv:
  assumes "sb_inv n s" and "i < length (thr s)" and "thr s ! i = Inserting x pc" and "sbuf_insert intr x pc (sb s) = Done () sp"
  shows "sb_inv n (s\<lparr>sb := sp, thr := (thr s)[i := Idle]\<rparr>)"
  using assms by (cases pc) (auto simp: P_def V_def Let_def sb_defs cnt_simps nth_list_update split: if_splits)

lemma rem_go_inv:
  assumes inv: "sb_inv n s" and i: "i < length (thr s)" and p: "thr s ! i = Removing pc" and n: "0 < n"
    and g: "sbuf_remove intr pc (sb s) = Go pc' sp" and b: "length (put s) < 2147483647"
  shows "sb_inv n (s\<lparr>sb := sp, thr := (thr s)[i := Removing pc'], got := got s @ loaded pc'\<rparr>)"
proof (cases pc)
  case R_item
  then have "items (sb s) > 0" "pc' = R_lock" "sp = (sb s)\<lparr>items := items (sb s) - 1\<rparr>"
    using g by (auto simp: P_def split: if_splits)
  then show ?thesis using inv i p R_item by (auto simp: sb_defs cnt_simps nth_list_update)
next
  case R_lock
  then have "mutex (sb s) > 0" "pc' = R_inc" "sp = (sb s)\<lparr>mutex := mutex (sb s) - 1\<rparr>"
    using g by (auto simp: P_def split: if_splits)
  then show ?thesis using inv i p R_lock by (auto simp: sb_defs cnt_simps nth_list_update)
next
  case (R_unlock y)
  then have "pc' = R_post y" "sp = (sb s)\<lparr>mutex := mutex (sb s) + 1\<rparr>" using g by (auto simp: V_def)
  then show ?thesis using inv i p R_unlock by (auto simp: sb_defs cnt_simps nth_list_update)
next
  case (R_post y)
  then show ?thesis using g by simp
next
  case R_inc
  have t: "tokens n s" using inv by (simp add: sb_inv_def)
  have c: "critical (thr s ! i)" "\<not> loading (thr s ! i)" "has_item (thr s ! i)" using p R_inc by auto
  have ld: "pcount loading (thr s) = 0" using no_storing(2) [OF t i c(1)] c(2) by simp
  have r: "front (sb s) = int (length (got s))" "n_slots (sb s) = int n" using inv ld by (auto simp: sb_defs)
  have w: "wrap32 (front (sb s) + 1) = int (Suc (length (got s)))" using b got_item [OF t i c(3)] by (simp add: r wrap32_small)
  then have e: "pc' = R_load (int (Suc (length (got s)) mod n))" "sp = (sb s)\<lparr>front := int (Suc (length (got s)))\<rparr>"
    using g R_inc n by (auto simp: r Let_def signed_modulo_int_def zmod_int)
  show ?thesis using inv i p R_inc ld alone(1) [OF t i c(1)]
    by (auto simp: e sb_defs cnt_simps nth_list_update)
next
  case (R_load k)
  have t: "tokens n s" using inv by (simp add: sb_inv_def)
  have c: "critical (thr s ! i)" "has_item (thr s ! i)" using p R_load by auto
  have k: "k = int (Suc (length (got s)) mod n)" using inv i p R_load by (auto simp: sb_defs)
  have lt: "length (got s) < length (put s)" by (rule got_item [OF t i c(2)])
  have v: "buf (sb s) ! (Suc (length (got s)) mod n) = put s ! length (got s)" using inv lt by (auto simp: sb_defs)
  have e: "pc' = R_unlock (put s ! length (got s))" "sp = sb s"
    using g R_load k v by (auto split: if_splits)
  have "contents n (s\<lparr>sb := sp, thr := (thr s)[i := Removing pc'], got := got s @ loaded pc'\<rparr>)"
    using inv lt by (auto simp: e sb_inv_def contents_def take_Suc_conv_app_nth)
  moreover have "tokens n (s\<lparr>sb := sp, thr := (thr s)[i := Removing pc'], got := got s @ loaded pc'\<rparr>)"
    using inv i p by (simp add: e R_load sb_inv_def tokens_def cnt_simps)
  moreover have "places n (s\<lparr>sb := sp, thr := (thr s)[i := Removing pc'], got := got s @ loaded pc'\<rparr>)"
    using inv i p by (auto simp: e R_load sb_inv_def places_def cnt_simps nth_list_update dest: alone_pc [OF t i c(1)])
  ultimately show ?thesis by (simp add: sb_inv_def)
qed

lemma rem_done_inv:
  assumes "sb_inv n s" and "i < length (thr s)" and "thr s ! i = Removing pc" and "sbuf_remove intr pc (sb s) = Done x sp"
  shows "sb_inv n (s\<lparr>sb := sp, thr := (thr s)[i := Idle]\<rparr>)"
  using assms by (cases pc) (auto simp: P_def V_def Let_def sb_defs cnt_simps nth_list_update split: if_splits)

lemma no_fault_ins:
  assumes "sb_inv n s" and "0 < n" and "i < length (thr s)" and "thr s ! i = Inserting x pc"
  shows "sbuf_insert intr x pc (sb s) \<noteq> Fault"
proof (cases pc)
  case (I_store k)
  then have k: "k = int (Suc (length (put s)) mod n)" and l: "length (buf (sb s)) = n" using assms by (auto simp: sb_defs)
  have "0 \<le> k \<and> k < int n"
    unfolding k by (simp only: of_nat_0_le_iff of_nat_less_iff mod_less_divisor assms(2) simp_thms)
  then show ?thesis using I_store l by simp
qed (simp_all add: P_def Let_def)

lemma no_fault_rem:
  assumes "sb_inv n s" and "0 < n" and "i < length (thr s)" and "thr s ! i = Removing pc"
  shows "sbuf_remove intr pc (sb s) \<noteq> Fault"
proof (cases pc)
  case (R_load k)
  then have k: "k = int (Suc (length (got s)) mod n)" and l: "length (buf (sb s)) = n" using assms by (auto simp: sb_defs)
  have "0 \<le> k \<and> k < int n"
    unfolding k by (simp only: of_nat_0_le_iff of_nat_less_iff mod_less_divisor assms(2) simp_thms)
  then show ?thesis using R_load l by simp
qed (simp_all add: P_def Let_def)

lemma put_grows: "sb_step s s' \<Longrightarrow> length (put s) \<le> length (put s')"
  by (induction rule: sb_step.induct) auto

lemma sb_step_inv:
  assumes "sb_step s s'" and "sb_inv n s" and "0 < n" and "length (put s) < 2147483647"
  shows "sb_inv n s'"
  using assms(1)
proof cases
  case (call_insert i x)
  then show ?thesis using assms(2) by (auto simp: sb_defs cnt_simps nth_list_update)
next
  case (call_remove i)
  then show ?thesis using assms(2) by (auto simp: sb_defs cnt_simps nth_list_update)
next
  case (ins_go i x pc intr pc' sp)
  then show ?thesis using ins_go_inv [OF assms(2) _ _ assms(3) _ assms(4)] by blast
next
  case (ins_done i x pc intr sp)
  then show ?thesis using ins_done_inv [OF assms(2)] by blast
next
  case (ins_exit i x pc intr)
  then show ?thesis using assms(2) by (simp add: sb_defs)
next
  case (ins_fault i x pc intr)
  then show ?thesis using no_fault_ins [OF assms(2,3)] by blast
next
  case (rem_go i pc intr pc' sp)
  then show ?thesis using rem_go_inv [OF assms(2) _ _ assms(3) _ assms(4)] by blast
next
  case (rem_done i pc intr x sp)
  then show ?thesis using rem_done_inv [OF assms(2)] by blast
next
  case (rem_exit i pc intr)
  then show ?thesis using assms(2) by (simp add: sb_defs)
next
  case (rem_fault i pc intr)
  then show ?thesis using no_fault_rem [OF assms(2,3)] by blast
qed

lemma sb_reach_inv: "sb_reach n m s \<Longrightarrow> 0 < n \<Longrightarrow> length (put s) < 2147483647 \<Longrightarrow> sb_inv n s"
proof (induction rule: sb_reach.induct)
  case (more s s')
  then have "length (put s) < 2147483647" using put_grows by fastforce
  then show ?case using more sb_step_inv by blast
qed (simp add: sb_inv_start)

section \<open>Runs of one thread\<close>

lemma ins_step:
  assumes "sb_reach n m s" and "i < length (thr s)" and "thr s ! i = Inserting x pc" and "\<not> exited s" and "\<not> faulted s"
    and "sbuf_insert False x pc (sb s) = Go pc' sp"
    and "s' = s\<lparr>sb := sp, thr := (thr s)[i := Inserting x pc'], put := put s @ stored x pc\<rparr>"
  shows "sb_reach n m s'"
  using sb_reach.more [OF assms(1) sb_step.ins_go [OF assms(2-6)]] assms(7) by simp

lemma rem_step:
  assumes "sb_reach n m s" and "i < length (thr s)" and "thr s ! i = Removing pc" and "\<not> exited s" and "\<not> faulted s"
    and "sbuf_remove False pc (sb s) = Go pc' sp"
    and "s' = s\<lparr>sb := sp, thr := (thr s)[i := Removing pc'], got := got s @ loaded pc'\<rparr>"
  shows "sb_reach n m s'"
  using sb_reach.more [OF assms(1) sb_step.rem_go [OF assms(2-6)]] assms(7) by simp

lemma insert_begin:
  assumes r: "sb_reach n m s" and i: "i < length (thr s)" "thr s ! i = Idle" and ok: "\<not> exited s" "\<not> faulted s"
    and free: "slots (sb s) = Suc a" "mutex (sb s) = Suc b"
    and k: "q = wrap32 (rear (sb s) + 1)"
  shows "sb_reach n m (s\<lparr>sb := (sb s)\<lparr>slots := a, mutex := b, rear := q\<rparr>,
    thr := (thr s)[i := Inserting x (I_store (q smod n_slots (sb s)))]\<rparr>)"
proof -
  let ?t = "\<lambda>pc. (thr s)[i := Inserting x pc]"
  have 1: "sb_reach n m (s\<lparr>thr := ?t I_slot\<rparr>)" using sb_reach.more [OF r sb_step.call_insert [OF i ok]] .
  have 2: "sb_reach n m (s\<lparr>sb := (sb s)\<lparr>slots := a\<rparr>, thr := ?t I_lock\<rparr>)"
    by (rule ins_step [OF 1, of i x I_slot]; (use i ok free in \<open>simp add: P_def\<close>)?; (cases s; cases "sb s"; simp)?)
  have 3: "sb_reach n m (s\<lparr>sb := (sb s)\<lparr>slots := a, mutex := b\<rparr>, thr := ?t I_inc\<rparr>)"
    by (rule ins_step [OF 2, of i x I_lock]; (use i ok free in \<open>simp add: P_def\<close>)?; (cases s; cases "sb s"; simp)?)
  show ?thesis
    by (rule ins_step [OF 3, of i x I_inc]; (use i ok k in \<open>simp add: Let_def\<close>)?; (cases s; cases "sb s"; simp)?)
qed

lemma insert_run:
  assumes r: "sb_reach n m s" and i: "i < length (thr s)" "thr s ! i = Idle" and ok: "\<not> exited s" "\<not> faulted s"
    and free: "slots (sb s) = Suc a" "mutex (sb s) = Suc b"
    and k: "q = wrap32 (rear (sb s) + 1)" "k = q smod n_slots (sb s)" "0 \<le> k" "k < int (length (buf (sb s)))"
  shows "sb_reach n m (s\<lparr>sb := (sb s)\<lparr>buf := (buf (sb s))[nat k := x], rear := q, slots := a, items := items (sb s) + 1\<rparr>,
    put := put s @ [x]\<rparr>)"
proof -
  let ?t = "\<lambda>pc. (thr s)[i := Inserting x pc]" and ?b = "(buf (sb s))[nat k := x]"
  have 4: "sb_reach n m (s\<lparr>sb := (sb s)\<lparr>slots := a, mutex := b, rear := q\<rparr>, thr := ?t (I_store k)\<rparr>)"
    using insert_begin [OF r i ok free k(1)] k(2) by simp
  have 5: "sb_reach n m (s\<lparr>sb := (sb s)\<lparr>slots := a, mutex := b, rear := q, buf := ?b\<rparr>, thr := ?t I_unlock, put := put s @ [x]\<rparr>)"
    by (rule ins_step [OF 4, of i x "I_store k"]; (use i ok k in simp)?; (cases s; cases "sb s"; simp)?)
  have 6: "sb_reach n m (s\<lparr>sb := (sb s)\<lparr>slots := a, mutex := mutex (sb s), rear := q, buf := ?b\<rparr>, thr := ?t I_post, put := put s @ [x]\<rparr>)"
    by (rule ins_step [OF 5, of i x I_unlock]; (use i ok free in \<open>simp add: V_def\<close>)?; (cases s; cases "sb s"; simp)?)
  have t: "(thr s)[i := Idle] = thr s" using i by (metis list_update_id)
  show ?thesis
    using sb_reach.more [OF 6 sb_step.ins_done [of i _ x I_post False]] i ok t
    by (cases s; cases "sb s") (simp add: V_def)
qed

lemma remove_run:
  assumes r: "sb_reach n m s" and i: "i < length (thr s)" "thr s ! i = Idle" and ok: "\<not> exited s" "\<not> faulted s"
    and free: "items (sb s) = Suc a" "mutex (sb s) = Suc b"
    and k: "q = wrap32 (front (sb s) + 1)" "k = q smod n_slots (sb s)" "0 \<le> k" "k < int (length (buf (sb s)))"
  shows "sb_reach n m (s\<lparr>sb := (sb s)\<lparr>front := q, items := a, slots := slots (sb s) + 1\<rparr>, got := got s @ [buf (sb s) ! nat k]\<rparr>)"
proof -
  let ?t = "\<lambda>pc. (thr s)[i := Removing pc]" and ?x = "buf (sb s) ! nat k"
  have 1: "sb_reach n m (s\<lparr>thr := ?t R_item\<rparr>)" using sb_reach.more [OF r sb_step.call_remove [OF i ok]] .
  have 2: "sb_reach n m (s\<lparr>sb := (sb s)\<lparr>items := a\<rparr>, thr := ?t R_lock\<rparr>)"
    by (rule rem_step [OF 1, of i R_item]; (use i ok free in \<open>simp add: P_def\<close>)?; (cases s; cases "sb s"; simp)?)
  have 3: "sb_reach n m (s\<lparr>sb := (sb s)\<lparr>items := a, mutex := b\<rparr>, thr := ?t R_inc\<rparr>)"
    by (rule rem_step [OF 2, of i R_lock]; (use i ok free in \<open>simp add: P_def\<close>)?; (cases s; cases "sb s"; simp)?)
  have 4: "sb_reach n m (s\<lparr>sb := (sb s)\<lparr>items := a, mutex := b, front := q\<rparr>, thr := ?t (R_load k)\<rparr>)"
    by (rule rem_step [OF 3, of i R_inc]; (use i ok k in \<open>simp add: Let_def\<close>)?; (cases s; cases "sb s"; simp)?)
  have 5: "sb_reach n m (s\<lparr>sb := (sb s)\<lparr>items := a, mutex := b, front := q\<rparr>, thr := ?t (R_unlock ?x), got := got s @ [?x]\<rparr>)"
    by (rule rem_step [OF 4, of i "R_load k"]; (use i ok k in simp)?; (cases s; cases "sb s"; simp)?)
  have 6: "sb_reach n m (s\<lparr>sb := (sb s)\<lparr>items := a, mutex := mutex (sb s), front := q\<rparr>, thr := ?t (R_post ?x), got := got s @ [?x]\<rparr>)"
    by (rule rem_step [OF 5, of i "R_unlock ?x"]; (use i ok free in \<open>simp add: V_def\<close>)?; (cases s; cases "sb s"; simp)?)
  have t: "(thr s)[i := Idle] = thr s" using i by (metis list_update_id)
  show ?thesis
    using sb_reach.more [OF 6 sb_step.rem_done [of i _ "R_post ?x" False]] i ok t
    by (cases s; cases "sb s") (simp add: V_def)
qed

lemma int_mod_range: "0 < n \<Longrightarrow> 0 \<le> int (k mod n) \<and> int (k mod n) < int n"
  by (simp only: of_nat_0_le_iff of_nat_less_iff mod_less_divisor simp_thms)

lemma smod_of_nat: "0 < n \<Longrightarrow> int k smod int n = int (k mod n)"
  by (cases "k = 0") (simp_all add: signed_modulo_int_def zmod_int)

lemma neg_smod:
  fixes m n :: int
  assumes "0 < n" and "0 < m" and "\<not> n dvd m"
  shows "- m smod n < 0"
proof -
  have "m mod n \<noteq> 0" "0 \<le> m mod n" using assms by (auto simp: mod_eq_0_iff_dvd)
  then have "0 < m mod n" by linarith
  then show ?thesis using assms by (simp add: signed_modulo_int_def)
qed

lemma cycles:
  assumes n: "0 < n"
  shows "k \<le> 2147483647 \<Longrightarrow> \<exists>s. sb_reach n 1 s \<and> thr s = [Idle] \<and> \<not> exited s \<and> \<not> faulted s \<and>
    rear (sb s) = int k \<and> front (sb s) = int k \<and> slots (sb s) = n \<and> items (sb s) = 0 \<and> mutex (sb s) = 1 \<and>
    n_slots (sb s) = int n \<and> length (buf (sb s)) = n \<and> length (put s) = k"
proof (induction k)
  case 0
  then show ?case
    by (intro exI [of _ "sb_start n 1"]) (simp add: sb_reach.start, simp add: sb_start_def sbuf_init_def Sem_init_def)
next
  case (Suc k)
  then obtain s where s: "sb_reach n 1 s" "thr s = [Idle]" "\<not> exited s" "\<not> faulted s" "rear (sb s) = int k"
      "front (sb s) = int k" "slots (sb s) = n" "items (sb s) = 0" "mutex (sb s) = 1" "n_slots (sb s) = int n"
      "length (buf (sb s)) = n" "length (put s) = k" by auto
  define q where "q = int (Suc k mod n)"
  have q: "q = int (Suc k) smod n_slots (sb s)" "0 \<le> q" "q < int (length (buf (sb s)))"
    using int_mod_range [OF n, of "Suc k"] s(10,11) smod_of_nat [OF n, of "Suc k"] by (simp_all add: q_def)
  have w: "int (Suc k) = wrap32 (int k + 1)" using Suc.prems by (simp add: wrap32_small)
  obtain a where a: "n = Suc a" using n by (cases n) auto
  define s1 where "s1 = s\<lparr>sb := (sb s)\<lparr>buf := (buf (sb s))[nat q := 0], rear := int (Suc k), slots := a, items := items (sb s) + 1\<rparr>,
    put := put s @ [0]\<rparr>"
  have 1: "sb_reach n 1 s1" unfolding s1_def
    by (rule insert_run [OF s(1), of 0 a 0, OF _ _ s(3,4) _ _ _ q]) (use s w a in simp_all)
  have 2: "sb_reach n 1 (s1\<lparr>sb := (sb s1)\<lparr>front := int (Suc k), items := 0, slots := slots (sb s1) + 1\<rparr>, got := got s1 @ [buf (sb s1) ! nat q]\<rparr>)"
    by (rule remove_run [OF 1, of 0 0 0 "int (Suc k)" q]) (use s w q in \<open>simp_all add: s1_def\<close>)
  show ?case by (rule exI, rule conjI, rule 2) (use s a in \<open>simp add: s1_def\<close>)
qed

section \<open>The properties\<close>

text \<open>
  C8. However the threads interleave, the items come out of the buffer in the order in which they went in, none is lost,
  overwritten or given twice, at most as many as there are slots are in the buffer, no index leaves the array, and at most
  one thread is between \<^verbatim>\<open>P(&sp->mutex)\<close> and \<^verbatim>\<open>V(&sp->mutex)\<close>. This holds for the first 2^31 - 2 items.
\<close>

theorem sbuf_fifo:
  assumes "sb_reach n m s" and "0 < n" and "length (put s) < 2147483647"
  shows "got s = take (length (got s)) (put s) \<and> length (put s) \<le> length (got s) + n \<and> \<not> faulted s \<and>
    pcount critical (thr s) \<le> 1 \<and>
    (\<forall>j < length (put s). length (got s) \<le> j \<longrightarrow> buf (sb s) ! (Suc j mod n) = put s ! j)"
proof -
  note inv = sb_reach_inv [OF assms, unfolded sb_inv_def]
  have "0 \<le> pcount has_slot (thr s)" "0 \<le> pcount has_got (thr s)" by simp_all
  then have "length (put s) \<le> length (got s) + n" "pcount critical (thr s) \<le> 1"
    using inv unfolding tokens_def by linarith+
  then show ?thesis using inv by (simp add: contents_def)
qed

theorem sbuf_fifo_witness: "\<exists>s. sb_reach 3 1 s \<and> length (put s) = 5 \<and> got s = take (length (got s)) (put s) \<and> \<not> faulted s"
proof -
  obtain s where s: "sb_reach 3 1 s" "length (put s) = 5" using cycles [of 3 5] by auto
  then show ?thesis using sbuf_fifo [OF s(1)] by auto
qed

text \<open>
  C27. The threads do not block each other: when threads are in the middle of calls and none of them can go on, then all of
  them wait to insert into a full buffer, or all of them wait to remove from an empty one.
\<close>

definition runnable :: "sb_state \<Rightarrow> phase \<Rightarrow> bool" where
  "runnable s p = (case p of
     Idle \<Rightarrow> False
   | Inserting x pc \<Rightarrow> sbuf_insert False x pc (sb s) \<noteq> Block
   | Removing pc \<Rightarrow> sbuf_remove False pc (sb s) \<noteq> Block)"

lemma not_runnable:
  assumes "\<not> runnable s p"
  shows "p = Idle \<or> (\<exists>x. p = Inserting x I_slot \<and> slots (sb s) = 0) \<or> (\<exists>x. p = Inserting x I_lock \<and> mutex (sb s) = 0) \<or>
    (p = Removing R_item \<and> items (sb s) = 0) \<or> (p = Removing R_lock \<and> mutex (sb s) = 0)"
proof (cases p)
  case (Inserting x pc)
  then show ?thesis using assms by (cases pc) (auto simp: runnable_def P_def Let_def split: if_splits)
next
  case (Removing pc)
  then show ?thesis using assms by (cases pc) (auto simp: runnable_def P_def Let_def split: if_splits)
qed simp

lemma pcount_none: "(\<And>p. p \<in> set xs \<Longrightarrow> \<not> Q p) \<Longrightarrow> pcount Q xs = 0"
  by (simp add: pcount_def filter_empty_conv)

theorem sbuf_progress:
  assumes "sb_reach n m s" and "0 < n" and "length (put s) < 2147483647"
    and "\<forall>p \<in> set (thr s). \<not> runnable s p" and "\<exists>p \<in> set (thr s). p \<noteq> Idle"
  shows "(\<forall>p \<in> set (thr s). p = Idle \<or> (\<exists>x. p = Inserting x I_slot)) \<and> length (put s) = length (got s) + n \<or>
    (\<forall>p \<in> set (thr s). p = Idle \<or> p = Removing R_item) \<and> got s = put s"
proof -
  have inv: "tokens n s" "contents n s" using sb_reach_inv [OF assms(1-3)] by (auto simp: sb_inv_def)
  have w: "p = Idle \<or> (\<exists>x. p = Inserting x I_slot \<and> slots (sb s) = 0) \<or> (\<exists>x. p = Inserting x I_lock \<and> mutex (sb s) = 0) \<or>
      (p = Removing R_item \<and> items (sb s) = 0) \<or> (p = Removing R_lock \<and> mutex (sb s) = 0)" if "p \<in> set (thr s)" for p
    using not_runnable assms(4) that by blast
  have "pcount critical (thr s) = 0" by (rule pcount_none) (use w in fastforce)
  then have "mutex (sb s) = 1" using inv(1) by (simp add: tokens_def)
  then have w: "p = Idle \<or> (\<exists>x. p = Inserting x I_slot) \<and> slots (sb s) = 0 \<or> p = Removing R_item \<and> items (sb s) = 0"
    if "p \<in> set (thr s)" for p using w [OF that] by auto
  have z: "pcount has_slot (thr s) = 0" "pcount has_got (thr s) = 0" "pcount has_put (thr s) = 0" "pcount has_item (thr s) = 0"
    by (rule pcount_none; use w in fastforce)+
  then have e: "int (slots (sb s)) + int (length (put s)) = int n + int (length (got s))"
    "int (items (sb s)) + int (length (got s)) = int (length (put s))"
    using inv(1) by (simp_all add: tokens_def)
  show ?thesis
  proof (cases "slots (sb s) = 0")
    case True
    then have "items (sb s) \<noteq> 0" using e assms(2) by auto
    then show ?thesis using w e(1) True by auto
  next
    case False
    then have "\<forall>p \<in> set (thr s). p = Idle \<or> p = Removing R_item \<and> items (sb s) = 0"
    proof (intro ballI)
      fix p
      assume "p \<in> set (thr s)"
      then show "p = Idle \<or> p = Removing R_item \<and> items (sb s) = 0" using w [of p] False by auto
    qed
    moreover then have "items (sb s) = 0" using assms(5) by blast
    moreover then have "length (got s) = length (put s)" using e(2) by simp
    moreover then have "got s = put s" using inv(2) unfolding contents_def by (metis take_all order_refl)
    ultimately show ?thesis by blast
  qed
qed

theorem sbuf_progress_witness:
  "\<exists>s. sb_reach 2 1 s \<and> thr s = [Removing R_item] \<and> got s = put s"
proof -
  let ?s = "(sb_start 2 1)\<lparr>thr := [Removing R_item]\<rparr>"
  have r: "sb_reach 2 1 ?s"
    using sb_reach.more [OF sb_reach.start sb_step.call_remove [of 0 "sb_start 2 1"]] by (simp add: sb_start_def)
  have "\<forall>p \<in> set (thr ?s). \<not> runnable ?s p" by (simp add: runnable_def P_def sb_start_def sbuf_init_def Sem_init_def)
  from sbuf_progress [OF r _ _ this] r show ?thesis by (intro exI [of _ ?s]) (simp add: sb_start_def)
qed

text \<open>The index of the last item is of type \<^verbatim>\<open>int\<close> and never reset: after 2^31 - 1 items it overflows, the remainder is
  negative for every number of slots that does not divide 2^31, and the next insertion writes outside the array.
\<close>

theorem sbuf_index_overflow:
  assumes "0 < n" and "\<not> n dvd 2147483648"
  shows "\<exists>s. sb_reach n 1 s \<and> length (put s) = 2147483647 \<and> faulted s"
proof -
  obtain s where s: "sb_reach n 1 s" "thr s = [Idle]" "\<not> exited s" "\<not> faulted s" "rear (sb s) = 2147483647"
      "slots (sb s) = n" "mutex (sb s) = 1" "n_slots (sb s) = int n" "length (put s) = 2147483647"
    using cycles [OF assms(1), of 2147483647] by auto
  obtain a where a: "n = Suc a" using assms(1) by (cases n) auto
  have w: "- 2147483648 = wrap32 (rear (sb s) + 1)" by (simp add: s(5) wrap32_def)
  define k where "k = - 2147483648 smod int n"
  have "\<not> int n dvd 2147483648" using assms(2) int_dvd_int_iff [of n 2147483648] by simp
  then have k: "k < 0" unfolding k_def using assms(1) by (intro neg_smod) auto
  define s1 where "s1 = s\<lparr>sb := (sb s)\<lparr>slots := a, mutex := 0, rear := - 2147483648\<rparr>, thr := [Inserting 0 (I_store k)]\<rparr>"
  have "sb_reach n 1 s1"
    using insert_begin [OF s(1), of 0 a 0 "- 2147483648" 0] s a w by (simp add: s1_def k_def)
  moreover have "sb_step s1 (s1\<lparr>faulted := True\<rparr>)"
    by (rule sb_step.ins_fault [of 0 _ 0 "I_store k" False]) (use s k in \<open>simp_all add: s1_def\<close>)
  ultimately have "sb_reach n 1 (s1\<lparr>faulted := True\<rparr>)" by (rule sb_reach.more)
  then show ?thesis using s(9) by (intro exI [of _ "s1\<lparr>faulted := True\<rparr>"]) (simp add: s1_def)
qed

theorem sbuf_index_overflow_witness: "\<exists>s. sb_reach 3 1 s \<and> faulted s"
  using sbuf_index_overflow [of 3] by auto

end
