(* ===== verification/Vector.thy ===== *)
theory Vector
  imports Calls "HOL-Library.Multiset"
begin

text \<open>
  \<^verbatim>\<open>cpp-code/vector/lab1_1.5/vector.h\<close>: the class template \<^verbatim>\<open>Vector<T>\<close>. The array is a list as long as the capacity; \<open>d\<close> is what
  the elements of a new array hold. \<open>lt\<close> is the operator \<^verbatim>\<open><\<close> of the elements. An argument of type \<^verbatim>\<open>const T&\<close> is a
  reference: to an object outside of the vector, or to an element of the array itself. The last kind is lost when the array is
  replaced (\<open>Dangling\<close>). The loop variables of type \<^verbatim>\<open>int\<close> are natural numbers: a vector has less than 2^31 elements.
\<close>

definition CAPACITY :: nat where "CAPACITY = 50"

record 'a vector =
  v_capacity :: nat
  v_size :: nat
  v_arr :: "'a list"

datatype v_error = Out_of_range | Dangling

datatype 'a ref = Value 'a | Element nat

section \<open>Constructors\<close>

definition vector_new :: "'a \<Rightarrow> 'a vector" where
  "vector_new d = \<lparr>v_capacity = CAPACITY, v_size = 0, v_arr = replicate CAPACITY d\<rparr>"

text \<open>\<open>t\<close> is the value of \<^verbatim>\<open>T()\<close>.\<close>

definition vector_size :: "'a \<Rightarrow> 'a \<Rightarrow> nat \<Rightarrow> 'a vector" where
  "vector_size d t sz =
     (let cap = max sz CAPACITY
      in \<lparr>v_capacity = cap, v_size = sz, v_arr = foldl (\<lambda>arr i. arr[i := t]) (replicate cap d) [0..<sz]\<rparr>)"

definition vector_fill :: "'a \<Rightarrow> nat \<Rightarrow> 'a \<Rightarrow> 'a vector" where
  "vector_fill d sz elem =
     (let cap = max sz CAPACITY
      in \<lparr>v_capacity = cap, v_size = sz, v_arr = foldl (\<lambda>arr i. arr[i := elem]) (replicate cap d) [0..<sz]\<rparr>)"

definition vector_copy :: "'a \<Rightarrow> 'a vector \<Rightarrow> 'a vector" where
  "vector_copy d v =
     \<lparr>v_capacity = v_capacity v, v_size = v_size v,
      v_arr = foldl (\<lambda>arr i. arr[i := v_arr v ! i]) (replicate (v_capacity v) d) [0..<v_size v]\<rparr>"

section \<open>Elements\<close>

definition v_index :: "nat \<Rightarrow> 'a vector \<Rightarrow> v_error + 'a" where
  "v_index i v = (if i < v_size v then Inr (v_arr v ! i) else Inl Out_of_range)"

definition v_resize :: "'a \<Rightarrow> 'a vector \<Rightarrow> 'a vector" where
  "v_resize d v =
     (let tmp = foldl (\<lambda>arr i. arr[i := v_arr v ! i]) (replicate (v_capacity v + CAPACITY) d) [0..<v_size v]
      in v\<lparr>v_capacity := v_capacity v + CAPACITY, v_arr := tmp\<rparr>)"

definition resize_if_not_fit :: "'a \<Rightarrow> 'a vector \<Rightarrow> 'a vector" where
  "resize_if_not_fit d v = (if v_size v = v_capacity v then v_resize d v else v)"

text \<open>The object that a reference stands for, in a vector whose array has been replaced since or not.\<close>

definition deref :: "bool \<Rightarrow> 'a ref \<Rightarrow> 'a list \<Rightarrow> v_error + 'a" where
  "deref replaced e arr = (case e of
     Value x \<Rightarrow> Inr x
   | Element i \<Rightarrow> if replaced then Inl Dangling else Inr (arr ! i))"

definition push_back :: "'a \<Rightarrow> 'a ref \<Rightarrow> 'a vector \<Rightarrow> v_error + 'a vector" where
  "push_back d e v =
     (let v1 = resize_if_not_fit d v in
      case deref (v_size v = v_capacity v) e (v_arr v1) of
        Inl err \<Rightarrow> Inl err
      | Inr x \<Rightarrow> Inr (v1\<lparr>v_arr := (v_arr v1)[v_size v1 := x], v_size := v_size v1 + 1\<rparr>))"

definition v_erase :: "nat \<Rightarrow> 'a vector \<Rightarrow> v_error + 'a vector" where
  "v_erase p v =
     (if p < v_size v
      then Inr (v\<lparr>v_arr := foldl (\<lambda>arr i. arr[i := arr ! (i + 1)]) (v_arr v) [p..<v_size v - 1], v_size := v_size v - 1\<rparr>)
      else Inl Out_of_range)"

text \<open>The loop moves the elements from the last one down to the place \<open>p\<close>.\<close>

definition v_insert :: "'a \<Rightarrow> nat \<Rightarrow> 'a ref \<Rightarrow> 'a vector \<Rightarrow> v_error + 'a vector" where
  "v_insert d p e v =
     (if p < v_size v then
        (let v1 = resize_if_not_fit d v;
             arr1 = foldl (\<lambda>arr i. arr[i := arr ! (i - 1)]) (v_arr v1) (rev [p + 1..<v_size v1 + 1])
         in case deref (v_size v = v_capacity v) e arr1 of
              Inl err \<Rightarrow> Inl err
            | Inr x \<Rightarrow> Inr (v1\<lparr>v_arr := arr1[p := x], v_size := v_size v1 + 1\<rparr>))
      else if p = v_size v then push_back d e v
      else Inl Out_of_range)"

definition v_clear :: "'a vector \<Rightarrow> 'a vector" where
  "v_clear v = v\<lparr>v_size := 0\<rparr>"

fun push_all :: "'a \<Rightarrow> 'a list \<Rightarrow> 'a vector \<Rightarrow> v_error + 'a vector" where
  "push_all d [] v = Inr v"
| "push_all d (x # c) v = (case push_back d (Value x) v of Inl err \<Rightarrow> Inl err | Inr v1 \<Rightarrow> push_all d c v1)"

definition vector_list :: "'a \<Rightarrow> 'a list \<Rightarrow> v_error + 'a vector" where
  "vector_list d c = push_all d c (vector_new d)"

text \<open>\<open>same\<close>: the two are one object.\<close>

definition v_assign :: "'a \<Rightarrow> bool \<Rightarrow> 'a vector \<Rightarrow> 'a vector \<Rightarrow> 'a vector" where
  "v_assign d same v this =
     (if \<not> same then
        (let tmp = foldl (\<lambda>arr i. arr[i := v_arr v ! i]) (replicate (v_capacity v) d) [0..<v_size v]
         in this\<lparr>v_size := v_size v, v_capacity := v_capacity v, v_arr := tmp\<rparr>)
      else this)"

definition v_assign_list :: "'a \<Rightarrow> 'a list \<Rightarrow> 'a vector \<Rightarrow> v_error + 'a vector" where
  "v_assign_list d c this = push_all d c (this\<lparr>v_size := 0\<rparr>)"

section \<open>Sorting\<close>

text \<open>The merging of \<open>na\<close> elements at \<open>a\<close> and \<open>nb\<close> elements at \<open>b\<close> of an array, behind what \<open>c\<close> holds already.\<close>

function merge_loop :: "('a \<Rightarrow> 'a \<Rightarrow> bool) \<Rightarrow> bool \<Rightarrow> 'a list \<Rightarrow> nat \<Rightarrow> nat \<Rightarrow> nat \<Rightarrow> nat \<Rightarrow> nat \<Rightarrow> nat \<Rightarrow> 'a list \<Rightarrow> 'a list" where
  "merge_loop lt asc arr a na b nb ia ib c =
     (if ia < na \<and> ib < nb then
        (if asc then
           (if lt (arr ! (a + ia)) (arr ! (b + ib))
            then merge_loop lt asc arr a na b nb (ia + 1) ib (c @ [arr ! (a + ia)])
            else merge_loop lt asc arr a na b nb ia (ib + 1) (c @ [arr ! (b + ib)]))
         else
           (if lt (arr ! (a + ia)) (arr ! (b + ib))
            then merge_loop lt asc arr a na b nb ia (ib + 1) (c @ [arr ! (b + ib)])
            else merge_loop lt asc arr a na b nb (ia + 1) ib (c @ [arr ! (a + ia)])))
      else if ia < na then merge_loop lt asc arr a na b nb (ia + 1) ib (c @ [arr ! (a + ia)])
      else if ib < nb then merge_loop lt asc arr a na b nb ia (ib + 1) (c @ [arr ! (b + ib)])
      else c)"
  by pat_completeness auto
termination
  by (relation "measure (\<lambda>(lt, asc, arr, a, na, b, nb, ia, ib, c). (na - ia) + (nb - ib))") auto

declare merge_loop.simps [simp del]

definition v_merge :: "('a \<Rightarrow> 'a \<Rightarrow> bool) \<Rightarrow> 'a list \<Rightarrow> nat \<Rightarrow> nat \<Rightarrow> nat \<Rightarrow> nat \<Rightarrow> bool \<Rightarrow> 'a list" where
  "v_merge lt arr a na b nb asc = merge_loop lt asc arr a na b nb 0 0 []"

function m_sort :: "('a \<Rightarrow> 'a \<Rightarrow> bool) \<Rightarrow> nat \<Rightarrow> nat \<Rightarrow> bool \<Rightarrow> 'a list \<Rightarrow> 'a list" where
  "m_sort lt a n asc arr =
     (if n < 2 then arr
      else
        (let nleft = n div 2; nright = n - nleft;
             arr1 = m_sort lt a nleft asc arr;
             arr2 = m_sort lt (a + nleft) nright asc arr1;
             p = v_merge lt arr2 a nleft (a + nleft) nright asc
         in foldl (\<lambda>arr i. arr[a + i := p ! i]) arr2 [0..<n]))"
  by pat_completeness auto
termination
  by (relation "measure (\<lambda>(lt, a, n, asc, arr). n)") auto

declare m_sort.simps [simp del]

definition v_sort :: "('a \<Rightarrow> 'a \<Rightarrow> bool) \<Rightarrow> bool \<Rightarrow> 'a vector \<Rightarrow> 'a vector" where
  "v_sort lt ascending v = v\<lparr>v_arr := m_sort lt 0 (v_size v) ascending (v_arr v)\<rparr>"

text \<open>
  \<^verbatim>\<open>std::unique\<close> moves the first element of each run of equal elements to the front and returns the end of these; what is
  behind it is not specified, and is left as it is here.
\<close>

definition unique_sort :: "('a \<Rightarrow> 'a \<Rightarrow> bool) \<Rightarrow> bool \<Rightarrow> 'a vector \<Rightarrow> 'a vector" where
  "unique_sort lt ascending v =
     (let v1 = v_sort lt ascending v; us = remdups_adj (take (v_size v1) (v_arr v1))
      in v1\<lparr>v_arr := us @ drop (length us) (v_arr v1), v_size := length us\<rparr>)"

definition v_exists :: "'a \<Rightarrow> 'a vector \<Rightarrow> bool" where
  "v_exists elem v = (if find (\<lambda>x. x = elem) (take (v_size v) (v_arr v)) = None then False else True)"

section \<open>The loops\<close>

lemma length_update_loop: "length (foldl (\<lambda>arr i. arr[f i := g arr i]) xs is) = length xs"
  by (induction "is" arbitrary: xs) auto

lemma copy_loop:
  "n \<le> length p \<Longrightarrow> a + n \<le> length xs \<Longrightarrow>
     foldl (\<lambda>arr i. arr[a + i := p ! i]) xs [0..<n] = take a xs @ take n p @ drop (a + n) xs"
proof (induction n)
  case (Suc n)
  then have "foldl (\<lambda>arr i. arr[a + i := p ! i]) xs [0..<Suc n] = (take a xs @ take n p @ drop (a + n) xs)[a + n := p ! n]" by simp
  also have "drop (a + n) xs = xs ! (a + n) # drop (a + Suc n) xs" using Suc.prems by (simp add: Cons_nth_drop_Suc)
  also have "(take a xs @ take n p @ xs ! (a + n) # drop (a + Suc n) xs)[a + n := p ! n] =
      take a xs @ take (Suc n) p @ drop (a + Suc n) xs"
    using Suc.prems by (simp add: list_update_append take_Suc_conv_app_nth)
  finally show ?case .
qed simp

lemmas copy_loop_0 = copy_loop [where a = 0, simplified]

lemma fill_loop: "n \<le> length xs \<Longrightarrow> foldl (\<lambda>arr i. arr[i := x]) xs [0..<n] = replicate n x @ drop n xs"
proof -
  assume n: "n \<le> length xs"
  have "foldl (\<lambda>arr i. arr[i := x]) xs [0..<n] = foldl (\<lambda>arr i. arr[i := replicate n x ! i]) xs [0..<n]"
    by (rule foldl_cong) auto
  then show ?thesis using n copy_loop_0 [of n "replicate n x" xs] by simp
qed

lemma erase_loop:
  assumes "p \<le> m" and "m < length xs"
  shows "foldl (\<lambda>arr i. arr[i := arr ! (i + 1)]) xs [p..<m] = take p xs @ take (m - p) (drop (p + 1) xs) @ drop m xs"
  using assms
proof (induction m rule: nat_induct_at_least)
  case (Suc m)
  have "foldl (\<lambda>arr i. arr[i := arr ! (i + 1)]) xs [p..<Suc m] =
      (let arr = take p xs @ take (m - p) (drop (p + 1) xs) @ drop m xs in arr[m := arr ! (m + 1)])"
    using Suc by (simp add: Let_def)
  also have "drop m xs = xs ! m # drop (Suc m) xs" using Suc.prems by (simp add: Cons_nth_drop_Suc)
  also have "(let arr = take p xs @ take (m - p) (drop (p + 1) xs) @ xs ! m # drop (Suc m) xs in arr[m := arr ! (m + 1)]) =
      take p xs @ (take (m - p) (drop (p + 1) xs) @ [xs ! Suc m]) @ drop (Suc m) xs"
    using Suc by (simp add: Let_def list_update_append nth_append Suc_diff_le)
  also have "take (m - p) (drop (p + 1) xs) @ [xs ! Suc m] = take (Suc m - p) (drop (p + 1) xs)"
    using Suc by (simp add: Suc_diff_le take_Suc_conv_app_nth)
  finally show ?case .
qed simp

lemma insert_loop:
  assumes "p \<le> m" and "m < length xs"
  shows "foldl (\<lambda>arr i. arr[i := arr ! (i - 1)]) xs (rev [p + 1..<m + 1]) = take (p + 1) xs @ take (m - p) (drop p xs) @ drop (m + 1) xs"
  using assms
proof (induction m arbitrary: xs rule: nat_induct_at_least)
  case (Suc m)
  let ?ys = "xs[Suc m := xs ! m]"
  have "foldl (\<lambda>arr i. arr[i := arr ! (i - 1)]) xs (rev [p + 1..<Suc m + 1]) =
      foldl (\<lambda>arr i. arr[i := arr ! (i - 1)]) ?ys (rev [p + 1..<m + 1])" using Suc(1) by simp
  also have "\<dots> = take (p + 1) ?ys @ take (m - p) (drop p ?ys) @ drop (m + 1) ?ys" using Suc by simp
  also have "take (p + 1) ?ys = take (p + 1) xs" using Suc(1) by simp
  also have "take (m - p) (drop p ?ys) = take (m - p) (drop p xs)" using Suc(1) by (simp add: drop_update_swap)
  also have "drop (m + 1) ?ys = xs ! m # drop (Suc m + 1) xs"
    using Suc.prems by (simp add: drop_update_swap Cons_nth_drop_Suc [symmetric])
  also have "take (m - p) (drop p xs) @ xs ! m # drop (Suc m + 1) xs = take (Suc m - p) (drop p xs) @ drop (Suc m + 1) xs"
    using Suc by (simp add: Suc_diff_le take_Suc_conv_app_nth)
  finally show ?case by simp
qed simp

section \<open>The vector as a list\<close>

definition elems :: "'a vector \<Rightarrow> 'a list" where
  "elems v = take (v_size v) (v_arr v)"

definition vec_ok :: "'a vector \<Rightarrow> bool" where
  "vec_ok v \<longleftrightarrow> v_size v \<le> v_capacity v \<and> length (v_arr v) = v_capacity v"

lemma length_elems: "vec_ok v \<Longrightarrow> length (elems v) = v_size v"
  by (simp add: vec_ok_def elems_def)

lemma CAPACITY_pos: "0 < CAPACITY"
  by (simp add: CAPACITY_def)

lemma resize_ok:
  assumes "vec_ok v"
  shows "vec_ok (resize_if_not_fit d v)" and "elems (resize_if_not_fit d v) = elems v"
    and "v_size (resize_if_not_fit d v) = v_size v" and "v_size v < v_capacity (resize_if_not_fit d v)"
  using assms CAPACITY_pos
  by (auto simp: resize_if_not_fit_def v_resize_def vec_ok_def elems_def copy_loop_0 Let_def)

lemma push_back_ok:
  assumes "vec_ok v"
  obtains v' where "push_back d (Value x) v = Inr v'" and "vec_ok v'" and "elems v' = elems v @ [x]"
proof -
  note r = resize_ok [OF assms, of d]
  show thesis
  proof (rule that)
    show "push_back d (Value x) v = Inr ((resize_if_not_fit d v)\<lparr>v_arr := (v_arr (resize_if_not_fit d v))[v_size v := x],
        v_size := v_size v + 1\<rparr>)" by (simp add: push_back_def deref_def Let_def r(3))
    show "vec_ok ((resize_if_not_fit d v)\<lparr>v_arr := (v_arr (resize_if_not_fit d v))[v_size v := x], v_size := v_size v + 1\<rparr>)"
      using r(1,3,4) by (simp add: vec_ok_def)
    show "elems ((resize_if_not_fit d v)\<lparr>v_arr := (v_arr (resize_if_not_fit d v))[v_size v := x], v_size := v_size v + 1\<rparr>) = elems v @ [x]"
      using r by (simp add: elems_def vec_ok_def take_Suc_conv_app_nth)
  qed
qed

lemma push_all_ok:
  "vec_ok v \<Longrightarrow> \<exists>v'. push_all d c v = Inr v' \<and> vec_ok v' \<and> elems v' = elems v @ c"
proof (induction c arbitrary: v)
  case (Cons x c)
  obtain v1 where v1: "push_back d (Value x) v = Inr v1" "vec_ok v1" "elems v1 = elems v @ [x]"
    using push_back_ok [OF Cons.prems] .
  then show ?case using Cons.IH [of v1] by simp
qed simp

lemma erase_ok:
  assumes "vec_ok v" and "p < v_size v"
  obtains v' where "v_erase p v = Inr v'" and "vec_ok v'" and "elems v' = take p (elems v) @ drop (p + 1) (elems v)"
proof -
  define arr where "arr = foldl (\<lambda>arr i. arr[i := arr ! (i + 1)]) (v_arr v) [p..<v_size v - 1]"
  have a: "arr = take p (v_arr v) @ take (v_size v - 1 - p) (drop (p + 1) (v_arr v)) @ drop (v_size v - 1) (v_arr v)"
    unfolding arr_def using assms by (intro erase_loop) (auto simp: vec_ok_def)
  have l: "length arr = length (v_arr v)" by (simp add: arr_def length_update_loop)
  show thesis
  proof (rule that)
    show "v_erase p v = Inr (v\<lparr>v_arr := arr, v_size := v_size v - 1\<rparr>)" using assms(2) by (simp add: v_erase_def arr_def)
    show "vec_ok (v\<lparr>v_arr := arr, v_size := v_size v - 1\<rparr>)" using assms l by (auto simp: vec_ok_def)
    show "elems (v\<lparr>v_arr := arr, v_size := v_size v - 1\<rparr>) = take p (elems v) @ drop (p + 1) (elems v)"
      using assms by (simp add: elems_def a vec_ok_def drop_take) arith
  qed
qed

lemma insert_ok:
  assumes "vec_ok v" and "p \<le> v_size v"
  obtains v' where "v_insert d p (Value x) v = Inr v'" and "vec_ok v'" and "elems v' = take p (elems v) @ x # drop p (elems v)"
proof (cases "p = v_size v")
  case True
  then show thesis using push_back_ok [OF assms(1), of d x] that length_elems [OF assms(1)] by (auto simp: v_insert_def)
next
  case False
  then have p: "p < v_size v" using assms(2) by simp
  define w where "w = resize_if_not_fit d v"
  have w: "vec_ok w" "elems w = elems v" "v_size w = v_size v" "v_size v < v_capacity w" using resize_ok [OF assms(1), of d] by (simp_all add: w_def)
  define arr where "arr = foldl (\<lambda>arr i. arr[i := arr ! (i - 1)]) (v_arr w) (rev [p + 1..<v_size v + 1])"
  have a: "arr = take (p + 1) (v_arr w) @ take (v_size v - p) (drop p (v_arr w)) @ drop (v_size v + 1) (v_arr w)"
    unfolding arr_def using w p by (intro insert_loop) (auto simp: vec_ok_def)
  have l: "length arr = length (v_arr w)" by (simp add: arr_def length_update_loop)
  have x: "arr[p := x] = take p (v_arr w) @ x # take (v_size v - p) (drop p (v_arr w)) @ drop (v_size v + 1) (v_arr w)"
    using w(1,4) p by (simp add: a list_update_append vec_ok_def take_Suc_conv_app_nth)
  show thesis
  proof (rule that)
    show "v_insert d p (Value x) v = Inr (w\<lparr>v_arr := arr[p := x], v_size := v_size v + 1\<rparr>)"
      using p w(3) by (simp add: v_insert_def arr_def w_def deref_def Let_def)
    show "vec_ok (w\<lparr>v_arr := arr[p := x], v_size := v_size v + 1\<rparr>)" using w l by (simp add: vec_ok_def)
    have "elems (w\<lparr>v_arr := arr[p := x], v_size := v_size v + 1\<rparr>) = take p (elems w) @ x # drop p (elems w)"
      using w(1,3,4) p by (simp add: elems_def x vec_ok_def drop_take Suc_diff_le)
    then show "elems (w\<lparr>v_arr := arr[p := x], v_size := v_size v + 1\<rparr>) = take p (elems v) @ x # drop p (elems v)" by (simp add: w(2))
  qed
qed

section \<open>The order of the elements\<close>

text \<open>What the algorithms ask of the operator \<^verbatim>\<open><\<close>: a strict weak order.\<close>

locale weak_order =
  fixes lt :: "'a \<Rightarrow> 'a \<Rightarrow> bool"
  assumes asym: "lt x y \<Longrightarrow> \<not> lt y x"
    and negtrans: "\<not> lt x y \<Longrightarrow> \<not> lt y z \<Longrightarrow> \<not> lt x z"

definition before :: "('a \<Rightarrow> 'a \<Rightarrow> bool) \<Rightarrow> bool \<Rightarrow> 'a \<Rightarrow> 'a \<Rightarrow> bool" where
  "before lt asc x y \<longleftrightarrow> (if asc then \<not> lt y x else \<not> lt x y)"

fun lmerge :: "('a \<Rightarrow> 'a \<Rightarrow> bool) \<Rightarrow> bool \<Rightarrow> 'a list \<Rightarrow> 'a list \<Rightarrow> 'a list" where
  "lmerge lt asc (x # xs) (y # ys) =
     (if lt x y = asc then x # lmerge lt asc xs (y # ys) else y # lmerge lt asc (x # xs) ys)"
| "lmerge lt asc xs [] = xs"
| "lmerge lt asc [] ys = ys"

lemma lmerge_Nil [simp]: "lmerge lt asc [] ys = ys"
  by (cases ys) auto

lemma mset_lmerge: "mset (lmerge lt asc xs ys) = mset xs + mset ys"
  by (induction lt asc xs ys rule: lmerge.induct) auto

lemma set_lmerge: "set (lmerge lt asc xs ys) = set xs \<union> set ys"
  using mset_lmerge [of lt asc xs ys] by (metis set_mset_mset set_mset_union)

lemma length_lmerge: "length (lmerge lt asc xs ys) = length xs + length ys"
  using mset_lmerge [of lt asc xs ys] by (metis size_mset size_union)

lemma take_drop_Cons:
  assumes "i < n" and "a + n \<le> length xs"
  shows "take (n - i) (drop (a + i) xs) = xs ! (a + i) # take (n - (i + 1)) (drop (a + (i + 1)) xs)"
proof -
  have "drop (a + i) xs = xs ! (a + i) # drop (Suc (a + i)) xs" by (rule Cons_nth_drop_Suc [symmetric]) (use assms in simp)
  moreover have "n - i = Suc (n - (i + 1))" using assms(1) by simp
  ultimately show ?thesis by simp
qed

lemma merge_loop_lmerge:
  "a + na \<le> length arr \<Longrightarrow> b + nb \<le> length arr \<Longrightarrow> ia \<le> na \<Longrightarrow> ib \<le> nb \<Longrightarrow>
     merge_loop lt asc arr a na b nb ia ib c =
     c @ lmerge lt asc (take (na - ia) (drop (a + ia) arr)) (take (nb - ib) (drop (b + ib) arr))"
proof (induction lt asc arr a na b nb ia ib c rule: merge_loop.induct)
  case (1 lt asc arr a na b nb ia ib c)
  note A = take_drop_Cons [OF _ "1.prems"(1), of ia] and B = take_drop_Cons [OF _ "1.prems"(2), of ib]
  show ?case
  proof (cases "ia < na")
    case a: True
    show ?thesis
    proof (cases "ib < nb")
      case b: True
      show ?thesis unfolding A [OF a] B [OF b]
        by (subst merge_loop.simps) (use "1.IH"(1-4) "1.prems" a b A B in \<open>simp add: Suc_le_eq\<close>)
    next
      case b: False
      show ?thesis unfolding A [OF a]
        by (subst merge_loop.simps) (use "1.IH"(5) "1.prems" a b in \<open>simp add: Suc_le_eq\<close>)
    qed
  next
    case a: False
    show ?thesis
    proof (cases "ib < nb")
      case b: True
      show ?thesis unfolding B [OF b]
        by (subst merge_loop.simps) (use "1.IH"(6) "1.prems" a b in \<open>simp add: Suc_le_eq\<close>)
    next
      case b: False
      show ?thesis by (subst merge_loop.simps) (use "1.prems" a b in simp)
    qed
  qed
qed

context weak_order
begin

lemma before_trans: "before lt asc x y \<Longrightarrow> before lt asc y z \<Longrightarrow> before lt asc x z"
  using negtrans [of z y x] negtrans [of x y z] by (cases asc) (simp_all add: before_def)

lemma before_lt: "lt x y = asc \<Longrightarrow> before lt asc x y" "lt x y \<noteq> asc \<Longrightarrow> before lt asc y x"
  using asym by (auto simp: before_def)

lemma sorted_lmerge:
  "sorted_wrt (before lt asc) xs \<Longrightarrow> sorted_wrt (before lt asc) ys \<Longrightarrow> sorted_wrt (before lt asc) (lmerge lt asc xs ys)"
proof (induction xs arbitrary: ys)
  case (Cons x xs)
  show ?case using Cons.prems
  proof (induction ys)
    case (Cons y ys)
    show ?case
    proof (cases "lt x y = asc")
      case True
      have "before lt asc x z" if "z \<in> set xs \<union> set (y # ys)" for z
        using that Cons.prems before_trans [OF before_lt(1) [OF True], of z] before_lt(1) [OF True] by auto
      then show ?thesis using True Cons.prems \<open>\<And>ys. sorted_wrt (before lt asc) xs \<Longrightarrow> sorted_wrt (before lt asc) ys \<Longrightarrow> sorted_wrt (before lt asc) (lmerge lt asc xs ys)\<close>
        by (simp add: set_lmerge)
    next
      case False
      have "before lt asc y z" if "z \<in> set (x # xs) \<union> set ys" for z
        using that Cons.prems before_trans [OF before_lt(2) [OF False], of z] before_lt(2) [OF False] by auto
      then show ?thesis using False Cons by (simp add: set_lmerge)
    qed
  qed simp
qed simp

end

section \<open>Merge sort\<close>

text \<open>The same algorithm on lists.\<close>

function lsort :: "('a \<Rightarrow> 'a \<Rightarrow> bool) \<Rightarrow> bool \<Rightarrow> 'a list \<Rightarrow> 'a list" where
  "lsort lt asc xs =
     (if length xs < 2 then xs
      else lmerge lt asc (lsort lt asc (take (length xs div 2) xs)) (lsort lt asc (drop (length xs div 2) xs)))"
  by pat_completeness auto
termination
  by (relation "measure (\<lambda>(lt, asc, xs). length xs)") auto

declare lsort.simps [simp del]

lemma mset_lsort: "mset (lsort lt asc xs) = mset xs"
proof (induction lt asc xs rule: lsort.induct)
  case (1 lt asc xs)
  then show ?case
    by (subst lsort.simps) (simp add: mset_lmerge del: mset_append add: mset_append [symmetric])
qed

lemma length_lsort [simp]: "length (lsort lt asc xs) = length xs"
  using mset_lsort [of lt asc xs] by (metis size_mset)

context weak_order
begin

lemma sorted_lsort: "sorted_wrt (before lt asc) (lsort lt asc xs)"
proof (induction "length xs" arbitrary: xs rule: less_induct)
  case less
  show ?case
  proof (cases "length xs < 2")
    case True
    then show ?thesis by (subst lsort.simps) (cases xs rule: remdups_adj.cases, auto)
  next
    case False
    then show ?thesis by (subst lsort.simps) (use less in \<open>auto intro: sorted_lmerge\<close>)
  qed
qed

end

lemma m_sort_lsort:
  "a + n \<le> length arr \<Longrightarrow> m_sort lt a n asc arr = take a arr @ lsort lt asc (take n (drop a arr)) @ drop (a + n) arr"
proof (induction lt a n asc arr rule: m_sort.induct)
  case (1 lt a n asc arr)
  show ?case
  proof (cases "n < 2")
    case True
    have "arr = take a arr @ take n (drop a arr) @ drop (a + n) arr" by (metis append_take_drop_id drop_drop add.commute)
    then show ?thesis using True by (subst m_sort.simps, subst lsort.simps) (simp add: min_less_iff_disj)
  next
    case False
    define nl nr where d: "nl = n div 2" "nr = n - nl"
    have n: "nl + nr = n" "a + nl + nr \<le> length arr" using 1(3) by (simp_all add: d)
    define L R where lr: "L = lsort lt asc (take nl (drop a arr))" "R = lsort lt asc (take nr (drop (a + nl) arr))"
    have len: "length L = nl" "length R = nr" "length (take a arr) = a" using n by (auto simp: lr)
    define arr1 where "arr1 = m_sort lt a nl asc arr"
    have a1: "arr1 = take a arr @ L @ drop (a + nl) arr"
      unfolding arr1_def lr(1) using 1(1) [OF False d(1) d(2)] n by simp
    define arr2 where "arr2 = m_sort lt (a + nl) nr asc arr1"
    have "arr2 = take (a + nl) arr1 @ lsort lt asc (take nr (drop (a + nl) arr1)) @ drop (a + nl + nr) arr1"
      unfolding arr2_def using 1(2) [OF False d(1) d(2) arr1_def] n len by (simp add: a1)
    then have a2: "arr2 = take a arr @ L @ R @ drop (a + n) arr"
      using len n by (simp add: a1 lr(2) [symmetric] add.commute add.left_commute)
    have l2: "length arr2 = length arr" using len n by (simp add: a2)
    define p where "p = v_merge lt arr2 a nl (a + nl) nr asc"
    have p: "p = lmerge lt asc L R"
      unfolding p_def v_merge_def using len n l2 by (subst merge_loop_lmerge) (simp_all add: a2)
    have "m_sort lt a n asc arr = foldl (\<lambda>arr i. arr[a + i := p ! i]) arr2 [0..<n]"
      using False by (subst m_sort.simps) (simp add: Let_def d p_def arr1_def arr2_def)
    also have "\<dots> = take a arr2 @ take n p @ drop (a + n) arr2"
      using len n l2 by (intro copy_loop) (simp_all add: p length_lmerge)
    also have "\<dots> = take a arr @ p @ drop (a + n) arr"
      using len n by (simp add: a2 p length_lmerge)
    also have "p = lsort lt asc (take n (drop a arr))"
    proof -
      have "length (take n (drop a arr)) = n" "take nl (take n (drop a arr)) = take nl (drop a arr)"
          "drop nl (take n (drop a arr)) = take nr (drop (a + nl) arr)"
        using n by (auto simp: drop_take add.commute d(2))
      then show ?thesis using False by (subst lsort.simps) (simp add: p lr flip: d(1))
    qed
    finally show ?thesis .
  qed
qed

lemma sort_ok:
  assumes "vec_ok v"
  shows "vec_ok (v_sort lt asc v)" and "elems (v_sort lt asc v) = lsort lt asc (elems v)" and "v_size (v_sort lt asc v) = v_size v"
  using assms m_sort_lsort [of 0 "v_size v" "v_arr v" lt asc] by (auto simp: vec_ok_def elems_def v_sort_def)

lemma unique_ok:
  assumes "vec_ok v"
  shows "vec_ok (unique_sort lt asc v)" and "elems (unique_sort lt asc v) = remdups_adj (lsort lt asc (elems v))"
proof -
  note s = sort_ok [OF assms, of lt asc]
  have "length (remdups_adj (lsort lt asc (elems v))) \<le> v_size v"
    using remdups_adj_length [of "lsort lt asc (elems v)"] length_elems [OF assms] by simp
  then show "vec_ok (unique_sort lt asc v)" "elems (unique_sort lt asc v) = remdups_adj (lsort lt asc (elems v))"
    using s assms unfolding unique_sort_def Let_def elems_def [symmetric] s(2) by (simp_all add: vec_ok_def elems_def)
qed

section \<open>A vector of ordered elements is a list\<close>

interpretation less: weak_order "(<) :: 'a::linorder \<Rightarrow> 'a \<Rightarrow> bool"
  by unfold_locales auto

lemma sorted_before: "sorted_wrt (before (<) asc) xs = (if asc then sorted xs else sorted (rev (xs :: 'a::linorder list)))"
  by (simp add: before_def [abs_def] sorted_wrt_rev not_less)

lemma lsort_less: "lsort (<) asc xs = (if asc then sort xs else rev (sort (xs :: 'a::linorder list)))"
proof (cases asc)
  case True
  then show ?thesis using properties_for_sort [of "lsort (<) asc xs" xs] less.sorted_lsort [of asc xs]
    by (simp add: sorted_before mset_lsort)
next
  case False
  then show ?thesis using properties_for_sort [of "rev (lsort (<) asc xs)" xs] less.sorted_lsort [of asc xs]
    by (simp add: sorted_before mset_lsort)
qed

lemma strict_remdups_adj: "sorted xs \<Longrightarrow> sorted_wrt (<) (remdups_adj (xs :: 'a::linorder list))"
  by (induction xs rule: remdups_adj.induct) (auto simp: less_le)

lemma remdups_adj_sort: "remdups_adj (sort xs) = sorted_list_of_set (set (xs :: 'a::linorder list))"
  using strict_remdups_adj [of "sort xs"] by (intro sorted_distinct_set_unique) (auto simp: strict_sorted_iff)

lemma unique_less:
  "remdups_adj (lsort (<) asc xs) = (let us = sorted_list_of_set (set (xs :: 'a::linorder list)) in if asc then us else rev us)"
  by (simp add: lsort_less remdups_adj_sort remdups_adj_rev Let_def)

text \<open>The calls. \<open>Push_own i\<close> is \<^verbatim>\<open>v.push_back(v[i])\<close>, and \<open>Insert_own p i\<close> is \<^verbatim>\<open>v.insert(p, v[i])\<close>: the index operator checks \<open>i\<close> first.\<close>

datatype 'a vcall = Push 'a | Push_own nat | Insert nat 'a | Insert_own nat nat | Erase nat | Clear | Assign "'a list" | At nat
  | Exists 'a | Sort bool | Unique_sort bool

datatype 'a vret = Done | Raised v_error | Got 'a | Found bool

definition done_or_raised :: "v_error + 's \<Rightarrow> 's \<Rightarrow> 'a vret \<times> 's" where
  "done_or_raised r s = (case r of Inl e \<Rightarrow> (Raised e, s) | Inr s' \<Rightarrow> (Done, s'))"

fun vec_do :: "'a::linorder \<Rightarrow> 'a vcall \<Rightarrow> 'a vector \<Rightarrow> 'a vret \<times> 'a vector" where
  "vec_do d (Push x) v = done_or_raised (push_back d (Value x) v) v"
| "vec_do d (Push_own i) v = (case v_index i v of Inl e \<Rightarrow> (Raised e, v) | Inr _ \<Rightarrow> done_or_raised (push_back d (Element i) v) v)"
| "vec_do d (Insert p x) v = done_or_raised (v_insert d p (Value x) v) v"
| "vec_do d (Insert_own p i) v = (case v_index i v of Inl e \<Rightarrow> (Raised e, v) | Inr _ \<Rightarrow> done_or_raised (v_insert d p (Element i) v) v)"
| "vec_do d (Erase p) v = done_or_raised (v_erase p v) v"
| "vec_do d Clear v = (Done, v_clear v)"
| "vec_do d (Assign c) v = done_or_raised (v_assign_list d c v) v"
| "vec_do d (At i) v = (case v_index i v of Inl e \<Rightarrow> Raised e | Inr x \<Rightarrow> Got x, v)"
| "vec_do d (Exists x) v = (Found (v_exists x v), v)"
| "vec_do d (Sort asc) v = (Done, v_sort (<) asc v)"
| "vec_do d (Unique_sort asc) v = (Done, unique_sort (<) asc v)"

text \<open>
  The same calls on a list with a capacity. Where the element is one of the vector itself, a full vector reads the array it
  has deleted, and \<^verbatim>\<open>insert\<close> reads the element after it has been moved: behind the place \<open>p\<close> that is the one before it.
\<close>

definition list_grow :: "nat \<Rightarrow> nat \<Rightarrow> nat" where
  "list_grow cap n = (if n = cap then cap + CAPACITY else cap)"

definition list_place :: "nat \<Rightarrow> 'a \<Rightarrow> 'a list \<times> nat \<Rightarrow> 'a vret \<times> 'a list \<times> nat" where
  "list_place p x s = (case s of (xs, cap) \<Rightarrow>
     if p \<le> length xs then (Done, take p xs @ x # drop p xs, list_grow cap (length xs)) else (Raised Out_of_range, s))"

definition list_place_own :: "nat \<Rightarrow> nat \<Rightarrow> 'a list \<times> nat \<Rightarrow> 'a vret \<times> 'a list \<times> nat" where
  "list_place_own p i s = (case s of (xs, cap) \<Rightarrow>
     if i \<ge> length xs \<or> p > length xs then (Raised Out_of_range, s)
     else if length xs = cap then (Raised Dangling, s)
     else list_place p (if i \<le> p then xs ! i else xs ! (i - 1)) s)"

fun list_do :: "'a::linorder vcall \<Rightarrow> 'a list \<times> nat \<Rightarrow> 'a vret \<times> 'a list \<times> nat" where
  "list_do (Push x) (xs, cap) = list_place (length xs) x (xs, cap)"
| "list_do (Push_own i) (xs, cap) = list_place_own (length xs) i (xs, cap)"
| "list_do (Insert p x) (xs, cap) = list_place p x (xs, cap)"
| "list_do (Insert_own p i) (xs, cap) = list_place_own p i (xs, cap)"
| "list_do (Erase p) (xs, cap) =
     (if p < length xs then (Done, take p xs @ drop (p + 1) xs, cap) else (Raised Out_of_range, xs, cap))"
| "list_do Clear (xs, cap) = (Done, [], cap)"
| "list_do (Assign c) (xs, cap) = (Done, c, foldl list_grow cap [0..<length c])"
| "list_do (At i) (xs, cap) = (if i < length xs then Got (xs ! i) else Raised Out_of_range, xs, cap)"
| "list_do (Exists x) (xs, cap) = (Found (x \<in> set xs), xs, cap)"
| "list_do (Sort asc) (xs, cap) = (Done, if asc then sort xs else rev (sort xs), cap)"
| "list_do (Unique_sort asc) (xs, cap) = (Done, let us = sorted_list_of_set (set xs) in if asc then us else rev us, cap)"

definition vec_list :: "'a vector \<Rightarrow> 'a list \<times> nat" where
  "vec_list v = (elems v, v_capacity v)"

lemma push_back_cap: "push_back d e v = Inr w \<Longrightarrow> v_capacity w = list_grow (v_capacity v) (v_size v)"
  by (auto simp: push_back_def Let_def resize_if_not_fit_def v_resize_def list_grow_def split: sum.splits)

lemma insert_cap: "v_insert d p e v = Inr w \<Longrightarrow> v_capacity w = list_grow (v_capacity v) (v_size v)"
  using push_back_cap [of d e v w]
  by (auto simp: v_insert_def Let_def resize_if_not_fit_def v_resize_def list_grow_def split: sum.splits if_splits)

lemma push_all_cap:
  "vec_ok v \<Longrightarrow> push_all d c v = Inr w \<Longrightarrow> v_capacity w = foldl list_grow (v_capacity v) [v_size v..<v_size v + length c]"
proof (induction c arbitrary: v)
  case (Cons x c)
  obtain u where u: "push_back d (Value x) v = Inr u" "vec_ok u" "elems u = elems v @ [x]" using push_back_ok [OF Cons.prems(1)] .
  have "v_size u = Suc (v_size v)"
    using length_elems [OF u(2)] length_elems [OF Cons.prems(1)] u(3) by simp
  moreover have "[v_size v..<v_size v + length (x # c)] = v_size v # [Suc (v_size v)..<Suc (v_size v) + length c]"
    using upt_conv_Cons [of "v_size v" "v_size v + length (x # c)"] by (simp del: upt_Suc)
  ultimately show ?case using Cons.IH [OF u(2)] Cons.prems(2) u(1) push_back_cap [OF u(1)] by simp
qed simp

text \<open>An element of the vector itself is read like a value, where it is not lost.\<close>

lemma push_own_eq:
  assumes "vec_ok v" and "i < v_size v" and "v_size v \<noteq> v_capacity v"
  shows "push_back d (Element i) v = push_back d (Value (elems v ! i)) v"
  using assms by (simp add: push_back_def deref_def Let_def resize_if_not_fit_def elems_def)

lemma insert_own_eq:
  assumes "vec_ok v" and "i < v_size v" and "v_size v \<noteq> v_capacity v" and "p \<le> v_size v"
  shows "v_insert d p (Element i) v = v_insert d p (Value (if i \<le> p then elems v ! i else elems v ! (i - 1))) v"
proof (cases "p < v_size v")
  case True
  define arr where "arr = foldl (\<lambda>arr i. arr[i := arr ! (i - 1)]) (v_arr v) (rev [p + 1..<v_size v + 1])"
  have l: "v_size v < length (v_arr v)" using assms(1,3) by (simp add: vec_ok_def)
  then have a: "arr = take (p + 1) (v_arr v) @ take (v_size v - p) (drop p (v_arr v)) @ drop (v_size v + 1) (v_arr v)"
    unfolding arr_def using True by (intro insert_loop) auto
  have "arr ! i = (if i \<le> p then elems v ! i else elems v ! (i - 1))"
  proof (cases "i \<le> p")
    case i: True
    then show ?thesis using l assms(2) True by (simp add: a nth_append elems_def)
  next
    case i: False
    then have "i - Suc p < v_size v - p" "min (length (v_arr v)) (Suc p) = Suc p" using l assms(2) True by auto
    then show ?thesis using i l assms(2) True by (simp add: a nth_append elems_def)
  qed
  then show ?thesis using True assms(3) by (simp add: v_insert_def resize_if_not_fit_def deref_def arr_def)
next
  case False
  then have "p = v_size v" using assms(4) by simp
  then show ?thesis using push_own_eq [OF assms(1-3)] assms(2) by (simp add: v_insert_def)
qed

lemma insert_place:
  assumes "vec_ok v"
  shows "vec_ok (snd (done_or_raised (v_insert d p (Value x) v) v)) \<and>
    map_prod id vec_list (done_or_raised (v_insert d p (Value x) v) v) = list_place p x (vec_list v)"
proof (cases "p \<le> v_size v")
  case True
  obtain w where w: "v_insert d p (Value x) v = Inr w" "vec_ok w" "elems w = take p (elems v) @ x # drop p (elems v)"
    using insert_ok [OF assms True] .
  then show ?thesis using True insert_cap [OF w(1)] length_elems [OF assms]
    by (simp add: done_or_raised_def vec_list_def list_place_def)
next
  case False
  then show ?thesis using assms length_elems [OF assms] by (simp add: v_insert_def done_or_raised_def vec_list_def list_place_def)
qed

lemma push_place: "push_back d e v = v_insert d (v_size v) e v"
  by (simp add: v_insert_def)

lemma insert_place_own:
  assumes "vec_ok v" and "i < v_size v"
  shows "vec_ok (snd (done_or_raised (v_insert d p (Element i) v) v)) \<and>
    map_prod id vec_list (done_or_raised (v_insert d p (Element i) v) v) = list_place_own p i (vec_list v)"
proof -
  note l = length_elems [OF assms(1)]
  consider (out) "p > v_size v" | (full) "p \<le> v_size v" "v_size v = v_capacity v" | (room) "p \<le> v_size v" "v_size v \<noteq> v_capacity v" by linarith
  then show ?thesis
  proof cases
    case out
    then show ?thesis using assms l by (simp add: v_insert_def done_or_raised_def vec_list_def list_place_own_def)
  next
    case full
    then have "v_insert d p (Element i) v = Inl Dangling" by (simp add: v_insert_def push_back_def deref_def Let_def)
    then show ?thesis using full assms l by (simp add: done_or_raised_def vec_list_def list_place_own_def)
  next
    case room
    then show ?thesis
      using insert_place [OF assms(1), of d p "if i \<le> p then elems v ! i else elems v ! (i - 1)"]
        insert_own_eq [OF assms room(2,1), of d] assms(2) l
      by (simp add: vec_list_def list_place_own_def)
  qed
qed

lemma vec_do_list: "vec_ok v \<Longrightarrow> vec_ok (snd (vec_do d c v)) \<and> map_prod id vec_list (vec_do d c v) = list_do c (vec_list v)"
proof (cases c)
  case (Push x)
  assume v: "vec_ok v"
  then show ?thesis using insert_place [OF v, of d "v_size v" x] length_elems [OF v] by (simp add: Push push_place vec_list_def)
next
  case (Push_own i)
  assume v: "vec_ok v"
  then show ?thesis using insert_place_own [OF v, of i d "v_size v"] length_elems [OF v]
    by (cases "i < v_size v") (simp_all add: Push_own push_place vec_list_def v_index_def list_place_own_def)
next
  case (Insert p x)
  assume v: "vec_ok v"
  then show ?thesis using insert_place [OF v, of d p x] by (simp add: Insert vec_list_def)
next
  case (Insert_own p i)
  assume v: "vec_ok v"
  then show ?thesis using insert_place_own [OF v, of i d p] length_elems [OF v]
    by (cases "i < v_size v") (simp_all add: Insert_own vec_list_def v_index_def list_place_own_def)
next
  case (Erase p)
  assume v: "vec_ok v"
  show ?thesis
  proof (cases "p < v_size v")
    case True
    obtain v' where e: "v_erase p v = Inr v'" "vec_ok v'" "elems v' = take p (elems v) @ drop (p + 1) (elems v)"
      using erase_ok [OF v True] .
    then have "v_capacity v' = v_capacity v" using True by (auto simp: v_erase_def)
    then show ?thesis using e True by (simp add: Erase done_or_raised_def vec_list_def length_elems [OF v])
  next
    case False
    then show ?thesis by (simp add: Erase done_or_raised_def vec_list_def length_elems [OF v] v_erase_def v)
  qed
next
  case (Assign xs)
  assume v: "vec_ok v"
  have v0: "vec_ok (v\<lparr>v_size := 0\<rparr>)" using v by (simp add: vec_ok_def)
  obtain v' where p: "push_all d xs (v\<lparr>v_size := 0\<rparr>) = Inr v'" "vec_ok v'" "elems v' = elems (v\<lparr>v_size := 0\<rparr>) @ xs"
    using push_all_ok [OF v0, of d xs] by blast
  then show ?thesis using push_all_cap [OF v0 p(1)]
    by (simp add: Assign v_assign_list_def done_or_raised_def vec_list_def) (simp add: elems_def)
next
  case (Sort asc)
  assume "vec_ok v"
  then show ?thesis using sort_ok [of v "(<)" asc] by (simp add: Sort lsort_less vec_list_def) (simp add: v_sort_def)
next
  case (Unique_sort asc)
  assume "vec_ok v"
  then show ?thesis using unique_ok [of v "(<)" asc] by (simp add: Unique_sort unique_less vec_list_def) (simp add: unique_sort_def v_sort_def Let_def)
qed (auto simp: v_clear_def vec_ok_def elems_def v_index_def v_exists_def find_None_iff vec_list_def)

interpretation vec_calls: call_refinement "vec_do d" list_do vec_list vec_ok "\<lambda>_. True" for d
  by unfold_locales (rule vec_do_list)

lemma vector_new_ok: "vec_ok (vector_new d)" "elems (vector_new d) = []"
  by (simp_all add: vector_new_def vec_ok_def elems_def)

lemma fill_ok: "vec_ok (vector_fill d n x)" "elems (vector_fill d n x) = replicate n x"
  by (simp_all add: vector_fill_def vec_ok_def elems_def fill_loop Let_def)

lemma size_ok: "vec_ok (vector_size d t n)" "elems (vector_size d t n) = replicate n t"
  by (simp_all add: vector_size_def vec_ok_def elems_def fill_loop Let_def)

lemma vector_new_size: "v_size (vector_new d) = 0" "v_capacity (vector_new d) = CAPACITY"
  by (simp_all add: vector_new_def)

lemma list_ok: "\<exists>v. vector_list d c = Inr v \<and> vec_ok v \<and> vec_list v = (c, foldl list_grow CAPACITY [0..<length c])"
  using push_all_ok [OF vector_new_ok(1), of d c] push_all_cap [OF vector_new_ok(1), of d c] vector_new_ok [of d]
  by (fastforce simp: vector_list_def vec_list_def vector_new_size)

section \<open>The properties\<close>

text \<open>
  C10. A vector of elements with a total order is a list with a capacity, for less than \<open>2 ^ 31\<close> elements: any sequence of calls of
  \<^verbatim>\<open>push_back\<close>, \<^verbatim>\<open>insert\<close>, \<^verbatim>\<open>erase\<close>, \<^verbatim>\<open>clear\<close>, the assignment of an initializer list, the index operator, \<^verbatim>\<open>exists\<close>, \<^verbatim>\<open>sort\<close> and
  \<^verbatim>\<open>unique_sort\<close> on a vector made of an initializer list has the results and exceptions of the list operations and leaves the
  elements of the list, whatever a new array holds; and a copy of the vector has the same elements. The calls in which the
  element is one of the vector itself are among them, with what the code does: \<^verbatim>\<open>v.push_back(v[i])\<close> and \<^verbatim>\<open>v.insert(p, v[i])\<close> read freed
  memory exactly if the vector is full (\<open>Dangling\<close>, after which a run of the program has no meaning any more; the model leaves the vector as it was); otherwise they add \<^verbatim>\<open>v[i]\<close>, except that \<^verbatim>\<open>insert\<close> adds \<^verbatim>\<open>v[i-1]\<close> if \<open>p < i\<close>.
\<close>

theorem vector_refines_list:
  assumes "vector_list d c = Inr v0" and "calls (vec_do d) cs v0 = (rs, v)"
  shows "calls list_do cs (c, foldl list_grow CAPACITY [0..<length c]) = (rs, elems v, v_capacity v) \<and>
    v_size v = length (elems v) \<and> v_size v \<le> v_capacity v \<and>
    elems (vector_copy d v) = elems v \<and> (\<forall>w. elems (v_assign d False v w) = elems v)"
proof -
  have "vec_ok v0" "vec_list v0 = (c, foldl list_grow CAPACITY [0..<length c])" using list_ok [of d c] assms(1) by auto
  then have v: "vec_ok v" "calls list_do cs (c, foldl list_grow CAPACITY [0..<length c]) = (rs, vec_list v)"
    using vec_calls.calls_result [OF _ _ assms(2)] by (auto simp: list_all_iff)
  have "foldl (\<lambda>arr i. arr[i := v_arr v ! i]) (replicate (v_capacity v) d) [0..<v_size v] =
      elems v @ drop (v_size v) (replicate (v_capacity v) d)"
    using v(1) by (subst copy_loop_0) (auto simp: vec_ok_def elems_def)
  then show ?thesis using v length_elems [OF v(1)]
    by (simp add: vector_copy_def v_assign_def Let_def vec_ok_def vec_list_def) (simp add: elems_def)
qed

theorem vector_refines_list_witness:
  "\<exists>v0 rs v. vector_list 0 [3, 1] = Inr v0 \<and>
     calls (vec_do (0::int)) [Insert 1 3, Unique_sort False, At 2, Insert_own 0 1, Erase 0] v0 = (rs, v) \<and>
     rs = [Done, Done, Raised Out_of_range, Done, Done] \<and> elems v = [3, 1]"
proof -
  obtain v0 where v0: "vector_list 0 [3, 1 :: int] = Inr v0" using list_ok [of 0 "[3, 1]"] by auto
  obtain rs v where c: "calls (vec_do 0) [Insert 1 3, Unique_sort False, At 2, Insert_own 0 1, Erase 0] v0 = (rs, v)" by fastforce
  have "calls list_do [Insert 1 3, Unique_sort False, At 2, Insert_own 0 1, Erase 0] ([3, 1], foldl list_grow CAPACITY [0..<length [3, 1::int]]) =
      ([Done, Done, Raised Out_of_range, Done, Done], [3, 1::int], 50)"
    by code_simp
  then have "rs = [Done, Done, Raised Out_of_range, Done, Done] \<and> elems v = [3, 1]" using vector_refines_list [OF v0 c] by simp
  then show ?thesis using v0 c by blast
qed

text \<open>
  C31. The invariant that the comment at the head of the class states, 0 <= size <= capacity, with an array of as many elements
  as the capacity says: every constructor establishes it, and every operation keeps it, for elements of any type and any
  operator \<^verbatim>\<open><\<close>, whatever an argument refers to; and the size grows by one, or shrinks by one, as the operation says. The sizes are
  below \<open>2 ^ 31\<close>, the range of the loop counters.
\<close>

theorem vector_invariant:
  assumes "vec_ok v"
  shows "vec_ok (vector_new d) \<and> vec_ok (vector_size d t n) \<and> vec_ok (vector_fill d n x) \<and> vec_ok (vector_copy d v) \<and>
    (\<exists>w. vector_list d c = Inr w \<and> vec_ok w) \<and> (\<exists>w. v_assign_list d c v = Inr w \<and> vec_ok w) \<and> vec_ok (v_assign d False v u) \<and>
    (\<forall>w. push_back d e v = Inr w \<longrightarrow> vec_ok w \<and> v_size w = v_size v + 1) \<and>
    (\<forall>w. v_insert d p e v = Inr w \<longrightarrow> vec_ok w \<and> v_size w = v_size v + 1) \<and>
    (\<forall>w. v_erase p v = Inr w \<longrightarrow> vec_ok w \<and> v_size w + 1 = v_size v) \<and>
    vec_ok (v_clear v) \<and> vec_ok (v_sort lt asc v) \<and> vec_ok (unique_sort lt asc v)"
proof -
  note r = resize_ok [OF assms, of d]
  have push: "vec_ok w \<and> v_size w = v_size v + 1" if "push_back d e v = Inr w" for w
    using that r by (auto simp: push_back_def Let_def vec_ok_def split: sum.splits)
  then have "vec_ok w \<and> v_size w = v_size v + 1" if "v_insert d p e v = Inr w" for w
    using that r by (auto simp: v_insert_def Let_def vec_ok_def length_update_loop split: sum.splits if_splits)
  moreover have "vec_ok w \<and> v_size w + 1 = v_size v" if "v_erase p v = Inr w" for w
    using that assms by (auto simp: v_erase_def vec_ok_def length_update_loop split: if_splits)
  moreover have "vec_ok (vector_copy d v)" "vec_ok (v_assign d False v u)" "vec_ok (v_clear v)"
    using assms by (auto simp: vector_copy_def v_assign_def v_clear_def vec_ok_def length_update_loop Let_def)
  moreover have "\<exists>w. v_assign_list d c v = Inr w \<and> vec_ok w"
    using push_all_ok [of "v\<lparr>v_size := 0\<rparr>" d c] assms by (auto simp: v_assign_list_def vec_ok_def)
  moreover have "\<exists>w. vector_list d c = Inr w \<and> vec_ok w" using list_ok [of d c] by auto
  ultimately show ?thesis
    using push vector_new_ok(1) size_ok(1) fill_ok(1) sort_ok(1) [OF assms] unique_ok(1) [OF assms] by (intro conjI allI impI) auto
qed

theorem vector_invariant_witness:
  "vec_ok \<lparr>v_capacity = 2, v_size = 2, v_arr = [5, 6::int]\<rparr> \<and>
   (\<exists>w. v_erase 0 \<lparr>v_capacity = 2, v_size = 2, v_arr = [5, 6::int]\<rparr> = Inr w \<and> vec_ok w \<and> v_size w + 1 = 2)"
proof -
  define v :: "int vector" where "v = \<lparr>v_capacity = 2, v_size = 2, v_arr = [5, 6]\<rparr>"
  have v: "vec_ok v" "v_size v = 2" by (simp_all add: v_def vec_ok_def)
  have e: "\<exists>w. v_erase 0 v = Inr w" by (simp add: v_def v_erase_def)
  show ?thesis using vector_invariant [OF v(1), of 0 0 0 0 "[]" v "Value 0" 0 "(<)" True] e v unfolding v_def [symmetric] by auto
qed

text \<open>
  C30. \<^verbatim>\<open>sort\<close> sorts a vector of any elements whose operator \<^verbatim>\<open><\<close> is a strict weak order, ascending or descending: the
  elements afterwards are those before in another order, none stands before one that must precede it, and what is behind the
  elements in the array, the size and the capacity are not changed. The size is below \<open>2 ^ 31\<close>, the range of the loop counters.
\<close>

theorem vector_sort:
  assumes "v_size v \<le> v_capacity v" and "length (v_arr v) = v_capacity v"
    and "\<And>x y. lt x y \<Longrightarrow> \<not> lt y x" and "\<And>x y z. \<not> lt x y \<Longrightarrow> \<not> lt y z \<Longrightarrow> \<not> lt x z"
  shows "let w = v_sort lt asc v in
    mset (elems w) = mset (elems v) \<and> v_size w = v_size v \<and> v_capacity w = v_capacity v \<and>
    drop (v_size v) (v_arr w) = drop (v_size v) (v_arr v) \<and>
    (\<forall>i j. i < j \<and> j < v_size v \<longrightarrow>
       (if asc then \<not> lt (v_arr w ! j) (v_arr w ! i) else \<not> lt (v_arr w ! i) (v_arr w ! j)))"
proof -
  have "weak_order lt" using assms(3,4) by (rule weak_order.intro)
  then have s: "sorted_wrt (before lt asc) (elems (v_sort lt asc v))"
    using weak_order.sorted_lsort sort_ok(2) [of v lt asc] assms(1,2) by (simp add: vec_ok_def)
  have v: "vec_ok v" using assms(1,2) by (simp add: vec_ok_def)
  note o = sort_ok [OF v, of lt asc]
  have "before lt asc (v_arr (v_sort lt asc v) ! i) (v_arr (v_sort lt asc v) ! j)" if "i < j" "j < v_size v" for i j
    using sorted_wrt_nth_less [OF s that(1)] that o(1,3) length_elems [OF o(1)] by (simp add: elems_def vec_ok_def)
  moreover have "drop (v_size v) (v_arr (v_sort lt asc v)) = drop (v_size v) (v_arr v)"
    using m_sort_lsort [of 0 "v_size v" "v_arr v" lt asc] assms(1,2) by (simp add: v_sort_def)
  moreover have "v_capacity (v_sort lt asc v) = v_capacity v" by (simp add: v_sort_def)
  ultimately show ?thesis using o(2,3) mset_lsort [of lt asc "elems v"] unfolding Let_def before_def by metis
qed

theorem vector_sort_witness:
  "elems (v_sort (\<lambda>x y. x < (y::nat)) False \<lparr>v_capacity = 3, v_size = 2, v_arr = [4, 7, 9]\<rparr>) = [7, 4] \<and>
   drop 2 (v_arr (v_sort (\<lambda>x y. x < (y::nat)) False \<lparr>v_capacity = 3, v_size = 2, v_arr = [4, 7, 9]\<rparr>)) = [9]"
proof -
  define v :: "nat vector" where "v = \<lparr>v_capacity = 3, v_size = 2, v_arr = [4, 7, 9]\<rparr>"
  define w where "w = v_sort (\<lambda>x y. x < (y::nat)) False v"
  have "mset (elems w) = mset (elems v) \<and> drop 2 (v_arr w) = [9]"
    using vector_sort [of v "\<lambda>x y. x < y" False] by (auto simp: v_def w_def Let_def)
  moreover have "elems w = [7, 4]" unfolding w_def v_def by code_simp
  ultimately show ?thesis by (simp add: w_def v_def)
qed

text \<open>\<^verbatim>\<open>push_back\<close> and \<^verbatim>\<open>insert\<close> take the element by reference and read it after they have moved the elements: with an element
  of the vector itself as the argument, \<^verbatim>\<open>v.insert(p, v[i])\<close> behind the place \<open>p\<close> inserts the element before \<^verbatim>\<open>v[i]\<close> and not
  \<^verbatim>\<open>v[i]\<close>, and in a full vector both functions read the array that they have deleted.
\<close>

theorem vector_insert_own_element:
  assumes "length (v_arr v) = v_capacity v" and "v_size v < v_capacity v" and "p < i" and "i < v_size v"
    and "v_size u = v_capacity u" and "q \<le> v_size u"
  shows "(\<exists>w. v_insert d p (Element i) v = Inr w \<and> elems w = take p (elems v) @ elems v ! (i - 1) # drop p (elems v)) \<and>
    push_back d (Element j) u = Inl Dangling \<and> v_insert d q (Element j) u = Inl Dangling"
proof -
  have v: "vec_ok v" "p \<le> v_size v" using assms by (simp_all add: vec_ok_def)
  define arr where "arr = foldl (\<lambda>arr i. arr[i := arr ! (i - 1)]) (v_arr v) (rev [p + 1..<v_size v + 1])"
  have a: "arr = take (p + 1) (v_arr v) @ take (v_size v - p) (drop p (v_arr v)) @ drop (v_size v + 1) (v_arr v)"
    unfolding arr_def using assms by (intro insert_loop) auto
  have "arr ! i = elems v ! (i - 1)"
  proof -
    have "i - Suc p < v_size v - p" "min (length (v_arr v)) (Suc p) = Suc p" using assms(1-4) by auto
    then show ?thesis using assms(1-4) by (simp add: a nth_append elems_def)
  qed
  then have "v_insert d p (Element i) v = v_insert d p (Value (elems v ! (i - 1))) v"
    using assms(2-4) by (simp add: v_insert_def resize_if_not_fit_def deref_def arr_def)
  moreover obtain w where "v_insert d p (Value (elems v ! (i - 1))) v = Inr w"
      "elems w = take p (elems v) @ elems v ! (i - 1) # drop p (elems v)"
    using insert_ok [OF v] by metis
  moreover have "push_back d (Element j) u = Inl Dangling" "v_insert d q (Element j) u = Inl Dangling"
    using assms(5,6) by (simp_all add: push_back_def v_insert_def deref_def Let_def)
  ultimately show ?thesis by simp
qed

theorem vector_insert_own_element_witness:
  "\<exists>w. v_insert (0::int) 0 (Element 1) \<lparr>v_capacity = 4, v_size = 2, v_arr = [5, 6, 0, 0]\<rparr> = Inr w \<and> elems w = [5, 5, 6]"
proof -
  define v :: "int vector" where "v = \<lparr>v_capacity = 4, v_size = 2, v_arr = [5, 6, 0, 0]\<rparr>"
  define u :: "int vector" where "u = \<lparr>v_capacity = 0, v_size = 0, v_arr = []\<rparr>"
  obtain w where w: "v_insert 0 0 (Element 1) v = Inr w" "elems w = take 0 (elems v) @ elems v ! (1 - 1) # drop 0 (elems v)"
    using vector_insert_own_element [of v 0 1 u 0 0 0] by (auto simp: v_def u_def)
  have "elems v = [5, 6]" by (simp add: v_def elems_def)
  then show ?thesis using w by (simp add: v_def)
qed

end
