(* ===== verification/Jobq.thy ===== *)
theory Jobq
  imports Prelude "HOL-Library.Monad_Syntax"
begin

text \<open>
  \<^verbatim>\<open>apue.3e/threads/rwlock.c\<close>: a queue of jobs, doubly linked through the jobs themselves. The memory maps an address to the job
  there; 0 is the null pointer, and an access through it, or through an address where there is no job, is an error: the
  result of the function is \<open>None\<close>. The functions hold the lock of the queue from their first to their last access.
\<close>

record job =
  j_next :: nat
  j_prev :: nat
  j_id :: nat

record queue =
  q_head :: nat
  q_tail :: nat

type_synonym jobs = "nat \<rightharpoonup> job"

definition job_at :: "jobs \<Rightarrow> nat \<Rightarrow> job option" where
  "job_at h p = (if p = 0 then None else h p)"

definition put_prev :: "nat \<Rightarrow> nat \<Rightarrow> jobs \<Rightarrow> jobs option" where
  "put_prev p v h = do { j \<leftarrow> job_at h p; Some (h(p \<mapsto> j\<lparr>j_prev := v\<rparr>)) }"

definition put_next :: "nat \<Rightarrow> nat \<Rightarrow> jobs \<Rightarrow> jobs option" where
  "put_next p v h = do { j \<leftarrow> job_at h p; Some (h(p \<mapsto> j\<lparr>j_next := v\<rparr>)) }"

text \<open>\<open>err\<close>: the result of \<^verbatim>\<open>pthread_rwlock_init\<close>.\<close>

definition queue_init :: "int \<Rightarrow> queue \<Rightarrow> int \<times> queue" where
  "queue_init err qp =
     (let qp1 = qp\<lparr>q_head := 0, q_tail := 0\<rparr>
      in if err \<noteq> 0 then (err, qp1) else (0, qp1))"

definition job_insert :: "nat \<Rightarrow> queue \<times> jobs \<Rightarrow> (queue \<times> jobs) option" where
  "job_insert jp s = (case s of (qp, h) \<Rightarrow> do {
     h1 \<leftarrow> put_next jp (q_head qp) h;
     h2 \<leftarrow> put_prev jp 0 h1;
     (qp1, h3) \<leftarrow>
       (if q_head qp \<noteq> 0 then do { h3 \<leftarrow> put_prev (q_head qp) jp h2; Some (qp, h3) }
        else Some (qp\<lparr>q_tail := jp\<rparr>, h2));
     Some (qp1\<lparr>q_head := jp\<rparr>, h3)
   })"

definition job_append :: "nat \<Rightarrow> queue \<times> jobs \<Rightarrow> (queue \<times> jobs) option" where
  "job_append jp s = (case s of (qp, h) \<Rightarrow> do {
     h1 \<leftarrow> put_next jp 0 h;
     h2 \<leftarrow> put_prev jp (q_tail qp) h1;
     (qp1, h3) \<leftarrow>
       (if q_tail qp \<noteq> 0 then do { h3 \<leftarrow> put_next (q_tail qp) jp h2; Some (qp, h3) }
        else Some (qp\<lparr>q_head := jp\<rparr>, h2));
     Some (qp1\<lparr>q_tail := jp\<rparr>, h3)
   })"

definition job_remove :: "nat \<Rightarrow> queue \<times> jobs \<Rightarrow> (queue \<times> jobs) option" where
  "job_remove jp s = (case s of (qp, h) \<Rightarrow>
     if jp = q_head qp then do {
       j \<leftarrow> job_at h jp;
       let qp1 = qp\<lparr>q_head := j_next j\<rparr>;
       if q_tail qp1 = jp then Some (qp1\<lparr>q_tail := 0\<rparr>, h)
       else do { h1 \<leftarrow> put_prev (j_next j) (j_prev j) h; Some (qp1, h1) }
     }
     else if jp = q_tail qp then do {
       j \<leftarrow> job_at h jp;
       h1 \<leftarrow> put_next (j_prev j) (j_next j) h;
       Some (qp\<lparr>q_tail := j_prev j\<rparr>, h1)
     }
     else do {
       j \<leftarrow> job_at h jp;
       h1 \<leftarrow> put_next (j_prev j) (j_next j) h;
       j1 \<leftarrow> job_at h1 jp;
       h2 \<leftarrow> put_prev (j_next j1) (j_prev j1) h1;
       Some (qp, h2)
     })"

text \<open>The loop of \<^verbatim>\<open>job_find\<close>; \<open>lock_res\<close> is the result of \<^verbatim>\<open>pthread_rwlock_rdlock\<close>.\<close>

partial_function (option) job_find_loop :: "jobs \<Rightarrow> nat \<Rightarrow> nat \<Rightarrow> nat option" where
  "job_find_loop h i jp =
     (if jp = 0 then Some 0
      else case h jp of None \<Rightarrow> None
         | Some j \<Rightarrow> if j_id j = i then Some jp else job_find_loop h i (j_next j))"

declare job_find_loop.simps [code]

definition job_find :: "int \<Rightarrow> nat \<Rightarrow> queue \<times> jobs \<Rightarrow> nat option" where
  "job_find lock_res i s = (if lock_res \<noteq> 0 then Some 0 else job_find_loop (snd s) i (q_head (fst s)))"

section \<open>The queue as a list\<close>

text \<open>Jobs linked one after the other, from one behind \<open>p\<close> to one before \<open>n\<close>.\<close>

definition first :: "nat list \<Rightarrow> nat \<Rightarrow> nat" where
  "first xs n = (case xs of [] \<Rightarrow> n | x # _ \<Rightarrow> x)"

definition final :: "nat list \<Rightarrow> nat \<Rightarrow> nat" where
  "final xs p = (if xs = [] then p else last xs)"

primrec links :: "jobs \<Rightarrow> nat \<Rightarrow> nat list \<Rightarrow> nat \<Rightarrow> bool" where
  "links h p [] n \<longleftrightarrow> True"
| "links h p (x # xs) n \<longleftrightarrow> (\<exists>j. h x = Some j \<and> j_prev j = p \<and> j_next j = first xs n) \<and> links h x xs n"

definition queue_of :: "nat list \<Rightarrow> queue \<times> jobs \<Rightarrow> bool" where
  "queue_of xs s \<longleftrightarrow> distinct xs \<and> 0 \<notin> set xs \<and> q_head (fst s) = first xs 0 \<and> q_tail (fst s) = final xs 0 \<and> links (snd s) 0 xs 0"

text \<open>Only jobs in \<open>A\<close> have changed, and none of them its thread.\<close>

definition jobs_kept :: "nat set \<Rightarrow> jobs \<Rightarrow> jobs \<Rightarrow> bool" where
  "jobs_kept A h h' \<longleftrightarrow> (\<forall>y. y \<notin> A \<longrightarrow> h' y = h y) \<and> (\<forall>y. map_option j_id (h' y) = map_option j_id (h y))"

lemma first_simps [simp]: "first [] n = n" "first (x # xs) n = x" "first (xs @ ys) n = first xs (first ys n)"
  by (auto simp: first_def split: list.splits)

lemma final_simps [simp]: "final [] p = p" "final (x # xs) p = final xs x" "final (xs @ ys) p = final ys (final xs p)"
  by (auto simp: final_def)

lemma final_in: "final xs p \<in> set xs \<or> xs = [] \<and> final xs p = p"
  by (simp add: final_def)

lemma first_in: "first xs n \<in> set xs \<or> xs = [] \<and> first xs n = n"
  by (cases xs) simp_all

lemma links_append: "links h p (xs @ ys) n \<longleftrightarrow> links h p xs (first ys n) \<and> links h (final xs p) ys n"
  by (induction xs arbitrary: p) (auto split: option.splits)

lemma links_cong: "(\<And>x. x \<in> set xs \<Longrightarrow> h x = h' x) \<Longrightarrow> links h p xs n = links h' p xs n"
  by (induction xs arbitrary: p) auto

lemma links_upd [simp]: "x \<notin> set xs \<Longrightarrow> links (h(x := v)) p xs n = links h p xs n"
  by (auto intro!: links_cong)

lemma links_mem: "links h p xs n \<Longrightarrow> x \<in> set xs \<Longrightarrow> \<exists>j. h x = Some j"
  by (induction xs arbitrary: p) (auto split: option.splits)

text \<open>Writing the links at the ends of a part of the queue.\<close>

lemma put_prev_first:
  assumes "links h p xs n" and "distinct xs" and "0 \<notin> set xs" and "xs \<noteq> []"
  shows "\<exists>h'. put_prev (first xs n) q h = Some h' \<and> links h' q xs n \<and> jobs_kept {first xs n} h h'"
proof -
  obtain x ys where x: "xs = x # ys" using assms(4) by (cases xs) auto
  then obtain j where j: "h x = Some j" using assms(1) by (auto split: option.splits)
  define h' where "h' = h(x \<mapsto> j\<lparr>j_prev := q\<rparr>)"
  have "put_prev (first xs n) q h = Some h'" using assms(3) x j by (simp add: put_prev_def job_at_def h'_def)
  moreover have "links h' q xs n" using assms(1,2) x j by (simp add: h'_def)
  moreover have "jobs_kept {first xs n} h h'" using x j by (simp add: jobs_kept_def h'_def)
  ultimately show ?thesis by blast
qed

lemma put_next_final:
  assumes "links h p xs n" and "distinct xs" and "0 \<notin> set xs" and "xs \<noteq> []"
  shows "\<exists>h'. put_next (final xs p) m h = Some h' \<and> links h' p xs m \<and> jobs_kept {final xs p} h h'"
proof -
  obtain ys y where "xs = ys @ [y]" using assms(4) by (metis rev_exhaust)
  then obtain j where j: "xs = ys @ [y]" "h y = Some j" using assms(1) by (auto simp: links_append split: option.splits)
  define h' where "h' = h(y \<mapsto> j\<lparr>j_next := m\<rparr>)"
  have "put_next (final xs p) m h = Some h'" using assms(3) j by (simp add: put_next_def job_at_def h'_def)
  moreover have "links h' p xs m" using assms(1,2) j by (simp add: h'_def links_append)
  moreover have "jobs_kept {final xs p} h h'" using j by (simp add: jobs_kept_def h'_def)
  ultimately show ?thesis by blast
qed

lemma links_kept: "jobs_kept A h h' \<Longrightarrow> A \<inter> set xs = {} \<Longrightarrow> links h' p xs n = links h p xs n"
  by (rule links_cong) (auto simp: jobs_kept_def)

lemma jobs_kept_trans: "jobs_kept A h h' \<Longrightarrow> jobs_kept B h' h'' \<Longrightarrow> jobs_kept (A \<union> B) h h''"
  by (auto simp: jobs_kept_def)

lemma jobs_kept_mono: "jobs_kept A h h' \<Longrightarrow> A \<subseteq> B \<Longrightarrow> jobs_kept B h h'"
  by (auto simp: jobs_kept_def)

text \<open>Both links of a new job.\<close>

lemma put_both:
  assumes "jp \<noteq> 0" and "h jp = Some j"
  shows "\<exists>h1 h2. put_next jp n h = Some h1 \<and> put_prev jp p h1 = Some h2 \<and> h2 jp = Some (j\<lparr>j_next := n, j_prev := p\<rparr>) \<and> jobs_kept {jp} h h2"
  using assms by (auto simp: put_next_def put_prev_def job_at_def jobs_kept_def)

lemma job_insert_ok:
  assumes "queue_of xs (qp, h)" and "jp \<noteq> 0" and "jp \<notin> set xs" and "h jp = Some j"
  shows "\<exists>q' h'. job_insert jp (qp, h) = Some (q', h') \<and> queue_of (jp # xs) (q', h') \<and> jobs_kept (insert jp (set xs)) h h'"
proof -
  have q: "distinct xs" "0 \<notin> set xs" "q_head qp = first xs 0" "q_tail qp = final xs 0" "links h 0 xs 0"
    using assms(1) by (auto simp: queue_of_def)
  obtain h1 h2 where p: "put_next jp (first xs 0) h = Some h1" "put_prev jp 0 h1 = Some h2"
      "h2 jp = Some (j\<lparr>j_next := first xs 0, j_prev := 0\<rparr>)" "jobs_kept {jp} h h2" using put_both [OF assms(2), of h j] assms(4) by blast
  have l: "links h2 0 xs 0" using q(5) links_kept [OF p(4)] assms(3) by simp
  show ?thesis
  proof (cases "xs = []")
    case True
    then show ?thesis using p q assms(2) jobs_kept_mono [OF p(4)] by (auto simp: job_insert_def queue_of_def)
  next
    case False
    then have f: "first xs 0 \<in> set xs" using first_in [of xs 0] by simp
    obtain h3 where h3: "put_prev (first xs 0) jp h2 = Some h3" "links h3 jp xs 0" "jobs_kept {first xs 0} h2 h3"
      using put_prev_first [OF l q(1,2) False] by blast
    have j: "h3 jp = h2 jp" using h3(3) f assms(3) by (metis jobs_kept_def singletonD)
    have "first xs 0 \<noteq> 0" using f q(2) by metis
    then have "job_insert jp (qp, h) = Some (qp\<lparr>q_head := jp\<rparr>, h3)" using p h3(1) q(3) by (simp add: job_insert_def)
    moreover have "queue_of (jp # xs) (qp\<lparr>q_head := jp\<rparr>, h3)"
      using q assms(2,3) h3(2) p(3) j False by (simp add: queue_of_def final_def)
    moreover have "jobs_kept (insert jp (set xs)) h h3" using jobs_kept_mono [OF jobs_kept_trans [OF p(4) h3(3)]] f by simp
    ultimately show ?thesis by blast
  qed
qed

lemma job_append_ok:
  assumes "queue_of xs (qp, h)" and "jp \<noteq> 0" and "jp \<notin> set xs" and "h jp = Some j"
  shows "\<exists>q' h'. job_append jp (qp, h) = Some (q', h') \<and> queue_of (xs @ [jp]) (q', h') \<and> jobs_kept (insert jp (set xs)) h h'"
proof -
  have q: "distinct xs" "0 \<notin> set xs" "q_head qp = first xs 0" "q_tail qp = final xs 0" "links h 0 xs 0"
    using assms(1) by (auto simp: queue_of_def)
  obtain h1 h2 where p: "put_next jp 0 h = Some h1" "put_prev jp (final xs 0) h1 = Some h2"
      "h2 jp = Some (j\<lparr>j_next := 0, j_prev := final xs 0\<rparr>)" "jobs_kept {jp} h h2" using put_both [OF assms(2), of h j] assms(4) by blast
  have l: "links h2 0 xs 0" using q(5) links_kept [OF p(4)] assms(3) by simp
  show ?thesis
  proof (cases "xs = []")
    case True
    then show ?thesis using p q assms(2) jobs_kept_mono [OF p(4)] by (auto simp: job_append_def queue_of_def)
  next
    case False
    then have f: "final xs 0 \<in> set xs" using final_in [of xs 0] by simp
    obtain h3 where h3: "put_next (final xs 0) jp h2 = Some h3" "links h3 0 xs jp" "jobs_kept {final xs 0} h2 h3"
      using put_next_final [OF l q(1,2) False] by blast
    have j: "h3 jp = h2 jp" using h3(3) f assms(3) by (metis jobs_kept_def singletonD)
    have "final xs 0 \<noteq> 0" using f q(2) by metis
    then have "job_append jp (qp, h) = Some (qp\<lparr>q_tail := jp\<rparr>, h3)" using p h3(1) q(4) by (simp add: job_append_def)
    moreover have "queue_of (xs @ [jp]) (qp\<lparr>q_tail := jp\<rparr>, h3)"
      using q assms(2,3) h3(2) p(3) j False by (cases xs) (simp_all add: queue_of_def links_append)
    moreover have "jobs_kept (insert jp (set xs)) h h3" using jobs_kept_mono [OF jobs_kept_trans [OF p(4) h3(3)]] f by simp
    ultimately show ?thesis by blast
  qed
qed

lemma job_remove_ok:
  assumes "queue_of (xs @ jp # ys) (qp, h)"
  shows "\<exists>q' h'. job_remove jp (qp, h) = Some (q', h') \<and> queue_of (xs @ ys) (q', h') \<and> jobs_kept (set xs \<union> set ys) h h'"
proof -
  obtain j where q: "distinct (xs @ jp # ys)" "0 \<notin> set (xs @ jp # ys)" "q_head qp = first xs jp" "q_tail qp = final ys jp"
    and l: "links h 0 xs jp" "h jp = Some j" "j_prev j = final xs 0" "j_next j = first ys 0" "links h jp ys 0"
    using assms by (auto simp: queue_of_def links_append split: option.splits)
  define a b where ab: "a = final xs 0" "b = first ys 0"
  have d: "job_at h jp = Some j" using q(2) l(2) by (simp add: job_at_def)
  have a: "a \<in> set xs" if "xs \<noteq> []" using that final_in [of xs 0] by (auto simp: ab)
  have b: "b \<in> set ys" if "ys \<noteq> []" using that first_in [of ys 0] by (auto simp: ab)
  have X: "\<exists>h'. put_next a b h = Some h' \<and> links h' 0 xs b \<and> jobs_kept {a} h h'" if "xs \<noteq> []"
    using put_next_final [OF l(1) _ _ that, of b] q(1,2) by (simp add: ab)
  have Y: "\<exists>h''. put_prev b a h' = Some h'' \<and> links h'' a ys 0 \<and> jobs_kept {b} h' h''" if "ys \<noteq> []" "links h' jp ys 0" for h'
    using put_prev_first [OF that(2) _ _ that(1), of a] q(1,2) by (simp add: ab)
  have hd: "jp = q_head qp \<longleftrightarrow> xs = []" using q(1,3) first_in [of xs jp] by auto
  have tl: "jp = q_tail qp \<longleftrightarrow> ys = []" using q(1,4) final_in [of ys jp] by auto
  consider (only) "xs = []" "ys = []" | (head) "xs = []" "ys \<noteq> []" | (tail) "xs \<noteq> []" "ys = []" | (mid) "xs \<noteq> []" "ys \<noteq> []" by blast
  then show ?thesis
  proof cases
    case only
    then show ?thesis using hd tl l d by (auto simp: job_remove_def queue_of_def jobs_kept_def)
  next
    case head
    obtain h' where h': "put_prev b a h = Some h'" "links h' a ys 0" "jobs_kept {b} h h'" using Y [OF head(2) l(5)] by blast
    have "job_remove jp (qp, h) = Some (qp\<lparr>q_head := b\<rparr>, h')" using head hd tl l d h'(1) by (auto simp: job_remove_def ab)
    moreover have "queue_of (xs @ ys) (qp\<lparr>q_head := b\<rparr>, h')" using head h'(2) q by (cases ys) (auto simp: queue_of_def ab)
    ultimately show ?thesis using jobs_kept_mono [OF h'(3)] b [OF head(2)] by auto
  next
    case tail
    obtain h' where h': "put_next a b h = Some h'" "links h' 0 xs b" "jobs_kept {a} h h'" using X [OF tail(1)] by blast
    have "job_remove jp (qp, h) = Some (qp\<lparr>q_tail := a\<rparr>, h')" using tail hd tl l d h'(1) by (auto simp: job_remove_def ab)
    moreover have "queue_of (xs @ ys) (qp\<lparr>q_tail := a\<rparr>, h')" using tail h'(2) q by (cases xs) (auto simp: queue_of_def ab)
    ultimately show ?thesis using jobs_kept_mono [OF h'(3)] a [OF tail(1)] by auto
  next
    case mid
    obtain h1 where h1: "put_next a b h = Some h1" "links h1 0 xs b" "jobs_kept {a} h h1" using X [OF mid(1)] by blast
    have ay: "a \<notin> set ys" "a \<noteq> jp" "b \<notin> set xs" using q(1) a [OF mid(1)] b [OF mid(2)] by auto
    then have "links h1 jp ys 0" using l(5) links_kept [OF h1(3)] by simp
    then obtain h2 where h2: "put_prev b a h1 = Some h2" "links h2 a ys 0" "jobs_kept {b} h1 h2" using Y [OF mid(2)] by blast
    have "job_at h1 jp = Some j" using h1(3) d ay(2) by (simp add: jobs_kept_def job_at_def split: if_splits)
    then have "job_remove jp (qp, h) = Some (qp, h2)" using mid hd tl l d h1(1) h2(1) by (simp add: job_remove_def ab)
    moreover have "links h2 0 xs b" using h1(2) links_kept [OF h2(3)] ay(3) by simp
    then have "queue_of (xs @ ys) (qp, h2)" using mid h2(2) q by (cases xs; cases ys) (auto simp: queue_of_def links_append ab)
    moreover have "jobs_kept (set xs \<union> set ys) h h2" using jobs_kept_mono [OF jobs_kept_trans [OF h1(3) h2(3)]] a [OF mid(1)] b [OF mid(2)] by simp
    ultimately show ?thesis by blast
  qed
qed

lemma job_find_loop_links:
  "0 \<notin> set xs \<Longrightarrow> links h p xs 0 \<Longrightarrow>
    job_find_loop h i (first xs 0) = Some (case find (\<lambda>x. map_option j_id (h x) = Some i) xs of None \<Rightarrow> 0 | Some x \<Rightarrow> x)"
proof (induction xs arbitrary: p)
  case Nil
  then show ?case by (simp add: job_find_loop.simps)
next
  case (Cons x xs)
  then show ?case by (subst job_find_loop.simps) (auto split: option.splits)
qed

text \<open>
  C16. The queue of jobs is a list: on jobs that are linked as the list says, \<^verbatim>\<open>job_insert\<close> puts a job before the others,
  \<^verbatim>\<open>job_append\<close> behind them, \<^verbatim>\<open>job_remove\<close> takes any job out, at the head, the tail or in the middle, and \<^verbatim>\<open>job_find\<close> ends and returns
  the first job of the thread, or the null pointer. No function reads or writes through the null pointer or where there is no
  job. All links of both directions are right afterwards, the thread ids do not change, jobs outside of the queue are not
  touched, and neither is the job that has been removed.
\<close>

theorem job_queue_refines_list:
  assumes "queue_of xs (q, h)"
  shows "queue_of [] (snd (queue_init err q'), h) \<and>
    (jp \<noteq> 0 \<and> jp \<in> dom h \<and> jp \<notin> set xs \<longrightarrow>
      (\<exists>q1 h1. job_insert jp (q, h) = Some (q1, h1) \<and> queue_of (jp # xs) (q1, h1) \<and> jobs_kept (insert jp (set xs)) h h1) \<and>
      (\<exists>q1 h1. job_append jp (q, h) = Some (q1, h1) \<and> queue_of (xs @ [jp]) (q1, h1) \<and> jobs_kept (insert jp (set xs)) h h1)) \<and>
    (jp \<in> set xs \<longrightarrow>
      (\<exists>q1 h1. job_remove jp (q, h) = Some (q1, h1) \<and> queue_of (remove1 jp xs) (q1, h1) \<and> jobs_kept (set xs - {jp}) h h1)) \<and>
    job_find 0 i (q, h) = Some (case find (\<lambda>x. map_option j_id (h x) = Some i) xs of None \<Rightarrow> 0 | Some x \<Rightarrow> x)"
proof -
  have "\<exists>q1 h1. job_remove jp (q, h) = Some (q1, h1) \<and> queue_of (remove1 jp xs) (q1, h1) \<and> jobs_kept (set xs - {jp}) h h1"
    if jp: "jp \<in> set xs"
  proof -
    obtain ys zs where x: "xs = ys @ jp # zs" "jp \<notin> set ys" using split_list_first [OF jp] by blast
    then have "jp \<notin> set zs" using assms by (simp add: queue_of_def)
    then have "set xs - {jp} = set ys \<union> set zs" using x by auto
    then show ?thesis using job_remove_ok [of ys jp zs q h] assms x by (simp add: remove1_append)
  qed
  moreover have "job_find 0 i (q, h) = Some (case find (\<lambda>x. map_option j_id (h x) = Some i) xs of None \<Rightarrow> 0 | Some x \<Rightarrow> x)"
    using job_find_loop_links [of xs h 0 i] assms by (simp add: job_find_def queue_of_def)
  moreover have "queue_of [] (snd (queue_init err q'), h)" by (simp add: queue_of_def queue_init_def Let_def)
  ultimately show ?thesis using job_insert_ok [OF assms] job_append_ok [OF assms] by blast
qed

theorem job_queue_refines_list_witness:
  "\<exists>q1 h1 q2 h2. job_append 5 (\<lparr>q_head = 0, q_tail = 0\<rparr>, [5 \<mapsto> \<lparr>j_next = 9, j_prev = 9, j_id = 1\<rparr>]) = Some (q1, h1) \<and>
    queue_of [5] (q1, h1) \<and> job_remove 5 (q1, h1) = Some (q2, h2) \<and> queue_of [] (q2, h2)"
proof -
  define h :: jobs where "h = [5 \<mapsto> \<lparr>j_next = 9, j_prev = 9, j_id = 1\<rparr>]"
  define q where "q = \<lparr>q_head = 0, q_tail = 0\<rparr>"
  have 0: "queue_of [] (q, h)" by (simp add: queue_of_def q_def)
  have "5 \<in> dom h" by (simp add: h_def)
  then obtain q1 h1 where a: "job_append 5 (q, h) = Some (q1, h1)" "queue_of [5] (q1, h1)"
    using job_queue_refines_list [OF 0, of 0 q 5 0] by auto
  obtain q2 h2 where "job_remove 5 (q1, h1) = Some (q2, h2)" "queue_of [] (q2, h2)"
    using job_queue_refines_list [OF a(2), of 0 q 5 0] by auto
  then show ?thesis using a unfolding q_def h_def by blast
qed

end
