(* ===== verification/Refobj.thy ===== *)
theory Refobj
  imports Prelude
begin

text \<open>
  \<^verbatim>\<open>apue.3e/threads/mutex2.c\<close> and \<^verbatim>\<open>mutex3.c\<close>: objects that threads share, with a count of the references to each, found
  through a hash table of chains. In \<^verbatim>\<open>mutex2.c\<close> the counts are protected by a lock in the object and the chains by
  another one, \<^verbatim>\<open>hashlock\<close>; in \<^verbatim>\<open>mutex3.c\<close> everything is protected by \<^verbatim>\<open>hashlock\<close>. What a thread does while it holds the locks is one
  step; \<^verbatim>\<open>foo_rele\<close> of \<^verbatim>\<open>mutex2.c\<close>, which gives up the one lock to take both, has two. The memory maps an address to the
  object there; 0 is the null pointer, and \<open>None\<close> as a result means that the code reads or writes an object that has been freed,
  or does not end. The count is an \<^verbatim>\<open>int\<close> of 32 bits that wraps around; the threads are followed as long as no object has more than
  \<open>INT_MAX\<close> references.
\<close>

definition NHASH :: nat where "NHASH = 29"

definition HASH :: "int \<Rightarrow> nat" where
  "HASH i = nat (uint (of_int i :: 64 word)) mod NHASH"

record foo =
  f_count :: "32 word"
  f_id :: int
  f_next :: nat

record foos =
  f_mem :: "nat \<Rightarrow> foo option"
  fh :: "nat list"

definition put :: "nat \<Rightarrow> foo \<Rightarrow> foos \<Rightarrow> foos" where
  "put fp f s = s\<lparr>f_mem := (f_mem s)(fp \<mapsto> f)\<rparr>"

section \<open>Both versions\<close>

text \<open>\<open>mem\<close>: what \<^verbatim>\<open>malloc\<close> returns; \<open>init_res\<close>: the result of \<^verbatim>\<open>pthread_mutex_init\<close>.\<close>

definition foo_alloc :: "nat option \<Rightarrow> int \<Rightarrow> int \<Rightarrow> foos \<Rightarrow> nat \<times> foos" where
  "foo_alloc mem init_res i s = (case mem of
     None \<Rightarrow> (0, s)
   | Some fp \<Rightarrow>
       if init_res \<noteq> 0 then (0, s)
       else (let idx = HASH i; s1 = put fp \<lparr>f_count = 1, f_id = i, f_next = fh s ! idx\<rparr> s
             in (fp, s1\<lparr>fh := (fh s1)[idx := fp]\<rparr>)))"

partial_function (option) foo_find_loop :: "(nat \<Rightarrow> foo option) \<Rightarrow> int \<Rightarrow> nat \<Rightarrow> nat option" where
  "foo_find_loop m i fp =
     (if fp = 0 then Some 0
      else case m fp of None \<Rightarrow> None
         | Some f \<Rightarrow> if f_id f = i then Some fp else foo_find_loop m i (f_next f))"

text \<open>The loop that looks for the object before \<open>fp\<close> in its chain.\<close>

partial_function (option) prev_loop :: "(nat \<Rightarrow> foo option) \<Rightarrow> nat \<Rightarrow> nat \<Rightarrow> nat option" where
  "prev_loop m fp tfp =
     (case m tfp of None \<Rightarrow> None
      | Some t \<Rightarrow> if f_next t \<noteq> fp then prev_loop m fp (f_next t) else Some tfp)"

text \<open>Taking the object \<open>f\<close> at \<open>fp\<close> out of its chain.\<close>

definition unlink :: "nat \<Rightarrow> foo \<Rightarrow> foos \<Rightarrow> foos option" where
  "unlink fp f s =
     (let idx = HASH (f_id f); tfp = fh s ! idx in
      if tfp = fp then Some (s\<lparr>fh := (fh s)[idx := f_next f]\<rparr>)
      else case prev_loop (f_mem s) fp tfp of None \<Rightarrow> None
         | Some tfp \<Rightarrow> (case f_mem s tfp of None \<Rightarrow> None
             | Some t \<Rightarrow> Some (put tfp (t\<lparr>f_next := f_next f\<rparr>) s)))"

definition free_foo :: "nat \<Rightarrow> foos \<Rightarrow> foos" where
  "free_foo fp s = s\<lparr>f_mem := (f_mem s)(fp := None)\<rparr>"

definition foo_hold :: "nat \<Rightarrow> foos \<Rightarrow> foos option" where
  "foo_hold fp s = (case f_mem s fp of None \<Rightarrow> None | Some f \<Rightarrow> Some (put fp (f\<lparr>f_count := f_count f + 1\<rparr>) s))"

datatype rele_out = Released | Recheck

section \<open>mutex2.c\<close>

definition foo_find2 :: "int \<Rightarrow> foos \<Rightarrow> (nat \<times> foos) option" where
  "foo_find2 i s = (case foo_find_loop (f_mem s) i (fh s ! HASH i) of None \<Rightarrow> None
     | Some fp \<Rightarrow> if fp = 0 then Some (fp, s) else map_option (Pair fp) (foo_hold fp s))"

definition foo_rele2 :: "nat \<Rightarrow> foos \<Rightarrow> (rele_out \<times> foos) option" where
  "foo_rele2 fp s = (case f_mem s fp of None \<Rightarrow> None
     | Some f \<Rightarrow> if f_count f = 1 then Some (Recheck, s)
                 else Some (Released, put fp (f\<lparr>f_count := f_count f - 1\<rparr>) s))"

definition foo_recheck2 :: "nat \<Rightarrow> foos \<Rightarrow> foos option" where
  "foo_recheck2 fp s = (case f_mem s fp of None \<Rightarrow> None
     | Some f \<Rightarrow> if f_count f \<noteq> 1 then Some (put fp (f\<lparr>f_count := f_count f - 1\<rparr>) s)
                 else map_option (free_foo fp) (unlink fp f s))"

section \<open>mutex3.c\<close>

definition foo_find3 :: "int \<Rightarrow> foos \<Rightarrow> (nat \<times> foos) option" where
  "foo_find3 i s = (case foo_find_loop (f_mem s) i (fh s ! HASH i) of None \<Rightarrow> None
     | Some fp \<Rightarrow> if fp = 0 then Some (fp, s)
         else (case f_mem s fp of None \<Rightarrow> None | Some f \<Rightarrow> Some (fp, put fp (f\<lparr>f_count := f_count f + 1\<rparr>) s)))"

definition foo_rele3 :: "nat \<Rightarrow> foos \<Rightarrow> (rele_out \<times> foos) option" where
  "foo_rele3 fp s = (case f_mem s fp of None \<Rightarrow> None
     | Some f \<Rightarrow>
         (let f1 = f\<lparr>f_count := f_count f - 1\<rparr>; s1 = put fp f1 s
          in if f_count f1 = 0 then map_option (\<lambda>s2. (Released, free_foo fp s2)) (unlink fp f1 s1)
             else Some (Released, s1)))"

section \<open>Chains\<close>

definition nx :: "(nat \<Rightarrow> foo option) \<Rightarrow> nat \<Rightarrow> nat" where
  "nx m a = (case m a of None \<Rightarrow> 0 | Some f \<Rightarrow> f_next f)"

definition bucket :: "(nat \<Rightarrow> foo option) \<Rightarrow> nat \<Rightarrow> nat set" where
  "bucket m i = {a. \<exists>f. m a = Some f \<and> HASH (f_id f) = i}"

definition chained :: "foos \<Rightarrow> nat \<Rightarrow> nat list \<Rightarrow> bool" where
  "chained s i xs \<longleftrightarrow> distinct xs \<and> seg (nx (f_mem s)) (fh s ! i) xs 0 \<and> set xs = bucket (f_mem s) i"

definition foos_ok :: "foos \<Rightarrow> bool" where
  "foos_ok s \<longleftrightarrow> length (fh s) = NHASH \<and> f_mem s 0 = None \<and> (\<forall>i < NHASH. \<exists>xs. chained s i xs)"

lemma HASH_less: "HASH i < NHASH"
  by (simp add: HASH_def NHASH_def)

lemma seg_cong: "(\<And>x. x \<in> set xs \<Longrightarrow> n x = n' x) \<Longrightarrow> seg n i xs j = seg n' i xs j"
  by (induction xs arbitrary: i) auto

lemma chained_same:
  assumes "chained s i xs" and "fh s' ! i = fh s ! i" and "bucket (f_mem s') i = bucket (f_mem s) i"
    and "\<And>a. a \<in> bucket (f_mem s) i \<Longrightarrow> nx (f_mem s') a = nx (f_mem s) a"
  shows "chained s' i xs"
  using assms seg_cong [of xs "nx (f_mem s')" "nx (f_mem s)"] by (simp add: chained_def)

lemma bucket_put: "f_mem s a = Some f \<Longrightarrow> f_id f' = f_id f \<Longrightarrow> bucket (f_mem (put a f' s)) i = bucket (f_mem s) i"
  by (auto simp: bucket_def put_def)

lemma nx_put: "nx (f_mem (put a f s)) b = (if b = a then f_next f else nx (f_mem s) b)"
  by (simp add: nx_def put_def)

lemma put_simps [simp]: "fh (put a f s) = fh s" "f_mem (put a f s) = (f_mem s)(a \<mapsto> f)"
  by (simp_all add: put_def)

lemma count_ok:
  assumes "foos_ok s" and "f_mem s a = Some f"
  shows "foos_ok (put a (f\<lparr>f_count := c\<rparr>) s)"
proof -
  have "chained (put a (f\<lparr>f_count := c\<rparr>) s) i xs" if "chained s i xs" for i xs
    using that assms(2) bucket_put [OF assms(2), of "f\<lparr>f_count := c\<rparr>" i]
    by (intro chained_same [OF that]) (auto simp: nx_def)
  moreover have "a \<noteq> 0" using assms by (metis foos_ok_def option.distinct(1))
  ultimately show ?thesis using assms(1) unfolding foos_ok_def by (metis (no_types, lifting) fun_upd_other put_simps)
qed

lemma chained_nonzero: "foos_ok s \<Longrightarrow> chained s i xs \<Longrightarrow> 0 \<notin> set xs"
  by (auto simp: foos_ok_def chained_def bucket_def)

lemma alloc_ok:
  assumes "foos_ok s" and "f_mem s a = None" and "a \<noteq> 0"
  shows "foos_ok (snd (foo_alloc (Some a) 0 i s))"
proof -
  define f where "f = \<lparr>f_count = 1, f_id = i, f_next = fh s ! HASH i\<rparr>"
  define s' where "s' = (put a f s)\<lparr>fh := (fh s)[HASH i := a]\<rparr>"
  have len: "length (fh s) = NHASH" using assms(1) by (simp add: foos_ok_def)
  have a: "a \<notin> bucket (f_mem s) j" for j using assms(2) by (simp add: bucket_def)
  have b: "bucket (f_mem s') j = (if j = HASH i then insert a (bucket (f_mem s) j) else bucket (f_mem s) j)" for j
    using assms(2) by (auto simp: bucket_def s'_def f_def)
  have "\<exists>ys. chained s' j ys" if "chained s j xs" "j < NHASH" for j xs
  proof (cases "j = HASH i")
    case True
    have "seg (nx (f_mem s')) (fh s ! j) xs 0 = seg (nx (f_mem s)) (fh s ! j) xs 0"
      using that(1) a [of j] by (intro seg_cong) (auto simp: chained_def s'_def nx_def)
    then have "chained s' j (a # xs)" using that a [of j] True len b [of j]
      by (auto simp: chained_def s'_def nx_def f_def)
    then show ?thesis ..
  next
    case False
    have "chained s' j xs" using False b [of j] a [of j]
      by (intro chained_same [OF that(1)]) (auto simp: s'_def nx_def)
    then show ?thesis ..
  qed
  then have "foos_ok s'" using assms len by (auto simp: foos_ok_def s'_def)
  then show ?thesis by (simp add: foo_alloc_def Let_def s'_def f_def)
qed

lemma foo_find_loop_seg:
  "seg (nx m) p xs 0 \<Longrightarrow> \<forall>x \<in> set xs. x \<noteq> 0 \<and> m x \<noteq> None \<Longrightarrow>
     foo_find_loop m i p = Some (case find (\<lambda>x. map_option f_id (m x) = Some i) xs of None \<Rightarrow> 0 | Some x \<Rightarrow> x)"
proof (induction xs arbitrary: p)
  case Nil
  then show ?case by (simp add: foo_find_loop.simps)
next
  case (Cons x xs)
  obtain f where "m x = Some f" using Cons.prems(2) by auto
  then show ?case using Cons by (subst foo_find_loop.simps) (auto simp: nx_def)
qed

lemma prev_loop_seg:
  "seg (nx m) p (ys @ [y, a]) q \<Longrightarrow> a \<notin> set (ys @ [y]) \<Longrightarrow> \<forall>x \<in> set (ys @ [y]). m x \<noteq> None \<Longrightarrow> prev_loop m a p = Some y"
proof (induction ys arbitrary: p)
  case Nil
  then show ?case by (subst prev_loop.simps) (auto simp: nx_def)
next
  case (Cons x ys)
  obtain f where f: "m x = Some f" using Cons.prems(3) by auto
  have "nx m x \<noteq> a" using Cons.prems(1,2) by (cases ys) auto
  then show ?case using Cons f by (subst prev_loop.simps) (auto simp: nx_def)
qed

definition info :: "foos \<Rightarrow> nat \<Rightarrow> (int \<times> 32 word) option" where
  "info s a = map_option (\<lambda>f. (f_id f, f_count f)) (f_mem s a)"

lemma chained_mem: "chained s i xs \<Longrightarrow> x \<in> set xs \<Longrightarrow> \<exists>f. f_mem s x = Some f \<and> HASH (f_id f) = i"
  by (auto simp: chained_def bucket_def)

lemma bucket_free: "bucket (m(a := None)) i = bucket m i - {a}"
  by (auto simp: bucket_def)

lemma seg_free: "a \<notin> set xs \<Longrightarrow> seg (nx (m(a := None))) p xs q = seg (nx m) p xs q"
  by (intro seg_cong) (auto simp: nx_def)

lemma foos_ok_free:
  assumes "foos_ok s" and "f_mem s a = Some f" and "fh s' = (fh s)[HASH (f_id f) := p]" and "chained (free_foo a s') (HASH (f_id f)) xs"
    and "\<And>b. info s' b = info s b" and "\<And>j b. j \<noteq> HASH (f_id f) \<Longrightarrow> b \<in> bucket (f_mem s) j \<Longrightarrow> nx (f_mem s') b = nx (f_mem s) b"
  shows "foos_ok (free_foo a s')"
proof -
  have b: "bucket (f_mem s') j = bucket (f_mem s) j" for j
    unfolding bucket_def
  proof (intro Collect_cong)
    fix x
    show "(\<exists>f. f_mem s' x = Some f \<and> HASH (f_id f) = j) = (\<exists>f. f_mem s x = Some f \<and> HASH (f_id f) = j)"
      using assms(5) [of x] by (cases "f_mem s' x"; cases "f_mem s x") (auto simp: info_def)
  qed
  have a: "a \<notin> bucket (f_mem s) j" if "j \<noteq> HASH (f_id f)" for j using that assms(2) by (auto simp: bucket_def)
  have "\<exists>xs. chained (free_foo a s') j xs" if j: "j < NHASH" for j
  proof (cases "j = HASH (f_id f)")
    case True
    then show ?thesis using assms(4) by blast
  next
    case False
    obtain ys where y: "chained s j ys" using assms(1) j by (auto simp: foos_ok_def)
    have "chained (free_foo a s') j ys"
      using False a [OF False] assms(3,6) b [of j]
      by (intro chained_same [OF y]) (auto simp: free_foo_def bucket_free nx_def)
    then show ?thesis ..
  qed
  moreover have "f_mem s' 0 = None" using assms(1) assms(5) [of 0] by (simp add: foos_ok_def info_def)
  ultimately show ?thesis using assms(1,3) by (auto simp: foos_ok_def free_foo_def)
qed

lemma foo_unlink_ok:
  assumes "foos_ok s" and "f_mem s a = Some f"
  obtains s' where "unlink a f s = Some s'" and "foos_ok (free_foo a s')" and "\<And>b. info s' b = info s b"
proof -
  define i where "i = HASH (f_id f)"
  have i: "i < NHASH" "length (fh s) = NHASH" using HASH_less assms(1) by (simp_all add: i_def foos_ok_def)
  obtain xs where x: "chained s i xs" using assms(1) i(1) by (auto simp: foos_ok_def)
  have "a \<in> set xs" using x assms(2) by (auto simp: chained_def bucket_def i_def)
  then obtain ys zs where xs: "xs = ys @ a # zs" by (meson split_list)
  have d: "distinct xs" "set xs = bucket (f_mem s) i" and sg: "seg (nx (f_mem s)) (fh s ! i) ys a" "seg (nx (f_mem s)) (f_next f) zs 0"
    using x assms(2) by (auto simp: chained_def xs seg_append nx_def)
  show thesis
  proof (cases ys rule: rev_cases)
    case Nil
    define s' where "s' = s\<lparr>fh := (fh s)[i := f_next f]\<rparr>"
    have "seg (nx ((f_mem s)(a := None))) (f_next f) zs 0"
      using sg(2) d(1) by (simp add: xs seg_free)
    then have "chained (free_foo a s') i zs" using d Nil i
      by (auto simp: chained_def s'_def free_foo_def xs bucket_free)
    then have "foos_ok (free_foo a s')" by (intro foos_ok_free [OF assms, of s' "f_next f"]) (auto simp: s'_def i_def info_def)
    moreover have "unlink a f s = Some s'" using sg(1) Nil by (simp add: unlink_def i_def [symmetric] s'_def)
    ultimately show thesis by (intro that [of s']) (simp_all add: s'_def info_def)
  next
    case (snoc ys' y)
    obtain t where t: "f_mem s y = Some t" "HASH (f_id t) = i" using chained_mem [OF x, of y] snoc by (auto simp: xs)
    define s' where "s' = put y (t\<lparr>f_next := f_next f\<rparr>) s"
    have n: "nx (f_mem s') = (nx (f_mem s))(y := f_next f)" by (auto simp: s'_def nx_def)
    have y: "y \<notin> set ys'" "y \<notin> set zs" "a \<notin> set (ys @ zs)" using d(1) by (auto simp: xs snoc)
    have "seg (nx (f_mem s')) (fh s ! i) (ys @ zs) 0" using sg y(1,2) unfolding n by (auto simp: snoc seg_append)
    moreover have "seg (nx ((f_mem s')(a := None))) (fh s ! i) (ys @ zs) 0 = seg (nx (f_mem s')) (fh s ! i) (ys @ zs) 0"
      using y(3) by (rule seg_free)
    ultimately have "chained (free_foo a s') i (ys @ zs)"
      using d y t bucket_put [OF t(1), of "t\<lparr>f_next := f_next f\<rparr>" i] by (auto simp: chained_def s'_def free_foo_def xs bucket_free)
    moreover have "info s' b = info s b" for b using t by (simp add: info_def s'_def)
    moreover have "nx (f_mem s') b = nx (f_mem s) b" if "j \<noteq> i" "b \<in> bucket (f_mem s) j" for j b
      using that t unfolding n by (auto simp: bucket_def)
    ultimately have "foos_ok (free_foo a s')"
      by (intro foos_ok_free [OF assms, of s' "fh s ! i"]) (auto simp: s'_def i_def)
    moreover have "unlink a f s = Some s'"
    proof -
      have "seg (nx (f_mem s)) (fh s ! i) (ys' @ [y, a]) (nx (f_mem s) a)" using sg(1) by (simp add: snoc seg_append)
      moreover have "\<forall>x \<in> set (ys' @ [y]). f_mem s x \<noteq> None" using chained_mem [OF x] by (fastforce simp: xs snoc)
      ultimately have "prev_loop (f_mem s) a (fh s ! i) = Some y" using y(3) by (intro prev_loop_seg) (auto simp: snoc)
      moreover have "fh s ! i \<noteq> a" using seg_hd [OF sg(1)] y(3) snoc by (metis Un_iff append_is_Nil_conv hd_in_set not_Cons_self2 set_append)
      ultimately show ?thesis using t(1) by (simp add: unlink_def i_def [symmetric] s'_def)
    qed
    ultimately show thesis by (intro that [of s']) (simp_all add: info_def s'_def t)
  qed
qed

section \<open>Threads\<close>

text \<open>
  The threads have references to objects, \<open>refs\<close> many to each, and \<open>leaving\<close> many threads are between the two steps of
  \<^verbatim>\<open>foo_rele\<close> with it. A thread may hold or release an object to which it has a reference. A step that touches freed memory
  leads to \<open>None\<close>.
\<close>

record foo_ops =
  op_find :: "int \<Rightarrow> foos \<Rightarrow> (nat \<times> foos) option"
  op_rele :: "nat \<Rightarrow> foos \<Rightarrow> (rele_out \<times> foos) option"
  op_recheck :: "nat \<Rightarrow> foos \<Rightarrow> foos option"

record foo_sys =
  table :: foos
  refs :: "nat \<Rightarrow> nat"
  leaving :: "nat \<Rightarrow> nat"

definition add_ref :: "nat \<Rightarrow> foos \<Rightarrow> foo_sys \<Rightarrow> foo_sys" where
  "add_ref a s y = y\<lparr>table := s, refs := (refs y)(a := refs y a + 1)\<rparr>"

definition drop_ref :: "nat \<Rightarrow> rele_out \<times> foos \<Rightarrow> foo_sys \<Rightarrow> foo_sys" where
  "drop_ref a r y = y\<lparr>table := snd r, refs := (refs y)(a := refs y a - 1),
     leaving := (leaving y)(a := leaving y a + (if fst r = Recheck then 1 else 0))\<rparr>"

inductive foo_step :: "foo_ops \<Rightarrow> foo_sys \<Rightarrow> foo_sys option \<Rightarrow> bool" for ops where
  alloc: "f_mem (table y) a = None \<Longrightarrow> a \<noteq> 0 \<Longrightarrow> foo_alloc (Some a) 0 i (table y) = (fp, s) \<Longrightarrow> foo_step ops y (Some (add_ref fp s y))"
| hold: "0 < refs y a \<Longrightarrow> foo_step ops y (map_option (\<lambda>s. add_ref a s y) (foo_hold a (table y)))"
| find: "foo_step ops y (map_option (\<lambda>(fp, s). if fp = 0 then y\<lparr>table := s\<rparr> else add_ref fp s y) (op_find ops i (table y)))"
| rele: "0 < refs y a \<Longrightarrow> foo_step ops y (map_option (\<lambda>r. drop_ref a r y) (op_rele ops a (table y)))"
| recheck: "0 < leaving y a \<Longrightarrow>
    foo_step ops y (map_option (\<lambda>s. y\<lparr>table := s, leaving := (leaving y)(a := leaving y a - 1)\<rparr>) (op_recheck ops a (table y)))"

definition foo_start :: foo_sys where
  "foo_start = \<lparr>table = \<lparr>f_mem = Map.empty, fh = replicate NHASH 0\<rparr>, refs = (\<lambda>_. 0), leaving = (\<lambda>_. 0)\<rparr>"

definition INT_MAX :: nat where "INT_MAX = 2 ^ 31 - 1"

definition within_int :: "foo_sys \<Rightarrow> bool" where
  "within_int y \<longleftrightarrow> (\<forall>a. refs y a + leaving y a \<le> INT_MAX)"

text \<open>The states that are reached without a reference too many.\<close>

inductive foo_reach :: "foo_ops \<Rightarrow> foo_sys \<Rightarrow> bool" for ops where
  start: "foo_reach ops foo_start"
| step: "foo_reach ops y \<Longrightarrow> foo_step ops y (Some y') \<Longrightarrow> within_int y' \<Longrightarrow> foo_reach ops y'"

text \<open>The table after a reference to \<open>a\<close> has been given up.\<close>

definition dec :: "nat \<Rightarrow> (nat \<Rightarrow> (int \<times> 32 word) option) \<Rightarrow> nat \<Rightarrow> (int \<times> 32 word) option" where
  "dec a m = m(a := (case m a of None \<Rightarrow> None | Some (i, c) \<Rightarrow> if c = 1 then None else Some (i, c - 1)))"

definition inc :: "nat \<Rightarrow> (nat \<Rightarrow> (int \<times> 32 word) option) \<Rightarrow> nat \<Rightarrow> (int \<times> 32 word) option" where
  "inc a m = m(a := map_option (\<lambda>(i, c). (i, c + 1)) (m a))"

text \<open>The counts are the numbers of references, and an object without references does not exist.\<close>

definition agree :: "(int \<times> 32 word) option \<Rightarrow> nat \<Rightarrow> bool" where
  "agree v n \<longleftrightarrow> (case v of None \<Rightarrow> n = 0 | Some (i, c) \<Rightarrow> c = of_nat n \<and> 0 < n \<and> n \<le> INT_MAX)"

definition tally :: "(nat \<Rightarrow> (int \<times> 32 word) option) \<Rightarrow> (nat \<Rightarrow> nat) \<Rightarrow> bool" where
  "tally m n \<longleftrightarrow> (\<forall>a. agree (m a) (n a))"

lemma tally_upd: "tally m n \<Longrightarrow> (agree (m a) (n a) \<Longrightarrow> agree v k) \<Longrightarrow> tally (m(a := v)) (n(a := k))"
  by (simp add: tally_def)

lemma tally_inc: "tally m n \<Longrightarrow> m a \<noteq> None \<Longrightarrow> n a + 1 \<le> INT_MAX \<Longrightarrow> tally (inc a m) (n(a := n a + 1))"
  unfolding inc_def by (erule tally_upd) (auto simp: agree_def)

lemma unat_count: "n \<le> INT_MAX \<Longrightarrow> unat (of_nat n :: 32 word) = n"
  by (simp add: INT_MAX_def unat_of_nat)

lemma count_one: "n \<le> INT_MAX \<Longrightarrow> of_nat n = (1 :: 32 word) \<longleftrightarrow> n = 1"
  using unat_count [of n] by (metis of_nat_1 unat_1)

lemma sint_count:
  assumes "n \<le> INT_MAX"
  shows "sint (of_nat n :: 32 word) = int n"
proof -
  have "uint (of_nat n :: 32 word) = int n" using unat_count [OF assms] by (simp add: uint_nat)
  then show ?thesis using assms by (simp add: sint_uint INT_MAX_def signed_take_bit_int_eq_self)
qed

lemma tally_dec: "tally m n \<Longrightarrow> 0 < n a \<Longrightarrow> tally (dec a m) (n(a := n a - 1))"
  unfolding dec_def
proof (erule tally_upd)
  assume a: "agree (m a) (n a)" and n: "0 < n a"
  show "agree (case m a of None \<Rightarrow> None | Some (i, c) \<Rightarrow> if c = 1 then None else Some (i, c - 1)) (n a - 1)"
    using a n count_one [of "n a"] by (auto simp: agree_def of_nat_diff split: option.splits)
qed

lemma tally_new: "tally m n \<Longrightarrow> m a = None \<Longrightarrow> tally (m(a \<mapsto> (i, 1))) (n(a := n a + 1))"
  by (erule tally_upd) (auto simp: agree_def INT_MAX_def)

lemma tally_some: "tally m n \<Longrightarrow> 0 < n a \<Longrightarrow> m a \<noteq> None"
  unfolding tally_def agree_def by (drule spec [of _ a]) (auto split: option.splits)

definition holders :: "foo_sys \<Rightarrow> nat \<Rightarrow> nat" where
  "holders y a = refs y a + leaving y a"

lemma holders_changes:
  "holders (add_ref a s y) = (holders y)(a := holders y a + 1)"
  "0 < refs y a \<Longrightarrow> holders (drop_ref a (Released, s) y) = (holders y)(a := holders y a - 1)"
  "0 < refs y a \<Longrightarrow> holders (drop_ref a (Recheck, s) y) = holders y"
  "0 < leaving y a \<Longrightarrow> holders (y\<lparr>table := s, leaving := (leaving y)(a := leaving y a - 1)\<rparr>) = (holders y)(a := holders y a - 1)"
  "holders (y\<lparr>table := s\<rparr>) = holders y"
  by (auto simp: holders_def add_ref_def drop_ref_def)

lemma hold_ok:
  assumes "foos_ok s" and "info s a \<noteq> None"
  shows "\<exists>s'. foo_hold a s = Some s' \<and> foos_ok s' \<and> info s' = inc a (info s)"
proof -
  obtain f where "f_mem s a = Some f" using assms(2) by (auto simp: info_def)
  then show ?thesis using count_ok [OF assms(1)] by (auto simp: foo_hold_def info_def inc_def)
qed

lemma alloc_info: "foo_alloc (Some a) 0 i s = (fp, s') \<Longrightarrow> fp = a \<and> info s' = (info s)(a \<mapsto> (i, 1))"
  by (auto simp: foo_alloc_def Let_def info_def)

locale ref_table =
  fixes ops :: foo_ops
  assumes find_ok: "foos_ok s \<Longrightarrow> \<exists>fp s'. op_find ops i s = Some (fp, s') \<and>
      (if fp = 0 then s' = s \<and> (\<forall>a c. info s a \<noteq> Some (i, c)) else (\<exists>c. info s fp = Some (i, c)) \<and> foos_ok s' \<and> info s' = inc fp (info s))"
    and rele_ok: "foos_ok s \<Longrightarrow> info s a \<noteq> None \<Longrightarrow> \<exists>r s'. op_rele ops a s = Some (r, s') \<and> foos_ok s' \<and>
      info s' = (if r = Released then dec a (info s) else info s)"
    and recheck_ok: "foos_ok s \<Longrightarrow> info s a \<noteq> None \<Longrightarrow> op_rele ops a s0 = Some (Recheck, s0') \<Longrightarrow>
      \<exists>s'. op_recheck ops a s = Some s' \<and> foos_ok s' \<and> info s' = dec a (info s)"

begin

definition sys_ok :: "foo_sys \<Rightarrow> bool" where
  "sys_ok y \<longleftrightarrow> foos_ok (table y) \<and> tally (info (table y)) (holders y) \<and>
     (\<forall>a. 0 < leaving y a \<longrightarrow> (\<exists>s s'. op_rele ops a s = Some (Recheck, s')))"

lemma room:
  assumes "within_int (add_ref a s y)"
  shows "holders y a + 1 \<le> INT_MAX"
  using assms by (auto simp: within_int_def add_ref_def holders_def dest: spec [of _ a])

lemma start_ok: "sys_ok foo_start"
proof -
  have "chained (table foo_start) i []" if "i < NHASH" for i
    using that by (simp add: chained_def foo_start_def bucket_def)
  then have "foos_ok (table foo_start)" by (auto simp: foos_ok_def foo_start_def)
  then show ?thesis by (simp add: sys_ok_def tally_def agree_def info_def holders_def foo_start_def)
qed

lemma step_ok:
  assumes "sys_ok y" and "foo_step ops y r"
  shows "\<exists>y'. r = Some y' \<and> (within_int y' \<longrightarrow> sys_ok y')"
  using assms(2)
proof cases
  case (alloc a i fp s)
  note f = alloc_info [OF alloc(4)]
  have "foos_ok s" using alloc_ok [of "table y" a i] assms(1) alloc by (simp add: sys_ok_def)
  moreover have "info (table y) a = None" using alloc(2) by (simp add: info_def)
  ultimately show ?thesis using alloc(1) f assms(1) tally_new [of "info (table y)" "holders y" a i]
    by (simp add: sys_ok_def holders_changes) (simp add: add_ref_def)
next
  case (hold a)
  have "info (table y) a \<noteq> None" using tally_some [of _ "holders y"] assms(1) hold(2) by (simp add: sys_ok_def holders_def)
  then obtain s where "foo_hold a (table y) = Some s" "foos_ok s" "info s = inc a (info (table y))" "info (table y) a \<noteq> None"
    using hold_ok [of "table y" a] assms(1) by (auto simp: sys_ok_def)
  then show ?thesis using hold(1) assms(1) tally_inc [of "info (table y)" "holders y" a] room [of a s y]
    by (simp add: sys_ok_def holders_changes) (simp add: add_ref_def)
next
  case (find i)
  obtain fp s where f: "op_find ops i (table y) = Some (fp, s)"
      "if fp = 0 then s = table y \<and> (\<forall>a c. info (table y) a \<noteq> Some (i, c)) else (\<exists>c. info (table y) fp = Some (i, c)) \<and> foos_ok s \<and> info s = inc fp (info (table y))"
    using find_ok [of "table y" i] assms(1) by (auto simp: sys_ok_def)
  show ?thesis
  proof (cases "fp = 0")
    case True
    then show ?thesis using f find assms(1) by simp
  next
    case False
    then show ?thesis using f find assms(1) tally_inc [of "info (table y)" "holders y" fp] room [of fp s y]
      by (auto simp: sys_ok_def holders_changes) (auto simp: add_ref_def)
  qed
next
  case (rele a)
  have i: "info (table y) a \<noteq> None" "0 < holders y a"
    using tally_some [of _ "holders y"] assms(1) rele(2) by (simp_all add: sys_ok_def holders_def)
  obtain q s where q: "op_rele ops a (table y) = Some (q, s)" "foos_ok s" "info s = (if q = Released then dec a (info (table y)) else info (table y))"
    using rele_ok [OF _ i(1)] assms(1) by (auto simp: sys_ok_def)
  have "\<exists>s s'. op_rele ops b s = Some (Recheck, s')" if "0 < leaving (drop_ref a (q, s) y) b" for b
    using that q(1) assms(1) by (auto simp: drop_ref_def sys_ok_def split: if_splits)
  then have "sys_ok (drop_ref a (q, s) y)" using q i rele(2) assms(1) tally_dec [of "info (table y)" "holders y" a]
    by (cases q) (simp_all add: sys_ok_def holders_changes, simp_all add: drop_ref_def)
  then show ?thesis using rele(1) q(1) by simp
next
  case (recheck a)
  have i: "info (table y) a \<noteq> None" "0 < holders y a"
    using tally_some [of _ "holders y"] assms(1) recheck(2) by (simp_all add: sys_ok_def holders_def)
  obtain s where s: "op_recheck ops a (table y) = Some s" "foos_ok s" "info s = dec a (info (table y))"
    using recheck_ok [OF _ i(1)] assms(1) recheck(2) unfolding sys_ok_def by blast
  have "\<exists>s s'. op_rele ops b s = Some (Recheck, s')" if "0 < ((leaving y)(a := leaving y a - 1)) b" for b
    using that assms(1) recheck(2) by (auto simp: sys_ok_def split: if_splits)
  then show ?thesis using recheck s i(2) assms(1) tally_dec [of "info (table y)" "holders y" a]
    by (simp add: sys_ok_def holders_changes(4) del: One_nat_def)
qed

lemma reach_ok: "foo_reach ops y \<Longrightarrow> sys_ok y"
  by (induction rule: foo_reach.induct) (auto intro: start_ok dest: step_ok)

lemma reach_safe:
  assumes "foo_reach ops y"
  shows "\<not> foo_step ops y None" and "tally (info (table y)) (\<lambda>a. refs y a + leaving y a)"
proof -
  show "\<not> foo_step ops y None" using step_ok [OF reach_ok [OF assms]] by blast
  have "holders y = (\<lambda>a. refs y a + leaving y a)" by (rule ext) (simp add: holders_def)
  then show "tally (info (table y)) (\<lambda>a. refs y a + leaving y a)" using reach_ok [OF assms] by (simp add: sys_ok_def)
qed

end

section \<open>The two versions\<close>

lemma find_loop_ok:
  assumes "foos_ok s"
  obtains fp where "foo_find_loop (f_mem s) i (fh s ! HASH i) = Some fp"
    and "if fp = 0 then \<forall>a c. info s a \<noteq> Some (i, c) else \<exists>f. f_mem s fp = Some f \<and> f_id f = i"
proof -
  obtain xs where x: "chained s (HASH i) xs" using assms HASH_less by (auto simp: foos_ok_def)
  have m: "\<forall>x \<in> set xs. x \<noteq> 0 \<and> f_mem s x \<noteq> None"
    using chained_nonzero [OF assms x] chained_mem [OF x] by (metis option.distinct(1))
  define fp where "fp = (case find (\<lambda>x. map_option f_id (f_mem s x) = Some i) xs of None \<Rightarrow> 0 | Some x \<Rightarrow> x)"
  have "foo_find_loop (f_mem s) i (fh s ! HASH i) = Some fp"
    using foo_find_loop_seg [OF _ m] x by (simp add: chained_def fp_def)
  moreover have "if fp = 0 then \<forall>a c. info s a \<noteq> Some (i, c) else \<exists>f. f_mem s fp = Some f \<and> f_id f = i"
  proof (cases "find (\<lambda>x. map_option f_id (f_mem s x) = Some i) xs")
    case None
    then have n: "\<And>x. x \<in> set xs \<Longrightarrow> map_option f_id (f_mem s x) \<noteq> Some i" by (simp add: find_None_iff)
    have "info s a \<noteq> Some (i, c)" for a c
    proof
      assume "info s a = Some (i, c)"
      then obtain f where f: "f_mem s a = Some f" "f_id f = i" by (auto simp: info_def)
      then have "a \<in> set xs" using x by (auto simp: chained_def bucket_def)
      then show False using n f by auto
    qed
    then show ?thesis using None by (simp add: fp_def)
  next
    case (Some x)
    then have "x \<in> set xs" "map_option f_id (f_mem s x) = Some i" by (auto simp: find_Some_iff)
    moreover have "fp = x" unfolding fp_def Some by simp
    ultimately show ?thesis using m by auto
  qed
  ultimately show thesis by (rule that)
qed

lemma find2_find3: "foo_find2 i s = foo_find3 i s"
  by (auto simp: foo_find2_def foo_find3_def foo_hold_def split: option.splits)

lemma find2_ok:
  assumes "foos_ok s"
  shows "\<exists>fp s'. foo_find2 i s = Some (fp, s') \<and>
    (if fp = 0 then s' = s \<and> (\<forall>a c. info s a \<noteq> Some (i, c)) else (\<exists>c. info s fp = Some (i, c)) \<and> foos_ok s' \<and> info s' = inc fp (info s))"
proof -
  obtain fp where f: "foo_find_loop (f_mem s) i (fh s ! HASH i) = Some fp"
      "if fp = 0 then \<forall>a c. info s a \<noteq> Some (i, c) else \<exists>f. f_mem s fp = Some f \<and> f_id f = i"
    using find_loop_ok [OF assms] .
  show ?thesis
  proof (cases "fp = 0")
    case True
    then show ?thesis using f by (simp add: foo_find2_def)
  next
    case False
    then obtain g where g: "f_mem s fp = Some g" "f_id g = i" using f(2) by auto
    then have "info s fp = Some (i, f_count g)" by (simp add: info_def)
    moreover obtain s' where "foo_hold fp s = Some s'" "foos_ok s'" "info s' = inc fp (info s)" using hold_ok [OF assms, of fp] g by (auto simp: info_def)
    ultimately show ?thesis using f(1) False by (auto simp: foo_find2_def)
  qed
qed

lemma info_free: "info (free_foo a s) = (info s)(a := None)"
  by (auto simp: info_def free_foo_def)

lemma less_one_ok:
  assumes "foos_ok s" and "f_mem s a = Some f" and "f_count f \<noteq> 1"
  shows "foos_ok (put a (f\<lparr>f_count := f_count f - 1\<rparr>) s) \<and> info (put a (f\<lparr>f_count := f_count f - 1\<rparr>) s) = dec a (info s)"
  using count_ok [OF assms(1,2)] assms(2,3) by (auto simp: info_def dec_def)

lemma last_ok:
  assumes "foos_ok s" and "f_mem s a = Some f" and "f_count f = c"
  obtains s' where "unlink a f s = Some s'" and "foos_ok (free_foo a s')" and "info (free_foo a s') = (info s)(a := None)"
proof -
  obtain s' where s': "unlink a f s = Some s'" "foos_ok (free_foo a s')" "\<forall>b. info s' b = info s b"
    using foo_unlink_ok [OF assms(1,2)] by metis
  have "info s' = info s" using s'(3) by (intro ext) simp
  then show thesis using that s'(1,2) by (simp add: info_free)
qed

definition ops2 :: foo_ops where
  "ops2 = \<lparr>op_find = foo_find2, op_rele = foo_rele2, op_recheck = foo_recheck2\<rparr>"

text \<open>The release of \<^verbatim>\<open>mutex3.c\<close> has no second step.\<close>

definition ops3 :: foo_ops where
  "ops3 = \<lparr>op_find = foo_find3, op_rele = foo_rele3, op_recheck = (\<lambda>_ _. None)\<rparr>"

interpretation mutex2: ref_table ops2
proof
  fix s i a s0 s0'
  assume s: "foos_ok s"
  show "\<exists>fp s'. op_find ops2 i s = Some (fp, s') \<and>
    (if fp = 0 then s' = s \<and> (\<forall>a c. info s a \<noteq> Some (i, c)) else (\<exists>c. info s fp = Some (i, c)) \<and> foos_ok s' \<and> info s' = inc fp (info s))"
    using find2_ok [OF s] by (simp add: ops2_def)
  assume a: "info s a \<noteq> None"
  then obtain f where f: "f_mem s a = Some f" by (auto simp: info_def)
  show "\<exists>r s'. op_rele ops2 a s = Some (r, s') \<and> foos_ok s' \<and> info s' = (if r = Released then dec a (info s) else info s)"
    using s f less_one_ok [OF s f] by (auto simp: ops2_def foo_rele2_def)
  show "\<exists>s'. op_recheck ops2 a s = Some s' \<and> foos_ok s' \<and> info s' = dec a (info s)"
  proof (cases "f_count f = 1")
    case True
    obtain s' where "unlink a f s = Some s'" "foos_ok (free_foo a s')" "info (free_foo a s') = (info s)(a := None)" using last_ok [OF s f True] .
    then show ?thesis using f True by (auto simp: ops2_def foo_recheck2_def dec_def info_def)
  next
    case False
    then show ?thesis using f less_one_ok [OF s f] by (simp add: ops2_def foo_recheck2_def)
  qed
qed

interpretation mutex3: ref_table ops3
proof
  fix s i a s0 s0'
  assume s: "foos_ok s"
  show "\<exists>fp s'. op_find ops3 i s = Some (fp, s') \<and>
    (if fp = 0 then s' = s \<and> (\<forall>a c. info s a \<noteq> Some (i, c)) else (\<exists>c. info s fp = Some (i, c)) \<and> foos_ok s' \<and> info s' = inc fp (info s))"
    using find2_ok [OF s] by (simp add: ops3_def find2_find3)
  assume a: "info s a \<noteq> None"
  then obtain f where f: "f_mem s a = Some f" by (auto simp: info_def)
  define f1 where "f1 = f\<lparr>f_count := f_count f - 1\<rparr>"
  show "\<exists>r s'. op_rele ops3 a s = Some (r, s') \<and> foos_ok s' \<and> info s' = (if r = Released then dec a (info s) else info s)"
  proof (cases "f_count f = 1")
    case True
    have 1: "foos_ok (put a f1 s)" "f_mem (put a f1 s) a = Some f1" using count_ok [OF s f] by (simp_all add: f1_def)
    obtain s' where "unlink a f1 (put a f1 s) = Some s'" "foos_ok (free_foo a s')" "info (free_foo a s') = (info (put a f1 s))(a := None)"
      using last_ok [OF 1 refl] .
    moreover have "(info (put a f1 s))(a := None) = dec a (info s)" using f True by (auto simp: info_def dec_def)
    ultimately show ?thesis using f True by (simp add: ops3_def foo_rele3_def f1_def)
  next
    case False
    then show ?thesis using f less_one_ok [OF s f] by (simp add: ops3_def foo_rele3_def Let_def)
  qed
  assume "op_rele ops3 a s0 = Some (Recheck, s0')"
  then show "\<exists>s'. op_recheck ops3 a s = Some s' \<and> foos_ok s' \<and> info s' = dec a (info s)"
    by (auto simp: ops3_def foo_rele3_def Let_def split: option.splits if_splits)
qed

text \<open>
  C9. As long as no object has more than \<open>2 ^ 31 - 1\<close> references, both versions manage the shared objects correctly, however the
  threads interleave: no step reads or writes an object that
  has been freed, and every loop ends; the count of an object is the number of references to it, those of threads that
  are about to release it included, and it is positive, without overflow; and an object is freed exactly when its last reference is released.
\<close>

theorem foo_references_safe:
  assumes "ops = ops2 \<or> ops = ops3" and "foo_reach ops y"
  shows "\<not> foo_step ops y None \<and>
    (\<forall>a f. f_mem (table y) a = Some f \<longrightarrow> sint (f_count f) = int (refs y a + leaving y a) \<and> 0 < sint (f_count f)) \<and>
    (\<forall>a. f_mem (table y) a = None \<longleftrightarrow> refs y a + leaving y a = 0) \<and>
    (\<forall>i. \<exists>fp s. op_find ops i (table y) = Some (fp, s) \<and> (fp = 0 \<longleftrightarrow> (\<forall>a f. f_mem (table y) a = Some f \<longrightarrow> f_id f \<noteq> i)))"
proof -
  have t: "\<not> foo_step ops y None" "tally (info (table y)) (\<lambda>a. refs y a + leaving y a)" "foos_ok (table y)"
    using assms mutex2.reach_safe mutex3.reach_safe mutex2.reach_ok mutex3.reach_ok by (auto simp: mutex2.sys_ok_def mutex3.sys_ok_def)
  have a: "agree (info (table y) a) (refs y a + leaving y a)" for a using t(2) by (simp add: tally_def)
  have c: "sint (f_count f) = int (refs y a + leaving y a) \<and> 0 < sint (f_count f)" if "f_mem (table y) a = Some f" for a f
    using a [of a] that sint_count [of "refs y a + leaving y a"] by (simp add: agree_def info_def del: of_nat_add)
  moreover have "f_mem (table y) a = None \<longleftrightarrow> refs y a + leaving y a = 0" for a
    using a [of a] by (cases "f_mem (table y) a") (auto simp: agree_def info_def)
  moreover have "\<exists>fp s. op_find ops i (table y) = Some (fp, s) \<and> (fp = 0 \<longleftrightarrow> (\<forall>a f. f_mem (table y) a = Some f \<longrightarrow> f_id f \<noteq> i))" for i
  proof -
    have "op_find ops i (table y) = foo_find2 i (table y)" using assms(1) by (auto simp: ops2_def ops3_def find2_find3)
    then obtain fp s where f: "op_find ops i (table y) = Some (fp, s)"
        "if fp = 0 then \<forall>a c. info (table y) a \<noteq> Some (i, c) else \<exists>c. info (table y) fp = Some (i, c)"
      using find2_ok [OF t(3), of i] by (auto split: if_splits)
    then show ?thesis by (cases "fp = 0") (auto simp: info_def)
  qed
  ultimately show ?thesis using t(1) by blast
qed

theorem foo_references_safe_witness:
  "\<exists>y. foo_reach ops2 y \<and> refs y 5 = 1 \<and> \<not> foo_step ops2 y None \<and> (\<exists>f. f_mem (table y) 5 = Some f \<and> f_count f = 1)"
proof -
  obtain fp s where a: "foo_alloc (Some 5) 0 7 (table foo_start) = (fp, s)" by fastforce
  then have s: "fp = 5" "\<exists>f. f_mem s 5 = Some f \<and> f_count f = 1" by (auto simp: foo_alloc_def Let_def foo_start_def)
  have "foo_step ops2 foo_start (Some (add_ref fp s foo_start))"
    by (rule foo_step.alloc [OF _ _ a]) (simp_all add: foo_start_def)
  then have r: "foo_reach ops2 (add_ref fp s foo_start)"
    by (rule foo_reach.step [OF foo_reach.start]) (simp add: within_int_def add_ref_def foo_start_def INT_MAX_def)
  then show ?thesis using foo_references_safe [OF disjI1 [OF refl] r] s
    by (intro exI [of _ "add_ref fp s foo_start"]) (auto simp: add_ref_def foo_start_def)
qed

end
