(* ===== verification/Psort.thy ===== *)
theory Psort
  imports Prelude "HOL-Library.Multiset"
begin

text \<open>
  \<^verbatim>\<open>apue.3e/threads/barrier.c\<close>: eight threads sort an eighth of the numbers each and wait at a barrier; then the parts are
  merged. The arrays are functions from indices. \<^verbatim>\<open>heapsort\<close> is a parameter that maps the numbers it gets to those it leaves, and
  \<^verbatim>\<open>random\<close> one that gives the numbers one after the other. The threads and the main program are functions that do one step from
  the state they share, where they can: a call of \<^verbatim>\<open>heapsort\<close>, which only accesses the part of its thread, the arrival at the barrier, the
  return from it, the creation of a thread, the merging.
\<close>

definition NTHR :: nat where "NTHR = 8"
definition NUMNUM :: nat where "NUMNUM = 8000000"
definition TNUM :: nat where "TNUM = NUMNUM div NTHR"
definition LONG_MAX :: int where "LONG_MAX = 9223372036854775807"

definition complong :: "int \<Rightarrow> int \<Rightarrow> int" where
  "complong l1 l2 = (if l1 = l2 then 0 else if l1 < l2 then -1 else 1)"

text \<open>The call of \<^verbatim>\<open>heapsort\<close> for the part of the array that starts at \<open>idx\<close>.\<close>

definition sort_part :: "((int \<Rightarrow> int \<Rightarrow> int) \<Rightarrow> int list \<Rightarrow> int list) \<Rightarrow> nat \<Rightarrow> (nat \<Rightarrow> int) \<Rightarrow> nat \<Rightarrow> int" where
  "sort_part heapsort idx nums =
     (let part = heapsort complong (map nums [idx..<idx + TNUM])
      in (\<lambda>j. if idx \<le> j \<and> j < idx + TNUM then part ! (j - idx) else nums j))"

text \<open>The inner loop of \<^verbatim>\<open>merge\<close> on \<^verbatim>\<open>num\<close> and \<^verbatim>\<open>minidx\<close>, and a round of the outer one. \<^verbatim>\<open>minidx\<close> has no value at first: \<open>m0\<close>.\<close>

definition min_step :: "(nat \<Rightarrow> int) \<Rightarrow> nat list \<Rightarrow> int \<times> nat \<Rightarrow> nat \<Rightarrow> int \<times> nat" where
  "min_step nums idx nm i =
     (case nm of (num, minidx) \<Rightarrow>
        if idx ! i < (i + 1) * TNUM \<and> nums (idx ! i) < num then (nums (idx ! i), i) else (num, minidx))"

definition merge_step :: "(nat \<Rightarrow> int) \<Rightarrow> nat list \<times> nat \<times> int list \<Rightarrow> nat list \<times> nat \<times> int list" where
  "merge_step nums st =
     (case st of (idx, minidx, snums) \<Rightarrow>
        let mi = snd (foldl (min_step nums idx) (LONG_MAX, minidx) [0..<NTHR])
        in (idx[mi := idx ! mi + 1], mi, snums @ [nums (idx ! mi)]))"

definition merge :: "nat \<Rightarrow> (nat \<Rightarrow> int) \<Rightarrow> int list" where
  "merge m0 nums = snd (snd ((merge_step nums ^^ NUMNUM) (map (\<lambda>i. i * TNUM) [0..<NTHR], m0, [])))"

section \<open>The program\<close>

text \<open>A barrier lets everyone pass who has arrived when the limit is reached, and starts again. \<open>Some\<close>: the caller is blocked,
  until the round that is given ends.\<close>

record barrier =
  b_limit :: nat
  b_arrived :: nat
  b_round :: nat

definition pthread_barrier_init :: "nat \<Rightarrow> barrier" where
  "pthread_barrier_init n = \<lparr>b_limit = n, b_arrived = 0, b_round = 0\<rparr>"

definition pthread_barrier_wait :: "barrier \<Rightarrow> nat option \<times> barrier" where
  "pthread_barrier_wait b =
     (if b_arrived b + 1 = b_limit b then (None, b\<lparr>b_arrived := 0, b_round := b_round b + 1\<rparr>)
      else (Some (b_round b), b\<lparr>b_arrived := b_arrived b + 1\<rparr>))"

datatype worker = Started | Sorted | Waiting nat | Returned

datatype main_at = Begin | Creating nat | Blocked nat | Merging | Finished "int list" | Exited int

record psort =
  p_nums :: "nat \<Rightarrow> int"
  bar :: barrier
  workers :: "worker list"
  main_pc :: main_at

text \<open>The next step of the thread with number \<open>i\<close>; \<open>None\<close>: it has to wait, or has returned.\<close>

definition thr_fn :: "((int \<Rightarrow> int \<Rightarrow> int) \<Rightarrow> int list \<Rightarrow> int list) \<Rightarrow> nat \<Rightarrow> psort \<Rightarrow> psort option" where
  "thr_fn heapsort i s =
     (if i \<ge> length (workers s) then None
      else case workers s ! i of
        Started \<Rightarrow> Some (s\<lparr>p_nums := sort_part heapsort (i * TNUM) (p_nums s), workers := (workers s)[i := Sorted]\<rparr>)
      | Sorted \<Rightarrow>
          (case pthread_barrier_wait (bar s) of (r, b) \<Rightarrow>
             Some (s\<lparr>bar := b, workers := (workers s)[i := (case r of None \<Rightarrow> Returned | Some g \<Rightarrow> Waiting g)]\<rparr>))
      | Waiting g \<Rightarrow> if b_round (bar s) = g then None else Some (s\<lparr>workers := (workers s)[i := Returned]\<rparr>)
      | Returned \<Rightarrow> None)"

text \<open>The next step of the main program. \<open>err\<close>: the result of \<^verbatim>\<open>pthread_create\<close>; \<open>m0\<close>: what is in \<^verbatim>\<open>minidx\<close> at first.\<close>

definition psort_main :: "int \<Rightarrow> nat \<Rightarrow> psort \<Rightarrow> psort option" where
  "psort_main err m0 s = (case main_pc s of
     Begin \<Rightarrow> Some (s\<lparr>bar := pthread_barrier_init (NTHR + 1), main_pc := Creating 0\<rparr>)
   | Creating i \<Rightarrow>
       if i < NTHR then
         (if err \<noteq> 0 then Some (s\<lparr>main_pc := Exited err\<rparr>)
          else Some (s\<lparr>workers := workers s @ [Started], main_pc := Creating (i + 1)\<rparr>))
       else
         (case pthread_barrier_wait (bar s) of (r, b) \<Rightarrow>
            Some (s\<lparr>bar := b, main_pc := (case r of None \<Rightarrow> Merging | Some g \<Rightarrow> Blocked g)\<rparr>))
   | Blocked g \<Rightarrow> if b_round (bar s) = g then None else Some (s\<lparr>main_pc := Merging\<rparr>)
   | Merging \<Rightarrow> Some (s\<lparr>main_pc := Finished (merge m0 (p_nums s))\<rparr>)
   | Finished _ \<Rightarrow> None
   | Exited _ \<Rightarrow> None)"

definition running :: "psort \<Rightarrow> bool" where
  "running s = (case main_pc s of Finished _ \<Rightarrow> False | Exited _ \<Rightarrow> False | _ \<Rightarrow> True)"

definition psort_start :: "(nat \<Rightarrow> int) \<Rightarrow> psort" where
  "psort_start random = \<lparr>p_nums = random, bar = pthread_barrier_init 0, workers = [], main_pc = Begin\<rparr>"

inductive psort_step :: "((int \<Rightarrow> int \<Rightarrow> int) \<Rightarrow> int list \<Rightarrow> int list) \<Rightarrow> psort \<Rightarrow> psort \<Rightarrow> bool" for heapsort where
  worker: "running s \<Longrightarrow> thr_fn heapsort i s = Some s' \<Longrightarrow> psort_step heapsort s s'"
| main: "running s \<Longrightarrow> psort_main err m0 s = Some s' \<Longrightarrow> psort_step heapsort s s'"

text \<open>The states after \<open>n\<close> steps.\<close>

inductive psort_run :: "((int \<Rightarrow> int \<Rightarrow> int) \<Rightarrow> int list \<Rightarrow> int list) \<Rightarrow> (nat \<Rightarrow> int) \<Rightarrow> nat \<Rightarrow> psort \<Rightarrow> bool" for heapsort random where
  start: "psort_run heapsort random 0 (psort_start random)"
| step: "psort_run heapsort random n s \<Longrightarrow> psort_step heapsort s s' \<Longrightarrow> psort_run heapsort random (Suc n) s'"

lemma sizes: "NTHR * TNUM = NUMNUM" "0 < NTHR" "0 < TNUM"
  by (simp_all add: NTHR_def TNUM_def NUMNUM_def)

section \<open>One round of the merging\<close>

definition live :: "nat list \<Rightarrow> nat \<Rightarrow> bool" where
  "live idx i \<longleftrightarrow> idx ! i < (i + 1) * TNUM"

text \<open>What the inner loop has found after \<open>n\<close> threads.\<close>

definition found :: "(nat \<Rightarrow> int) \<Rightarrow> nat list \<Rightarrow> nat \<Rightarrow> int \<Rightarrow> nat \<Rightarrow> bool" where
  "found nums idx n num mi \<longleftrightarrow> num \<le> LONG_MAX \<and> (\<forall>i < n. live idx i \<longrightarrow> num \<le> nums (idx ! i)) \<and>
     (num \<noteq> LONG_MAX \<longrightarrow> mi < n \<and> live idx mi \<and> num = nums (idx ! mi)) \<and> (num = LONG_MAX \<longrightarrow> (\<forall>i < n. \<not> live idx i))"

lemma min_loop:
  assumes "\<And>i. i < n \<Longrightarrow> live idx i \<Longrightarrow> nums (idx ! i) < LONG_MAX"
  shows "\<exists>num mi. foldl (min_step nums idx) (LONG_MAX, m0) [0..<n] = (num, mi) \<and> found nums idx n num mi"
  using assms
proof (induction n)
  case (Suc n)
  obtain num mi where f: "foldl (min_step nums idx) (LONG_MAX, m0) [0..<n] = (num, mi)" "found nums idx n num mi" using Suc by auto
  have s: "foldl (min_step nums idx) (LONG_MAX, m0) [0..<Suc n] = (if live idx n \<and> nums (idx ! n) < num then (nums (idx ! n), n) else (num, mi))"
    by (simp add: f(1) min_step_def live_def)
  show ?case
  proof (cases "live idx n \<and> nums (idx ! n) < num")
    case True
    then have "found nums idx (Suc n) (nums (idx ! n)) n"
      using f(2) Suc.prems [of n] by (fastforce simp: found_def less_Suc_eq)
    then show ?thesis using s True by simp
  next
    case False
    then have "found nums idx (Suc n) num mi" using f(2) Suc.prems [of n] by (fastforce simp: found_def less_Suc_eq)
    then show ?thesis using s False by auto
  qed
qed (simp add: found_def)

section \<open>The merging\<close>

definition merge_inv :: "(nat \<Rightarrow> int) \<Rightarrow> nat \<Rightarrow> nat list \<Rightarrow> int list \<Rightarrow> bool" where
  "merge_inv nums k idx out \<longleftrightarrow>
     length idx = NTHR \<and> (\<forall>i < NTHR. i * TNUM \<le> idx ! i \<and> idx ! i \<le> (i + 1) * TNUM) \<and>
     (\<Sum>i < NTHR. idx ! i - i * TNUM) = k \<and> mset out = (\<Sum>i < NTHR. mset (map nums [i * TNUM..<idx ! i])) \<and> sorted out \<and>
     (\<forall>x \<in> set out. \<forall>i < NTHR. \<forall>j. idx ! i \<le> j \<and> j < (i + 1) * TNUM \<longrightarrow> x \<le> nums j)"

definition parts_sorted :: "(nat \<Rightarrow> int) \<Rightarrow> bool" where
  "parts_sorted nums \<longleftrightarrow> (\<forall>i < NTHR. \<forall>j j'. i * TNUM \<le> j \<and> j \<le> j' \<and> j' < (i + 1) * TNUM \<longrightarrow> nums j \<le> nums j')"

lemma sum_at:
  fixes f g :: "nat \<Rightarrow> 'a::comm_monoid_add"
  assumes "m < n" and "\<And>i. i \<noteq> m \<Longrightarrow> f i = g i" and "f m = g m + d"
  shows "(\<Sum>i < n. f i) = (\<Sum>i < n. g i) + d"
proof -
  have "(\<Sum>i < n. f i) = f m + (\<Sum>i \<in> {..<n} - {m}. f i)" using assms(1) by (intro sum.remove) auto
  also have "(\<Sum>i \<in> {..<n} - {m}. f i) = (\<Sum>i \<in> {..<n} - {m}. g i)" using assms(2) by (intro sum.cong) auto
  also have "f m + \<dots> = (g m + (\<Sum>i \<in> {..<n} - {m}. g i)) + d" by (simp add: assms(3) ac_simps)
  also have "g m + (\<Sum>i \<in> {..<n} - {m}. g i) = (\<Sum>i < n. g i)" using assms(1) by (intro sum.remove [symmetric]) auto
  finally show ?thesis .
qed

lemma all_used:
  assumes "merge_inv nums k idx out"
  shows "(\<forall>i < NTHR. \<not> live idx i) \<longleftrightarrow> k = NUMNUM" and "k \<le> NUMNUM"
proof -
  have b: "idx ! i - i * TNUM \<le> TNUM" if "i < NTHR" for i using assms that by (auto simp: merge_inv_def)
  have k: "k = (\<Sum>i < NTHR. idx ! i - i * TNUM)" using assms by (simp add: merge_inv_def)
  have n: "(\<Sum>i < NTHR. TNUM) = NUMNUM" using sizes(1) by simp
  show "k \<le> NUMNUM" unfolding k n [symmetric] by (rule sum_mono) (use b in auto)
  show "(\<forall>i < NTHR. \<not> live idx i) \<longleftrightarrow> k = NUMNUM"
  proof
    assume a: "\<forall>i < NTHR. \<not> live idx i"
    have "idx ! i - i * TNUM = TNUM" if "i < NTHR" for i
      using a that assms by (auto simp: live_def merge_inv_def dest!: spec [of _ i])
    then show "k = NUMNUM" unfolding k n [symmetric] by (intro sum.cong) auto
  next
    assume "k = NUMNUM"
    show "\<forall>i < NTHR. \<not> live idx i"
    proof (rule ccontr)
      assume "\<not> (\<forall>i < NTHR. \<not> live idx i)"
      then obtain i where i: "i < NTHR" "idx ! i - i * TNUM < TNUM" using sizes(3) by (auto simp: live_def)
      have "k < (\<Sum>i < NTHR. TNUM)" unfolding k by (rule sum_strict_mono_ex1) (use b i in auto)
      then show False using \<open>k = NUMNUM\<close> n by simp
    qed
  qed
qed

lemma merge_step_inv:
  assumes "merge_inv nums k idx out" and "k < NUMNUM" and "parts_sorted nums" and "\<And>j. j < NUMNUM \<Longrightarrow> nums j < LONG_MAX"
  shows "\<exists>idx' mi' out'. merge_step nums (idx, mi, out) = (idx', mi', out') \<and> merge_inv nums (Suc k) idx' out'"
proof -
  have range: "j < NUMNUM" if "i < NTHR" "j < (i + 1) * TNUM" for i j
    using that mult_le_mono1 [of "i + 1" NTHR TNUM] sizes(1) by linarith
  have "\<exists>num mi'. foldl (min_step nums idx) (LONG_MAX, mi) [0..<NTHR] = (num, mi') \<and> found nums idx NTHR num mi'"
    using range assms(4) by (intro min_loop) (auto simp: live_def)
  then obtain num m where m: "foldl (min_step nums idx) (LONG_MAX, mi) [0..<NTHR] = (num, m)" "found nums idx NTHR num m" by blast
  have "num \<noteq> LONG_MAX" using m(2) all_used(1) [OF assms(1)] assms(2) by (auto simp: found_def)
  then have M: "m < NTHR" "idx ! m < (m + 1) * TNUM" "num = nums (idx ! m)" "\<And>i. i < NTHR \<Longrightarrow> live idx i \<Longrightarrow> num \<le> nums (idx ! i)"
    using m(2) by (auto simp: found_def live_def)
  have I: "length idx = NTHR" "m * TNUM \<le> idx ! m" using assms(1) M(1) by (auto simp: merge_inv_def)
  define idx' where "idx' = idx[m := idx ! m + 1]"
  have nth: "idx' ! i = (if i = m then idx ! m + 1 else idx ! i)" for i using M(1) I(1) by (simp add: idx'_def nth_list_update)
  have least: "num \<le> nums j" if "i < NTHR" "idx ! i \<le> j" "j < (i + 1) * TNUM" for i j
  proof -
    have "i * TNUM \<le> idx ! i" using that assms(1) by (simp add: merge_inv_def)
    then have "nums (idx ! i) \<le> nums j" using that assms(3) by (simp add: parts_sorted_def)
    moreover have "num \<le> nums (idx ! i)" using that M(4) by (simp add: live_def)
    ultimately show ?thesis by simp
  qed
  have old: "(\<Sum>i < NTHR. idx ! i - i * TNUM) = k" "mset out = (\<Sum>i < NTHR. mset (map nums [i * TNUM..<idx ! i]))" "sorted out"
    "\<And>x i j. x \<in> set out \<Longrightarrow> i < NTHR \<Longrightarrow> idx ! i \<le> j \<Longrightarrow> j < (i + 1) * TNUM \<Longrightarrow> x \<le> nums j"
    "\<And>i. i < NTHR \<Longrightarrow> i * TNUM \<le> idx ! i \<and> idx ! i \<le> (i + 1) * TNUM"
    using assms(1) by (auto simp: merge_inv_def)
  have "(\<Sum>i < NTHR. idx' ! i - i * TNUM) = Suc k"
    using sum_at [OF M(1), of "\<lambda>i. idx' ! i - i * TNUM" "\<lambda>i. idx ! i - i * TNUM" 1] I(2) old(1) by (simp add: nth Suc_diff_le)
  moreover have "(\<Sum>i < NTHR. mset (map nums [i * TNUM..<idx' ! i])) = mset out + {#num#}"
    unfolding old(2) using I(2) M(3) by (intro sum_at [OF M(1)]) (auto simp: nth)
  moreover have "sorted (out @ [num])" using old(3) old(4) [OF _ M(1) order_refl M(2)] M(3) by (simp add: sorted_append)
  moreover have "x \<le> nums j" if "x \<in> set (out @ [num])" "i < NTHR" "idx' ! i \<le> j" "j < (i + 1) * TNUM" for x i j
    using that old(4) [of x i j] least [of i j] by (auto simp: nth split: if_splits)
  moreover have "i * TNUM \<le> idx' ! i \<and> idx' ! i \<le> (i + 1) * TNUM" if "i < NTHR" for i
    using old(5) [OF that] M(2) by (auto simp: nth)
  ultimately have "merge_inv nums (Suc k) idx' (out @ [num])" using I(1) by (auto simp: merge_inv_def idx'_def)
  then show ?thesis using m(1) M(3) by (simp add: merge_step_def idx'_def)
qed

lemma merge_steps_inv:
  assumes "parts_sorted nums" and "\<And>j. j < NUMNUM \<Longrightarrow> nums j < LONG_MAX" and "k \<le> NUMNUM"
  shows "\<exists>idx mi out. (merge_step nums ^^ k) (map (\<lambda>i. i * TNUM) [0..<NTHR], m0, []) = (idx, mi, out) \<and> merge_inv nums k idx out"
  using assms(3)
proof (induction k)
  case 0
  then show ?case by (simp add: merge_inv_def)
next
  case (Suc k)
  then obtain idx mi out where "(merge_step nums ^^ k) (map (\<lambda>i. i * TNUM) [0..<NTHR], m0, []) = (idx, mi, out)" "merge_inv nums k idx out" by auto
  then show ?case using merge_step_inv [of nums k idx out mi] Suc.prems assms(1,2) by simp
qed

lemma mset_parts: "(\<Sum>i < n. mset (map f [i * t..<(i + 1) * t])) = mset (map f [0..<n * t])"
proof (induction n)
  case (Suc n)
  have "[0..<Suc n * t] = [0..<n * t] @ [n * t..<(n + 1) * t]" using upt_add_eq_append [of 0 "n * t" t] by (simp add: add.commute)
  then show ?case using Suc by simp
qed simp

lemma merge_sorts:
  assumes "parts_sorted nums" and "\<And>j. j < NUMNUM \<Longrightarrow> nums j < LONG_MAX"
  shows "merge m0 nums = sort (map nums [0..<NUMNUM])"
proof -
  obtain idx mi out where s: "(merge_step nums ^^ NUMNUM) (map (\<lambda>i. i * TNUM) [0..<NTHR], m0, []) = (idx, mi, out)"
      "merge_inv nums NUMNUM idx out" using merge_steps_inv [OF assms order_refl] by blast
  have "idx ! i = (i + 1) * TNUM" if "i < NTHR" for i
    using all_used(1) [OF s(2)] s(2) that by (auto simp: live_def merge_inv_def dest!: spec [of _ i])
  then have "mset out = (\<Sum>i < NTHR. mset (map nums [i * TNUM..<(i + 1) * TNUM]))" using s(2) by (simp add: merge_inv_def)
  then have "mset out = mset (map nums [0..<NUMNUM])" unfolding mset_parts sizes(1) .
  then show ?thesis using s properties_for_sort [of out "map nums [0..<NUMNUM]"] by (simp add: merge_def merge_inv_def)
qed

section \<open>The parts\<close>

definition part :: "(nat \<Rightarrow> int) \<Rightarrow> nat \<Rightarrow> int list" where
  "part a i = map a [i * TNUM..<(i + 1) * TNUM]"

lemma parts_apart: "i \<noteq> i' \<Longrightarrow> j \<in> {i * TNUM..<(i + 1) * TNUM} \<Longrightarrow> j \<notin> {i' * TNUM..<(i' + 1) * TNUM}"
proof
  assume a: "i \<noteq> i'" "j \<in> {i * TNUM..<(i + 1) * TNUM}" "j \<in> {i' * TNUM..<(i' + 1) * TNUM}"
  have "i = j div TNUM" "i' = j div TNUM"
    using a(2,3) sizes(3) div_nat_eqI [of TNUM i j] div_nat_eqI [of TNUM i' j] by (auto simp: mult.commute)
  then show False using a(1) by simp
qed

lemma part_sort_part:
  assumes "\<And>xs. length (hs complong xs) = length xs"
  shows "part (sort_part hs (i' * TNUM) a) i = (if i = i' then hs complong (part a i) else part a i)"
proof (cases "i = i'")
  case True
  have "length (part a i) = TNUM" by (simp add: part_def)
  then have "part (sort_part hs (i * TNUM) a) i = hs complong (part a i)"
    using assms by (intro nth_equalityI) (auto simp: part_def sort_part_def Let_def add.commute)
  then show ?thesis using True by simp
next
  case False
  then show ?thesis using parts_apart [OF False] by (auto simp: part_def sort_part_def Let_def add.commute)
qed

lemma sorted_parts:
  assumes heapsort: "\<And>xs. mset (heapsort complong xs) = mset xs \<and> sorted_wrt (\<lambda>x y. complong x y \<le> 0) (heapsort complong xs)"
    and "\<And>j. random j < LONG_MAX" and part: "\<And>i. i < NTHR \<Longrightarrow> part a i = heapsort complong (part random i)"
  shows "merge m0 a = sort (map random [0..<NUMNUM])"
proof -
  have srt: "sorted (heapsort complong xs)" for xs
    using heapsort [of xs] by (auto simp: complong_def elim!: sorted_wrt_mono_rel [rotated] split: if_splits)
  have "parts_sorted a" unfolding parts_sorted_def
  proof (intro allI impI)
    fix i j j'
    assume i: "i < NTHR" and j: "i * TNUM \<le> j \<and> j \<le> j' \<and> j' < (i + 1) * TNUM"
    have "sorted (map a [i * TNUM..<(i + 1) * TNUM])" using part [OF i] srt by (simp add: part_def)
    then show "a j \<le> a j'" using j sorted_nth_mono [of "map a [i * TNUM..<(i + 1) * TNUM]" "j - i * TNUM" "j' - i * TNUM"] by auto
  qed
  moreover have all: "mset (map a [0..<NUMNUM]) = mset (map random [0..<NUMNUM])"
    unfolding sizes(1) [symmetric] mset_parts [symmetric] using part heapsort by (intro sum.cong) (auto simp: part_def)
  moreover have "a j < LONG_MAX" if "j < NUMNUM" for j
  proof -
    have "a j \<in># mset (map a [0..<NUMNUM])" using that by auto
    then show ?thesis unfolding all using assms(2) by auto
  qed
  ultimately show ?thesis using merge_sorts [of a m0]
    by (simp add: sorted_list_of_multiset_mset [symmetric] del: sorted_list_of_multiset_mset)
qed

section \<open>The barrier\<close>

text \<open>How many threads, the main program included, are at the barrier in its first round.\<close>

definition arrived :: "psort \<Rightarrow> nat" where
  "arrived s = count (mset (workers s)) (Waiting 0) + (if main_pc s = Blocked 0 then 1 else 0)"

definition before_barrier :: "psort \<Rightarrow> bool" where
  "before_barrier s \<longleftrightarrow> bar s = \<lparr>b_limit = NTHR + 1, b_arrived = arrived s, b_round = 0\<rparr> \<and> set (workers s) \<subseteq> {Started, Sorted, Waiting 0} \<and>
     length (workers s) \<le> NTHR \<and> (main_pc s = Creating (length (workers s)) \<or> main_pc s = Blocked 0 \<and> length (workers s) = NTHR) \<and>
     arrived s \<le> NTHR"

definition after_barrier :: "psort \<Rightarrow> bool" where
  "after_barrier s \<longleftrightarrow> b_round (bar s) = 1 \<and> set (workers s) \<subseteq> {Waiting 0, Returned} \<and> length (workers s) = NTHR \<and>
     (main_pc s = Blocked 0 \<or> main_pc s = Merging)"

definition psort_ok :: "((int \<Rightarrow> int \<Rightarrow> int) \<Rightarrow> int list \<Rightarrow> int list) \<Rightarrow> (nat \<Rightarrow> int) \<Rightarrow> psort \<Rightarrow> bool" where
  "psort_ok hs random s \<longleftrightarrow>
     (\<forall>i. part (p_nums s) i = (if i < length (workers s) \<and> workers s ! i \<noteq> Started then hs complong (part random i) else part random i)) \<and>
     (s = psort_start random \<or> before_barrier s \<or> after_barrier s \<or>
      (\<exists>m0. main_pc s = Finished (merge m0 (p_nums s)) \<and> length (workers s) = NTHR \<and> Started \<notin> set (workers s)) \<or> (\<exists>e. main_pc s = Exited e))"

lemma count_update:
  "i < length xs \<Longrightarrow> xs ! i \<noteq> w \<Longrightarrow> count (mset (xs[i := w])) w = Suc (count (mset xs) w)"
  "i < length xs \<Longrightarrow> xs ! i \<noteq> w \<Longrightarrow> v \<noteq> w \<Longrightarrow> count (mset (xs[i := v])) w = count (mset xs) w"
  by (simp_all add: mset_update)

lemma count_all:
  assumes "count (mset xs) w = length xs"
  shows "set xs \<subseteq> {w}"
proof
  fix x assume x: "x \<in> set xs"
  show "x \<in> {w}"
  proof (rule ccontr)
    assume "x \<notin> {w}"
    then have "length (filter ((=) w) xs) < length xs" using x by (intro length_filter_less) auto
    moreover have "count (mset xs) w = length (filter ((=) w) xs)" by (induction xs) auto
    ultimately show False using assms by simp
  qed
qed

lemma set_update_again:
  assumes "i < length xs" and "set (xs[i := w]) \<subseteq> {w}"
  shows "set (xs[i := v]) \<subseteq> {w, v}"
proof -
  have "set (xs[i := v]) = set ((xs[i := w])[i := v])" by simp
  also have "\<dots> \<subseteq> insert v (set (xs[i := w]))" by (rule set_update_subset_insert)
  finally show ?thesis using assms(2) by blast
qed

lemma all_waiting:
  assumes "count (mset xs) w + 1 = length xs" and "i < length xs" and "xs ! i \<noteq> w"
  shows "set (xs[i := v]) \<subseteq> {w, v}"
proof -
  have "count (mset (xs[i := w])) w = length (xs[i := w])" using count_update(1) [OF assms(2,3)] assms(1) by simp
  then have "set (xs[i := w]) \<subseteq> {w}" by (rule count_all)
  then show ?thesis by (rule set_update_again [OF assms(2)])
qed

text \<open>Where there are not enough threads to pass, one more waits.\<close>

lemma worker_arrives:
  assumes "before_barrier s" and "i < length (workers s)" and "workers s ! i = Sorted" and "pthread_barrier_wait (bar s) = (r, b)"
    and "s' = s\<lparr>bar := b, workers := (workers s)[i := (case r of None \<Rightarrow> Returned | Some g \<Rightarrow> Waiting g)]\<rparr>"
  shows "before_barrier s' \<or> after_barrier s'"
proof (cases "arrived s = NTHR")
  case True
  have c: "count (mset (workers s)) (Waiting 0) + 1 \<le> length (workers s)"
    using count_update(1) [OF assms(2), of "Waiting 0"] count_le_size [of "mset ((workers s)[i := Waiting 0])" "Waiting 0"] assms(3) by simp
  then have m: "main_pc s = Blocked 0" "length (workers s) = NTHR" "count (mset (workers s)) (Waiting 0) + 1 = length (workers s)"
    using True assms(1) by (auto simp: before_barrier_def arrived_def split: if_splits)
  have "set ((workers s)[i := Returned]) \<subseteq> {Waiting 0, Returned}" using all_waiting [OF m(3) assms(2)] assms(3) by simp
  then have "after_barrier s'" using assms(1,4,5) True m by (auto simp: before_barrier_def after_barrier_def pthread_barrier_wait_def)
  then show ?thesis ..
next
  case False
  have "set ((workers s)[i := Waiting 0]) \<subseteq> insert (Waiting 0) (set (workers s))" by (rule set_update_subset_insert)
  moreover have "r = Some 0" "b = (bar s)\<lparr>b_arrived := arrived s + 1\<rparr>"
    using assms(1,4) False by (auto simp: before_barrier_def pthread_barrier_wait_def)
  moreover have "arrived s' = arrived s + 1" using assms(2,3,5) calculation(2) by (simp add: arrived_def count_update)
  ultimately have "before_barrier s'" using assms(1,5) False by (auto simp: before_barrier_def)
  then show ?thesis ..
qed

lemma main_arrives:
  assumes "before_barrier s" and "main_pc s = Creating i" and "\<not> i < NTHR" and "pthread_barrier_wait (bar s) = (r, b)"
    and "s' = s\<lparr>bar := b, main_pc := (case r of None \<Rightarrow> Merging | Some g \<Rightarrow> Blocked g)\<rparr>"
  shows "before_barrier s' \<or> after_barrier s'"
proof -
  have n: "length (workers s) = NTHR" using assms(1-3) by (auto simp: before_barrier_def)
  have a: "arrived s = count (mset (workers s)) (Waiting 0)" using assms(2) by (simp add: arrived_def)
  show ?thesis
  proof (cases "arrived s = NTHR")
    case True
    then have "set (workers s) \<subseteq> {Waiting 0}" using n a by (intro count_all) simp
    then have "after_barrier s'" using assms(1,4,5) True n by (auto simp: before_barrier_def after_barrier_def pthread_barrier_wait_def)
    then show ?thesis ..
  next
    case False
    moreover have "r = Some 0" "b = (bar s)\<lparr>b_arrived := arrived s + 1\<rparr>"
      using assms(1,4) False by (auto simp: before_barrier_def pthread_barrier_wait_def)
    moreover have "arrived s' = arrived s + 1" using assms(5) a calculation(2) by (simp add: arrived_def)
    ultimately have "before_barrier s'" using assms(1,5) n by (auto simp: before_barrier_def)
    then show ?thesis ..
  qed
qed

section \<open>Every step\<close>

lemma set_update_in: "i < length xs \<Longrightarrow> set xs \<subseteq> A \<Longrightarrow> v \<in> A \<Longrightarrow> set (xs[i := v]) \<subseteq> A"
  using set_update_subset_insert [of xs i v] by blast

lemma thr_fn_ok:
  assumes "psort_ok hs random s" and "running s" and "thr_fn hs i s = Some s'" and len: "\<And>xs. length (hs complong xs) = length xs"
  shows "psort_ok hs random s'"
proof -
  have i: "i < length (workers s)" using assms(3) by (auto simp: thr_fn_def split: if_splits)
  then have ba: "before_barrier s \<or> after_barrier s" using assms(1,2) by (auto simp: psort_ok_def psort_start_def running_def)
  have parts: "part (p_nums s) k = (if k < length (workers s) \<and> workers s ! k \<noteq> Started then hs complong (part random k) else part random k)" for k
    using assms(1) by (simp add: psort_ok_def)
  show ?thesis
  proof (cases "workers s ! i")
    case Started
    then have s': "s' = s\<lparr>p_nums := sort_part hs (i * TNUM) (p_nums s), workers := (workers s)[i := Sorted]\<rparr>"
      using assms(3) i by (simp add: thr_fn_def)
    have "before_barrier s" using ba nth_mem [OF i] Started by (auto simp: after_barrier_def)
    moreover have "arrived s' = arrived s" using i Started by (simp add: s' arrived_def count_update)
    ultimately have "before_barrier s'" using set_update_in [OF i, of "{Started, Sorted, Waiting 0}" Sorted] by (auto simp: s' before_barrier_def)
    moreover have "part (p_nums s') k = (if k < length (workers s') \<and> workers s' ! k \<noteq> Started then hs complong (part random k) else part random k)" for k
      using parts [of k] i Started part_sort_part [of hs i "p_nums s" k] len by (auto simp: s' nth_list_update)
    ultimately show ?thesis by (simp add: psort_ok_def)
  next
    case Sorted
    obtain r b where b: "pthread_barrier_wait (bar s) = (r, b)" by fastforce
    have s': "s' = s\<lparr>bar := b, workers := (workers s)[i := (case r of None \<Rightarrow> Returned | Some g \<Rightarrow> Waiting g)]\<rparr>"
      using assms(3) i Sorted b by (simp add: thr_fn_def)
    have "before_barrier s" using ba nth_mem [OF i] Sorted by (auto simp: after_barrier_def)
    then have "before_barrier s' \<or> after_barrier s'" using worker_arrives [OF _ i Sorted b s'] by simp
    moreover have "part (p_nums s') k = (if k < length (workers s') \<and> workers s' ! k \<noteq> Started then hs complong (part random k) else part random k)" for k
      using parts [of k] i Sorted by (auto simp: s' nth_list_update split: option.splits)
    ultimately show ?thesis by (auto simp: psort_ok_def)
  next
    case (Waiting g)
    then have s': "s' = s\<lparr>workers := (workers s)[i := Returned]\<rparr>" "b_round (bar s) \<noteq> g"
      using assms(3) i by (auto simp: thr_fn_def split: if_splits)
    have "after_barrier s" using ba nth_mem [OF i] Waiting s'(2) by (auto simp: before_barrier_def)
    then have "after_barrier s'" using set_update_in [OF i, of "{Waiting 0, Returned}" Returned] by (auto simp: s' after_barrier_def)
    moreover have "part (p_nums s') k = (if k < length (workers s') \<and> workers s' ! k \<noteq> Started then hs complong (part random k) else part random k)" for k
      using parts [of k] i Waiting by (auto simp: s' nth_list_update)
    ultimately show ?thesis by (simp add: psort_ok_def)
  qed (use assms(3) i in \<open>simp add: thr_fn_def\<close>)
qed

lemma psort_main_ok:
  assumes "psort_ok hs random s" and "running s" and "psort_main err m0 s = Some s'"
  shows "psort_ok hs random s'"
proof (cases "main_pc s")
  case Begin
  then have s: "s = psort_start random" using assms(1) by (auto simp: psort_ok_def before_barrier_def after_barrier_def)
  then have "before_barrier s'" using assms(3)
    by (auto simp: psort_main_def psort_start_def before_barrier_def arrived_def pthread_barrier_init_def)
  then show ?thesis using s assms(3) by (auto simp: psort_ok_def psort_main_def psort_start_def)
next
  case (Creating i)
  then have b: "before_barrier s" using assms(1) by (auto simp: psort_ok_def psort_start_def after_barrier_def)
  show ?thesis
  proof (cases "i < NTHR")
    case True
    have il: "i = length (workers s)" using b Creating by (auto simp: before_barrier_def)
    show ?thesis
    proof (cases "err = 0")
      case e: True
      have s': "s' = s\<lparr>workers := workers s @ [Started], main_pc := Creating (i + 1)\<rparr>" using assms(3) Creating True e by (simp add: psort_main_def)
      have "before_barrier s'" using b Creating True il by (auto simp: s' before_barrier_def arrived_def)
      moreover have "(k < length (workers s') \<and> workers s' ! k \<noteq> Started) = (k < length (workers s) \<and> workers s ! k \<noteq> Started)" for k
        by (auto simp: s' nth_append)
      then have "part (p_nums s') k = (if k < length (workers s') \<and> workers s' ! k \<noteq> Started then hs complong (part random k) else part random k)" for k
        using assms(1) by (simp add: psort_ok_def s' del: length_append)
      ultimately show ?thesis by (simp add: psort_ok_def)
    qed (use assms(1,3) Creating True in \<open>auto simp: psort_ok_def psort_main_def\<close>)
  next
    case False
    obtain r c where c: "pthread_barrier_wait (bar s) = (r, c)" by fastforce
    have s': "s' = s\<lparr>bar := c, main_pc := (case r of None \<Rightarrow> Merging | Some g \<Rightarrow> Blocked g)\<rparr>"
      using assms(3) Creating False c by (simp add: psort_main_def)
    have "before_barrier s' \<or> after_barrier s'" by (rule main_arrives [OF b Creating False c s'])
    then show ?thesis using assms(1) by (auto simp: psort_ok_def s')
  qed
next
  case (Blocked g)
  then have "after_barrier s" "s' = s\<lparr>main_pc := Merging\<rparr>"
    using assms(1,3) by (auto simp: psort_ok_def psort_start_def before_barrier_def psort_main_def split: if_splits)
  then show ?thesis using assms(1) by (auto simp: psort_ok_def after_barrier_def)
next
  case Merging
  then have "after_barrier s" "s' = s\<lparr>main_pc := Finished (merge m0 (p_nums s))\<rparr>"
    using assms(1,3) by (auto simp: psort_ok_def psort_start_def before_barrier_def psort_main_def)
  then show ?thesis using assms(1) by (auto simp: psort_ok_def after_barrier_def)
qed (use assms(2) in \<open>auto simp: running_def\<close>)

lemma run_ok:
  assumes "psort_run hs random n s" and len: "\<And>xs. length (hs complong xs) = length xs"
  shows "psort_ok hs random s"
  using assms(1)
proof (induction rule: psort_run.induct)
  case start
  then show ?case by (simp add: psort_ok_def) (simp add: psort_start_def)
next
  case (step n s s')
  from step.hyps(2) show ?case by cases (use step.IH thr_fn_ok len psort_main_ok in blast)+
qed

section \<open>Progress\<close>

text \<open>How many steps are left at most.\<close>

definition worker_rank :: "worker \<Rightarrow> nat" where
  "worker_rank w = (case w of Started \<Rightarrow> 3 | Sorted \<Rightarrow> 2 | Waiting _ \<Rightarrow> 1 | Returned \<Rightarrow> 0)"

definition main_rank :: "main_at \<Rightarrow> nat" where
  "main_rank pc = (case pc of Begin \<Rightarrow> 4 * NTHR + 4 | Creating i \<Rightarrow> 4 * (NTHR - i) + 3 | Blocked _ \<Rightarrow> 2 | Merging \<Rightarrow> 1 | _ \<Rightarrow> 0)"

definition steps_left :: "psort \<Rightarrow> nat" where
  "steps_left s = main_rank (main_pc s) + sum_list (map worker_rank (workers s))"

lemma rank_update:
  "i < length ws \<Longrightarrow> worker_rank w < worker_rank (ws ! i) \<Longrightarrow>
    sum_list (map worker_rank (ws[i := w])) < sum_list (map worker_rank ws)"
  using elem_le_sum_list [of i "map worker_rank ws"] by (simp add: map_update sum_list_update)

lemma step_decreases: "psort_step hs s s' \<Longrightarrow> steps_left s' < steps_left s"
proof (induction rule: psort_step.induct)
  case (worker s i s')
  then have i: "i < length (workers s)" by (auto simp: thr_fn_def split: if_splits)
  show ?case using worker(2) i rank_update [OF i]
    by (cases "workers s ! i")
      (auto simp: thr_fn_def steps_left_def worker_rank_def split: if_splits prod.splits option.splits)
next
  case (main s err m0 s')
  then show ?case
    by (auto simp: psort_main_def steps_left_def main_rank_def worker_rank_def split: main_at.splits if_splits prod.splits option.splits)
qed

lemma run_bound: "psort_run hs random n s \<Longrightarrow> n + steps_left s \<le> 4 * NTHR + 4"
  by (induction rule: psort_run.induct) (auto simp: steps_left_def main_rank_def psort_start_def dest!: step_decreases)

lemma main_moves: "main_pc s \<noteq> Blocked (b_round (bar s)) \<Longrightarrow> running s \<Longrightarrow> \<exists>s'. psort_step hs s s'"
proof -
  assume a: "main_pc s \<noteq> Blocked (b_round (bar s))" "running s"
  have "\<exists>s'. psort_main 0 0 s = Some s'"
    using a by (cases "main_pc s") (auto simp: running_def psort_main_def split: prod.splits)
  then show ?thesis using psort_step.main [OF a(2)] by blast
qed

lemma not_stuck:
  assumes "psort_ok hs random s" and "running s"
  shows "\<exists>s'. psort_step hs s s'"
proof (cases "main_pc s = Blocked (b_round (bar s))")
  case True
  then have b: "before_barrier s" using assms by (auto simp: psort_ok_def psort_start_def after_barrier_def running_def)
  have "\<exists>i < length (workers s). workers s ! i \<noteq> Waiting 0"
  proof (rule ccontr)
    assume a: "\<not> (\<exists>i < length (workers s). workers s ! i \<noteq> Waiting 0)"
    then have "workers s = replicate (length (workers s)) (Waiting 0)" by (intro nth_equalityI) auto
    then have "count (mset (workers s)) (Waiting 0) = length (workers s)" by (metis count_replicate_mset mset_replicate)
    then show False using b True by (auto simp: before_barrier_def arrived_def)
  qed
  then obtain i where i: "i < length (workers s)" "workers s ! i \<noteq> Waiting 0" by blast
  have "workers s ! i \<in> {Started, Sorted, Waiting 0}" using b nth_mem [OF i(1)] unfolding before_barrier_def by blast
  then have "workers s ! i = Started \<or> workers s ! i = Sorted" using i(2) by simp
  then obtain s' where "thr_fn hs i s = Some s'" using i by (cases "pthread_barrier_wait (bar s)") (auto simp: thr_fn_def)
  then show ?thesis using psort_step.worker [OF assms(2)] by blast
next
  case False
  then show ?thesis by (rule main_moves [OF _ assms(2)])
qed

text \<open>
  C17. The program sorts. However the threads interleave, it does at most \<open>4 * NTHR + 4\<close> steps, some thread can move until the program
  ends, and if it ends without an error of \<^verbatim>\<open>pthread_create\<close> it has written the sorted list of all the numbers: the barrier
  keeps the main program from merging before the parts are sorted. This holds if \<^verbatim>\<open>heapsort\<close> leaves a sorted permutation of the numbers it
  gets, in the sense of the comparison function, and all the numbers are below \<^verbatim>\<open>LONG_MAX\<close>, as those of \<^verbatim>\<open>random\<close> are. What
  \<^verbatim>\<open>minidx\<close> holds at first does not matter.
\<close>

theorem psort_sorts:
  assumes heapsort: "\<And>xs. mset (heapsort complong xs) = mset xs \<and> sorted_wrt (\<lambda>x y. complong x y \<le> 0) (heapsort complong xs)"
    and "\<And>j. random j < LONG_MAX" and "psort_run heapsort random n s"
  shows "n \<le> 4 * NTHR + 4 \<and> (running s \<longrightarrow> (\<exists>s'. psort_step heapsort s s')) \<and>
    (\<forall>out. main_pc s = Finished out \<longrightarrow> out = sort (map random [0..<NUMNUM]))"
proof -
  have "length (heapsort complong xs) = length xs" for xs using heapsort by (metis size_mset)
  then have ok: "psort_ok heapsort random s" by (rule run_ok [OF assms(3)])
  have "out = sort (map random [0..<NUMNUM])" if fin: "main_pc s = Finished out" for out
  proof -
    obtain m0 where m: "out = merge m0 (p_nums s)" "length (workers s) = NTHR" "Started \<notin> set (workers s)"
      using ok fin by (auto simp: psort_ok_def psort_start_def before_barrier_def after_barrier_def)
    then have "part (p_nums s) i = heapsort complong (part random i)" if "i < NTHR" for i
      using ok that by (metis nth_mem psort_ok_def)
    then show ?thesis using sorted_parts [of heapsort random "p_nums s", OF heapsort assms(2)] m(1) by simp
  qed
  then show ?thesis using run_bound [OF assms(3)] not_stuck [OF ok] by auto
qed

theorem psort_sorts_witness:
  "psort_run (\<lambda>c xs. sort xs) (\<lambda>j. int (j mod 7)) 0 (psort_start (\<lambda>j. int (j mod 7))) \<and>
    (\<exists>s'. psort_step (\<lambda>c xs. sort xs) (psort_start (\<lambda>j. int (j mod 7))) s')"
proof -
  have h: "mset (sort xs) = mset xs \<and> sorted_wrt (\<lambda>x y. complong x y \<le> 0) (sort xs)" for xs
    by (auto simp: complong_def intro: sorted_wrt_mono_rel [OF _ sorted_sort])
  have l: "int (j mod 7) < LONG_MAX" for j using pos_mod_bound [of 7 "int j"] by (simp add: LONG_MAX_def zmod_int)
  note r = psort_run.start [of "\<lambda>c xs. sort xs" "\<lambda>j. int (j mod 7)"]
  have "running (psort_start (\<lambda>j. int (j mod 7)))" by (simp add: running_def psort_start_def)
  then show ?thesis using psort_sorts [of "\<lambda>c xs. sort xs" "\<lambda>j. int (j mod 7)", OF h l r] r by simp
qed

end
