(* ===== verification/Shell.thy ===== *)
theory Shell
  imports Cstring
begin

text \<open>
  \<^verbatim>\<open>csapp/code/ecf/shellex.c\<close>: the command line of a shell. A buffer is the string before its terminator; the arguments are the
  strings that the pointers in \<^verbatim>\<open>argv\<close> point to, before the null pointer. Writing outside of the buffer or of \<^verbatim>\<open>argv\<close> is an
  error.
\<close>

definition MAXARGS :: nat where "MAXARGS = 128"
definition AMPERSAND :: char where "AMPERSAND = CHR 0x26"

datatype shell_error = Buffer_underrun | Argv_overflow

definition skip_spaces :: "string \<Rightarrow> string" where
  "skip_spaces buf = dropWhile (\<lambda>c. c = SPACE) buf"

function parse_loop :: "string \<Rightarrow> string list \<Rightarrow> shell_error + string list" where
  "parse_loop buf argv =
     (case strchr SPACE buf of
        None \<Rightarrow> Inr argv
      | Some delim \<Rightarrow>
          if length argv \<ge> MAXARGS then Inl Argv_overflow
          else parse_loop (skip_spaces (drop (delim + 1) buf)) (argv @ [take delim buf]))"
  by pat_completeness auto
termination
proof (relation "measure (\<lambda>(buf, argv). length buf)")
  fix buf delim
  assume "strchr SPACE buf = Some delim"
  then have "delim < length buf" by (auto simp: strchr_def Let_def split: if_splits)
  then show "((skip_spaces (drop (delim + 1) buf), argv'), (buf, argv)) \<in> measure (\<lambda>(buf, argv). length buf)" for argv argv' :: "string list"
    using length_dropWhile_le [of "\<lambda>c. c = SPACE" "drop (delim + 1) buf"] by (simp add: skip_spaces_def)
qed simp

declare parse_loop.simps [simp del]

text \<open>The result: whether the job runs in the background, and the arguments.\<close>

definition parseline :: "string \<Rightarrow> shell_error + bool \<times> string list" where
  "parseline buf =
     (if buf = [] then Inl Buffer_underrun
      else case parse_loop (skip_spaces (buf[length buf - 1 := SPACE])) [] of
        Inl e \<Rightarrow> Inl e
      | Inr argv \<Rightarrow>
          if length argv \<ge> MAXARGS then Inl Argv_overflow
          else if length argv = 0 then Inr (True, argv)
          else if take 1 (last argv) = [AMPERSAND] then Inr (True, butlast argv)
          else Inr (False, argv))"

text \<open>\<open>None\<close>: the shell exits.\<close>

definition builtin_command :: "string list \<Rightarrow> bool option" where
  "builtin_command argv =
     (if argv ! 0 = ''quit'' then None
      else if argv ! 0 = [AMPERSAND] then Some True
      else Some False)"

datatype shell_act = Exit | Ignore | Run bool "string list"

text \<open>What the shell does with a line: \<open>Run bg argv\<close> is a child with these arguments, for which the shell waits unless \<open>bg\<close>.\<close>

definition eval_line :: "string \<Rightarrow> shell_error + shell_act" where
  "eval_line cmdline = (case parseline cmdline of
     Inl e \<Rightarrow> Inl e
   | Inr (bg, argv) \<Rightarrow>
       Inr (if argv = [] then Ignore
            else case builtin_command argv of None \<Rightarrow> Exit | Some True \<Rightarrow> Ignore | Some False \<Rightarrow> Run bg argv))"

section \<open>Words\<close>

text \<open>A line of words, each behind a number of spaces.\<close>

definition compose :: "(nat \<times> string) list \<Rightarrow> string" where
  "compose ps = concat (map (\<lambda>(n, w). replicate n SPACE @ w) ps)"

definition word :: "string \<Rightarrow> bool" where
  "word w \<longleftrightarrow> w \<noteq> [] \<and> SPACE \<notin> set w \<and> NUL \<notin> set w"

lemma skip_word: "word w \<Longrightarrow> skip_spaces (replicate n SPACE @ w @ rest) = w @ rest"
  by (cases w) (auto simp: skip_spaces_def dropWhile_replicate_append word_def)

lemma skip_end: "skip_spaces (replicate n SPACE) = []"
  by (induction n) (auto simp: skip_spaces_def)

lemma strchr_empty: "strchr c [] = None"
  by (simp add: strchr_def)

lemma compose_end:
  assumes "list_all (\<lambda>(n, w). word w \<and> 0 < n) ps" and "0 < k"
  obtains rest where "compose ps @ replicate k SPACE = SPACE # rest" and "skip_spaces rest = skip_spaces (compose ps @ replicate k SPACE)"
proof (cases ps)
  case Nil
  obtain k' where "k = Suc k'" using assms(2) by (cases k) auto
  then show thesis using that [of "replicate k' SPACE"] by (simp add: Nil compose_def skip_spaces_def)
next
  case (Cons p ps')
  obtain n w where p: "p = (Suc n, w)" using assms(1) Cons by (cases p) (auto simp: gr0_conv_Suc)
  then show thesis using that [of "replicate n SPACE @ w @ compose ps' @ replicate k SPACE"] by (simp add: Cons compose_def skip_spaces_def)
qed

text \<open>There may be no space before the first word.\<close>

definition apart :: "(nat \<times> string) list \<Rightarrow> bool" where
  "apart ps \<longleftrightarrow> list_all (\<lambda>(n, w). word w) ps \<and> list_all (\<lambda>(n, w). 0 < n) (tl ps)"

lemma parse_loop_compose:
  "apart ps \<Longrightarrow> 0 < k \<Longrightarrow> length argv + length ps \<le> MAXARGS \<Longrightarrow>
     parse_loop (skip_spaces (compose ps @ replicate k SPACE)) argv = Inr (argv @ map snd ps)"
proof (induction ps arbitrary: argv)
  case Nil
  then show ?case by (simp add: compose_def skip_end parse_loop.simps strchr_empty)
next
  case (Cons p ps)
  obtain n w where p: "p = (n, w)" "word w" using Cons.prems(1) by (cases p) (auto simp: apart_def)
  have ps: "list_all (\<lambda>(n, w). word w \<and> 0 < n) ps" "apart ps"
    using Cons.prems(1) by (cases ps; fastforce simp: apart_def list_all_iff)+
  obtain rest where r: "compose ps @ replicate k SPACE = SPACE # rest" "skip_spaces rest = skip_spaces (compose ps @ replicate k SPACE)"
    using compose_end [OF ps(1) Cons.prems(2)] .
  have "skip_spaces (compose (p # ps) @ replicate k SPACE) = w @ SPACE # rest"
    using skip_word [OF p(2), of n "compose ps @ replicate k SPACE"] r(1) by (simp add: compose_def p(1))
  moreover have "strchr SPACE (w @ SPACE # rest) = Some (length w)" using p(2) by (intro strchr_here) (auto simp: word_def)
  ultimately show ?case using Cons.IH [OF ps(2) Cons.prems(2), of "argv @ [w]"] Cons.prems(3) r(2) p(1)
    by (subst parse_loop.simps) simp
qed

section \<open>The properties\<close>

text \<open>
  C28. \<^verbatim>\<open>parseline\<close> finds the words of a line: of a line of fewer than 128 words with any number of spaces before, between
  and behind them and a newline at the end it makes exactly these words, in their order; a last word that begins with an
  ampersand asks for the background and is left out. The shell then exits, ignores the line or runs the command with these arguments.
\<close>

theorem shell_parses_words:
  assumes "apart ps" and "length ps < MAXARGS" and "ws = map snd ps" and "ps \<noteq> []"
  shows "parseline (compose ps @ replicate k SPACE @ [NEWLINE]) =
      Inr (if hd (last ws) = AMPERSAND then (True, butlast ws) else (False, ws)) \<and>
    eval_line (compose ps @ replicate k SPACE @ [NEWLINE]) =
      Inr (if ws = [] \<or> hd ws = [AMPERSAND] \<or> tl ws = [] \<and> hd (hd ws) = AMPERSAND then Ignore
           else if hd ws = ''quit'' then Exit
           else if hd (last ws) = AMPERSAND then Run True (butlast ws) else Run False ws) \<and>
    parseline (replicate k SPACE @ [NEWLINE]) = Inr (True, []) \<and> eval_line (replicate k SPACE @ [NEWLINE]) = Inr Ignore"
proof -
  have upd: "(l @ replicate k SPACE @ [NEWLINE])[length (l @ replicate k SPACE @ [NEWLINE]) - 1 := SPACE] = l @ replicate (Suc k) SPACE" for l
    by (simp add: list_update_append replicate_app_Cons_same)
  have blank: "parseline (replicate k SPACE @ [NEWLINE]) = Inr (True, [])"
    using parse_loop_compose [of "[]" "Suc k" "[]"] upd [of "[]"] by (simp add: parseline_def compose_def apart_def MAXARGS_def)
  have "word (snd (last ps))" using assms(1) last_in_set [OF assms(4)] unfolding apart_def list_all_iff by (metis (no_types, lifting) case_prod_beta)
  then have w: "ws \<noteq> []" "last ws \<noteq> []" using assms(3,4) by (auto simp: word_def last_map)
  have t: "take 1 (last ws) = [AMPERSAND] \<longleftrightarrow> hd (last ws) = AMPERSAND" using w(2) by (cases "last ws") auto
  have "parse_loop (skip_spaces (compose ps @ replicate (Suc k) SPACE)) [] = Inr ws"
    using parse_loop_compose [OF assms(1), of "Suc k" "[]"] assms(2,3) by simp
  then have p: "parseline (compose ps @ replicate k SPACE @ [NEWLINE]) = Inr (if hd (last ws) = AMPERSAND then (True, butlast ws) else (False, ws))"
    using assms(2,3) w(1) t upd [of "compose ps"] by (simp add: parseline_def)
  moreover have "eval_line (compose ps @ replicate k SPACE @ [NEWLINE]) =
      Inr (if ws = [] \<or> hd ws = [AMPERSAND] \<or> tl ws = [] \<and> hd (hd ws) = AMPERSAND then Ignore
           else if hd ws = ''quit'' then Exit
           else if hd (last ws) = AMPERSAND then Run True (butlast ws) else Run False ws)"
    using w by (cases ws) (auto simp: eval_line_def p builtin_command_def AMPERSAND_def nth_butlast)
  ultimately show ?thesis using blank by (simp add: eval_line_def)
qed

theorem shell_parses_words_witness:
  "parseline (''ls'' @ [SPACE, SPACE] @ ''-l'' @ [SPACE] @ [AMPERSAND, NEWLINE]) = Inr (True, [''ls'', ''-l''])"
proof -
  define ps where "ps = [(0::nat, ''ls''), (2, ''-l''), (1, [AMPERSAND])]"
  have "apart ps" by (simp add: ps_def apart_def word_def char_defs AMPERSAND_def)
  then show ?thesis using shell_parses_words [of ps "map snd ps" 0] by (simp add: ps_def compose_def MAXARGS_def numeral_eq_Suc)
qed

end
