(* ===== verification/Spec2Isabelle.thy ===== *)
theory Spec2Isabelle
  imports Rwlock_Cancel Sem_Mmap Sem_Fifo Sem_Svsem Mqueue_Threads Db_Walk Inet6 Cksum Mm_Client Calendar Readn Proxy Sbuf Vector
    Jobq Refobj Psort Shell
begin

text \<open>
  A verification of libraries of this repository: the interprocess communication of \<^verbatim>\<open>unpv22e\<close> (read-write locks,
  semaphores, message queues), the database library and shared structures of \<^verbatim>\<open>apue.3e\<close>, the address conversions and the checksum
  of \<^verbatim>\<open>unpv13e\<close>, the memory allocator, the robust input and output, the shell and the shared buffer of \<^verbatim>\<open>csapp\<close>, the proxy
  of \<^verbatim>\<open>c-proxy\<close>, and the classes of dates, the calendar and the vector of \<^verbatim>\<open>cpp-code\<close>. All paths are below \<^verbatim>\<open>src/\<close>.

  \<^bold>\<open>How the code is modelled.\<close> A structure or a class is a record with the members of the source, a function is a function that
  takes the structure and returns its result and the changed structure, and errors are values: \<^verbatim>\<open>errno\<close> in an \<open>Inl\<close>, an
  exception in an \<open>Inl\<close>, the end of the process as a value of its own. What is not in the repository (the kernel, the threads
  library, the C library) is an argument: the results of the system calls of one run, the thread that a signal wakes, the state of
  the clock. A function that blocks is cut at its waits into a part up to the wait and a part from the wake-up on, and threads are
  an inductive step relation over these parts, so that every interleaving is covered. Integers have the width of the source where
  it matters (words, or \<open>int\<close> with the wrap-around written out) and are unbounded otherwise, with the bound in the
  statements. A loop is a recursion with a termination proof; where it may run for ever, in the database, it is a partial
  function and the theorems show that it ends.

  \<^bold>\<open>Shared theories.\<close> \<open>Prelude\<close> has the error numbers, lemmas on lists and chains of cells, and the collections of simplification rules.
  \<open>Calls\<close> has sequences of calls and the locale \<open>call_refinement\<close>: an implementation that agrees with a specification call by
  call agrees with it on every sequence. \<open>Cstring\<close> models what the sources use of \<^verbatim>\<open>sprintf\<close>, \<^verbatim>\<open>atol\<close> and \<^verbatim>\<open>strchr\<close>;
  \<open>Open_Acts\<close> the actions on descriptors, files and memory by which the functions that open something are judged; \<open>Double\<close> the
  arithmetic of \<^verbatim>\<open>double\<close> by rounding to 53 bits.

  \<^bold>\<open>Read-write locks.\<close> \<open>Rwlock_Spec\<close> (the structure \<^verbatim>\<open>pthread_rwlock_t\<close>, the table of functions, the threads, the locale
  \<open>rwlock_contract\<close>), \<open>Rwlock\<close> (\<^verbatim>\<open>unpv22e/my_rwlock\<close>) and \<open>Rwlock_Cancel\<close> (\<^verbatim>\<open>unpv22e/my_rwlock_cancel\<close>, where waiting threads may be
  cancelled). Shown: mutual exclusion, that the counts agree with the threads, that no wake-up is lost; for the variant with
  cancellation the first two as long as the calls of the threads library succeed, and that a wake-up can be lost when a
  waiting writer is cancelled.

  \<^bold>\<open>Semaphores.\<close> \<open>Sem_Spec\<close> (locale \<open>sem_impl\<close>: a counter), \<open>Prodcons\<close> (\<^verbatim>\<open>prodcons1.c\<close>, locale \<open>prodcons_impl\<close>), and the three
  implementations \<open>Sem_Mmap\<close>, \<open>Sem_Fifo\<close> and \<open>Sem_Svsem\<close> (\<^verbatim>\<open>unpv22e/my_pxsem_mmap\<close>, \<^verbatim>\<open>_fifo\<close>, \<^verbatim>\<open>_svsem\<close>), each an
  interpretation of both. Shown: each behaves as the counter, hence as the others (below); producer and consumer transfer every item and
  end, in \<open>Sem_Mmap\<close> also with threads that sleep on the condition variable until \<^verbatim>\<open>mysem_post\<close> signals; opening leaves no
  descriptor or file behind on any path and returns a semaphore only after every step of its initialisation; threads that
  block keep the balance of posts and waits.

  \<^bold>\<open>Message queues.\<close> \<open>Mqueue_Spec\<close> (locale \<open>prio_queue\<close>), \<open>Mqueue\<close> (the header and the linked slots of the mapped file,
  \<^verbatim>\<open>mymq_send\<close>, \<^verbatim>\<open>mymq_receive\<close>, \<^verbatim>\<open>mymq_notify\<close> and the others of \<^verbatim>\<open>unpv22e/my_pxmsg_mmap\<close>), \<open>Mqueue_Open\<close> (\<^verbatim>\<open>mymq_open\<close>) and
  \<open>Mqueue_Threads\<close>. Shown: sending and receiving on the linked slots refine a list sorted by priority; opening gives a well-formed
  empty queue, writes nothing outside of the file and leaks nothing, for attributes of at most 2^31 messages whose file is below 2^63 bytes
  (the size of the file and the offsets are computed with the wrap-around of \<^verbatim>\<open>long\<close>); with any number of threads the structure stays well-formed and the internal consistency
  check never fails; a receiver may miss its wake-up.

  \<^bold>\<open>Database.\<close> \<open>Db_File\<close> is \<^verbatim>\<open>apue.3e/db/db.c\<close> in a state monad over the characters of the two files; \<open>Db_Layout\<close>,
  \<open>Db_Chains\<close> and \<open>Db_Data\<close> describe a file that is in order; \<open>Db_Search\<close>, \<open>Db_Ops\<close> and \<open>Db_Store\<close> are the lemmas on the single
  functions; \<open>Kv_Spec\<close> is the contract (locale \<open>kv_store\<close>: a finite map), which \<open>Db\<close> interprets, and \<open>Db_Walk\<close> has \<^verbatim>\<open>db_rewind\<close>,
  \<^verbatim>\<open>db_nextrec\<close> and the properties. The lengths and offsets are written in fields of fixed width, so the statements are for at
  most 9000 stores with keys of at most 1000 characters: then no offset passes the seven digits of its field in the index file, and
  the offsets of the data file stay below \<open>DAT_MAX\<close>.

  \<^bold>\<open>Addresses and checksum.\<close> \<open>Inet4\<close>, \<open>Inet6\<close> (\<^verbatim>\<open>unpv13e/libfree/inet_pton.c\<close>, \<^verbatim>\<open>inet_ntop.c\<close>, \<^verbatim>\<open>inet_aton.c\<close>) and
  \<open>Cksum\<close> (\<^verbatim>\<open>in_cksum.c\<close>). Shown: printing and reading are inverse for all addresses, the reader of IPv4 addresses accepts exactly four
  numbers up to 255, the buffers are large enough, and data with their checksum have the checksum 0.

  \<^bold>\<open>Allocator.\<close> \<open>Mm_Heap\<close> is \<^verbatim>\<open>csapp/code/vm/malloc/mm.c\<close> and \<^verbatim>\<open>memlib.c\<close> on the bytes of the heap; \<open>Mm\<close> reads the heap as a list
  of blocks, \<open>Mm_Alloc\<close> has the lemmas on the functions, \<open>Alloc_Spec\<close> the contract (locale \<open>allocator\<close>, a client with a
  ledger of its objects), and \<open>Mm_Client\<close> the interpretation and the properties. The memory that \<^verbatim>\<open>memlib.c\<close> hands out may have any size;
  requests are at most 2^31 - 16 bytes: above that \<^verbatim>\<open>mem_sbrk\<close> gets another size than the tags.

  \<^bold>\<open>Robust input and output, shared buffer.\<close> \<open>Rio\<close> is the package Rio of \<^verbatim>\<open>csapp/code/src/csapp.c\<close>: for any behaviour of
  \<^verbatim>\<open>read\<close> and \<^verbatim>\<open>write\<close> the buffered functions are a stream of bytes and lose nothing. \<open>Readn\<close> has \<^verbatim>\<open>readn\<close>, \<^verbatim>\<open>writen\<close> and
  \<^verbatim>\<open>readline\<close> of \<^verbatim>\<open>unpv13e/lib\<close>, \<^verbatim>\<open>apue.3e/lib\<close> and \<^verbatim>\<open>tlpi-dist/sockets\<close> over the same system calls: they agree with each other and
  read line by line. \<open>Proxy\<close> is \<^verbatim>\<open>c-proxy/my/proxy.c\<close>, a user of Rio: what it passes on (up to the size of the
  array of the request, behind which a longer address is written), the ring of connections (a queue up to 31 connections) and the
  parsing of addresses. \<open>Shell\<close> is the command line of \<^verbatim>\<open>csapp/code/ecf/shellex.c\<close>, shown to find the words
  of lines of fewer than 128 words. \<open>Sbuf\<close> is \<^verbatim>\<open>csapp/code/conc/sbuf.c\<close> with the semaphore wrappers, run by any number of
  threads: a bounded queue without deadlock, for the first 2^31 - 2 items, after which its indices overflow.

  \<^bold>\<open>Threads.\<close> From \<^verbatim>\<open>apue.3e/threads\<close>: \<open>Jobq\<close> (\<^verbatim>\<open>rwlock.c\<close>, a doubly linked queue in a memory of jobs, which is a list; an access through the
  null pointer is \<open>None\<close>), \<open>Refobj\<close>
  (\<^verbatim>\<open>mutex2.c\<close> and \<^verbatim>\<open>mutex3.c\<close>, objects with reference counts in a hash table, two interpretations of the locale \<open>ref_table\<close>: no
  freed object is used and the counts, of 32 bits, are exact up to 2^31 - 1 references) and \<open>Psort\<close> (\<^verbatim>\<open>barrier.c\<close>: the threads and
  the main program with the barrier between them, which sort for every interleaving, without deadlock).

  \<^bold>\<open>Dates and calendar.\<close> \<open>Date_Spec\<close> (counting of days, \<^verbatim>\<open>date.cpp\<close>, locale \<open>day_calendar\<close>), \<open>Gregorian\<close>, \<open>Mjd\<close>,
  \<open>Gregorian_Laws\<close> and \<open>Julian\<close> (\<^verbatim>\<open>cpp-code/date/src/gregorian.cpp\<close>, \<^verbatim>\<open>julian.cpp\<close>, \<^verbatim>\<open>kattistime.cpp\<close>), \<open>Dates\<close> and
  \<open>Calendar\<close> (\<^verbatim>\<open>includes/calendar.h\<close>, locale \<open>event_book\<close>). Shown: the floating-point conversions count days exactly for day
  numbers below 2^30 and years up to 4000000 (no \<^verbatim>\<open>int\<close> overflows there; the day of the week is right up to the year 3999); the operators
  of dates are those of the days, in both classes from day 0 on; a calendar is a set of entries, kept as a sorted list, with the
  arguments in the order in which \<^verbatim>\<open>calendar.h\<close> declares them: the test driver calls \<^verbatim>\<open>remove_event\<close> in another order, and such calls
  remove nothing.

  \<^bold>\<open>Vector.\<close> \<open>Vector\<close> is \<^verbatim>\<open>cpp-code/vector/lab1_1.5/vector.h\<close>: every operation is the operation on a list with a capacity, the
  invariant is kept, and the merge sort sorts for every strict weak order, for less than 2^31 elements, the range of the loop
  counters. A reference argument may be an element of the vector itself; the specification says what is then inserted.

  \<^bold>\<open>Not modelled.\<close> The example programs of \<^verbatim>\<open>tlpi-dist\<close>, \<^verbatim>\<open>apue.3e\<close>, \<^verbatim>\<open>unpv13e\<close> and \<^verbatim>\<open>unpv22e\<close> call the kernel and print what it
  returns: their behaviour is that of the kernel. The wrapper functions of the books (the rest of \<^verbatim>\<open>unpv13e/lib\<close>, \<^verbatim>\<open>unpv22e/lib\<close> and
  \<^verbatim>\<open>apue.3e/lib\<close>) only add an error message to a system call. \<^verbatim>\<open>unpv13e/libgai\<close> depends on name servers and configuration files, the printer
  daemon on the network and the printer. The move constructor of the vector does not compile, and the function \<^verbatim>\<open>server\<close> of the proxy
  reads arrays that have not been initialised. The Java, Erlang and shell files and the notes are exercises without a component
  of their own.
\<close>

section \<open>Properties that span components\<close>

text \<open>
  C32. The three implementations of semaphores can be exchanged for each other: a sequence of posts and waits has the same results,
  including which waits block, on a semaphore in a memory-mapped file, on one over a FIFO and on one over System V semaphores,
  and these are the results on a counter; the values stay those of the counter. The number of posts is limited by what a pipe
  can hold for sure.
\<close>

theorem semaphores_interchangeable:
  assumes "v + posts es \<le> POSIX_PIPE_BUF"
  shows "map_prod id (\<lambda>s. unat (sem_count s)) (sem_run post_mmap (mysem_wait 0) es (sem_of v)) = counter_run es v \<and>
    map_prod id fifo_bytes (sem_run (mysem_post_fifo (POSIX_PIPE_BUF + x) None) (mysem_wait_fifo None) es (fifo_of v)) = counter_run es v \<and>
    map_prod id (\<lambda>s. nat (semval s)) (sem_run (mysem_post_sv None) (mysem_wait_sv None) es (sv_of v)) = counter_run es v"
proof (intro conjI)
  have "v \<le> 512" using assms by (simp add: POSIX_PIPE_BUF_def)
  then have u: "unat (sem_count (sem_of v)) = v" "sem_magic (sem_of v) = SEM_MAGIC" by (simp_all add: sem_of_def unat_of_nat)
  show "map_prod id (\<lambda>s. unat (sem_count s)) (sem_run post_mmap (mysem_wait 0) es (sem_of v)) = counter_run es v"
    using mmap_sem.run_counter [OF u(2), of es] assms by (simp add: u(1) POSIX_PIPE_BUF_def)
  have f: "fifo_bytes (fifo_of v) = v" "fifo_inv (fifo_of v)" by (simp_all add: fifo_of_def fifo_inv_def)
  show "map_prod id fifo_bytes (sem_run (mysem_post_fifo (POSIX_PIPE_BUF + x) None) (mysem_wait_fifo None) es (fifo_of v)) = counter_run es v"
    using fifo_pc.run_counter [OF f(2), where x = x and es = es] assms by (simp add: f(1))
  have s: "nat (semval (sv_of v)) = v" "sv_inv (sv_of v)" by (simp_all add: sv_of_def sv_inv_def)
  show "map_prod id (\<lambda>s. nat (semval s)) (sem_run (mysem_post_sv None) (mysem_wait_sv None) es (sv_of v)) = counter_run es v"
    using sv_pc.run_counter [OF s(2), of es] assms by (simp add: s(1) POSIX_PIPE_BUF_def SEMVMX_def)
qed

theorem semaphores_interchangeable_witness:
  "fst (sem_run (mysem_post_fifo (POSIX_PIPE_BUF + 0) None) (mysem_wait_fifo None) [EvWait, EvWait, EvPost, EvWait] (fifo_of 1)) =
     [SemReturn 0, SemWait, SemReturn 0, SemReturn 0] \<and>
   fst (sem_run (mysem_post_sv None) (mysem_wait_sv None) [EvWait, EvWait, EvPost, EvWait] (sv_of 1)) =
     [SemReturn 0, SemWait, SemReturn 0, SemReturn 0]"
proof -
  have "counter_run [EvWait, EvWait, EvPost, EvWait] 1 = ([SemReturn 0, SemWait, SemReturn 0, SemReturn 0], 0)" by simp
  moreover have "1 + posts [EvWait, EvWait, EvPost, EvWait] \<le> POSIX_PIPE_BUF" by (simp add: POSIX_PIPE_BUF_def)
  ultimately show ?thesis using semaphores_interchangeable [of 1 "[EvWait, EvWait, EvPost, EvWait]" 0] by (metis fst_conv fst_map_prod id_apply)
qed

end
